(* ===== verification/Prelude.thy ===== *)
theory Prelude
  imports Main "HOL-Library.Word"
begin

text \<open>
  Shared vocabulary of the development: the sizes of \<^verbatim>\<open>kernel/param.h\<close>,
  \<^verbatim>\<open>kernel/memlayout.h\<close>, \<^verbatim>\<open>kernel/fs.h\<close> and \<^verbatim>\<open>kernel/riscv.h\<close>, the result type of
  kernel code that can panic or go to sleep, byte-addressed memory, and the generic facts
  about lists, words and maps that the component theories use.

  A kernel function that can panic or sleep returns a value of \<open>'a res\<close>: \<open>Inr x\<close> is a
  normal return, \<open>Inl (Panic msg)\<close> is a call of \<^verbatim>\<open>panic(msg)\<close> (which never returns), and
  \<open>Inl (Sleeps ch)\<close> says that the caller reached \<^verbatim>\<open>sleep(ch, lk)\<close>: it waits for
  \<^verbatim>\<open>wakeup(ch)\<close> and then runs the same test again. \<open>Inl Diverges\<close> is the value of a loop whose
  fuel runs out; every theorem about such a loop shows that its fuel is enough. \<open>Inl Undefined\<close>
  marks behaviour that C leaves undefined, such as an access outside an array.
\<close>

unbundle bit_operations_syntax

section \<open>Constants\<close>

abbreviation (input) NPROC :: nat where "NPROC \<equiv> 64"
abbreviation (input) NCPU :: nat where "NCPU \<equiv> 8"
abbreviation (input) NOFILE :: nat where "NOFILE \<equiv> 16"
abbreviation (input) NFILE :: nat where "NFILE \<equiv> 100"
abbreviation (input) NINODE :: nat where "NINODE \<equiv> 50"
abbreviation (input) NDEV :: nat where "NDEV \<equiv> 10"
abbreviation (input) ROOTDEV :: nat where "ROOTDEV \<equiv> 1"
abbreviation (input) MAXOPBLOCKS :: nat where "MAXOPBLOCKS \<equiv> 10"
abbreviation (input) LOGBLOCKS :: nat where "LOGBLOCKS \<equiv> 30"
abbreviation (input) NBUF :: nat where "NBUF \<equiv> 30"
abbreviation (input) NDISKS :: nat where "NDISKS \<equiv> 4"
abbreviation (input) ROTATIONAL_DELAY :: int where "ROTATIONAL_DELAY \<equiv> 10"
abbreviation (input) NSWAPSPACE :: nat where "NSWAPSPACE \<equiv> 4096"
abbreviation (input) NFRAME :: nat where "NFRAME \<equiv> 512"
abbreviation (input) SWAP_START :: nat where "SWAP_START \<equiv> 20000"
abbreviation (input) NDISKREQS :: nat where "NDISKREQS \<equiv> 128"
abbreviation (input) PGSIZE :: nat where "PGSIZE \<equiv> 4096"
abbreviation (input) BSIZE :: nat where "BSIZE \<equiv> 1024"
abbreviation (input) FSSIZE :: nat where "FSSIZE \<equiv> 120000"

section \<open>Data shared by the components\<close>

type_synonym byte = "8 word"
type_synonym u16 = "16 word"
type_synonym u32 = "32 word"
type_synonym u64 = "64 word"
type_synonym memory = "u64 \<Rightarrow> byte"
type_synonym block = "byte list"

text \<open>
  Wait channels. The code uses addresses of kernel objects as channels; distinct objects have
  distinct addresses, so a constructor per kind of object is enough.
\<close>

datatype chan =
    ChTicks | ChLog | ChDiskFree | ChConsole | ChUartTx
  | ChBuf nat | ChBufLock nat | ChInodeLock nat | ChProc nat | ChPipeRead nat | ChPipeWrite nat

datatype kerror = Panic string | Sleeps chan | Diverges | Undefined

type_synonym 'a res = "kerror + 'a"

definition rbind :: "'a res \<Rightarrow> ('a \<Rightarrow> 'b res) \<Rightarrow> 'b res" where
  "rbind m f = (case m of Inl e \<Rightarrow> Inl e | Inr x \<Rightarrow> f x)"

definition panic_if :: "bool \<Rightarrow> string \<Rightarrow> unit res" where
  "panic_if c msg = (if c then Inl (Panic msg) else Inr ())"

text \<open>A loop over \<open>xs\<close> whose body can fail.\<close>

fun rfold :: "('x \<Rightarrow> 's \<Rightarrow> 's res) \<Rightarrow> 'x list \<Rightarrow> 's \<Rightarrow> 's res" where
  "rfold f [] s = Inr s"
| "rfold f (x # xs) s = rbind (f x s) (rfold f xs)"

text \<open>Reading and writing a run of consecutive bytes of memory.\<close>

definition mem_read :: "memory \<Rightarrow> u64 \<Rightarrow> nat \<Rightarrow> byte list" where
  "mem_read m a n = map (\<lambda>i. m (a + of_nat i)) [0..<n]"

definition mem_write :: "memory \<Rightarrow> u64 \<Rightarrow> byte list \<Rightarrow> memory" where
  "mem_write m a bs = (\<lambda>x. if unat (x - a) < length bs then bs ! unat (x - a) else m x)"

section \<open>Collections of facts\<close>

named_theorems kdefs \<open>definitions of state-passing kernel operations\<close>
named_theorems kinv \<open>preservation of the component invariants\<close>
named_theorems kframe \<open>parts of the state an operation does not change\<close>

section \<open>The result type\<close>

lemma rbind_simps [simp]:
  "rbind (Inl e) f = Inl e"
  "rbind (Inr x) f = f x"
  by (simp_all add: rbind_def)

lemma rbind_eq_Inr [simp]: "rbind m f = Inr y \<longleftrightarrow> (\<exists>x. m = Inr x \<and> f x = Inr y)"
  by (cases m) auto

lemma rbind_eq_Inl: "rbind m f = Inl e \<longleftrightarrow> m = Inl e \<or> (\<exists>x. m = Inr x \<and> f x = Inl e)"
  by (cases m) auto

lemma rbind_assoc: "rbind (rbind m f) g = rbind m (\<lambda>x. rbind (f x) g)"
  by (cases m) auto

lemma rfold_append: "rfold f (xs @ ys) s = rbind (rfold f xs s) (rfold f ys)"
proof (induction xs arbitrary: s)
  case (Cons x xs)
  then show ?case by (cases "f x s") simp_all
qed simp

lemma panic_if_simps [simp]:
  "panic_if True msg = Inl (Panic msg)"
  "panic_if False msg = Inr ()"
  by (simp_all add: panic_if_def)

lemma panic_if_eq_Inr [simp]: "panic_if c msg = Inr u \<longleftrightarrow> \<not> c"
  by (simp add: panic_if_def)

section \<open>Memory\<close>

lemma length_mem_read [simp]: "length (mem_read m a n) = n"
  by (simp add: mem_read_def)

lemma nth_mem_read [simp]: "i < n \<Longrightarrow> mem_read m a n ! i = m (a + of_nat i)"
  by (simp add: mem_read_def)

lemma unat_of_nat_u64: "n < 2 ^ 64 \<Longrightarrow> unat (of_nat n :: u64) = n"
  by (simp add: unat_of_nat take_bit_nat_eq_self)

lemma unat_of_nat_u32: "n < 2 ^ 32 \<Longrightarrow> unat (of_nat n :: u32) = n"
  by (simp add: unat_of_nat take_bit_nat_eq_self)

lemma mem_write_at:
  "i < length bs \<Longrightarrow> length bs \<le> 2 ^ 64 \<Longrightarrow> mem_write m a bs (a + of_nat i) = bs ! i"
  by (simp add: mem_write_def unat_of_nat_u64)

lemma mem_read_write_same:
  "length bs = n \<Longrightarrow> n \<le> 2 ^ 64 \<Longrightarrow> mem_read (mem_write m a bs) a n = bs"
  by (rule nth_equalityI) (simp_all add: mem_write_at)

section \<open>Lists and words\<close>

lemma find_Some_nth:
  "find P xs = Some x \<longleftrightarrow> (\<exists>i < length xs. xs ! i = x \<and> P x \<and> (\<forall>j < i. \<not> P (xs ! j)))"
  by (auto simp: find_Some_iff)

lemma map_list_update_id: "f v = f (xs ! i) \<Longrightarrow> map f (xs[i := v]) = map f xs"
  by (metis list_update_id map_update)

lemma unat_diff_step_u32:
  "(a :: u32) \<noteq> b \<Longrightarrow> unat (b - (a + 1)) = unat (b - a) - 1"
proof -
  assume "a \<noteq> b"
  then have "b - a \<noteq> 0" by simp
  then have "unat (b - a - 1) = unat (b - a) - 1"
    by (metis unat_gt_0 unat_minus_one)
  then show ?thesis by (simp add: diff_diff_eq2 diff_diff_eq)
qed

end
