(* ===== verification/Proc.thy ===== *)
theory Proc
  imports Prelude
begin

text \<open>
  The process table and the scheduler: \<^verbatim>\<open>kernel/proc.h\<close> and the parts of
  \<^verbatim>\<open>kernel/proc.c\<close> that need no memory allocation (MLFQ accounting, scheduling, sleep and
  wakeup, kill), with \<^verbatim>\<open>push_off\<close>/\<^verbatim>\<open>pop_off\<close> of \<^verbatim>\<open>kernel/spinlock.c\<close> and the
  timer interrupt of \<^verbatim>\<open>kernel/trap.c\<close>.

  A pointer to a \<^verbatim>\<open>struct proc\<close> is the index of the entry in \<^verbatim>\<open>proc[NPROC]\<close>, the null
  pointer is \<open>None\<close>. The record \<open>pstate\<close> holds the globals; the theories above extend it.
  Spin locks are not part of this state: what the code does between \<^verbatim>\<open>acquire\<close> and
  \<^verbatim>\<open>release\<close> is one step of the model (theory \<open>Spinlock\<close> verifies the locks themselves). The loops that take the lock of one process
  after another (\<open>wakeup\<close>, \<open>global_boost\<close>, pass 1 of the scheduler) are one step as well; what other harts do between two turns of pass 2 is
  part of the argument \<open>run\<close>. Counters of type \<^verbatim>\<open>int\<close> are integers: signed overflow is undefined in C, so they have the values
  of every execution that C defines, and \<open>mlfq_ok\<close> says when those used by the scheduler are in range.
\<close>

section \<open>Data\<close>

datatype procstate = UNUSED | USED | SLEEPING | RUNNABLE | RUNNING | ZOMBIE

record kcontext =
  ctx_ra :: u64
  ctx_sp :: u64
  ctx_s :: "u64 list"  \<comment> \<open>\<^verbatim>\<open>s0\<close> to \<^verbatim>\<open>s11\<close>\<close>

record cpu =
  c_proc :: "nat option"
  c_context :: kcontext
  noff :: int
  intena :: bool

record trapframe =
  kernel_satp :: u64
  kernel_sp :: u64
  kernel_trap :: u64
  epc :: u64
  kernel_hartid :: u64
  tf_ra :: u64
  tf_sp :: u64
  tf_gp :: u64
  tf_tp :: u64
  tf_t :: "u64 list"   \<comment> \<open>\<^verbatim>\<open>t0\<close> to \<^verbatim>\<open>t6\<close>\<close>
  tf_a :: "u64 list"   \<comment> \<open>\<^verbatim>\<open>a0\<close> to \<^verbatim>\<open>a7\<close>\<close>
  tf_s :: "u64 list"   \<comment> \<open>\<^verbatim>\<open>s0\<close> to \<^verbatim>\<open>s11\<close>\<close>

record proc =
  state :: procstate
  chan :: "chan option"
  killed_flag :: int
  xstate :: int
  pid :: int
  parent :: "nat option"
  kstack :: u64
  sz :: u64
  pagetable :: u64
  trapframe_pa :: u64      \<comment> \<open>the pointer \<^verbatim>\<open>p->trapframe\<close>\<close>
  trapframe :: trapframe   \<comment> \<open>the contents of the page it points to\<close>
  pcontext :: kcontext
  ofile :: "nat option list"
  cwd :: "nat option"
  pname :: "byte list"
  total_syscalls :: int
  cur_q_level :: nat
  ticks_at_cur_level :: int
  ticks_per_level :: "int list"
  num_times_sched :: int
  temp :: int
  page_faults :: int
  pages_evicted :: int
  pages_swapped_in :: int
  pages_swapped_out :: int
  resident_pages :: int
  disk_reads :: int
  disk_writes :: int
  avg_disk_latency :: int

record pstate =
  mem :: memory
  procs :: "proc list"
  cpus :: "cpu list"
  hartid :: nat
  sie :: bool            \<comment> \<open>are interrupts enabled on this hart?\<close>
  nextpid :: int
  initproc :: "nat option"
  ticks :: u32

section \<open>The current CPU and process\<close>

definition mycpu :: "'a pstate_scheme \<Rightarrow> cpu" where
  "mycpu s = cpus s ! hartid s"

definition set_mycpu :: "cpu \<Rightarrow> 'a pstate_scheme \<Rightarrow> 'a pstate_scheme" where
  "set_mycpu c s = s\<lparr>cpus := (cpus s)[hartid s := c]\<rparr>"

definition myproc :: "'a pstate_scheme \<Rightarrow> nat option" where
  "myproc s = c_proc (mycpu s)"

definition upd_proc :: "nat \<Rightarrow> (proc \<Rightarrow> proc) \<Rightarrow> 'a pstate_scheme \<Rightarrow> 'a pstate_scheme" where
  "upd_proc i f s = s\<lparr>procs := (procs s)[i := f (procs s ! i)]\<rparr>"

text \<open>
  \<^verbatim>\<open>push_off\<close> and \<^verbatim>\<open>pop_off\<close> act on the interrupt-enable bit and the \<^verbatim>\<open>struct cpu\<close> of the
  hart that runs them; \<open>push_off\<close> and \<open>pop_off\<close> apply that to the current hart.
\<close>

definition push_off_hart :: "bool \<times> cpu \<Rightarrow> bool \<times> cpu" where
  "push_off_hart h =
     (let old = fst h; c = snd h
      in (False, c\<lparr>intena := (if noff c = 0 then old else intena c), noff := noff c + 1\<rparr>))"

definition pop_off_hart :: "bool \<times> cpu \<Rightarrow> (bool \<times> cpu) res" where
  "pop_off_hart h =
     (let c = snd h in
      rbind (panic_if (fst h) ''pop_off - interruptible'') (\<lambda>_.
      rbind (panic_if (noff c < 1) ''pop_off'') (\<lambda>_.
        let c' = c\<lparr>noff := noff c - 1\<rparr>
        in Inr (if noff c' = 0 \<and> intena c' then True else fst h, c'))))"

definition push_off :: "'a pstate_scheme \<Rightarrow> 'a pstate_scheme" where
  "push_off s = (let (e, c) = push_off_hart (sie s, mycpu s) in set_mycpu c (s\<lparr>sie := e\<rparr>))"

definition pop_off :: "'a pstate_scheme \<Rightarrow> 'a pstate_scheme res" where
  "pop_off s = rbind (pop_off_hart (sie s, mycpu s)) (\<lambda>(e, c). Inr (set_mycpu c (s\<lparr>sie := e\<rparr>)))"

text \<open>Dereferencing \<^verbatim>\<open>myproc()\<close> when it is null faults in the kernel, which panics.\<close>

definition curproc :: "'a pstate_scheme \<Rightarrow> nat res" where
  "curproc s = (case myproc s of None \<Rightarrow> Inl (Panic ''kerneltrap'') | Some p \<Rightarrow> Inr p)"

section \<open>Initialisation\<close>

abbreviation (input) MAXVA :: u64 where "MAXVA \<equiv> push_bit 38 1"
abbreviation (input) TRAMPOLINE :: u64 where "TRAMPOLINE \<equiv> MAXVA - 4096"
abbreviation (input) TRAPFRAME :: u64 where "TRAPFRAME \<equiv> TRAMPOLINE - 4096"

definition KSTACK :: "nat \<Rightarrow> u64" where
  "KSTACK i = TRAMPOLINE - (of_nat i + 1) * 2 * 4096"

text \<open>The table is static data, so every entry starts out as zeroes.\<close>

definition zero_context :: kcontext where
  "zero_context = \<lparr>ctx_ra = 0, ctx_sp = 0, ctx_s = replicate 12 0\<rparr>"

definition zero_trapframe :: trapframe where
  "zero_trapframe = \<lparr>kernel_satp = 0, kernel_sp = 0, kernel_trap = 0, epc = 0, kernel_hartid = 0,
     tf_ra = 0, tf_sp = 0, tf_gp = 0, tf_tp = 0, tf_t = replicate 7 0, tf_a = replicate 8 0,
     tf_s = replicate 12 0\<rparr>"

definition zero_proc :: proc where
  "zero_proc = \<lparr>state = UNUSED, chan = None, killed_flag = 0, xstate = 0, pid = 0, parent = None,
     kstack = 0, sz = 0, pagetable = 0, trapframe_pa = 0, trapframe = zero_trapframe,
     pcontext = zero_context, ofile = replicate NOFILE None, cwd = None, pname = replicate 16 0,
     total_syscalls = 0, cur_q_level = 0, ticks_at_cur_level = 0, ticks_per_level = [0, 0, 0, 0],
     num_times_sched = 0, temp = 0, page_faults = 0, pages_evicted = 0, pages_swapped_in = 0,
     pages_swapped_out = 0, resident_pages = 0, disk_reads = 0, disk_writes = 0,
     avg_disk_latency = 0\<rparr>"

definition zero_cpu :: cpu where
  "zero_cpu = \<lparr>c_proc = None, c_context = zero_context, noff = 0, intena = False\<rparr>"

definition procinit :: "'a pstate_scheme \<Rightarrow> 'a pstate_scheme" where
  "procinit s = s\<lparr>procs := map (\<lambda>(i, p). p\<lparr>state := UNUSED, kstack := KSTACK i\<rparr>)
                            (enumerate 0 (procs s))\<rparr>"

definition boot_pstate :: pstate where
  "boot_pstate = \<lparr>mem = (\<lambda>_. 0), procs = replicate NPROC zero_proc, cpus = replicate NCPU zero_cpu,
     hartid = 0, sie = False, nextpid = 1, initproc = None, ticks = 0\<rparr>"

section \<open>Process ids\<close>

definition allocpid :: "'a pstate_scheme \<Rightarrow> int \<times> 'a pstate_scheme" where
  "allocpid s = (nextpid s, s\<lparr>nextpid := nextpid s + 1\<rparr>)"

section \<open>MLFQ accounting\<close>

definition quantum_of :: "nat \<Rightarrow> int" where
  "quantum_of l = (if l = 1 then 4 else if l = 2 then 8 else if l = 3 then 16 else 2)"

definition mlfq_tick :: "proc \<Rightarrow> proc" where
  "mlfq_tick p0 =
     (let p = p0\<lparr>ticks_at_cur_level := ticks_at_cur_level p0 + 1,
                 ticks_per_level := (ticks_per_level p0)
                   [cur_q_level p0 := ticks_per_level p0 ! cur_q_level p0 + 1]\<rparr>;
          quantum = quantum_of (cur_q_level p)
      in if ticks_at_cur_level p \<ge> quantum then
           let delta_s = total_syscalls p - temp p;
               delta_t = ticks_at_cur_level p;
               p1 = (if delta_s < delta_t
                     then (if cur_q_level p < 3 then p\<lparr>cur_q_level := cur_q_level p + 1\<rparr> else p)
                     else p)
           in p1\<lparr>ticks_at_cur_level := 0, temp := total_syscalls p1\<rparr>
         else p)"

definition boost_proc :: "proc \<Rightarrow> proc" where
  "boost_proc p =
     (if state p = RUNNABLE
      then p\<lparr>cur_q_level := 0, ticks_at_cur_level := 0, temp := total_syscalls p\<rparr> else p)"

definition global_boost :: "'a pstate_scheme \<Rightarrow> 'a pstate_scheme" where
  "global_boost s = s\<lparr>procs := map boost_proc (procs s)\<rparr>"

section \<open>Sleep, wakeup, kill\<close>

definition wakeup_proc :: "nat option \<Rightarrow> chan \<Rightarrow> nat \<times> proc \<Rightarrow> proc" where
  "wakeup_proc me ch ip =
     (let i = fst ip; p = snd ip
      in if Some i \<noteq> me \<and> state p = SLEEPING \<and> chan p = Some ch
         then p\<lparr>state := RUNNABLE\<rparr> else p)"

definition wakeup :: "chan \<Rightarrow> 'a pstate_scheme \<Rightarrow> 'a pstate_scheme" where
  "wakeup ch s = s\<lparr>procs := map (wakeup_proc (myproc s) ch) (enumerate 0 (procs s))\<rparr>"

fun kkill_from :: "int \<Rightarrow> proc list \<Rightarrow> (proc list) option" where
  "kkill_from k [] = None"
| "kkill_from k (p # ps) =
     (if pid p = k
      then Some ((let p = p\<lparr>killed_flag := 1\<rparr>
                  in if state p = SLEEPING then p\<lparr>state := RUNNABLE\<rparr> else p) # ps)
      else map_option ((#) p) (kkill_from k ps))"

definition kkill :: "int \<Rightarrow> 'a pstate_scheme \<Rightarrow> int \<times> 'a pstate_scheme" where
  "kkill k s = (case kkill_from k (procs s) of None \<Rightarrow> (-1, s) | Some ps \<Rightarrow> (0, s\<lparr>procs := ps\<rparr>))"

definition setkilled :: "nat \<Rightarrow> 'a pstate_scheme \<Rightarrow> 'a pstate_scheme" where
  "setkilled i s = upd_proc i (\<lambda>p. p\<lparr>killed_flag := 1\<rparr>) s"

definition killed :: "nat \<Rightarrow> 'a pstate_scheme \<Rightarrow> int" where
  "killed i s = killed_flag (procs s ! i)"

text \<open>
  \<open>sched\<close> leaves the CPU through \<^verbatim>\<open>swtch\<close> (assembly) and returns when the scheduler picks
  this process again. What happens in between is the argument \<open>swtch\<close>; \<open>holding\<close> is the
  result of \<^verbatim>\<open>holding(&p->lock)\<close>.
\<close>

definition sched ::
  "('a pstate_scheme \<Rightarrow> 'a pstate_scheme) \<Rightarrow> bool \<Rightarrow> nat \<Rightarrow> 'a pstate_scheme \<Rightarrow> 'a pstate_scheme res"
where
  "sched swtch holding p s =
     rbind (panic_if (noff (mycpu s) \<noteq> 1) ''sched locks'') (\<lambda>_.
     rbind (panic_if (\<not> holding) ''sched p->lock'') (\<lambda>_.
     rbind (panic_if (noff (mycpu s) \<noteq> 1) ''sched locks'') (\<lambda>_.
     rbind (panic_if (state (procs s ! p) = RUNNING) ''sched RUNNING'') (\<lambda>_.
     rbind (panic_if (sie s) ''sched interruptible'') (\<lambda>_.
       let saved = intena (mycpu s); s' = swtch s
       in Inr (set_mycpu ((mycpu s')\<lparr>intena := saved\<rparr>) s'))))))"

text \<open>
  \<open>acquire(&p->lock)\<close> and \<open>release(&p->lock)\<close> appear here through their effect on the
  interrupt nesting of the CPU.
\<close>

definition yield ::
  "('a pstate_scheme \<Rightarrow> 'a pstate_scheme) \<Rightarrow> nat \<Rightarrow> 'a pstate_scheme \<Rightarrow> 'a pstate_scheme res"
where
  "yield swtch p s =
     rbind (sched swtch True p (upd_proc p (\<lambda>q. q\<lparr>state := RUNNABLE\<rparr>) (push_off s))) pop_off"

text \<open>
  \<open>sleep(chan, lk)\<close>: \<^verbatim>\<open>acquire(&p->lock); release(lk)\<close> before, and
  \<^verbatim>\<open>release(&p->lock); acquire(lk)\<close> after the switch.
\<close>

definition sleep ::
  "('a pstate_scheme \<Rightarrow> 'a pstate_scheme) \<Rightarrow> chan \<Rightarrow> nat \<Rightarrow> 'a pstate_scheme \<Rightarrow> 'a pstate_scheme res"
where
  "sleep swtch ch p s =
     rbind (pop_off (push_off s)) (\<lambda>s.
     rbind (sched swtch True p
              (upd_proc p (\<lambda>q. q\<lparr>chan := Some ch, state := SLEEPING\<rparr>) s)) (\<lambda>s.
     rbind (pop_off (upd_proc p (\<lambda>q. q\<lparr>chan := None\<rparr>) s)) (\<lambda>s.
       Inr (push_off s))))"

section \<open>The scheduler\<close>

definition runnable_at :: "nat \<Rightarrow> proc \<Rightarrow> bool" where
  "runnable_at l p \<longleftrightarrow> state p = RUNNABLE \<and> cur_q_level p = l"

text \<open>Pass 1: the first level with a runnable process; \<open>None\<close> is \<open>t_level = -1\<close>.\<close>

definition pick_level :: "'a pstate_scheme \<Rightarrow> nat option" where
  "pick_level s = find (\<lambda>l. list_ex (runnable_at l) (procs s)) [0..<4]"

definition dispatched :: "proc \<Rightarrow> proc" where
  "dispatched p0 =
     (let p = p0\<lparr>state := RUNNING, num_times_sched := num_times_sched p0 + 1\<rparr>
      in if ticks_at_cur_level p = 0 then p\<lparr>temp := total_syscalls p\<rparr> else p)"

definition dispatch :: "nat \<Rightarrow> 'a pstate_scheme \<Rightarrow> 'a pstate_scheme" where
  "dispatch i s =
     set_mycpu ((mycpu s)\<lparr>c_proc := Some i\<rparr>) (upd_proc i dispatched s)"

text \<open>
  Pass 2 visits the table once in order. \<open>run i\<close> is what happens from
  \<^verbatim>\<open>swtch(&c->context, &p->context)\<close> until process \<open>i\<close> switches back. The second
  component is \<open>found\<close>.
\<close>

fun pass2 ::
  "(nat \<Rightarrow> 'a pstate_scheme \<Rightarrow> 'a pstate_scheme) \<Rightarrow> nat \<Rightarrow> nat list \<Rightarrow> bool \<Rightarrow> 'a pstate_scheme
    \<Rightarrow> bool \<times> 'a pstate_scheme"
where
  "pass2 run l [] found s = (found, s)"
| "pass2 run l (i # is) found s =
     (if cur_q_level (procs s ! i) = l \<and> state (procs s ! i) = RUNNABLE
      then let s1 = run i (dispatch i s)
           in pass2 run l is True (set_mycpu ((mycpu s1)\<lparr>c_proc := None\<rparr>) s1)
      else pass2 run l is found s)"

text \<open>One iteration of the \<^verbatim>\<open>for(;;)\<close> of \<^verbatim>\<open>scheduler()\<close>; the result \<open>False\<close> leads to \<^verbatim>\<open>wfi\<close>.\<close>

definition scheduler_round ::
  "(nat \<Rightarrow> 'a pstate_scheme \<Rightarrow> 'a pstate_scheme) \<Rightarrow> 'a pstate_scheme \<Rightarrow> bool \<times> 'a pstate_scheme"
where
  "scheduler_round run s0 =
     (let s = s0\<lparr>sie := True\<rparr>
      in case pick_level s of None \<Rightarrow> (False, s) | Some l \<Rightarrow> pass2 run l [0..<NPROC] False s)"

text \<open>The timer interrupt; \<open>cpuid() == 0\<close> keeps the time. Reprogramming the timer is left out.\<close>

definition clockintr :: "'a pstate_scheme \<Rightarrow> 'a pstate_scheme" where
  "clockintr s =
     (if hartid s = 0 then
        let s1 = s\<lparr>ticks := ticks s + 1\<rparr>;
            boost = (unat (ticks s1) mod 128 = 0);
            s2 = wakeup ChTicks s1
        in if boost then global_boost s2 else s2
      else s)"

section \<open>Basic facts\<close>

lemmas pstate_ops [kdefs] = mycpu_def set_mycpu_def myproc_def upd_proc_def

lemma wakeup_frame [simp]:
  "mem (wakeup ch s) = mem s" "cpus (wakeup ch s) = cpus s" "hartid (wakeup ch s) = hartid s"
  "sie (wakeup ch s) = sie s" "nextpid (wakeup ch s) = nextpid s"
  "initproc (wakeup ch s) = initproc s" "ticks (wakeup ch s) = ticks s"
  "pstate.more (wakeup ch s) = pstate.more s"
  by (simp_all add: wakeup_def)

lemma length_procs_wakeup [simp]: "length (procs (wakeup ch s)) = length (procs s)"
  by (simp add: wakeup_def)

lemma myproc_wakeup [simp]: "myproc (wakeup ch s) = myproc s"
  by (simp add: myproc_def mycpu_def)

lemma nth_procs_wakeup:
  "i < length (procs s) \<Longrightarrow>
   procs (wakeup ch s) ! i =
     (if Some i \<noteq> myproc s \<and> state (procs s ! i) = SLEEPING \<and> chan (procs s ! i) = Some ch
      then (procs s ! i)\<lparr>state := RUNNABLE\<rparr> else procs s ! i)"
  by (simp add: wakeup_def wakeup_proc_def nth_enumerate_eq Let_def)

section \<open>Interrupt nesting\<close>

definition hart_ok :: "bool \<times> cpu \<Rightarrow> bool" where
  "hart_ok h \<longleftrightarrow> 0 \<le> noff (snd h) \<and> (0 < noff (snd h) \<longrightarrow> \<not> fst h)"

lemma hart_ok_push_off [kinv]: "hart_ok h \<Longrightarrow> hart_ok (push_off_hart h)"
  by (simp add: hart_ok_def push_off_hart_def Let_def)

lemma noff_push_off [simp]: "noff (snd (push_off_hart h)) = noff (snd h) + 1"
  by (simp add: push_off_hart_def Let_def)

lemma sie_push_off [simp]: "fst (push_off_hart h) = False"
  by (simp add: push_off_hart_def Let_def)

lemma hart_ok_pop_off [kinv]: "hart_ok h \<Longrightarrow> pop_off_hart h = Inr h' \<Longrightarrow> hart_ok h'"
  by (auto simp: hart_ok_def pop_off_hart_def Let_def)

lemma pop_off_ok: "hart_ok h \<Longrightarrow> 0 < noff (snd h) \<Longrightarrow> \<exists>h'. pop_off_hart h = Inr h' \<and> noff (snd h') = noff (snd h) - 1"
  by (auto simp: hart_ok_def pop_off_hart_def Let_def)

fun pop_offs :: "nat \<Rightarrow> bool \<times> cpu \<Rightarrow> (bool \<times> cpu) res" where
  "pop_offs 0 h = Inr h"
| "pop_offs (Suc n) h = rbind (pop_off_hart h) (pop_offs n)"

text \<open>Inside a nest (\<open>noff > 0\<close>), a push and its pop cancel exactly.\<close>

lemma pop_push_inner: "hart_ok h \<Longrightarrow> 0 < noff (snd h) \<Longrightarrow> pop_off_hart (push_off_hart h) = Inr h"
  by (cases h) (auto simp: hart_ok_def pop_off_hart_def push_off_hart_def Let_def)

lemma pop_push_outer:
  "noff c = 0 \<Longrightarrow> pop_off_hart (push_off_hart (e, c)) = Inr (e, c\<lparr>intena := e\<rparr>)"
  by (cases e) (auto simp: pop_off_hart_def push_off_hart_def Let_def)

lemma pushes_ok: "hart_ok h \<Longrightarrow> hart_ok ((push_off_hart ^^ n) h) \<and> noff (snd ((push_off_hart ^^ n) h)) = noff (snd h) + int n"
  by (induction n) (auto simp: kinv)

lemma pops_pushes_inner:
  assumes "hart_ok h" "0 < noff (snd h)"
  shows "pop_offs n ((push_off_hart ^^ n) h) = Inr h"
proof (induction n)
  case (Suc n)
  have "pop_off_hart (push_off_hart ((push_off_hart ^^ n) h)) = Inr ((push_off_hart ^^ n) h)"
    using assms pushes_ok [of h n] by (intro pop_push_inner) auto
  with Suc show ?case by simp
qed simp

lemma pop_offs_Suc_last: "pop_offs (Suc n) h = rbind (pop_offs n h) pop_off_hart"
proof (induction n arbitrary: h)
  case 0
  then show ?case by (cases "pop_off_hart h") simp_all
next
  case (Suc n)
  then show ?case by (cases "pop_off_hart h") simp_all
qed

section \<open>MLFQ\<close>

text \<open>The well-formed accounting data of a process: level and slice are in bounds, and the counters are in the range of \<^verbatim>\<open>int\<close>.\<close>

abbreviation INT_MAX :: int where "INT_MAX \<equiv> 2147483647"

definition mlfq_ok :: "proc \<Rightarrow> bool" where
  "mlfq_ok p \<longleftrightarrow> cur_q_level p \<le> 3 \<and> length (ticks_per_level p) = 4 \<and>
     0 \<le> ticks_at_cur_level p \<and> ticks_at_cur_level p < quantum_of (cur_q_level p) \<and>
     0 \<le> temp p \<and> temp p \<le> total_syscalls p \<and> total_syscalls p \<le> INT_MAX \<and>
     (\<forall>x \<in> set (ticks_per_level p). 0 \<le> x \<and> x \<le> INT_MAX)"

lemma mlfq_ok_tick [kinv]:
  assumes "mlfq_ok p" "ticks_per_level p ! cur_q_level p < INT_MAX"
  shows "mlfq_ok (mlfq_tick p)"
proof -
  let ?l = "cur_q_level p" and ?ts = "ticks_per_level p"
  have "?l < length ?ts" using assms(1) by (simp add: mlfq_ok_def)
  then have "0 \<le> ?ts ! ?l" using assms(1) by (simp add: mlfq_ok_def)
  then have "\<forall>x \<in> set (?ts[?l := ?ts ! ?l + 1]). 0 \<le> x \<and> x \<le> INT_MAX"
    using assms set_update_subset_insert [of ?ts ?l "?ts ! ?l + 1"] by (auto simp: mlfq_ok_def)
  then show ?thesis using assms(1) by (auto simp: mlfq_ok_def mlfq_tick_def quantum_of_def Let_def)
qed

lemma mlfq_ok_boost [kinv]: "mlfq_ok p \<Longrightarrow> mlfq_ok (boost_proc p)"
  by (auto simp: mlfq_ok_def boost_proc_def quantum_of_def)

lemma mlfq_ok_dispatched [kinv]: "mlfq_ok p \<Longrightarrow> mlfq_ok (dispatched p)"
  by (auto simp: mlfq_ok_def dispatched_def quantum_of_def Let_def)

lemma sum_list_bump:
  "i < length xs \<Longrightarrow> sum_list (xs[i := xs ! i + 1]) = sum_list xs + (1 :: int)"
  by (induction xs arbitrary: i) (auto split: nat.splits)

lemma mlfq_tick_total:
  "mlfq_ok p \<Longrightarrow> sum_list (ticks_per_level (mlfq_tick p)) = sum_list (ticks_per_level p) + 1"
  by (auto simp: mlfq_ok_def mlfq_tick_def Let_def sum_list_bump)

lemma mlfq_tick_syscalls [simp]: "total_syscalls (mlfq_tick p) = total_syscalls p"
  by (simp add: mlfq_tick_def Let_def)

text \<open>Level and slice position of a process that makes no system call, \<open>n\<close> ticks after a reset.\<close>

definition cpu_bound_level :: "nat \<Rightarrow> nat" where
  "cpu_bound_level n = (if n < 2 then 0 else if n < 6 then 1 else if n < 14 then 2 else 3)"

definition cpu_bound_slice :: "nat \<Rightarrow> nat" where
  "cpu_bound_slice n =
     (if n < 2 then n else if n < 6 then n - 2 else if n < 14 then n - 6 else (n - 14) mod 16)"

lemma cpu_bound_slice_Suc:
  "cpu_bound_slice (Suc n) =
     (if int (cpu_bound_slice n) + 1 \<ge> quantum_of (cpu_bound_level n) then 0
      else Suc (cpu_bound_slice n))"
proof (cases "n < 14")
  case True
  then show ?thesis
    by (auto simp: cpu_bound_slice_def cpu_bound_level_def quantum_of_def)
next
  case False
  then have "Suc n - 14 = Suc (n - 14)" by simp
  moreover have "(n - 14) mod 16 < 16" by simp
  ultimately show ?thesis using False
    by (auto simp: cpu_bound_slice_def cpu_bound_level_def quantum_of_def mod_Suc)
qed

lemma cpu_bound_level_Suc:
  "cpu_bound_level (Suc n) =
     (if int (cpu_bound_slice n) + 1 \<ge> quantum_of (cpu_bound_level n) \<and> cpu_bound_level n < 3
      then Suc (cpu_bound_level n) else cpu_bound_level n)"
  by (auto simp: cpu_bound_slice_def cpu_bound_level_def quantum_of_def)

lemma quantum_of_pos: "0 < quantum_of l"
  by (simp add: quantum_of_def)

text \<open>
  What the scheduler and the timer do to a process that runs without system calls: it gets the CPU, and at a timer
  interrupt \<^verbatim>\<open>usertrap\<close> charges it with the tick and yields.
\<close>

datatype cpu_use = Dispatch | Tick

fun cpu_event :: "cpu_use \<Rightarrow> proc \<Rightarrow> proc" where
  "cpu_event Dispatch p = dispatched p"
| "cpu_event Tick p = (mlfq_tick p)\<lparr>state := RUNNABLE\<rparr>"

lemma cpu_events_level:
  assumes "cur_q_level p = 0" "ticks_at_cur_level p = 0" "temp p = total_syscalls p"
  defines "q es \<equiv> foldr cpu_event es p"
  shows "cur_q_level (q es) = cpu_bound_level (count_list es Tick) \<and>
    ticks_at_cur_level (q es) = int (cpu_bound_slice (count_list es Tick)) \<and>
    temp (q es) = total_syscalls p \<and> total_syscalls (q es) = total_syscalls p"
proof (induction es)
  case Nil
  then show ?case using assms(1-3) by (simp add: q_def cpu_bound_level_def cpu_bound_slice_def)
next
  case (Cons e es)
  show ?case
  proof (cases e)
    case Dispatch
    then show ?thesis using Cons by (simp add: q_def dispatched_def Let_def)
  next
    case Tick
    then show ?thesis using Cons by (auto simp: q_def mlfq_tick_def Let_def cpu_bound_level_Suc cpu_bound_slice_Suc)
  qed
qed

section \<open>Scheduling\<close>

lemma pick_level_Some:
  "pick_level s = Some l \<longleftrightarrow>
     l < 4 \<and> (\<exists>p \<in> set (procs s). runnable_at l p) \<and> (\<forall>p \<in> set (procs s). \<forall>k < l. \<not> runnable_at k p)"
  by (auto simp: pick_level_def find_Some_nth list_ex_iff)

lemma pick_level_None:
  "pick_level s = None \<longleftrightarrow> (\<forall>p \<in> set (procs s). state p = RUNNABLE \<longrightarrow> 4 \<le> cur_q_level p)"
  by (auto simp: pick_level_def find_None_iff list_ex_iff runnable_at_def not_less)

lemma pass2_mono_found: "fst (pass2 run l is True s)"
  by (induction "is" arbitrary: s) (auto simp: Let_def)

lemma pass2_found:
  assumes "i \<in> set is" "cur_q_level (procs s ! i) = l" "state (procs s ! i) = RUNNABLE"
  shows "fst (pass2 run l is found s)"
  using assms by (induction "is") (auto simp: Let_def pass2_mono_found)

text \<open>The turn of process \<open>i\<close> in pass 2.\<close>

definition turn :: "(nat \<Rightarrow> 'a pstate_scheme \<Rightarrow> 'a pstate_scheme) \<Rightarrow> nat \<Rightarrow> nat \<Rightarrow> 'a pstate_scheme \<Rightarrow> 'a pstate_scheme" where
  "turn run l i s =
     (if runnable_at l (procs s ! i)
      then let s1 = run i (dispatch i s) in set_mycpu ((mycpu s1)\<lparr>c_proc := None\<rparr>) s1 else s)"

lemma pass2_turns: "snd (pass2 run l is found s) = fold (turn run l) is s"
  by (induction "is" arbitrary: found s) (auto simp: turn_def runnable_at_def Let_def)

lemma procs_set_mycpu [simp]: "procs (set_mycpu c s) = procs s" "hartid (set_mycpu c s) = hartid s"
  "length (cpus (set_mycpu c s)) = length (cpus s)"
  by (simp_all add: set_mycpu_def)

lemma myproc_set_mycpu [simp]: "hartid s < length (cpus s) \<Longrightarrow> myproc (set_mycpu c s) = c_proc c"
  by (simp add: set_mycpu_def myproc_def mycpu_def)

lemma dispatch_frame [simp]:
  "procs (dispatch i s) = (procs s)[i := dispatched (procs s ! i)]" "hartid (dispatch i s) = hartid s"
  "length (cpus (dispatch i s)) = length (cpus s)"
  by (simp_all add: dispatch_def upd_proc_def)

lemma myproc_dispatch [simp]: "hartid s < length (cpus s) \<Longrightarrow> myproc (dispatch i s) = Some i"
  by (simp add: dispatch_def upd_proc_def)

text \<open>What the scheduler relies on when a process switches back: it is still on its hart.\<close>

definition keeps_hart :: "(nat \<Rightarrow> 'a pstate_scheme \<Rightarrow> 'a pstate_scheme) \<Rightarrow> bool" where
  "keeps_hart run \<longleftrightarrow> (\<forall>i s. length (procs (run i s)) = length (procs s) \<and> length (cpus (run i s)) = length (cpus s) \<and>
     hartid (run i s) = hartid s)"

lemma turns_frame:
  assumes "keeps_hart run"
  shows "length (procs (fold (turn run l) is s)) = length (procs s) \<and> length (cpus (fold (turn run l) is s)) = length (cpus s) \<and>
    hartid (fold (turn run l) is s) = hartid s"
proof (induction "is" arbitrary: s)
  case (Cons i "is")
  have "length (procs (turn run l i s)) = length (procs s) \<and> length (cpus (turn run l i s)) = length (cpus s) \<and>
      hartid (turn run l i s) = hartid s"
    using assms by (simp add: turn_def keeps_hart_def Let_def)
  then show ?case using Cons [of "turn run l i s"] by simp
qed simp

section \<open>The timer\<close>

lemma unat_ticks_Suc: "unat (t + 1 :: u32) mod 128 = (unat t + 1) mod 128"
proof -
  have "unat (t + 1) = (unat t + 1) mod 2 ^ 32"
    by (simp add: unat_word_ariths)
  then show ?thesis by (simp add: mod_mod_cancel)
qed

lemma clockintr_ticks: "hartid s = 0 \<Longrightarrow> ticks (clockintr s) = ticks s + 1"
  by (simp add: clockintr_def Let_def global_boost_def)

lemma global_boost_level:
  "p \<in> set (procs (global_boost s)) \<Longrightarrow> state p = RUNNABLE \<Longrightarrow> cur_q_level p = 0"
  by (auto simp: global_boost_def boost_proc_def split: if_splits)

section \<open>Properties\<close>

text \<open>
  Interrupt nesting. After any number of \<^verbatim>\<open>push_off\<close>s interrupts are off, and the same number
  of \<^verbatim>\<open>pop_off\<close>s never panics and brings back both the nesting depth and the interrupt state the
  hart had before the first of them.
\<close>

theorem push_off_pop_off_nest:
  assumes ok: "hart_ok (e, c)"
  shows "fst ((push_off_hart ^^ Suc n) (e, c)) = False \<and>
    pop_offs (Suc n) ((push_off_hart ^^ Suc n) (e, c)) =
      Inr (e, c\<lparr>intena := (if noff c = 0 then e else intena c)\<rparr>)"
proof -
  let ?h = "push_off_hart (e, c)"
  have inner: "pop_offs n ((push_off_hart ^^ n) ?h) = Inr ?h"
    using ok by (intro pops_pushes_inner) (auto simp: kinv hart_ok_def)
  have "pop_off_hart ?h = Inr (e, c\<lparr>intena := (if noff c = 0 then e else intena c)\<rparr>)"
    using ok pop_push_outer [of c e] pop_push_inner [of "(e, c)"] by (auto simp: hart_ok_def)
  with inner have "pop_offs (Suc n) ((push_off_hart ^^ n) ?h) =
      Inr (e, c\<lparr>intena := (if noff c = 0 then e else intena c)\<rparr>)"
    by (simp only: pop_offs_Suc_last rbind_simps)
  moreover have "fst ((push_off_hart ^^ Suc n) (e, c)) = False" by simp
  ultimately show ?thesis by (simp only: funpow_Suc_right comp_apply)
qed

theorem push_off_pop_off_nest_witness:
  "pop_offs 3 ((push_off_hart ^^ 3) (True, zero_cpu)) = Inr (True, zero_cpu\<lparr>intena := True\<rparr>)"
  using push_off_pop_off_nest [of True zero_cpu 2]
  by (simp add: hart_ok_def zero_cpu_def numeral_3_eq_3 numeral_2_eq_2 del: pop_offs.simps)

text \<open>
  (C15) Strict priority. If level \<open>l\<close> is the highest-priority level that has a runnable process, a round of
  \<^verbatim>\<open>scheduler()\<close> gives every entry of the table its turn, in order. A process that is runnable at level \<open>l\<close> when its turn comes
  gets the CPU: it is marked as running, its dispatches are counted, no other process is touched, and it is the current process until it switches
  back, after which the CPU has none. The turn of any other process, of another level or not runnable, changes nothing.
  The round ran a process, so the hart does not wait for an interrupt.
\<close>

theorem scheduler_round_strict_priority:
  assumes len: "length (procs s) = NPROC" "hartid s < length (cpus s)" and run: "keeps_hart run"
    and some: "\<exists>p \<in> set (procs s). state p = RUNNABLE \<and> cur_q_level p = l" and "l < 4"
    and top: "\<forall>p \<in> set (procs s). state p = RUNNABLE \<longrightarrow> l \<le> cur_q_level p"
  shows "\<exists>t. t 0 = s\<lparr>sie := True\<rparr> \<and> scheduler_round run s = (True, t NPROC) \<and>
    (\<forall>i < NPROC.
       let p = procs (t i) ! i; d = dispatch i (t i) in
       if state p = RUNNABLE \<and> cur_q_level p = l
       then state (procs d ! i) = RUNNING \<and> cur_q_level (procs d ! i) = l \<and>
         num_times_sched (procs d ! i) = num_times_sched p + 1 \<and> (\<forall>j. j \<noteq> i \<longrightarrow> procs d ! j = procs (t i) ! j) \<and>
         myproc d = Some i \<and> procs (t (Suc i)) = procs (run i d) \<and> myproc (t (Suc i)) = None
       else t (Suc i) = t i)"
proof -
  define t where "t i = fold (turn run l) [0..<i] (s\<lparr>sie := True\<rparr>)" for i
  have pick: "pick_level (s\<lparr>sie := True\<rparr>) = Some l"
    using some top \<open>l < 4\<close> by (fastforce simp: pick_level_Some runnable_at_def)
  obtain i where "i < NPROC" "cur_q_level (procs s ! i) = l" "state (procs s ! i) = RUNNABLE"
    using some len(1) by (metis in_set_conv_nth)
  then have round: "scheduler_round run s = (True, t NPROC)"
    using pick by (simp add: scheduler_round_def prod_eq_iff pass2_found [of i] pass2_turns t_def del: upt.simps)
  have fr: "length (procs (t i)) = NPROC" "hartid (t i) < length (cpus (t i))" for i
    using turns_frame [OF run, of l "[0..<i]" "s\<lparr>sie := True\<rparr>"] len by (simp_all add: t_def)
  have step: "t (Suc i) = turn run l i (t i)" for i by (simp add: t_def)
  have "let p = procs (t i) ! i; d = dispatch i (t i) in
       if state p = RUNNABLE \<and> cur_q_level p = l
       then state (procs d ! i) = RUNNING \<and> cur_q_level (procs d ! i) = l \<and>
         num_times_sched (procs d ! i) = num_times_sched p + 1 \<and> (\<forall>j. j \<noteq> i \<longrightarrow> procs d ! j = procs (t i) ! j) \<and>
         myproc d = Some i \<and> procs (t (Suc i)) = procs (run i d) \<and> myproc (t (Suc i)) = None
       else t (Suc i) = t i" if "i < NPROC" for i
    using that fr [of i] run by (auto simp: step turn_def runnable_at_def Let_def dispatched_def keeps_hart_def)
  then show ?thesis using round by (intro exI [of _ t]) (simp add: t_def)
qed

definition sched_example :: pstate where
  "sched_example = boot_pstate\<lparr>procs := replicate 63 zero_proc @
     [zero_proc\<lparr>state := RUNNABLE, cur_q_level := 2\<rparr>]\<rparr>"

theorem scheduler_round_strict_priority_witness:
  "\<exists>s'. scheduler_round (\<lambda>i s. setkilled i s) sched_example = (True, s') \<and> state (procs s' ! 63) = RUNNING \<and>
     num_times_sched (procs s' ! 63) = 1 \<and> killed_flag (procs s' ! 63) = 1 \<and> killed_flag (procs s' ! 5) = 0 \<and> myproc s' = None"
proof -
  have ex: "length (procs sched_example) = NPROC" "hartid sched_example < length (cpus sched_example)"
    "\<exists>p \<in> set (procs sched_example). state p = RUNNABLE \<and> cur_q_level p = 2"
    "\<forall>p \<in> set (procs sched_example). state p = RUNNABLE \<longrightarrow> 2 \<le> cur_q_level p"
    by (auto simp: sched_example_def boot_pstate_def zero_proc_def)
  have "keeps_hart (\<lambda>i s :: pstate. setkilled i s)" by (simp add: keeps_hart_def setkilled_def upd_proc_def)
  from scheduler_round_strict_priority [OF ex(1,2) this ex(3) _ ex(4)] obtain t where
    t: "t 0 = sched_example\<lparr>sie := True\<rparr>" "scheduler_round (\<lambda>i s. setkilled i s) sched_example = (True, t NPROC)"
    and turns: "\<And>i. i < NPROC \<Longrightarrow> let p = procs (t i) ! i; d = dispatch i (t i) in
       if state p = RUNNABLE \<and> cur_q_level p = 2
       then state (procs d ! i) = RUNNING \<and> cur_q_level (procs d ! i) = 2 \<and>
         num_times_sched (procs d ! i) = num_times_sched p + 1 \<and> (\<forall>j. j \<noteq> i \<longrightarrow> procs d ! j = procs (t i) ! j) \<and>
         myproc d = Some i \<and> procs (t (Suc i)) = procs (setkilled i d) \<and> myproc (t (Suc i)) = None
       else t (Suc i) = t i" by (simp, blast)
  have P: "i < 63 \<Longrightarrow> state (procs sched_example ! i) = UNUSED" "procs sched_example ! 63 = zero_proc\<lparr>state := RUNNABLE, cur_q_level := 2\<rparr>"
    "killed_flag (procs sched_example ! 5) = 0" "length (procs sched_example) = 64" for i
    by (simp_all add: sched_example_def nth_append zero_proc_def)
  have "i \<le> 63 \<Longrightarrow> t i = sched_example\<lparr>sie := True\<rparr>" for i
  proof (induction i)
    case (Suc i)
    then show ?case using turns [of i] P(1) [of i] by (simp add: Let_def)
  qed (simp add: t)
  then have "t 63 = sched_example\<lparr>sie := True\<rparr>" by simp
  with turns [of 63] P t(2) show ?thesis
    by (intro exI [of _ "t 64"]) (auto simp: Let_def setkilled_def upd_proc_def zero_proc_def)
qed

text \<open>
  (C39) The demotion rule of \<^verbatim>\<open>mlfq_tick\<close>. A tick keeps the level in 0..3, the slice below its
  quantum and all counters in the range of \<^verbatim>\<open>int\<close> (as long as the counter it increments is not at its maximum), is charged to exactly one level, and moves the process
  one level down if and only if the slice is used up, the process made fewer system calls than ticks in it, and it is not at
  the lowest level already. At the end of a slice, demoted or not, the process starts a new one.
\<close>

theorem mlfq_tick_demotes_iff:
  assumes "mlfq_ok p" "ticks_per_level p ! cur_q_level p < INT_MAX"
  shows "mlfq_ok (mlfq_tick p) \<and>
    ticks_per_level (mlfq_tick p) = (ticks_per_level p)[cur_q_level p := ticks_per_level p ! cur_q_level p + 1] \<and>
    cur_q_level (mlfq_tick p) =
      (if ticks_at_cur_level p + 1 \<ge> quantum_of (cur_q_level p) \<and>
          total_syscalls p - temp p < ticks_at_cur_level p + 1 \<and> cur_q_level p < 3
       then cur_q_level p + 1 else cur_q_level p) \<and>
    (if ticks_at_cur_level p + 1 \<ge> quantum_of (cur_q_level p)
     then ticks_at_cur_level (mlfq_tick p) = 0 \<and> temp (mlfq_tick p) = total_syscalls p
     else ticks_at_cur_level (mlfq_tick p) = ticks_at_cur_level p + 1 \<and> temp (mlfq_tick p) = temp p)"
proof (intro conjI)
  show "mlfq_ok (mlfq_tick p)" using assms by (rule mlfq_ok_tick)
qed (simp_all add: mlfq_tick_def Let_def)

theorem mlfq_tick_demotes_iff_witness:
  "mlfq_ok zero_proc \<and> mlfq_ok (mlfq_tick zero_proc) \<and> cur_q_level (mlfq_tick zero_proc) = 0 \<and>
   ticks_per_level (mlfq_tick zero_proc) = [1, 0, 0, 0]"
proof -
  have ok: "mlfq_ok zero_proc" by (simp add: mlfq_ok_def zero_proc_def quantum_of_def)
  show ?thesis using ok mlfq_tick_demotes_iff [OF ok]
    by (simp add: zero_proc_def quantum_of_def)
qed

text \<open>
  (C40) Sinking between two boosts. Take a waiting process at a boost and let it run without making system calls: being
  dispatched and charged with timer ticks, in any order, but not boosted again. Then it is at level 0, 1, 2 and 3 from
  the boost and from exactly the second, sixth and fourteenth tick on, and it stays at level 3 until the next boost.
  (Events are listed from the last to the first.)
\<close>

theorem mlfq_cpu_bound_sinks:
  assumes "state p = RUNNABLE"
  shows "cur_q_level (foldr cpu_event es (boost_proc p)) =
    (let n = count_list es Tick in if n < 2 then 0 else if n < 6 then 1 else if n < 14 then 2 else 3)"
  using cpu_events_level [of "boost_proc p" es] assms by (simp add: boost_proc_def cpu_bound_level_def Let_def)

theorem mlfq_cpu_bound_sinks_witness:
  "let p = zero_proc\<lparr>state := RUNNABLE, cur_q_level := 3\<rparr> in
   cur_q_level (foldr cpu_event [Tick, Dispatch] (boost_proc p)) = 0 \<and>
   cur_q_level (foldr cpu_event (replicate 14 Tick) (boost_proc p)) = 3"
proof -
  let ?p = "zero_proc\<lparr>state := RUNNABLE, cur_q_level := 3\<rparr>"
  have c: "count_list (replicate n Tick) Tick = n" for n by (induction n) auto
  show ?thesis
    using mlfq_cpu_bound_sinks [of ?p "[Tick, Dispatch]"] mlfq_cpu_bound_sinks [of ?p "replicate 14 Tick"]
    unfolding c by (simp add: Let_def)
qed

text \<open>
  (C33) No starvation. Whatever else happens between the timer interrupts of hart 0, at least one
  of any 128 consecutive ones leaves every runnable process at level 0; the counter's wrap-around
  at \<open>2 ^ 32\<close> does not matter.
\<close>

theorem boost_within_128_ticks:
  assumes hart: "\<And>n. hartid (f n) = 0"
    and step: "\<And>n. ticks (f (Suc n)) = ticks (clockintr (f n))"
  shows "\<exists>k < 128. \<forall>p \<in> set (procs (clockintr (f k))). state p = RUNNABLE \<longrightarrow> cur_q_level p = 0"
proof -
  have run: "unat (ticks (f n)) mod 128 = (unat (ticks (f 0)) + n) mod 128" for n
  proof (induction n)
    case (Suc n)
    then show ?case
      using unat_ticks_Suc [of "ticks (f n)"] step [of n] hart [of n]
      by (simp add: clockintr_ticks mod_Suc_eq)
        (metis mod_Suc_eq)
  qed simp
  define k where "k = 127 - unat (ticks (f 0)) mod 128"
  have "k < 128" by (simp add: k_def)
  have "(unat (ticks (f 0)) mod 128 + (k + 1)) = 128"
    by (simp add: k_def less_Suc_eq_le [symmetric])
  then have "(unat (ticks (f 0)) + (k + 1)) mod 128 = 0"
    by (metis mod_add_left_eq mod_self)
  then have "unat (ticks (f k) + 1) mod 128 = 0"
    by (metis unat_ticks_Suc run mod_add_left_eq add.assoc)
  then have "clockintr (f k) = global_boost (wakeup ChTicks ((f k)\<lparr>ticks := ticks (f k) + 1\<rparr>))"
    using hart [of k] by (simp add: clockintr_def Let_def)
  with \<open>k < 128\<close> show ?thesis using global_boost_level by metis
qed

theorem boost_within_128_ticks_witness:
  "\<exists>k < 128. \<forall>p \<in> set (procs (clockintr ((clockintr ^^ k) sched_example))).
     state p = RUNNABLE \<longrightarrow> cur_q_level p = 0"
proof (rule boost_within_128_ticks)
  show "hartid ((clockintr ^^ n) sched_example) = 0" for n
    by (induction n) (simp_all add: sched_example_def boot_pstate_def clockintr_def Let_def global_boost_def)
qed simp

end
