(* ===== verification/Spinlock.thy ===== *)
theory Spinlock
  imports Proc
begin

text \<open>
  Spin locks (\<^verbatim>\<open>kernel/spinlock.c\<close>) and sleep locks (\<^verbatim>\<open>kernel/sleeplock.c\<close>).

  \<^verbatim>\<open>acquire\<close> and \<^verbatim>\<open>release\<close> are given as the sequence of their atomic actions on the lock word
  and the owner field, each a function of its own; \<open>lock_step\<close> interleaves the actions of any
  number of harts that contend for one lock. The theorems show mutual exclusion in every
  reachable state, and that neither function panics as long as no hart acquires a lock that it
  holds. They justify that the other theories treat a critical section as one step.
\<close>

section \<open>Spin locks\<close>

record spinlock =
  locked :: u32
  lname :: string
  lcpu :: "nat option"

definition initlock :: "string \<Rightarrow> spinlock" where
  "initlock nm = \<lparr>locked = 0, lname = nm, lcpu = None\<rparr>"

definition holding :: "nat \<Rightarrow> spinlock \<Rightarrow> bool" where
  "holding h lk \<longleftrightarrow> locked lk \<noteq> 0 \<and> lcpu lk = Some h"

text \<open>\<^verbatim>\<open>__sync_lock_test_and_set(&lk->locked, 1)\<close> returns the old value.\<close>

definition test_and_set :: "spinlock \<Rightarrow> u32 \<times> spinlock" where
  "test_and_set lk = (locked lk, lk\<lparr>locked := 1\<rparr>)"

definition acquire_begin :: "nat \<Rightarrow> spinlock \<Rightarrow> bool \<times> cpu \<Rightarrow> (bool \<times> cpu) res" where
  "acquire_begin h lk c =
     (let c' = push_off_hart c in rbind (panic_if (holding h lk) ''acquire'') (\<lambda>_. Inr c'))"

definition acquire_owner :: "nat \<Rightarrow> spinlock \<Rightarrow> spinlock" where
  "acquire_owner h lk = lk\<lparr>lcpu := Some h\<rparr>"

definition release_begin :: "nat \<Rightarrow> spinlock \<Rightarrow> spinlock res" where
  "release_begin h lk = rbind (panic_if (\<not> holding h lk) ''release'') (\<lambda>_. Inr (lk\<lparr>lcpu := None\<rparr>))"

definition lock_release :: "spinlock \<Rightarrow> spinlock" where
  "lock_release lk = lk\<lparr>locked := 0\<rparr>"

text \<open>
  The two functions as hart \<open>h\<close> runs them alone; \<open>None\<close> is an \<^verbatim>\<open>acquire\<close> that spins on a lock
  which nobody releases meanwhile.
\<close>

definition acquire ::
  "nat \<Rightarrow> spinlock \<Rightarrow> bool \<times> cpu \<Rightarrow> ((spinlock \<times> (bool \<times> cpu)) res) option"
where
  "acquire h lk c =
     (case acquire_begin h lk c of
        Inl e \<Rightarrow> Some (Inl e)
      | Inr c' \<Rightarrow>
          (case test_and_set lk of (old, lk') \<Rightarrow>
             if old \<noteq> 0 then None else Some (Inr (acquire_owner h lk', c'))))"

definition release :: "nat \<Rightarrow> spinlock \<Rightarrow> bool \<times> cpu \<Rightarrow> (spinlock \<times> (bool \<times> cpu)) res" where
  "release h lk c =
     rbind (release_begin h lk) (\<lambda>lk'.
     rbind (pop_off_hart c) (\<lambda>c'. Inr (lock_release lk', c')))"

section \<open>Contention\<close>

text \<open>Where a hart is: outside, spinning in \<^verbatim>\<open>acquire\<close>, just past the swap, inside, in \<^verbatim>\<open>release\<close>.\<close>

datatype lpc = Out | Spinning | Won | Inside | Leaving | Unlocked | Panicked string

record lock_state =
  lk :: spinlock
  lpc :: "nat \<Rightarrow> lpc"
  hart :: "nat \<Rightarrow> bool \<times> cpu"

definition lock_init :: "(nat \<Rightarrow> bool \<times> cpu) \<Rightarrow> lock_state" where
  "lock_init hs = \<lparr>lk = initlock ''lock'', lpc = (\<lambda>_. Out), hart = hs\<rparr>"

inductive lock_step :: "lock_state \<Rightarrow> lock_state \<Rightarrow> bool" where
  begin_ok: "lpc s h = Out \<Longrightarrow> acquire_begin h (lk s) (hart s h) = Inr c \<Longrightarrow>
    lock_step s (s\<lparr>lpc := (lpc s)(h := Spinning), hart := (hart s)(h := c)\<rparr>)"
| begin_panic: "lpc s h = Out \<Longrightarrow> acquire_begin h (lk s) (hart s h) = Inl (Panic m) \<Longrightarrow>
    lock_step s (s\<lparr>lpc := (lpc s)(h := Panicked m)\<rparr>)"
| spin: "lpc s h = Spinning \<Longrightarrow> test_and_set (lk s) = (old, l) \<Longrightarrow>
    lock_step s (s\<lparr>lk := l, lpc := (lpc s)(h := (if old \<noteq> 0 then Spinning else Won))\<rparr>)"
| owner: "lpc s h = Won \<Longrightarrow>
    lock_step s (s\<lparr>lk := acquire_owner h (lk s), lpc := (lpc s)(h := Inside)\<rparr>)"
| leave_ok: "lpc s h = Inside \<Longrightarrow> release_begin h (lk s) = Inr l \<Longrightarrow>
    lock_step s (s\<lparr>lk := l, lpc := (lpc s)(h := Leaving)\<rparr>)"
| leave_panic: "lpc s h = Inside \<Longrightarrow> release_begin h (lk s) = Inl (Panic m) \<Longrightarrow>
    lock_step s (s\<lparr>lpc := (lpc s)(h := Panicked m)\<rparr>)"
| unlock: "lpc s h = Leaving \<Longrightarrow>
    lock_step s (s\<lparr>lk := lock_release (lk s), lpc := (lpc s)(h := Unlocked)\<rparr>)"
| pop_ok: "lpc s h = Unlocked \<Longrightarrow> pop_off_hart (hart s h) = Inr c \<Longrightarrow>
    lock_step s (s\<lparr>lpc := (lpc s)(h := Out), hart := (hart s)(h := c)\<rparr>)"
| pop_panic: "lpc s h = Unlocked \<Longrightarrow> pop_off_hart (hart s h) = Inl (Panic m) \<Longrightarrow>
    lock_step s (s\<lparr>lpc := (lpc s)(h := Panicked m)\<rparr>)"
| again: "lpc s h = Inside \<Longrightarrow> acquire_begin h (lk s) (hart s h) = Inl (Panic m) \<Longrightarrow>
    lock_step s (s\<lparr>lpc := (lpc s)(h := Panicked m)\<rparr>)"
| again_ok: "lpc s h = Inside \<Longrightarrow> acquire_begin h (lk s) (hart s h) = Inr c \<Longrightarrow>
    lock_step s (s\<lparr>lpc := (lpc s)(h := Spinning), hart := (hart s)(h := c)\<rparr>)"

section \<open>Sleep locks\<close>

record sleeplock =
  slocked :: bool
  spid :: int

definition initsleeplock :: sleeplock where
  "initsleeplock = \<lparr>slocked = False, spid = 0\<rparr>"

definition acquiresleep :: "chan \<Rightarrow> sleeplock \<Rightarrow> 'a pstate_scheme \<Rightarrow> sleeplock res" where
  "acquiresleep ch sl s =
     (if slocked sl then Inl (Sleeps ch)
      else rbind (curproc s) (\<lambda>p. Inr (sl\<lparr>slocked := True, spid := pid (procs s ! p)\<rparr>)))"

definition releasesleep :: "chan \<Rightarrow> sleeplock \<Rightarrow> 'a pstate_scheme \<Rightarrow> sleeplock \<times> 'a pstate_scheme" where
  "releasesleep ch sl s = (sl\<lparr>slocked := False, spid := 0\<rparr>, wakeup ch s)"

definition holdingsleep :: "sleeplock \<Rightarrow> 'a pstate_scheme \<Rightarrow> bool res" where
  "holdingsleep sl s =
     (if slocked sl then rbind (curproc s) (\<lambda>p. Inr (spid sl = pid (procs s ! p))) else Inr False)"

section \<open>Mutual exclusion\<close>

text \<open>Between the swap and the unlocking store; a hart that panics in \<^verbatim>\<open>acquire\<close> stays there.\<close>

fun in_section :: "lpc \<Rightarrow> bool" where
  "in_section Out = False"
| "in_section Spinning = False"
| "in_section Won = True"
| "in_section Inside = True"
| "in_section Leaving = True"
| "in_section Unlocked = False"
| "in_section (Panicked m) = True"

fun owns :: "lpc \<Rightarrow> bool" where
  "owns Inside = True"
| "owns (Panicked m) = True"
| "owns _ = False"

text \<open>
  The invariant, for the hart \<open>ho\<close> that has the lock: the lock word is set exactly while there is
  such a hart, no other hart is in its critical section, the owner field names a hart exactly
  while that hart is inside, a hart that is not outside has interrupts off, and the only panic is that of
  \<^verbatim>\<open>acquire\<close>.
\<close>

definition lock_inv :: "nat option \<Rightarrow> lock_state \<Rightarrow> bool" where
  "lock_inv ho s \<longleftrightarrow>
     (locked (lk s) \<noteq> 0 \<longleftrightarrow> ho \<noteq> None) \<and>
     (\<forall>h. in_section (lpc s h) \<longleftrightarrow> ho = Some h) \<and>
     (\<forall>h. lcpu (lk s) = Some h \<longleftrightarrow> owns (lpc s h)) \<and>
     (\<forall>h. hart_ok (hart s h)) \<and>
     (\<forall>h. lpc s h \<noteq> Out \<longrightarrow> 0 < noff (snd (hart s h))) \<and>
     (\<forall>h m. lpc s h = Panicked m \<longrightarrow> m = ''acquire'')"

lemma lock_inv_init: "(\<And>h. hart_ok (hs h)) \<Longrightarrow> lock_inv None (lock_init hs)"
  by (simp add: lock_inv_def lock_init_def initlock_def)

lemma lock_invD:
  assumes "lock_inv ho s"
  shows "locked (lk s) \<noteq> 0 \<longleftrightarrow> ho \<noteq> None" "in_section (lpc s h) \<longleftrightarrow> ho = Some h"
    "lcpu (lk s) = Some h \<longleftrightarrow> owns (lpc s h)" "hart_ok (hart s h)"
    "lpc s h \<noteq> Out \<Longrightarrow> 0 < noff (snd (hart s h))" "lpc s h = Panicked m \<Longrightarrow> m = ''acquire''"
  using assms by (auto simp: lock_inv_def)

lemma owns_in_section: "owns x \<Longrightarrow> in_section x"
  by (cases x) auto

lemma holding_iff: "lock_inv ho s \<Longrightarrow> holding h (lk s) \<longleftrightarrow> owns (lpc s h)"
proof -
  assume inv: "lock_inv ho s"
  then show ?thesis
    using lock_invD(1) [OF inv] lock_invD(2,3) [OF inv, of h]
    by (auto simp: holding_def dest: owns_in_section)
qed

text \<open>Under the invariant an \<^verbatim>\<open>acquire\<close> panics only on the hart that has the lock, a \<^verbatim>\<open>release\<close> never.\<close>

lemma acquire_begin_iff:
  assumes "lock_inv ho s"
  shows "acquire_begin h (lk s) c = (if owns (lpc s h) then Inl (Panic ''acquire'') else Inr (push_off_hart c))"
  by (simp add: acquire_begin_def Let_def holding_iff [OF assms])

lemma release_begin_iff:
  assumes "lock_inv ho s"
  shows "release_begin h (lk s) =
    (if owns (lpc s h) then Inr ((lk s)\<lparr>lcpu := None\<rparr>) else Inl (Panic ''release''))"
  by (simp add: release_begin_def holding_iff [OF assms])

lemma lock_inv_step [kinv]:
  assumes inv: "lock_inv ho s" and step: "lock_step s s'"
  shows "\<exists>ho'. lock_inv ho' s'"
  using step
proof cases
  case (begin_ok h c)
  then have "lock_inv ho s'"
    using inv lock_invD(2) [OF inv, of h]
    by (auto simp: acquire_begin_iff [OF inv] lock_inv_def intro!: hart_ok_push_off) (auto simp: hart_ok_def)
  then show ?thesis ..
next
  case (begin_panic h m)
  then show ?thesis by (simp add: acquire_begin_iff [OF inv])
next
  case (spin h old l)
  then have "lock_inv (if old \<noteq> 0 then ho else Some h) s'"
    using inv lock_invD(2) [OF inv, of h] by (auto simp: test_and_set_def lock_inv_def)
  then show ?thesis ..
next
  case (owner h)
  then have "lock_inv ho s'"
    using inv lock_invD(2) [OF inv, of h] by (auto simp: acquire_owner_def lock_inv_def dest: owns_in_section)
  then show ?thesis ..
next
  case (leave_ok h l)
  then have "lock_inv ho s'"
    using inv lock_invD(2) [OF inv, of h] by (auto simp: release_begin_iff [OF inv] lock_inv_def dest: owns_in_section)
  then show ?thesis ..
next
  case (leave_panic h m)
  then show ?thesis by (simp add: release_begin_iff [OF inv])
next
  case (unlock h)
  then have "lock_inv None s'"
    using inv lock_invD(2) [OF inv, of h] by (auto simp: lock_release_def lock_inv_def)
  then show ?thesis ..
next
  case (pop_ok h c)
  then have "lock_inv ho s'"
    using inv lock_invD(2) [OF inv, of h] by (auto simp: lock_inv_def intro: hart_ok_pop_off)
  then show ?thesis ..
next
  case (pop_panic h m)
  then show ?thesis using pop_off_ok lock_invD(4,5) [OF inv, of h] by fastforce
next
  case (again h m)
  then have "lock_inv ho s'"
    using inv lock_invD(2) [OF inv, of h] by (auto simp: acquire_begin_iff [OF inv] lock_inv_def)
  then show ?thesis ..
next
  case (again_ok h c)
  then show ?thesis by (simp add: acquire_begin_iff [OF inv])
qed

lemma lock_inv_reachable: "lock_step\<^sup>*\<^sup>* s s' \<Longrightarrow> lock_inv ho s \<Longrightarrow> \<exists>ho'. lock_inv ho' s'"
  by (induction rule: rtranclp_induct) (blast intro: lock_inv_step)+

section \<open>Properties\<close>

text \<open>
  (C17) Mutual exclusion of spin locks. Start with a free lock and any number of harts whose interrupt
  nesting is consistent. In every state they can reach by interleaving the atomic actions of
  \<^verbatim>\<open>acquire\<close> and \<^verbatim>\<open>release\<close>, at most one hart is inside, interrupts are off on it, \<^verbatim>\<open>holding\<close> is true
  on that hart only, \<^verbatim>\<open>release\<close> does not panic there, and \<^verbatim>\<open>acquire\<close> does not panic on a hart outside. The only panic that can
  happen is that of \<^verbatim>\<open>acquire\<close> on the hart that already has the lock; it keeps the lock then.
\<close>

theorem spinlock_mutual_exclusion:
  assumes harts: "\<And>h. hart_ok (hs h)" and reach: "lock_step\<^sup>*\<^sup>* (lock_init hs) s"
  shows "(\<forall>h h'. lpc s h = Inside \<longrightarrow> lpc s h' = Inside \<longrightarrow> h = h') \<and>
    (\<forall>h. lpc s h = Inside \<longrightarrow> fst (hart s h) = False \<and> holding h (lk s) \<and>
       (\<forall>m. release_begin h (lk s) \<noteq> Inl (Panic m))) \<and>
    (\<forall>h m. lpc s h = Out \<longrightarrow> acquire_begin h (lk s) (hart s h) \<noteq> Inl (Panic m)) \<and>
    (\<forall>h m. lpc s h = Panicked m \<longrightarrow> m = ''acquire'' \<and> holding h (lk s))"
proof -
  obtain ho where inv: "lock_inv ho s"
    using lock_inv_reachable [OF reach lock_inv_init [OF harts]] by blast
  have hold: "holding h (lk s) \<longleftrightarrow> owns (lpc s h)" for h by (rule holding_iff [OF inv])
  have excl: "lpc s h = Inside \<Longrightarrow> ho = Some h" for h
    using lock_invD(2) [OF inv, of h] by simp
  have off: "lpc s h = Inside \<Longrightarrow> \<not> fst (hart s h)" for h
    using lock_invD(4,5) [OF inv, of h] by (simp add: hart_ok_def)
  show ?thesis
    using excl off lock_invD(6) [OF inv] by (auto simp: acquire_begin_iff [OF inv] release_begin_iff [OF inv] hold)
qed

theorem spinlock_mutual_exclusion_witness:
  "\<exists>s. lock_step\<^sup>*\<^sup>* (lock_init (\<lambda>_. (True, zero_cpu))) s \<and> lpc s 0 = Inside \<and> lpc s 1 = Spinning \<and>
    fst (hart s 0) = False \<and> holding 0 (lk s)"
proof -
  let ?c = "push_off_hart (True, zero_cpu)"
  define s1 where "s1 = (lock_init (\<lambda>_. (True, zero_cpu)))
    \<lparr>lpc := (\<lambda>_. Out)(0 := Spinning), hart := (\<lambda>_. (True, zero_cpu))(0 := ?c)\<rparr>"
  define s2 where "s2 = s1\<lparr>lk := (lk s1)\<lparr>locked := 1\<rparr>, lpc := (lpc s1)(0 := Won)\<rparr>"
  define s3 where "s3 = s2\<lparr>lk := acquire_owner 0 (lk s2), lpc := (lpc s2)(0 := Inside)\<rparr>"
  define s4 where "s4 = s3\<lparr>lpc := (lpc s3)(1 := Spinning), hart := (hart s3)(1 := ?c)\<rparr>"
  note d = s1_def s2_def s3_def s4_def lock_init_def initlock_def acquire_begin_def holding_def
    acquire_owner_def Let_def
  have "lock_step (lock_init (\<lambda>_. (True, zero_cpu))) s1"
    using begin_ok [of "lock_init (\<lambda>_. (True, zero_cpu))" 0 ?c] by (simp add: d)
  moreover have "lock_step s1 s2"
    using spin [of s1 0 0 "(lk s1)\<lparr>locked := 1\<rparr>"] by (simp add: d test_and_set_def)
  moreover have "lock_step s2 s3" using owner [of s2 0] by (simp add: d)
  moreover have "lock_step s3 s4" using begin_ok [of s3 1 ?c] by (simp add: d)
  ultimately have reach: "lock_step\<^sup>*\<^sup>* (lock_init (\<lambda>_. (True, zero_cpu))) s4"
    by (meson converse_rtranclp_into_rtranclp rtranclp.rtrancl_refl)
  have "lpc s4 0 = Inside" "lpc s4 1 = Spinning" by (simp_all add: d)
  moreover have "hart_ok (True, zero_cpu)" by (simp add: hart_ok_def zero_cpu_def)
  ultimately show ?thesis using reach spinlock_mutual_exclusion [OF _ reach] by blast
qed

end
