(* ===== verification/Ring.thy ===== *)
theory Ring
  imports Prelude
begin

text \<open>
  Circular buffers indexed by free-running counters, as the pipe and the console input buffer (32-bit
  counters) and the rings of the disk (16-bit counters) use them: element number \<open>k\<close> lives in slot \<open>k mod N\<close>,
  and the counters wrap around. The locale \<open>ring\<close> holds the facts that need \<open>N\<close> to divide \<open>2 ^ w\<close>, for counters of width \<open>w\<close>; the locale
  \<open>fifo\<close> is the contract of a first-in-first-out byte stream, with the stream property proved
  once for every provider.
\<close>

definition slot :: "nat \<Rightarrow> 'w::len word \<Rightarrow> nat" where
  "slot N k = unat k mod N"

definition ring_list :: "nat \<Rightarrow> 'b list \<Rightarrow> 'w::len word \<Rightarrow> 'w word \<Rightarrow> 'b list" where
  "ring_list N d r w = map (\<lambda>k. d ! slot N (r + of_nat k)) [0..<unat (w - r)]"

lemma unat_diff_step: "(a :: 'w::len word) \<noteq> b \<Longrightarrow> unat (b - (a + 1)) = unat (b - a) - 1"
proof -
  assume "a \<noteq> b"
  then have "b - a \<noteq> 0" by simp
  then have "unat (b - a - 1) = unat (b - a) - 1" by (metis unat_gt_0 unat_minus_one)
  then show ?thesis by (simp add: diff_diff_eq2 diff_diff_eq)
qed

text \<open>A run of \<open>put\<close> and \<open>get\<close> operations, with all that was put and all that was got.\<close>

inductive fifo_run ::
  "('q \<Rightarrow> 'b list \<Rightarrow> 'q \<Rightarrow> bool) \<Rightarrow> ('q \<Rightarrow> 'b list \<Rightarrow> 'q \<Rightarrow> bool) \<Rightarrow> 'q \<Rightarrow> 'b list \<Rightarrow> 'b list \<Rightarrow> 'q \<Rightarrow> bool"
  for put get where
  fifo_start: "fifo_run put get q [] [] q"
| fifo_put: "fifo_run put get q ws rs q' \<Longrightarrow> put q' bs q'' \<Longrightarrow> fifo_run put get q (ws @ bs) rs q''"
| fifo_get: "fifo_run put get q ws rs q' \<Longrightarrow> get q' bs q'' \<Longrightarrow> fifo_run put get q ws (rs @ bs) q''"

locale fifo =
  fixes put get :: "'q \<Rightarrow> 'b list \<Rightarrow> 'q \<Rightarrow> bool"
    and invar :: "'q \<Rightarrow> bool"
    and contents :: "'q \<Rightarrow> 'b list"
    and capacity :: nat
  assumes put_contents: "invar q \<Longrightarrow> put q bs q' \<Longrightarrow> contents q' = contents q @ bs"
    and get_contents: "invar q \<Longrightarrow> get q bs q' \<Longrightarrow> contents q = bs @ contents q'"
    and put_invar: "invar q \<Longrightarrow> put q bs q' \<Longrightarrow> invar q'"
    and get_invar: "invar q \<Longrightarrow> get q bs q' \<Longrightarrow> invar q'"
    and bounded: "invar q \<Longrightarrow> length (contents q) \<le> capacity"
begin

lemma run_invar: "fifo_run put get q ws rs q' \<Longrightarrow> invar q \<Longrightarrow> invar q'"
  by (induction rule: fifo_run.induct) (auto intro: put_invar get_invar)

lemma run_stream: "fifo_run put get q ws rs q' \<Longrightarrow> invar q \<Longrightarrow> contents q @ ws = rs @ contents q'"
proof (induction rule: fifo_run.induct)
  case (fifo_put q ws rs q' bs q'')
  then have "contents q'' = contents q' @ bs"
    using put_contents run_invar by blast
  with fifo_put show ?case by (metis append.assoc)
next
  case (fifo_get q ws rs q' bs q'')
  then have "contents q' = bs @ contents q''"
    using get_contents run_invar by blast
  with fifo_get show ?case by simp
qed simp

lemma run_bounded: "fifo_run put get q ws rs q' \<Longrightarrow> invar q \<Longrightarrow> length (contents q') \<le> capacity"
  using run_invar bounded by blast

end

locale ring =
  fixes N :: nat and width :: "'w::len itself"
  assumes N_pos: "0 < N" and N_dvd: "N dvd 2 ^ LENGTH('w)" and N_less: "N < 2 ^ LENGTH('w)"
begin

lemma slot_less [simp]: "slot N (k :: 'w word) < N"
  by (simp add: slot_def N_pos)

lemma slot_add: "slot N ((r :: 'w word) + of_nat k) = (unat r + k) mod N"
proof -
  have "unat (r + of_nat k) = (unat r + k) mod 2 ^ LENGTH('w)"
    by (simp add: unat_word_ariths unat_of_nat take_bit_eq_mod mod_add_right_eq)
  then show ?thesis
    by (simp only: slot_def mod_mod_cancel [OF N_dvd])
qed

lemma slot_neq:
  assumes "j < k" "k < N"
  shows "slot N ((r :: 'w word) + of_nat j) \<noteq> slot N (r + of_nat k)"
proof
  assume "slot N (r + of_nat j) = slot N (r + of_nat k)"
  then have "(unat r + k) mod N = (unat r + j) mod N" by (simp add: slot_add)
  then have "N dvd (unat r + k) - (unat r + j)"
    using assms by (intro mod_eq_dvd_iff_nat [THEN iffD1]) auto
  with assms show False by (auto dest: dvd_imp_le)
qed

lemma add_unat_diff: "(r :: 'w word) + of_nat (unat (w - r)) = w"
  by simp

lemma ring_list_length [simp]: "length (ring_list N d r w) = unat (w - (r :: 'w word))"
  by (simp add: ring_list_def)

lemma ring_list_empty [simp]: "ring_list N d r (r :: 'w word) = []"
  by (simp add: ring_list_def)

lemma ring_push:
  assumes len: "length d = N" and room: "unat (w - (r :: 'w word)) < N"
  shows "ring_list N (d[slot N w := x]) r (w + 1) = ring_list N d r w @ [x]"
proof -
  let ?n = "unat (w - r)"
  have w: "slot N w = slot N (r + of_nat ?n)" by simp
  have "unat ((w - r) + 1) = Suc ?n mod 2 ^ LENGTH('w)"
    by (simp add: unat_word_ariths)
  then have "unat ((w - r) + 1) = Suc ?n"
    using room N_less by (simp del: unat_word_ariths)
  then have "unat (w + 1 - r) = Suc ?n" by (simp add: algebra_simps)
  moreover have "k < ?n \<Longrightarrow> slot N w \<noteq> slot N (r + of_nat k)" for k
    unfolding w using slot_neq [of k ?n r] room by metis
  ultimately show ?thesis
    using len by (simp add: ring_list_def)
qed

lemma ring_pop:
  assumes "(r :: 'w word) \<noteq> w"
  shows "ring_list N d r w = d ! slot N r # ring_list N d (r + 1) w"
proof -
  have n: "unat (w - r) = Suc (unat (w - (r + 1)))"
    using assms unat_diff_step [of r w] by (simp add: unat_gt_0)
  have "map (\<lambda>k. d ! slot N (r + of_nat k)) [0..<Suc m] =
      d ! slot N r # map (\<lambda>k. d ! slot N (r + 1 + of_nat k)) [0..<m]" for m
    by (simp add: map_upt_Suc algebra_simps del: upt_Suc)
  then show ?thesis by (simp only: ring_list_def n)
qed

lemma ring_unpush:
  assumes "(w :: 'w word) \<noteq> e"
  shows "ring_list N d w e = ring_list N d w (e - 1) @ [d ! slot N (e - 1)]"
proof -
  have "e - w \<noteq> 0" using assms by simp
  then have "unat (e - w - 1) = unat (e - w) - 1" "0 < unat (e - w)" by (rule unat_minus_one, simp add: unat_gt_0)
  then have n: "unat (e - w) = Suc (unat (e - 1 - w))" by (simp add: algebra_simps)
  have "w + of_nat (unat (e - 1 - w)) = e - 1" by simp
  then show ?thesis by (simp only: ring_list_def n upt_Suc_append map_append list.map zero_le)
qed

lemma ring_list_split:
  assumes "unat (w - (r :: 'w word)) \<le> unat (e - r)"
  shows "ring_list N d r e = ring_list N d r w @ ring_list N d w e"
proof -
  let ?n = "unat (w - r)"
  have e: "unat (e - w) = unat (e - r) - ?n"
    using assms by (metis diff_diff_eq2 diff_add_cancel unat_sub word_le_nat_alt)
  have "[0..<unat (e - r)] = [0..<?n] @ map (\<lambda>k. k + ?n) [0..<unat (e - w)]"
    using assms by (simp add: e map_add_upt upt_add_eq_append [symmetric])
      (metis le_add_diff_inverse upt_add_eq_append zero_le add_0)
  then show ?thesis
    by (simp add: ring_list_def algebra_simps)
qed

end

end
