(* ===== verification/Pipe.thy ===== *)
theory Pipe
  imports Proc Ring
begin

text \<open>
  Pipes (\<^verbatim>\<open>kernel/pipe.c\<close>). The user's buffer is an argument: \<open>cin a\<close> is the byte that
  \<^verbatim>\<open>copyin\<close> reads at user address \<open>a\<close> (\<open>None\<close> when it fails) and \<open>cout a\<close> says whether
  \<^verbatim>\<open>copyout\<close> to \<open>a\<close> succeeds. A call that goes to sleep ends with the result \<open>PwSleep\<close> or
  \<open>PrSleep\<close>; it resumes by running the same loop again from there. Each operation also
  returns the bytes it moved. \<open>pi\<close> is the address of the pipe, as the wait channels need it.
\<close>

abbreviation (input) PIPESIZE :: nat where "PIPESIZE \<equiv> 512"

record pipe =
  pdata :: "byte list"
  nread :: u32
  nwrite :: u32
  readopen :: bool
  writeopen :: bool

text \<open>The fields \<^verbatim>\<open>pipealloc\<close> sets in the page it gets from \<^verbatim>\<open>kalloc\<close>; \<open>junk\<close> is what the page held.\<close>

definition pipe_init :: "byte list \<Rightarrow> pipe" where
  "pipe_init junk = \<lparr>pdata = junk, nread = 0, nwrite = 0, readopen = True, writeopen = True\<rparr>"

text \<open>The first component is \<open>None\<close> when the page is freed.\<close>

definition pipeclose :: "nat \<Rightarrow> bool \<Rightarrow> pipe \<Rightarrow> 'a pstate_scheme \<Rightarrow> pipe option \<times> 'a pstate_scheme" where
  "pipeclose pi writable p s =
     (let (p', s') = (if writable then (p\<lparr>writeopen := False\<rparr>, wakeup (ChPipeRead pi) s)
                      else (p\<lparr>readopen := False\<rparr>, wakeup (ChPipeWrite pi) s))
      in (if \<not> readopen p' \<and> \<not> writeopen p' then None else Some p', s'))"

datatype pw_result = PwRet int | PwSleep int

function pipewrite ::
  "nat \<Rightarrow> (u64 \<Rightarrow> byte option) \<Rightarrow> nat \<Rightarrow> u64 \<Rightarrow> int \<Rightarrow> int \<Rightarrow> pipe \<Rightarrow> 'a pstate_scheme
    \<Rightarrow> pw_result \<times> byte list \<times> pipe \<times> 'a pstate_scheme"
where
  "pipewrite pi cin pr addr n i p s =
     (if i < n then
        if \<not> readopen p \<or> killed pr s \<noteq> 0 then (PwRet (-1), [], p, s)
        else if nwrite p = nread p + of_nat PIPESIZE
        then (PwSleep i, [], p, wakeup (ChPipeRead pi) s)
        else (case cin (addr + of_int i) of
                None \<Rightarrow> (PwRet i, [], p, wakeup (ChPipeRead pi) s)
              | Some ch \<Rightarrow>
                  (case pipewrite pi cin pr addr n (i + 1)
                          (p\<lparr>pdata := (pdata p)[slot PIPESIZE (nwrite p) := ch],
                             nwrite := nwrite p + 1\<rparr>) s of
                     (r, bs, q) \<Rightarrow> (r, ch # bs, q)))
      else (PwRet i, [], p, wakeup (ChPipeRead pi) s))"
  by pat_completeness auto
termination
  by (relation "measure (\<lambda>(pi, cin, pr, addr, n, i, p, s). nat (n - i))") auto

datatype pr_result = PrRet int | PrSleep

function piperead_copy ::
  "(u64 \<Rightarrow> bool) \<Rightarrow> u64 \<Rightarrow> int \<Rightarrow> int \<Rightarrow> pipe \<Rightarrow> int \<times> byte list \<times> pipe"
where
  "piperead_copy cout addr n i p =
     (if i < n then
        if nread p = nwrite p then (i, [], p)
        else let ch = pdata p ! slot PIPESIZE (nread p)
             in if \<not> cout (addr + of_int i) then (if i = 0 then -1 else i, [], p)
                else (case piperead_copy cout addr n (i + 1) (p\<lparr>nread := nread p + 1\<rparr>) of
                        (r, bs, p') \<Rightarrow> (r, ch # bs, p'))
      else (i, [], p))"
  by pat_completeness auto
termination
  by (relation "measure (\<lambda>(cout, addr, n, i, p). nat (n - i))") auto

definition piperead ::
  "nat \<Rightarrow> (u64 \<Rightarrow> bool) \<Rightarrow> nat \<Rightarrow> u64 \<Rightarrow> int \<Rightarrow> pipe \<Rightarrow> 'a pstate_scheme
    \<Rightarrow> pr_result \<times> byte list \<times> pipe \<times> 'a pstate_scheme"
where
  "piperead pi cout pr addr n p s =
     (if nread p = nwrite p \<and> writeopen p then
        (if killed pr s \<noteq> 0 then (PrRet (-1), [], p, s) else (PrSleep, [], p, s))
      else (case piperead_copy cout addr n 0 p of
              (r, bs, p') \<Rightarrow> (PrRet r, bs, p', wakeup (ChPipeWrite pi) s)))"

section \<open>Invariant and contents\<close>

definition pipe_ok :: "pipe \<Rightarrow> bool" where
  "pipe_ok p \<longleftrightarrow> length (pdata p) = PIPESIZE \<and> unat (nwrite p - nread p) \<le> PIPESIZE"

definition pipe_contents :: "pipe \<Rightarrow> byte list" where
  "pipe_contents p = ring_list PIPESIZE (pdata p) (nread p) (nwrite p)"

interpretation pipe_ring: ring PIPESIZE "TYPE(32)"
  by unfold_locales simp_all

declare pipewrite.simps [simp del] piperead_copy.simps [simp del]

lemma length_pipe_contents: "length (pipe_contents p) = unat (nwrite p - nread p)"
  by (simp add: pipe_contents_def)

lemma pipe_full_iff:
  "pipe_ok p \<Longrightarrow> nwrite p = nread p + of_nat PIPESIZE \<longleftrightarrow> length (pipe_contents p) = PIPESIZE"
proof -
  have "nwrite p = nread p + 512 \<longleftrightarrow> nwrite p - nread p = 512" by (auto simp: algebra_simps)
  also have "\<dots> \<longleftrightarrow> unat (nwrite p - nread p) = 512"
    by (simp add: word_unat_eq_iff)
  finally show ?thesis by (simp add: length_pipe_contents)
qed

lemma pipe_ok_push:
  fixes ch :: byte
  assumes "pipe_ok p" "nwrite p \<noteq> nread p + of_nat PIPESIZE"
  defines "p' \<equiv> p\<lparr>pdata := (pdata p)[slot PIPESIZE (nwrite p) := ch], nwrite := nwrite p + 1\<rparr>"
  shows "pipe_ok p'" "pipe_contents p' = pipe_contents p @ [ch]"
proof -
  have room: "unat (nwrite p - nread p) < PIPESIZE"
    using assms pipe_full_iff [of p] by (auto simp: pipe_ok_def length_pipe_contents)
  show c: "pipe_contents p' = pipe_contents p @ [ch]"
    using assms(1) room pipe_ring.ring_push [of "pdata p" "nwrite p" "nread p" ch]
    by (simp add: p'_def pipe_contents_def pipe_ok_def)
  have "length (pipe_contents p') = Suc (length (pipe_contents p))" by (simp add: c)
  then show "pipe_ok p'"
    using assms(1) room by (simp add: pipe_ok_def p'_def length_pipe_contents)
qed

lemma pipe_ok_pop:
  assumes "pipe_ok p" "nread p \<noteq> nwrite p"
  shows "pipe_ok (p\<lparr>nread := nread p + 1\<rparr>)"
    "pipe_contents p = pdata p ! slot PIPESIZE (nread p) # pipe_contents (p\<lparr>nread := nread p + 1\<rparr>)"
  using assms unat_diff_step_u32 [of "nread p" "nwrite p"]
    pipe_ring.ring_pop [of "nread p" "nwrite p" "pdata p"]
  by (auto simp: pipe_ok_def pipe_contents_def)

lemma pipewrite_spec:
  assumes "pipewrite pi cin pr addr n i p s = (r, bs, p', s')" "pipe_ok p"
  shows "pipe_ok p' \<and> pipe_contents p' = pipe_contents p @ bs \<and>
    readopen p' = readopen p \<and> writeopen p' = writeopen p \<and>
    (\<forall>j < length bs. cin (addr + of_int (i + int j)) = Some (bs ! j)) \<and>
    (\<forall>k. r = PwRet k \<longrightarrow>
       k = i + int (length bs) \<or> k = -1 \<and> (\<not> readopen p \<or> killed pr s \<noteq> 0)) \<and>
    (\<forall>k. r = PwSleep k \<longrightarrow>
       k = i + int (length bs) \<and> k < n \<and> length (pipe_contents p') = PIPESIZE)"
  using assms
proof (induction pi cin pr addr n i p s arbitrary: r bs p' s' rule: pipewrite.induct)
  case (1 pi cin pr addr n i p s)
  show ?case
  proof (cases "i < n \<and> readopen p \<and> killed pr s = 0 \<and> nwrite p \<noteq> nread p + of_nat PIPESIZE \<and>
      cin (addr + of_int i) \<noteq> None")
    case False
    with "1.prems" pipe_full_iff [of p] show ?thesis
      by (auto simp: pipewrite.simps [of pi cin pr addr n i p s] split: if_splits option.splits)
  next
    case True
    then obtain ch where ch: "cin (addr + of_int i) = Some ch" by auto
    let ?p = "p\<lparr>pdata := (pdata p)[slot PIPESIZE (nwrite p) := ch], nwrite := nwrite p + 1\<rparr>"
    obtain bs1 where rec: "pipewrite pi cin pr addr n (i + 1) ?p s = (r, bs1, p', s')"
      and bs: "bs = ch # bs1"
      using "1.prems"(1) True ch
      by (auto simp: pipewrite.simps [of pi cin pr addr n i p s] split: prod.splits)
    note push = pipe_ok_push [OF "1.prems"(2), of ch]
    have IH: "pipe_ok p' \<and> pipe_contents p' = pipe_contents ?p @ bs1 \<and>
      readopen p' = readopen ?p \<and> writeopen p' = writeopen ?p \<and>
      (\<forall>j < length bs1. cin (addr + of_int (i + 1 + int j)) = Some (bs1 ! j)) \<and>
      (\<forall>k. r = PwRet k \<longrightarrow>
         k = i + 1 + int (length bs1) \<or> k = -1 \<and> (\<not> readopen ?p \<or> killed pr s \<noteq> 0)) \<and>
      (\<forall>k. r = PwSleep k \<longrightarrow>
         k = i + 1 + int (length bs1) \<and> k < n \<and> length (pipe_contents p') = PIPESIZE)"
      using True ch push by (intro "1.IH" [OF _ _ _ _ rec]) auto
    have "cin (addr + of_int (i + int j)) = Some (bs ! j)" if "j < length bs" for j
      using that IH ch bs by (cases j) (auto simp: algebra_simps)
    with IH push bs True show ?thesis by auto
  qed
qed

lemma piperead_copy_spec:
  assumes "piperead_copy cout addr n i p = (r, bs, p')" "pipe_ok p" "0 \<le> i"
  shows "pipe_ok p' \<and> pipe_contents p = bs @ pipe_contents p' \<and>
    readopen p' = readopen p \<and> writeopen p' = writeopen p \<and>
    (r = i + int (length bs) \<or> r = -1 \<and> i = 0 \<and> bs = []) \<and> (i \<le> n \<longrightarrow> i + int (length bs) \<le> n) \<and>
    ((\<forall>a. cout a) \<longrightarrow> r = i + int (length bs) \<and> (pipe_contents p' = [] \<or> r \<ge> n))"
  using assms
proof (induction cout addr n i p arbitrary: r bs p' rule: piperead_copy.induct)
  case (1 cout addr n i p)
  have empty: "nread p = nwrite p \<Longrightarrow> pipe_contents p = []"
    by (simp add: pipe_contents_def)
  show ?case
  proof (cases "i < n \<and> nread p \<noteq> nwrite p \<and> cout (addr + of_int i)")
    case False
    with "1.prems" empty show ?thesis
      by (auto simp: piperead_copy.simps [of cout addr n i p] Let_def split: if_splits)
  next
    case True
    let ?p = "p\<lparr>nread := nread p + 1\<rparr>"
    let ?ch = "pdata p ! slot PIPESIZE (nread p)"
    obtain bs1 where rec: "piperead_copy cout addr n (i + 1) ?p = (r, bs1, p')" and bs: "bs = ?ch # bs1"
      using "1.prems"(1) True
      by (auto simp: piperead_copy.simps [of cout addr n i p] Let_def split: prod.splits)
    from True have pop: "pipe_ok ?p" "pipe_contents p = ?ch # pipe_contents ?p"
      using pipe_ok_pop [OF "1.prems"(2)] by auto
    have "pipe_ok p' \<and> pipe_contents ?p = bs1 @ pipe_contents p' \<and>
      readopen p' = readopen ?p \<and> writeopen p' = writeopen ?p \<and>
      (r = i + 1 + int (length bs1) \<or> r = -1 \<and> i + 1 = 0 \<and> bs1 = []) \<and>
      (i + 1 \<le> n \<longrightarrow> i + 1 + int (length bs1) \<le> n) \<and>
      ((\<forall>a. cout a) \<longrightarrow>
         r = i + 1 + int (length bs1) \<and> (pipe_contents p' = [] \<or> r \<ge> n))"
      using True pop "1.prems"(3) by (intro "1.IH" [OF _ _ _ _ rec]) auto
    with pop bs True "1.prems"(3) show ?thesis by auto
  qed
qed

lemma piperead_spec:
  assumes "piperead pi cout pr addr n p s = (r, bs, p', s')" "pipe_ok p"
  shows "pipe_ok p' \<and> pipe_contents p = bs @ pipe_contents p' \<and>
    readopen p' = readopen p \<and> writeopen p' = writeopen p"
  using assms piperead_copy_spec [OF _ assms(2), of cout addr n 0]
  by (auto simp: piperead_def split: if_splits prod.splits)

lemma pipe_init_ok:
  "length junk = PIPESIZE \<Longrightarrow> pipe_ok (pipe_init junk)" "pipe_contents (pipe_init junk) = []"
  by (simp_all add: pipe_init_def pipe_ok_def pipe_contents_def)

lemma pipeclose_contents:
  "fst (pipeclose pi w p s) = Some p' \<Longrightarrow> pipe_contents p' = pipe_contents p \<and> pipe_ok p' = pipe_ok p"
  by (auto simp: pipeclose_def pipe_contents_def pipe_ok_def split: if_splits)

section \<open>The pipe as a first-in-first-out stream\<close>

text \<open>
  A put is any call of \<open>pipewrite\<close> (from its start or resumed after a sleep, by any process) that
  moves \<open>bs\<close> into the pipe, or a close of one end; a get is any call of \<open>piperead\<close>.
\<close>

definition pipe_put :: "pipe \<Rightarrow> byte list \<Rightarrow> pipe \<Rightarrow> bool" where
  "pipe_put p bs p' \<longleftrightarrow>
     (\<exists>pi cin pr addr n i (s :: pstate) r s'. pipewrite pi cin pr addr n i p s = (r, bs, p', s')) \<or>
     bs = [] \<and> (\<exists>pi w (s :: pstate). fst (pipeclose pi w p s) = Some p')"

definition pipe_get :: "pipe \<Rightarrow> byte list \<Rightarrow> pipe \<Rightarrow> bool" where
  "pipe_get p bs p' \<longleftrightarrow>
     (\<exists>pi cout pr addr n (s :: pstate) r s'. piperead pi cout pr addr n p s = (r, bs, p', s'))"

interpretation pipe_fifo: fifo pipe_put pipe_get pipe_ok pipe_contents PIPESIZE
proof unfold_locales
  fix q bs q'
  assume "pipe_ok q" "pipe_put q bs q'"
  then show "pipe_contents q' = pipe_contents q @ bs" and "pipe_ok q'"
    by (auto simp: pipe_put_def dest: pipewrite_spec pipeclose_contents)
next
  fix q bs q'
  assume "pipe_ok q" "pipe_get q bs q'"
  then show "pipe_contents q = bs @ pipe_contents q'" and "pipe_ok q'"
    by (auto simp: pipe_get_def dest: piperead_spec)
qed (simp add: pipe_ok_def length_pipe_contents)

text \<open>
  Property (C9). Every pipe is a faithful byte stream: after any interleaving of writes (partial,
  sleeping and resumed ones included), reads and closes on a fresh pipe, the bytes written are
  exactly the bytes read followed by the bytes still buffered, in order, across every wrap-around
  of the counters; and never more than 512 bytes are buffered.
\<close>

theorem pipe_stream_integrity:
  assumes "length junk = PIPESIZE" "fifo_run pipe_put pipe_get (pipe_init junk) ws rs p"
  shows "ws = rs @ pipe_contents p \<and> length (pipe_contents p) \<le> PIPESIZE"
  using pipe_fifo.run_stream [OF assms(2)] pipe_fifo.run_bounded [OF assms(2)] assms(1)
  by (simp add: pipe_init_ok)

theorem pipe_stream_integrity_witness:
  "\<exists>p. [7] = [7] @ pipe_contents p \<and> length (pipe_contents p) \<le> PIPESIZE"
proof -
  let ?q = "pipe_init (replicate 512 0)"
  let ?p = "?q\<lparr>pdata := (pdata ?q)[0 := 7], nwrite := 1\<rparr>"
  let ?s = "boot_pstate"
  have "pipewrite 0 (\<lambda>_. Some 7) 0 0 1 0 ?q ?s = (PwRet 1, [7], ?p, wakeup (ChPipeRead 0) ?s)"
    by (simp add: pipewrite.simps pipe_init_def killed_def boot_pstate_def zero_proc_def slot_def)
  then have put: "pipe_put ?q [7] ?p" unfolding pipe_put_def by blast
  have "piperead 0 (\<lambda>_. True) 0 0 1 ?p ?s = (PrRet 1, [7], ?p\<lparr>nread := 1\<rparr>, wakeup (ChPipeWrite 0) ?s)"
    by (simp add: piperead_def piperead_copy.simps pipe_init_def slot_def)
  then have get: "pipe_get ?p [7] (?p\<lparr>nread := 1\<rparr>)" unfolding pipe_get_def by blast
  have run: "fifo_run pipe_put pipe_get ?q [7] [7] (?p\<lparr>nread := 1\<rparr>)"
    using fifo_put [of pipe_put pipe_get ?q "[]" "[]" ?q, OF fifo_start put]
      fifo_get [of pipe_put pipe_get ?q "[7]" "[]" ?p, OF _ get] by simp
  show ?thesis
    using pipe_stream_integrity [OF _ run] by (intro exI [of _ "?p\<lparr>nread := 1\<rparr>"]) simp
qed

lemma pipewrite_completes:
  assumes "pipe_ok p" "readopen p" "killed pr s = 0" "0 \<le> i" "i \<le> n"
    "length (pipe_contents p) + nat (n - i) \<le> PIPESIZE"
    "\<And>j. i \<le> j \<Longrightarrow> j < n \<Longrightarrow> cin (addr + of_int j) \<noteq> None"
  shows "\<exists>bs p'. pipewrite pi cin pr addr n i p s = (PwRet n, bs, p', wakeup (ChPipeRead pi) s)"
  using assms
proof (induction pi cin pr addr n i p s rule: pipewrite.induct)
  case (1 pi cin pr addr n i p s)
  show ?case
  proof (cases "i < n")
    case False
    with "1.prems" show ?thesis by (simp add: pipewrite.simps)
  next
    case True
    with "1.prems"(7) obtain ch where ch: "cin (addr + of_int i) = Some ch" by force
    let ?p = "p\<lparr>pdata := (pdata p)[slot PIPESIZE (nwrite p) := ch], nwrite := nwrite p + 1\<rparr>"
    have room: "nwrite p \<noteq> nread p + of_nat PIPESIZE"
      using "1.prems"(1,6) True pipe_full_iff [of p] by auto
    note push = pipe_ok_push [OF "1.prems"(1) room, of ch]
    have "\<exists>bs p'. pipewrite pi cin pr addr n (i + 1) ?p s = (PwRet n, bs, p', wakeup (ChPipeRead pi) s)"
      using True "1.prems" ch room push by (intro "1.IH") auto
    with True "1.prems" ch room show ?thesis
      by (auto simp: pipewrite.simps [of pi cin pr addr n i p s])
  qed
qed

text \<open>
  A write into an empty pipe followed by a read of the same length hands over
  exactly the writer's bytes: with the read end open, a live writer, a readable source buffer of
  \<open>n \<le> 512\<close> bytes and a writable destination, neither call sleeps, both return \<open>n\<close>, the bytes
  delivered are the bytes at the writer's address, and the pipe is empty again, wherever the
  free-running counters stand (their wrap-around at \<open>2 ^ 32\<close> included).
\<close>

theorem pipe_write_read:
  assumes "pipe_ok p" "pipe_contents p = []" "readopen p" "killed pr s = 0" "0 < n" "n \<le> int PIPESIZE"
    and src: "\<And>j. 0 \<le> j \<Longrightarrow> j < n \<Longrightarrow> cin (addr + of_int j) \<noteq> None"
    and dst: "\<And>a. cout a"
  shows "\<exists>bs p1 s1 p2 s2.
      pipewrite pi cin pr addr n 0 p s = (PwRet n, bs, p1, s1) \<and>
      piperead pi cout rd addr' n p1 s1 = (PrRet n, bs, p2, s2) \<and>
      int (length bs) = n \<and> (\<forall>j < length bs. cin (addr + of_nat j) = Some (bs ! j)) \<and>
      pipe_contents p2 = []"
proof -
  let ?s1 = "wakeup (ChPipeRead pi) s"
  obtain bs p1 where w: "pipewrite pi cin pr addr n 0 p s = (PwRet n, bs, p1, ?s1)"
    using pipewrite_completes [of p pr s 0 n cin addr pi] assms by (auto simp: nat_le_iff)
  note W = pipewrite_spec [OF w assms(1)]
  have bs: "int (length bs) = n" "pipe_contents p1 = bs" using W assms by auto
  then have ne: "nread p1 \<noteq> nwrite p1" using assms(5) by (auto simp: pipe_contents_def)
  obtain r cs p2 where c: "piperead_copy cout addr' n 0 p1 = (r, cs, p2)" by (metis prod_cases3)
  note R = piperead_copy_spec [OF c]
  have R': "bs = cs @ pipe_contents p2" "r = int (length cs)" "int (length cs) \<le> n"
    "pipe_contents p2 = [] \<or> r \<ge> n"
    using R W bs dst assms(5) by auto
  then have e: "pipe_contents p2 = []" using bs(1) by auto
  have "piperead pi cout rd addr' n p1 ?s1 = (PrRet n, bs, p2, wakeup (ChPipeWrite pi) ?s1)"
    using c ne R' e bs(1) by (simp add: piperead_def)
  with w W bs e show ?thesis by fastforce
qed

text \<open>At the wrap-around: both counters stand at \<open>2 ^ 32 - 1\<close> and two bytes are passed.\<close>

theorem pipe_write_read_witness:
  "\<exists>bs p1 s1 p2 s2.
      pipewrite 0 (\<lambda>a. Some (ucast a)) 0 64 2 0
        ((pipe_init (replicate 512 0))\<lparr>nread := -1, nwrite := -1\<rparr>) boot_pstate = (PwRet 2, bs, p1, s1) \<and>
      piperead 0 (\<lambda>_. True) 1 0 2 p1 s1 = (PrRet 2, bs, p2, s2) \<and>
      int (length bs) = 2 \<and> (\<forall>j < length bs. Some (ucast ((64 :: u64) + of_nat j)) = Some (bs ! j)) \<and>
      pipe_contents p2 = []"
  by (rule pipe_write_read)
    (simp_all add: pipe_init_def pipe_ok_def pipe_contents_def killed_def boot_pstate_def zero_proc_def)

end
