(* ===== verification/Disk.thy ===== *)
theory Disk
  imports Spinlock Bytes
begin

text \<open>
  The disk as its clients see it: \<^verbatim>\<open>struct buf\<close> (\<^verbatim>\<open>kernel/buf.h\<close>), the medium, and the contract
  of \<^verbatim>\<open>virtio_disk_rw\<close>, which theory \<open>Virtio\<close> shows the driver to implement (\<open>virtio_rw_implements_disk_rw\<close>).

  The buffers are those of \<^verbatim>\<open>bcache\<close>: entry \<open>b < NBUF\<close> of \<open>bufs\<close> is \<^verbatim>\<open>bcache.buf[b]\<close> and entry
  \<open>HEAD\<close> is \<^verbatim>\<open>bcache.head\<close>; a \<^verbatim>\<open>struct buf *\<close> is an index. \<open>dwrites\<close> records the block writes in
  the order in which they reach the medium. It is history only: no operation reads it, and a
  crash is a prefix of it.
\<close>

abbreviation (input) HEAD :: nat where "HEAD \<equiv> NBUF"

record buf =
  b_valid :: bool
  b_disk :: bool
  b_dev :: u32
  b_blockno :: u32
  b_lock :: sleeplock
  b_refcnt :: u32
  b_prev :: nat
  b_next :: nat
  b_data :: block

record dstate = pstate +
  bufs :: "buf list"
  medium :: "nat \<Rightarrow> block"
  dwrites :: "(nat \<times> block) list"

definition upd_buf :: "nat \<Rightarrow> (buf \<Rightarrow> buf) \<Rightarrow> 'a dstate_scheme \<Rightarrow> 'a dstate_scheme" where
  "upd_buf b f s = s\<lparr>bufs := (bufs s)[b := f (bufs s ! b)]\<rparr>"

text \<open>The transfer that a call \<^verbatim>\<open>virtio_disk_rw(b, write)\<close> has performed when it returns.\<close>

definition disk_rw :: "nat \<Rightarrow> bool \<Rightarrow> 'a dstate_scheme \<Rightarrow> 'a dstate_scheme" where
  "disk_rw b write s =
     (let u = bufs s ! b; n = unat (b_blockno u)
      in if write then s\<lparr>medium := (medium s)(n := b_data u), dwrites := dwrites s @ [(n, b_data u)]\<rparr>
         else upd_buf b (\<lambda>u. u\<lparr>b_data := medium s n\<rparr>) s)"

definition apply_writes :: "(nat \<Rightarrow> block) \<Rightarrow> (nat \<times> block) list \<Rightarrow> nat \<Rightarrow> block" where
  "apply_writes m ws = foldl (\<lambda>m w. m(fst w := snd w)) m ws"

lemma apply_writes_simps [simp]:
  "apply_writes m [] = m"
  "apply_writes m (w # ws) = apply_writes (m(fst w := snd w)) ws"
  "apply_writes m (vs @ ws) = apply_writes (apply_writes m vs) ws"
  by (simp_all add: apply_writes_def)

lemma apply_writes_other: "n \<notin> fst ` set ws \<Longrightarrow> apply_writes m ws n = m n"
  by (induction ws arbitrary: m) auto

lemma apply_writes_distinct:
  "distinct (map fst ws) \<Longrightarrow> (n, d) \<in> set ws \<Longrightarrow> apply_writes m ws n = d"
proof (induction ws arbitrary: m)
  case (Cons w ws)
  then show ?case by (force simp: apply_writes_other)
qed simp

section \<open>Frame\<close>

lemma upd_buf_frame [simp]:
  "procs (upd_buf b f s) = procs s" "cpus (upd_buf b f s) = cpus s" "hartid (upd_buf b f s) = hartid s"
  "medium (upd_buf b f s) = medium s" "dwrites (upd_buf b f s) = dwrites s" "mem (upd_buf b f s) = mem s"
  "length (bufs (upd_buf b f s)) = length (bufs s)"
  "dstate.more (upd_buf b f s) = dstate.more s"
  by (simp_all add: upd_buf_def)

lemma nth_upd_buf:
  "b < length (bufs s) \<Longrightarrow> bufs (upd_buf b f s) ! c = (if c = b then f (bufs s ! b) else bufs s ! c)"
  by (simp add: upd_buf_def)

end
