(* ===== verification/Bio.thy ===== *)
theory Bio
  imports Disk
begin

text \<open>
  The buffer cache (\<^verbatim>\<open>kernel/bio.c\<close>), with its doubly linked list in pointers. A call that would
  have to wait for a sleep lock ends with \<open>Inl (Sleeps ch)\<close>.

  The list is abstracted to the sequence of buffer numbers from the most to the least recently
  released one (\<open>dll\<close>), and the whole cache to what its clients see: the contents \<open>view\<close> of every
  block, how often it is referenced (\<open>refs\<close>) and its lock (\<open>blk_lock\<close>).
\<close>

section \<open>Operations\<close>

definition link_front :: "nat \<Rightarrow> 'a dstate_scheme \<Rightarrow> 'a dstate_scheme" where
  "link_front b s =
     (let s = upd_buf b (\<lambda>u. u\<lparr>b_next := b_next (bufs s ! HEAD)\<rparr>) s;
          s = upd_buf b (\<lambda>u. u\<lparr>b_prev := HEAD\<rparr>) s;
          s = upd_buf (b_next (bufs s ! HEAD)) (\<lambda>u. u\<lparr>b_prev := b\<rparr>) s
      in upd_buf HEAD (\<lambda>u. u\<lparr>b_next := b\<rparr>) s)"

definition unlink :: "nat \<Rightarrow> 'a dstate_scheme \<Rightarrow> 'a dstate_scheme" where
  "unlink b s =
     (let s = upd_buf (b_next (bufs s ! b)) (\<lambda>u. u\<lparr>b_prev := b_prev (bufs s ! b)\<rparr>) s
      in upd_buf (b_prev (bufs s ! b)) (\<lambda>u. u\<lparr>b_next := b_next (bufs s ! b)\<rparr>) s)"

definition binit :: "'a dstate_scheme \<Rightarrow> 'a dstate_scheme" where
  "binit s =
     (let s = upd_buf HEAD (\<lambda>u. u\<lparr>b_prev := HEAD, b_next := HEAD\<rparr>) s
      in fold (\<lambda>b s. upd_buf b (\<lambda>u. u\<lparr>b_lock := initsleeplock\<rparr>) (link_front b s)) [0..<NBUF] s)"

text \<open>
  The two searches of \<^verbatim>\<open>bget\<close>. A search that has not come back to the head after \<open>NBUF + 1\<close>
  steps never does; \<open>bscan_find\<close> shows that on a proper list it always does.
\<close>

abbreviation (input) SCANFUEL :: nat where "SCANFUEL \<equiv> 31"

fun bscan :: "(buf \<Rightarrow> bool) \<Rightarrow> (buf \<Rightarrow> nat) \<Rightarrow> buf list \<Rightarrow> nat \<Rightarrow> nat \<Rightarrow> (nat option) res" where
  "bscan P nx bs 0 b = Inl Diverges"
| "bscan P nx bs (Suc k) b =
     (if b = HEAD then Inr None
      else if P (bs ! b) then Inr (Some b)
      else bscan P nx bs k (nx (bs ! b)))"

definition lock_buf :: "nat \<Rightarrow> 'a dstate_scheme \<Rightarrow> (nat \<times> 'a dstate_scheme) res" where
  "lock_buf b s =
     rbind (acquiresleep (ChBufLock b) (b_lock (bufs s ! b)) s) (\<lambda>l.
       Inr (b, upd_buf b (\<lambda>u. u\<lparr>b_lock := l\<rparr>) s))"

definition bget :: "u32 \<Rightarrow> u32 \<Rightarrow> 'a dstate_scheme \<Rightarrow> (nat \<times> 'a dstate_scheme) res" where
  "bget dev blockno s =
     rbind (bscan (\<lambda>u. b_dev u = dev \<and> b_blockno u = blockno) b_next (bufs s) SCANFUEL
              (b_next (bufs s ! HEAD))) (\<lambda>hit.
     case hit of
       Some b \<Rightarrow> lock_buf b (upd_buf b (\<lambda>u. u\<lparr>b_refcnt := b_refcnt u + 1\<rparr>) s)
     | None \<Rightarrow>
         rbind (bscan (\<lambda>u. b_refcnt u = 0) b_prev (bufs s) SCANFUEL (b_prev (bufs s ! HEAD))) (\<lambda>free.
         case free of
           None \<Rightarrow> Inl (Panic ''bget: no buffers'')
         | Some b \<Rightarrow>
             lock_buf b (upd_buf b (\<lambda>u. u\<lparr>b_dev := dev, b_blockno := blockno, b_valid := False,
                                           b_refcnt := 1\<rparr>) s)))"

definition bread :: "u32 \<Rightarrow> u32 \<Rightarrow> 'a dstate_scheme \<Rightarrow> (nat \<times> 'a dstate_scheme) res" where
  "bread dev blockno s =
     rbind (bget dev blockno s) (\<lambda>(b, s).
       Inr (b, if b_valid (bufs s ! b) then s
               else upd_buf b (\<lambda>u. u\<lparr>b_valid := True\<rparr>) (disk_rw b False s)))"

definition bwrite :: "nat \<Rightarrow> 'a dstate_scheme \<Rightarrow> 'a dstate_scheme res" where
  "bwrite b s =
     rbind (holdingsleep (b_lock (bufs s ! b)) s) (\<lambda>h.
     rbind (panic_if (\<not> h) ''bwrite'') (\<lambda>_. Inr (disk_rw b True s)))"

definition brelse :: "nat \<Rightarrow> 'a dstate_scheme \<Rightarrow> 'a dstate_scheme res" where
  "brelse b s =
     rbind (holdingsleep (b_lock (bufs s ! b)) s) (\<lambda>h.
     rbind (panic_if (\<not> h) ''brelse'') (\<lambda>_.
       let (l, s) = releasesleep (ChBufLock b) (b_lock (bufs s ! b)) s;
           s = upd_buf b (\<lambda>u. u\<lparr>b_lock := l\<rparr>) s;
           s = upd_buf b (\<lambda>u. u\<lparr>b_refcnt := b_refcnt u - 1\<rparr>) s
       in Inr (if b_refcnt (bufs s ! b) = 0 then link_front b (unlink b s) else s)))"

definition bpin :: "nat \<Rightarrow> 'a dstate_scheme \<Rightarrow> 'a dstate_scheme" where
  "bpin b s = upd_buf b (\<lambda>u. u\<lparr>b_refcnt := b_refcnt u + 1\<rparr>) s"

definition bunpin :: "nat \<Rightarrow> 'a dstate_scheme \<Rightarrow> 'a dstate_scheme" where
  "bunpin b s = upd_buf b (\<lambda>u. u\<lparr>b_refcnt := b_refcnt u - 1\<rparr>) s"

section \<open>The linked list\<close>

fun path :: "(nat \<Rightarrow> nat) \<Rightarrow> nat \<Rightarrow> nat list \<Rightarrow> nat \<Rightarrow> bool" where
  "path nx a [] e \<longleftrightarrow> nx a = e"
| "path nx a (x # xs) e \<longleftrightarrow> nx a = x \<and> path nx x xs e"

definition nextf :: "buf list \<Rightarrow> nat \<Rightarrow> nat" where "nextf bs b = b_next (bs ! b)"
definition prevf :: "buf list \<Rightarrow> nat \<Rightarrow> nat" where "prevf bs b = b_prev (bs ! b)"

definition dll :: "buf list \<Rightarrow> nat list \<Rightarrow> bool" where
  "dll bs xs \<longleftrightarrow> length bs = Suc NBUF \<and> distinct xs \<and> set xs \<subseteq> {..<NBUF} \<and>
     path (nextf bs) HEAD xs HEAD \<and> path (prevf bs) HEAD (rev xs) HEAD"

lemma path_append [simp]: "path nx a (xs @ y # ys) e \<longleftrightarrow> path nx a xs y \<and> path nx y ys e"
  by (induction xs arbitrary: a) auto

lemma path_upd: "c \<notin> set (a # xs) \<Longrightarrow> path (nx(c := v)) a xs e = path nx a xs e"
  by (induction xs arbitrary: a) auto

lemma path_end: "path nx a xs e \<Longrightarrow> nx (last (a # xs)) = e"
  by (induction xs arbitrary: a) auto

lemma path_start: "path nx a xs e \<Longrightarrow> nx a = hd (xs @ [e])"
  by (cases xs) auto

text \<open>Redirecting the last link, and taking an element out.\<close>

lemma path_redirect:
  "path nx a xs e \<Longrightarrow> distinct (a # xs) \<Longrightarrow> path (nx(last (a # xs) := e')) a xs e'"
  by (induction xs arbitrary: a) (auto simp: path_upd)

lemma path_remove:
  assumes "path nx a (us @ b # vs) e" "distinct (a # us @ b # vs)"
  shows "path (nx(last (a # us) := nx b)) a (us @ vs) e"
proof (cases vs)
  case Nil
  with assms show ?thesis using path_redirect [of nx a us b e] by auto
next
  case (Cons v vs')
  have "last (a # us) \<noteq> v" "last (a # us) \<notin> set vs'"
    using assms(2) Cons by (auto simp: last_in_set split: if_splits dest: last_in_set)
  moreover have "path nx a us b" "nx b = v" "path nx v vs' e" using assms(1) Cons by auto
  moreover from calculation have "path (nx(last (a # us) := v)) a us v"
    using path_redirect assms(2) by (metis distinct_append append_Cons)
  ultimately show ?thesis using Cons by (simp add: path_upd)
qed

lemma path_push_front:
  "path nx a xs e \<Longrightarrow> b \<notin> set (a # xs) \<Longrightarrow> a \<notin> set xs \<Longrightarrow> path (nx(b := nx a, a := b)) a (b # xs) e"
  by (cases xs) (auto simp: path_upd)

lemma path_push_back:
  assumes "path nx a xs e" "b \<notin> set (a # xs)" "distinct (a # xs)"
  shows "path (nx(b := e, last (a # xs) := b)) a (xs @ [b]) e"
proof -
  have "path (nx(b := e)) a xs e" using assms by (simp add: path_upd)
  then have "path (nx(b := e, last (a # xs) := b)) a xs b"
    using path_redirect assms(3) by blast
  moreover have "last (a # xs) \<noteq> b" using assms(2) by (metis last_in_set list.distinct(1))
  ultimately show ?thesis by simp
qed

lemma bscan_find:
  "path (\<lambda>b. nx (bs ! b)) a xs HEAD \<Longrightarrow> HEAD \<notin> set xs \<Longrightarrow> length xs < k \<Longrightarrow>
   bscan P nx bs k (nx (bs ! a)) = Inr (find (\<lambda>b. P (bs ! b)) xs)"
proof (induction xs arbitrary: a k)
  case Nil
  then show ?case by (cases k) auto
next
  case (Cons x xs)
  then show ?case by (cases k) auto
qed

lemma dll_length: "dll bs xs \<Longrightarrow> length xs \<le> NBUF"
  by (metis card_lessThan card_mono distinct_card dll_def finite_lessThan)

lemma bscan_forward:
  "dll bs xs \<Longrightarrow> bscan P b_next bs SCANFUEL (b_next (bs ! HEAD)) = Inr (find (\<lambda>b. P (bs ! b)) xs)"
  using dll_length [of bs xs] by (intro bscan_find) (auto simp: dll_def nextf_def [abs_def])

lemma bscan_backward:
  "dll bs xs \<Longrightarrow> bscan P b_prev bs SCANFUEL (b_prev (bs ! HEAD)) = Inr (find (\<lambda>b. P (bs ! b)) (rev xs))"
  using dll_length [of bs xs] by (intro bscan_find) (auto simp: dll_def prevf_def [abs_def])

text \<open>Everything in a buffer but its links.\<close>

definition core :: "buf \<Rightarrow> buf" where
  "core u = u\<lparr>b_prev := 0, b_next := 0\<rparr>"

lemma core_simps [simp]:
  "core (u\<lparr>b_prev := p\<rparr>) = core u" "core (u\<lparr>b_next := p\<rparr>) = core u"
  "b_valid (core u) = b_valid u" "b_disk (core u) = b_disk u" "b_dev (core u) = b_dev u"
  "b_blockno (core u) = b_blockno u" "b_lock (core u) = b_lock u" "b_refcnt (core u) = b_refcnt u"
  "b_data (core u) = b_data u"
  by (simp_all add: core_def)

lemma upd_buf_core: "core (f (bufs s ! b)) = core (bufs s ! b) \<Longrightarrow> map core (bufs (upd_buf b f s)) = map core (bufs s)"
  by (simp add: upd_buf_def map_list_update_id)

lemma link_front_core [simp]: "map core (bufs (link_front b s)) = map core (bufs s)"
  by (simp add: link_front_def upd_buf_core Let_def)

lemma unlink_core [simp]: "map core (bufs (unlink b s)) = map core (bufs s)"
  by (simp add: unlink_def upd_buf_core Let_def)

lemma link_front_links:
  assumes "length (bufs s) = Suc NBUF" "b < NBUF" "nextf (bufs s) HEAD \<le> NBUF" "nextf (bufs s) HEAD \<noteq> b"
  shows "nextf (bufs (link_front b s)) = (nextf (bufs s))(b := nextf (bufs s) HEAD, HEAD := b)"
    "prevf (bufs (link_front b s)) = (prevf (bufs s))(b := HEAD, nextf (bufs s) HEAD := b)"
  using assms
  by (auto simp: link_front_def upd_buf_def Let_def nextf_def prevf_def fun_eq_iff nth_list_update)

lemma unlink_links:
  assumes "length (bufs s) = Suc NBUF" "b < NBUF" "nextf (bufs s) b \<le> NBUF" "prevf (bufs s) b \<le> NBUF"
    "nextf (bufs s) b \<noteq> b" "prevf (bufs s) b \<noteq> b"
  shows "nextf (bufs (unlink b s)) = (nextf (bufs s))(prevf (bufs s) b := nextf (bufs s) b)"
    "prevf (bufs (unlink b s)) = (prevf (bufs s))(nextf (bufs s) b := prevf (bufs s) b)"
  using assms
  by (auto simp: unlink_def upd_buf_def Let_def nextf_def prevf_def fun_eq_iff nth_list_update)

lemma last_rev_hd: "last (a # rev xs) = hd (xs @ [a])"
  by (cases xs) auto

lemma dll_link_front:
  assumes "dll (bufs s) xs" "b < NBUF" "b \<notin> set xs"
  shows "dll (bufs (link_front b s)) (b # xs)"
proof -
  have n: "path (nextf (bufs s)) HEAD xs HEAD" and p: "path (prevf (bufs s)) HEAD (rev xs) HEAD"
    and l: "length (bufs s) = Suc NBUF" and d: "distinct (HEAD # xs)" "set xs \<subseteq> {..<NBUF}"
    using assms by (auto simp: dll_def)
  have h: "nextf (bufs s) HEAD = hd (xs @ [HEAD])" using n by (rule path_start)
  then have "nextf (bufs s) HEAD \<in> set xs \<union> {HEAD}" by (cases xs) auto
  then have "nextf (bufs s) HEAD \<le> NBUF" "nextf (bufs s) HEAD \<noteq> b" using d assms by auto
  note links = link_front_links [OF l assms(2) this]
  have "path (nextf (bufs (link_front b s))) HEAD (b # xs) HEAD"
    unfolding links using n assms d by (intro path_push_front) auto
  moreover have "path (prevf (bufs (link_front b s))) HEAD (rev xs @ [b]) HEAD"
    unfolding links h last_rev_hd [symmetric] using p assms d by (intro path_push_back) auto
  moreover have "length (bufs (link_front b s)) = Suc NBUF"
    using l link_front_core by (metis length_map)
  ultimately show ?thesis using assms d by (simp add: dll_def)
qed

lemma dll_unlink:
  assumes "dll (bufs s) (us @ b # vs)"
  shows "dll (bufs (unlink b s)) (us @ vs)"
proof -
  have n: "path (nextf (bufs s)) HEAD (us @ b # vs) HEAD"
    and p: "path (prevf (bufs s)) HEAD (rev vs @ b # rev us) HEAD"
    and l: "length (bufs s) = Suc NBUF"
    and d: "distinct (HEAD # us @ b # vs)" "set (us @ b # vs) \<subseteq> {..<NBUF}"
    using assms by (auto simp: dll_def)
  have nb: "nextf (bufs s) b = last (HEAD # rev vs)" and pb: "prevf (bufs s) b = last (HEAD # us)"
    using n p path_start [of "nextf (bufs s)" b vs HEAD] path_start [of "prevf (bufs s)" b "rev us" HEAD]
      last_rev_hd [of HEAD "rev us"] last_rev_hd [of HEAD vs] by auto
  have "last (HEAD # rev vs) \<in> set vs \<union> {HEAD}" "last (HEAD # us) \<in> set us \<union> {HEAD}"
    by (cases vs; simp) (cases us rule: rev_cases; simp)
  then have "nextf (bufs s) b \<le> NBUF" "prevf (bufs s) b \<le> NBUF"
    "nextf (bufs s) b \<noteq> b" "prevf (bufs s) b \<noteq> b" "b < NBUF"
    using d nb pb by auto
  note links = unlink_links [OF l this(5) this(1-4)]
  have "path (nextf (bufs (unlink b s))) HEAD (us @ vs) HEAD"
    unfolding links pb using n d by (intro path_remove) auto
  moreover have "path (prevf (bufs (unlink b s))) HEAD (rev vs @ rev us) HEAD"
    unfolding links nb using p d by (intro path_remove) auto
  moreover have "length (bufs (unlink b s)) = Suc NBUF"
    using l unlink_core by (metis length_map)
  ultimately show ?thesis using d by (simp add: dll_def)
qed

lemma dll_upd_buf:
  assumes "\<And>u. b_next (f u) = b_next u" "\<And>u. b_prev (f u) = b_prev u"
  shows "dll (bufs (upd_buf b f s)) xs = dll (bufs s) xs"
proof -
  have "map b_next (bufs (upd_buf b f s)) = map b_next (bufs s)" "map b_prev (bufs (upd_buf b f s)) = map b_prev (bufs s)"
    using assms by (simp_all add: upd_buf_def map_list_update_id)
  then have "nextf (bufs (upd_buf b f s)) c = nextf (bufs s) c \<and> prevf (bufs (upd_buf b f s)) c = prevf (bufs s) c"
    if "c < length (bufs s)" for c
    using that by (metis length_map nextf_def prevf_def nth_map)
  then have "path (nextf (bufs (upd_buf b f s))) a xs e = path (nextf (bufs s)) a xs e \<and>
      path (prevf (bufs (upd_buf b f s))) a xs e = path (prevf (bufs s)) a xs e"
    if "set (a # xs) \<subseteq> {..<length (bufs s)}" for a xs e
    using that by (induction xs arbitrary: a) auto
  note eq = this
  show ?thesis
  proof (cases "length (bufs s) = Suc NBUF \<and> set xs \<subseteq> {..<NBUF}")
    case True
    then have "set (HEAD # xs) \<subseteq> {..<length (bufs s)}" by auto
    with eq [of HEAD xs HEAD] eq [of HEAD "rev xs" HEAD] show ?thesis
      by (simp add: dll_def)
  qed (auto simp: dll_def)
qed

section \<open>What the clients see\<close>

definition cached_in :: "'a dstate_scheme \<Rightarrow> u32 \<Rightarrow> nat \<Rightarrow> bool" where
  "cached_in s n b \<longleftrightarrow> b < NBUF \<and> b_dev (bufs s ! b) = of_nat ROOTDEV \<and> b_blockno (bufs s ! b) = n"

definition slot_of :: "'a dstate_scheme \<Rightarrow> u32 \<Rightarrow> nat option" where
  "slot_of s n = find (cached_in s n) [0..<NBUF]"

definition view :: "'a dstate_scheme \<Rightarrow> u32 \<Rightarrow> block" where
  "view s n = (case slot_of s n of
       Some b \<Rightarrow> if b_valid (bufs s ! b) then b_data (bufs s ! b) else medium s (unat n)
     | None \<Rightarrow> medium s (unat n))"

definition refs :: "'a dstate_scheme \<Rightarrow> u32 \<Rightarrow> nat" where
  "refs s n = (case slot_of s n of Some b \<Rightarrow> unat (b_refcnt (bufs s ! b)) | None \<Rightarrow> 0)"

definition blk_lock :: "'a dstate_scheme \<Rightarrow> u32 \<Rightarrow> sleeplock" where
  "blk_lock s n = (case slot_of s n of Some b \<Rightarrow> b_lock (bufs s ! b) | None \<Rightarrow> initsleeplock)"

definition busy :: "'a dstate_scheme \<Rightarrow> u32 set" where
  "busy s = {n. 0 < refs s n}"

text \<open>
  The invariant. An unreferenced buffer is unlocked and, if valid, holds what is on the medium;
  no block of the root device is cached twice. (A buffer of device 0 has never been used.)
\<close>

definition buf_ok :: "(nat \<Rightarrow> block) \<Rightarrow> buf \<Rightarrow> bool" where
  "buf_ok m u \<longleftrightarrow> b_dev u \<in> {0, of_nat ROOTDEV} \<and> length (b_data u) = BSIZE \<and>
     (slocked (b_lock u) \<or> b_lock u = initsleeplock) \<and>
     (b_refcnt u = 0 \<longrightarrow> \<not> slocked (b_lock u) \<and>
        (b_valid u \<and> b_dev u = of_nat ROOTDEV \<longrightarrow> b_data u = m (unat (b_blockno u)))) \<and>
     (b_dev u = 0 \<longrightarrow> b_refcnt u = 0)"

definition cache_ok :: "'a dstate_scheme \<Rightarrow> bool" where
  "cache_ok s \<longleftrightarrow> (\<exists>xs. dll (bufs s) xs \<and> set xs = {..<NBUF}) \<and>
     (\<forall>b < NBUF. buf_ok (medium s) (bufs s ! b)) \<and>
     (\<forall>b c n. cached_in s n b \<longrightarrow> cached_in s n c \<longrightarrow> b = c) \<and>
     (\<forall>n. length (medium s n) = BSIZE)"

lemma cache_okD:
  assumes "cache_ok s"
  shows "length (bufs s) = Suc NBUF" "b < NBUF \<Longrightarrow> buf_ok (medium s) (bufs s ! b)"
    "cached_in s n b \<Longrightarrow> cached_in s n c \<Longrightarrow> b = c" "length (medium s k) = BSIZE"
    "\<exists>xs. dll (bufs s) xs \<and> set xs = {..<NBUF}"
  using assms by (auto simp: cache_ok_def dll_def)

lemma slot_of_None: "slot_of s n = None \<longleftrightarrow> (\<forall>b. \<not> cached_in s n b)"
  by (auto simp: slot_of_def find_None_iff cached_in_def)

lemma slot_of_Some: "cache_ok s \<Longrightarrow> slot_of s n = Some b \<longleftrightarrow> cached_in s n b"
  using cache_okD(3) [of s n]
  by (metis find_Some_iff not_None_eq slot_of_None slot_of_def)

lemma view_cached:
  "cache_ok s \<Longrightarrow> cached_in s n b \<Longrightarrow>
   view s n = (if b_valid (bufs s ! b) then b_data (bufs s ! b) else medium s (unat n))"
  "cache_ok s \<Longrightarrow> cached_in s n b \<Longrightarrow> refs s n = unat (b_refcnt (bufs s ! b))"
  "cache_ok s \<Longrightarrow> cached_in s n b \<Longrightarrow> blk_lock s n = b_lock (bufs s ! b)"
  by (simp_all add: view_def refs_def blk_lock_def slot_of_Some [THEN iffD2])

lemma view_uncached:
  "slot_of s n = None \<Longrightarrow> view s n = medium s (unat n)"
  "slot_of s n = None \<Longrightarrow> refs s n = 0"
  "slot_of s n = None \<Longrightarrow> blk_lock s n = initsleeplock"
  by (simp_all add: view_def refs_def blk_lock_def)

lemma slot_cases:
  obtains (uncached) "slot_of s n = None" | (cached) b where "cached_in s n b"
  using slot_of_None [of s n] by auto

lemma length_view: "cache_ok s \<Longrightarrow> length (view s n) = BSIZE"
  by (cases s n rule: slot_cases)
    (auto simp: view_uncached view_cached cached_in_def buf_ok_def dest: cache_okD(2,4))

text \<open>A block that nobody references reads as the medium and is unlocked.\<close>

lemma view_idle:
  assumes "cache_ok s" "refs s n = 0"
  shows "view s n = medium s (unat n)" "blk_lock s n = initsleeplock"
proof -
  show "view s n = medium s (unat n)"
  proof (cases s n rule: slot_cases)
    case (cached b)
    with assms cache_okD(2) [OF assms(1), of b] show ?thesis
      by (auto simp: view_cached cached_in_def buf_ok_def unat_eq_zero)
  qed (simp add: view_uncached)
  show "blk_lock s n = initsleeplock"
  proof (cases s n rule: slot_cases)
    case (cached b)
    with assms cache_okD(2) [OF assms(1), of b] show ?thesis
      by (auto simp: view_cached cached_in_def buf_ok_def unat_eq_zero)
  qed (simp add: view_uncached)
qed

lemma core_same:
  assumes "map core (bufs s') = map core (bufs s)" and that: "b < length (bufs s)"
  shows "b_valid (bufs s' ! b) = b_valid (bufs s ! b) \<and> b_dev (bufs s' ! b) = b_dev (bufs s ! b) \<and>
     b_blockno (bufs s' ! b) = b_blockno (bufs s ! b) \<and> b_lock (bufs s' ! b) = b_lock (bufs s ! b) \<and>
     b_refcnt (bufs s' ! b) = b_refcnt (bufs s ! b) \<and> b_data (bufs s' ! b) = b_data (bufs s ! b)"
proof -
  have "core (bufs s' ! b) = core (bufs s ! b)"
    using assms that by (metis length_map nth_map)
  then show ?thesis by (metis core_simps(3,5-9))
qed

lemma links_only:
  assumes "map core (bufs s') = map core (bufs s)" "medium s' = medium s" "length (bufs s) = Suc NBUF"
  shows "cached_in s' = cached_in s" "view s' = view s" "refs s' = refs s" "blk_lock s' = blk_lock s"
    "b < NBUF \<Longrightarrow> buf_ok m (bufs s' ! b) = buf_ok m (bufs s ! b)"
proof -
  note C = core_same [OF assms(1)]
  show c: "cached_in s' = cached_in s"
    using C assms(3) by (auto simp: cached_in_def fun_eq_iff)
  have bd: "slot_of s n = Some b \<Longrightarrow> b < length (bufs s)" for n b
    using assms(3) by (auto simp: slot_of_def find_Some_iff)
  have sl: "slot_of s' = slot_of s" by (simp add: slot_of_def c fun_eq_iff)
  show "view s' = view s" "refs s' = refs s" "blk_lock s' = blk_lock s"
    by (auto simp: view_def refs_def blk_lock_def sl assms(2) fun_eq_iff C [OF bd] split: option.split)
  show "b < NBUF \<Longrightarrow> buf_ok m (bufs s' ! b) = buf_ok m (bufs s ! b)"
    using C [of b] assms(3) by (simp add: buf_ok_def)
qed

text \<open>
  Replacing one buffer: either it keeps its identity, or it was unreferenced and becomes the
  buffer of a block that was not cached.
\<close>

definition buf_update :: "'a dstate_scheme \<Rightarrow> nat \<Rightarrow> (buf \<Rightarrow> buf) \<Rightarrow> u32 \<Rightarrow> bool" where
  "buf_update s b f n \<longleftrightarrow> cache_ok s \<and> b < NBUF \<and>
     (\<forall>u. b_next (f u) = b_next u \<and> b_prev (f u) = b_prev u) \<and>
     b_dev (f (bufs s ! b)) = of_nat ROOTDEV \<and> b_blockno (f (bufs s ! b)) = n \<and>
     buf_ok (medium s) (f (bufs s ! b)) \<and>
     (cached_in s n b \<or> slot_of s n = None \<and> b_refcnt (bufs s ! b) = 0)"

lemma buf_update_nth:
  "buf_update s b f n \<Longrightarrow> bufs (upd_buf b f s) ! c = (if c = b then f (bufs s ! b) else bufs s ! c)"
  using nth_upd_buf [of b s f c] cache_okD(1) [of s] by (auto simp: buf_update_def)

lemma buf_update_cached:
  assumes "buf_update s b f n"
  shows "cached_in (upd_buf b f s) k c \<longleftrightarrow> (if c = b then k = n else k \<noteq> n \<and> cached_in s k c)"
proof -
  have "c \<noteq> b \<Longrightarrow> \<not> cached_in s n c"
    using assms cache_okD(3) [of s n c b] slot_of_None [of s n] by (auto simp: buf_update_def)
  then show ?thesis
    using assms buf_update_nth [OF assms, of c] by (auto simp: cached_in_def buf_update_def)
qed

lemma buf_update_ok:
  assumes "buf_update s b f n"
  shows "cache_ok (upd_buf b f s)"
proof -
  have ok: "cache_ok s" using assms by (simp add: buf_update_def)
  have "b1 = b2" if "cached_in (upd_buf b f s) k b1" "cached_in (upd_buf b f s) k b2" for k b1 b2
    using that cache_okD(3) [OF ok] by (simp add: buf_update_cached [OF assms] split: if_splits)
  with cache_okD [OF ok] assms show ?thesis
    unfolding cache_ok_def by (auto simp: buf_update_nth [OF assms] dll_upd_buf buf_update_def)
qed

lemma buf_update_frame:
  assumes "buf_update s b f n" "k \<noteq> n"
  shows "view (upd_buf b f s) k = view s k \<and> refs (upd_buf b f s) k = refs s k \<and>
    blk_lock (upd_buf b f s) k = blk_lock s k"
proof (cases "upd_buf b f s" k rule: slot_cases)
  case (cached c)
  with assms have "c \<noteq> b" "cached_in s k c" by (auto simp: buf_update_cached split: if_splits)
  moreover have "cache_ok s" using assms(1) by (simp add: buf_update_def)
  ultimately show ?thesis
    using cached assms(1) by (simp add: view_cached buf_update_ok buf_update_nth)
next
  case uncached
  have ok: "cache_ok s" using assms(1) by (simp add: buf_update_def)
  have "refs s k = 0"
  proof (cases s k rule: slot_cases)
    case (cached c)
    with uncached assms have "c = b" using buf_update_cached [OF assms(1)] slot_of_None by metis
    with cached assms ok show ?thesis by (auto simp: view_cached cached_in_def buf_update_def)
  qed (simp add: view_uncached)
  with uncached ok show ?thesis by (simp add: view_uncached view_idle)
qed

lemma buf_update_view:
  assumes "buf_update s b f n"
  shows "view (upd_buf b f s) =
      (view s)(n := if b_valid (f (bufs s ! b)) then b_data (f (bufs s ! b)) else medium s (unat n))"
    "refs (upd_buf b f s) = (refs s)(n := unat (b_refcnt (f (bufs s ! b))))"
    "blk_lock (upd_buf b f s) = (blk_lock s)(n := b_lock (f (bufs s ! b)))"
    "cached_in (upd_buf b f s) n b"
proof -
  show c: "cached_in (upd_buf b f s) n b" by (simp add: buf_update_cached [OF assms])
  show "view (upd_buf b f s) =
      (view s)(n := if b_valid (f (bufs s ! b)) then b_data (f (bufs s ! b)) else medium s (unat n))"
    "refs (upd_buf b f s) = (refs s)(n := unat (b_refcnt (f (bufs s ! b))))"
    "blk_lock (upd_buf b f s) = (blk_lock s)(n := b_lock (f (bufs s ! b)))"
    using view_cached [OF buf_update_ok [OF assms] c] buf_update_frame [OF assms] buf_update_nth [OF assms, of b]
    by (auto simp: fun_eq_iff)
qed

lemma buf_updateI:
  assumes "cache_ok s" "cached_in s n b"
    and "\<And>u. b_next (f u) = b_next u" "\<And>u. b_prev (f u) = b_prev u"
    and "\<And>u. b_dev (f u) = b_dev u" "\<And>u. b_blockno (f u) = b_blockno u"
    and "buf_ok (medium s) (f (bufs s ! b))"
  shows "buf_update s b f n"
  using assms by (auto simp: cached_in_def buf_update_def)

text \<open>Valid buffers of other blocks that are referenced stay where they are.\<close>

definition keeps :: "'a dstate_scheme \<Rightarrow> 'a dstate_scheme \<Rightarrow> u32 \<Rightarrow> bool" where
  "keeps s s' n \<longleftrightarrow> (\<forall>m c. m \<noteq> n \<longrightarrow> cached_in s m c \<longrightarrow> b_valid (bufs s ! c) \<longrightarrow> 0 < refs s m \<longrightarrow>
     cached_in s' m c \<and> b_valid (bufs s' ! c))"

lemma keeps_trans:
  "keeps s s1 n \<Longrightarrow> keeps s1 s2 n \<Longrightarrow> (\<And>m. m \<noteq> n \<Longrightarrow> refs s1 m = refs s m) \<Longrightarrow> keeps s s2 n"
  unfolding keeps_def by metis

lemma buf_update_keeps:
  assumes "buf_update s b f n"
  shows "keeps s (upd_buf b f s) n"
  unfolding keeps_def
proof (intro allI impI)
  fix m c
  assume m: "m \<noteq> n" "cached_in s m c" "b_valid (bufs s ! c)" "0 < refs s m"
  have "c \<noteq> b"
  proof
    assume "c = b"
    with m assms have "b_refcnt (bufs s ! b) = 0" by (auto simp: buf_update_def cached_in_def)
    moreover have "refs s m = unat (b_refcnt (bufs s ! b))"
      using assms m(2) \<open>c = b\<close> by (simp add: view_cached(2) buf_update_def)
    ultimately show False using m(4) by simp
  qed
  with m show "cached_in (upd_buf b f s) m c \<and> b_valid (bufs (upd_buf b f s) ! c)"
    by (simp add: buf_update_cached [OF assms] buf_update_nth [OF assms])
qed

lemma links_keep:
  assumes "map core (bufs s') = map core (bufs s)" "medium s' = medium s" "length (bufs s) = Suc NBUF"
  shows "keeps s s' n"
proof -
  have "b_valid (bufs s' ! c) = b_valid (bufs s ! c)" if "cached_in s m c" for m c
    using core_same [OF assms(1), of c] that assms(3) by (simp add: cached_in_def)
  then show ?thesis using links_only(1) [OF assms] by (simp add: keeps_def)
qed

section \<open>The operations, in terms of what the clients see\<close>

definition mylock :: "'a pstate_scheme \<Rightarrow> sleeplock" where
  "mylock s = \<lparr>slocked = True, spid = pid (procs s ! the (myproc s))\<rparr>"

text \<open>The running process holds the lock of block \<open>n\<close>, whose contents are in buffer \<open>b\<close>.\<close>

definition held :: "'a dstate_scheme \<Rightarrow> u32 \<Rightarrow> nat \<Rightarrow> bool" where
  "held s n b \<longleftrightarrow> cached_in s n b \<and> b_valid (bufs s ! b) \<and> 0 < refs s n \<and>
     myproc s \<noteq> None \<and> blk_lock s n = mylock s"

lemma held_data: "cache_ok s \<Longrightarrow> held s n b \<Longrightarrow> b_data (bufs s ! b) = view s n"
  by (auto simp: held_def view_cached)

lemma mylock_upd_buf [simp]: "mylock (upd_buf b f s) = mylock s" "myproc (upd_buf b f s) = myproc s"
  by (simp_all add: mylock_def myproc_def mycpu_def)

lemma free_buffer:
  assumes "cache_ok s" "card (busy s) < NBUF"
  shows "\<exists>b < NBUF. b_refcnt (bufs s ! b) = 0"
proof (rule ccontr)
  assume all: "\<not> ?thesis"
  then have c: "cached_in s (b_blockno (bufs s ! b)) b" if "b < NBUF" for b
    using that cache_okD(2) [OF assms(1), of b] by (auto simp: cached_in_def buf_ok_def)
  have "inj_on (\<lambda>b. b_blockno (bufs s ! b)) {..<NBUF}"
  proof (rule inj_onI)
    fix b b'
    assume "b \<in> {..<NBUF}" "b' \<in> {..<NBUF}" "b_blockno (bufs s ! b) = b_blockno (bufs s ! b')"
    with c [of b] c [of b'] cache_okD(3) [OF assms(1), of _ b b'] show "b = b'" by simp
  qed
  moreover have "(\<lambda>b. b_blockno (bufs s ! b)) ` {..<NBUF} \<subseteq> busy s"
  proof
    fix k
    assume "k \<in> (\<lambda>b. b_blockno (bufs s ! b)) ` {..<NBUF}"
    then obtain b where b: "b < NBUF" "k = b_blockno (bufs s ! b)" by auto
    with all view_cached(2) [OF assms(1) c [OF b(1)]] show "k \<in> busy s"
      by (simp add: busy_def unat_gt_0)
  qed
  moreover have "finite (busy s)" by (rule finite_subset [OF subset_UNIV finite])
  ultimately have "NBUF \<le> card (busy s)" by (metis card_image card_lessThan card_mono)
  with assms(2) show False by simp
qed

lemma lock_buf_free:
  assumes "\<not> slocked (b_lock (bufs s ! b))" "myproc s \<noteq> None" "b_lock (bufs s ! b) = initsleeplock"
  shows "lock_buf b s = Inr (b, upd_buf b (\<lambda>u. u\<lparr>b_lock := mylock s\<rparr>) s)"
  using assms by (auto simp: lock_buf_def acquiresleep_def curproc_def mylock_def initsleeplock_def)

lemma find_unique: "b \<in> set xs \<Longrightarrow> (\<And>c. c \<in> set xs \<Longrightarrow> P c \<longleftrightarrow> c = b) \<Longrightarrow> find P xs = Some b"
  by (induction xs) auto

lemma find_cached:
  assumes "cache_ok s" "dll (bufs s) xs" "set xs = {..<NBUF}"
  shows "find (\<lambda>b. b_dev (bufs s ! b) = of_nat ROOTDEV \<and> b_blockno (bufs s ! b) = n) xs = slot_of s n"
proof (cases s n rule: slot_cases)
  case uncached
  then show ?thesis using assms slot_of_None [of s n] by (auto simp: find_None_iff cached_in_def)
next
  case (cached b)
  let ?P = "\<lambda>b. b_dev (bufs s ! b) = of_nat ROOTDEV \<and> b_blockno (bufs s ! b) = n"
  have "?P c \<longleftrightarrow> c = b" if "c \<in> set xs" for c
    using that cached assms(3) cache_okD(3) [OF assms(1), of n b c] by (auto simp: cached_in_def)
  moreover have "b \<in> set xs" using cached assms(3) by (auto simp: cached_in_def)
  ultimately have "find ?P xs = Some b" by (intro find_unique)
  then show ?thesis using cached slot_of_Some [OF assms(1), of n b] by simp
qed

lemma bget_hit:
  assumes "cache_ok s" "myproc s \<noteq> None" "cached_in s n b" "\<not> slocked (blk_lock s n)"
    "refs s n + 1 < 2 ^ 32"
  shows "\<exists>s'. bget (of_nat ROOTDEV) n s = Inr (b, s') \<and> cache_ok s' \<and> cached_in s' n b \<and>
    s' = s\<lparr>bufs := bufs s'\<rparr> \<and> view s' = view s \<and> refs s' = (refs s)(n := refs s n + 1) \<and>
    blk_lock s' = (blk_lock s)(n := mylock s) \<and> keeps s s' n"
proof -
  let ?f = "\<lambda>u. u\<lparr>b_refcnt := b_refcnt u + 1\<rparr>"
  let ?g = "\<lambda>u. u\<lparr>b_lock := mylock s\<rparr>"
  have b: "b < NBUF" "buf_ok (medium s) (bufs s ! b)" "b_dev (bufs s ! b) = 1"
    using assms(1,3) cache_okD(2) by (auto simp: cached_in_def)
  have rc: "unat (b_refcnt (bufs s ! b) + 1) = refs s n + 1"
    using assms(5) view_cached(2) [OF assms(1,3)] by (simp add: unat_word_ariths)
  then have nz: "b_refcnt (bufs s ! b) + 1 \<noteq> 0" by (metis add_is_0 one_neq_zero unat_0)
  have lk: "b_lock (bufs s ! b) = initsleeplock" "\<not> slocked initsleeplock"
    using assms(1,3,4) b(2) by (auto simp: view_cached buf_ok_def initsleeplock_def)
  have u1: "buf_update s b ?f n"
    using assms(1,3) b nz lk
    by (intro buf_updateI) (auto simp: buf_ok_def cached_in_def)
  note U1 = buf_update_ok [OF u1] buf_update_view [OF u1] buf_update_nth [OF u1, of b]
  have u2: "buf_update (upd_buf b ?f s) b ?g n"
    using U1 b nz by (intro buf_updateI) (auto simp: buf_ok_def mylock_def)
  note U2 = buf_update_ok [OF u2] buf_update_view [OF u2] buf_update_nth [OF u2, of b]
  obtain xs where xs: "dll (bufs s) xs" "set xs = {..<NBUF}" using cache_okD(5) [OF assms(1)] by blast
  have "bget (of_nat ROOTDEV) n s = lock_buf b (upd_buf b ?f s)"
    using xs slot_of_Some [OF assms(1), of n b] assms(3)
    by (simp add: bget_def bscan_forward [OF xs(1)] find_cached [OF assms(1) xs, simplified])
  also have "\<dots> = Inr (b, upd_buf b ?g (upd_buf b ?f s))"
    using lock_buf_free [of "upd_buf b ?f s" b] U1 lk assms(2) by simp
  finally show ?thesis
    using U1 U2 rc view_cached(1) [OF assms(1,3)]
      keeps_trans [OF buf_update_keeps [OF u1] buf_update_keeps [OF u2]]
    by (intro exI [of _ "upd_buf b ?g (upd_buf b ?f s)"]) (simp add: upd_buf_def fun_upd_idem)
qed

lemma bget_miss:
  assumes "cache_ok s" "myproc s \<noteq> None" "slot_of s n = None" "card (busy s) < NBUF"
  shows "\<exists>b s'. bget (of_nat ROOTDEV) n s = Inr (b, s') \<and> cache_ok s' \<and> cached_in s' n b \<and>
    s' = s\<lparr>bufs := bufs s'\<rparr> \<and> view s' = view s \<and> refs s' = (refs s)(n := 1) \<and>
    blk_lock s' = (blk_lock s)(n := mylock s) \<and> \<not> b_valid (bufs s' ! b) \<and> keeps s s' n"
proof -
  let ?f = "\<lambda>u. u\<lparr>b_dev := of_nat ROOTDEV, b_blockno := n, b_valid := False, b_refcnt := 1\<rparr>"
  let ?g = "\<lambda>u. u\<lparr>b_lock := mylock s\<rparr>"
  obtain xs where xs: "dll (bufs s) xs" "set xs = {..<NBUF}" using cache_okD(5) [OF assms(1)] by blast
  obtain c where "c < NBUF" "b_refcnt (bufs s ! c) = 0" using free_buffer [OF assms(1,4)] by blast
  then obtain b where b: "find (\<lambda>b. b_refcnt (bufs s ! b) = 0) (rev xs) = Some b"
    using xs(2) by (metis (mono_tags, lifting) find_None_iff lessThan_iff not_Some_eq set_rev)
  then have "b \<in> set xs" "b_refcnt (bufs s ! b) = 0" by (auto simp: find_Some_iff rev_nth)
  then have b': "b < NBUF" "b_refcnt (bufs s ! b) = 0" "buf_ok (medium s) (bufs s ! b)"
    using xs(2) cache_okD(2) [OF assms(1)] by auto
  then have lk: "b_lock (bufs s ! b) = initsleeplock" "\<not> slocked initsleeplock"
    by (auto simp: buf_ok_def initsleeplock_def)
  have u1: "buf_update s b ?f n"
    using assms(1,3) b' lk by (auto simp: buf_update_def buf_ok_def)
  note U1 = buf_update_ok [OF u1] buf_update_view [OF u1] buf_update_nth [OF u1, of b]
  have u2: "buf_update (upd_buf b ?f s) b ?g n"
    using U1 b' by (intro buf_updateI) (auto simp: buf_ok_def mylock_def)
  note U2 = buf_update_ok [OF u2] buf_update_view [OF u2] buf_update_nth [OF u2, of b]
  have "bget (of_nat ROOTDEV) n s = lock_buf b (upd_buf b ?f s)"
    using assms(3) b
    by (simp add: bget_def bscan_forward [OF xs(1)] bscan_backward [OF xs(1)]
        find_cached [OF assms(1) xs, simplified])
  also have "\<dots> = Inr (b, upd_buf b ?g (upd_buf b ?f s))"
    using lock_buf_free [of "upd_buf b ?f s" b] U1 lk assms(2) by simp
  finally show ?thesis
    using U1 U2 view_uncached(1) [OF assms(3)]
      keeps_trans [OF buf_update_keeps [OF u1] buf_update_keeps [OF u2]]
    by (intro exI [of _ b] exI [of _ "upd_buf b ?g (upd_buf b ?f s)"]) (simp add: upd_buf_def fun_upd_idem)
qed

lemma bread_fill:
  assumes "cache_ok s" "cached_in s n b" "0 < refs s n"
  defines "s' \<equiv> upd_buf b (\<lambda>u. u\<lparr>b_valid := True\<rparr>) (disk_rw b False s)"
  shows "\<not> b_valid (bufs s ! b) \<Longrightarrow> cache_ok s' \<and> cached_in s' n b \<and> b_valid (bufs s' ! b) \<and>
    s' = s\<lparr>bufs := bufs s'\<rparr> \<and> view s' = view s \<and> refs s' = refs s \<and> blk_lock s' = blk_lock s \<and> keeps s s' n"
proof -
  assume inv: "\<not> b_valid (bufs s ! b)"
  let ?f = "\<lambda>u. u\<lparr>b_data := medium s (unat n), b_valid := True\<rparr>"
  have b: "b < NBUF" "buf_ok (medium s) (bufs s ! b)" "b_dev (bufs s ! b) = 1" "b_blockno (bufs s ! b) = n"
    using assms(1,2) cache_okD(2) by (auto simp: cached_in_def)
  have s': "s' = upd_buf b ?f s"
    using b cache_okD(1) [OF assms(1)] by (simp add: s'_def disk_rw_def upd_buf_def Let_def)
  have u: "buf_update s b ?f n"
    using assms(1,2) b cache_okD(4) [OF assms(1)]
    by (intro buf_updateI) (auto simp: buf_ok_def)
  show ?thesis
    unfolding s' using buf_update_ok [OF u] buf_update_view [OF u] buf_update_nth [OF u, of b]
      view_cached [OF assms(1,2)] inv buf_update_keeps [OF u]
    by (simp add: fun_upd_idem) (simp add: upd_buf_def)
qed

lemma bread_spec:
  assumes "cache_ok s" "myproc s \<noteq> None" "\<not> slocked (blk_lock s n)" "refs s n + 1 < 2 ^ 32"
    "refs s n = 0 \<Longrightarrow> card (busy s) < NBUF"
  obtains b s' where "bread (of_nat ROOTDEV) n s = Inr (b, s')" "cache_ok s'" "held s' n b"
    "s' = s\<lparr>bufs := bufs s'\<rparr>" "view s' = view s" "refs s' = (refs s)(n := refs s n + 1)"
    "blk_lock s' = (blk_lock s)(n := mylock s)" "keeps s s' n"
proof -
  obtain b s1 where g: "bget (of_nat ROOTDEV) n s = Inr (b, s1)" "cache_ok s1" "cached_in s1 n b"
    "s1 = s\<lparr>bufs := bufs s1\<rparr>" "view s1 = view s" "refs s1 = (refs s)(n := refs s n + 1)"
    "blk_lock s1 = (blk_lock s)(n := mylock s)" "keeps s s1 n"
  proof (cases s n rule: slot_cases)
    case uncached
    with assms have "card (busy s) < NBUF" by (simp add: view_uncached)
    with bget_miss [OF assms(1,2) uncached] uncached show ?thesis
      by (auto simp: view_uncached intro: that)
  next
    case (cached b)
    with bget_hit [OF assms(1,2) cached assms(3,4)] show ?thesis by (auto intro: that)
  qed
  have same: "mylock s1 = mylock s" "myproc s1 = myproc s"
    by (subst g(4), simp add: mylock_def myproc_def mycpu_def)+
  show ?thesis
  proof (cases "b_valid (bufs s1 ! b)")
    case True
    then show ?thesis
      using g same assms(2) by (intro that [of b s1]) (simp_all add: bread_def held_def)
  next
    case False
    let ?s2 = "upd_buf b (\<lambda>u. u\<lparr>b_valid := True\<rparr>) (disk_rw b False s1)"
    have F: "cache_ok ?s2 \<and> cached_in ?s2 n b \<and> b_valid (bufs ?s2 ! b) \<and> ?s2 = s1\<lparr>bufs := bufs ?s2\<rparr> \<and>
      view ?s2 = view s1 \<and> refs ?s2 = refs s1 \<and> blk_lock ?s2 = blk_lock s1 \<and> keeps s1 ?s2 n"
      using bread_fill [OF g(2,3) _ False] g(6) by simp
    have "s1\<lparr>bufs := X\<rparr> = s\<lparr>bufs := X\<rparr>" for X by (subst g(4)) simp
    with F have fr: "?s2 = s\<lparr>bufs := bufs ?s2\<rparr>" by metis
    have "mylock ?s2 = mylock s" "myproc ?s2 = myproc s"
      by (subst fr, simp add: mylock_def myproc_def mycpu_def)+
    moreover have "keeps s ?s2 n" using F g(6,8) keeps_trans [of s s1 n ?s2] by simp
    ultimately show ?thesis
      using F fr g assms(2) False by (intro that [of b ?s2]) (simp_all add: bread_def held_def)
  qed
qed

lemma held_holdingsleep: "cache_ok s \<Longrightarrow> held s n b \<Longrightarrow> holdingsleep (b_lock (bufs s ! b)) s = Inr True"
proof -
  assume "cache_ok s" "held s n b"
  then have "b_lock (bufs s ! b) = mylock s" "myproc s \<noteq> None"
    using view_cached(3) [of s n b] by (auto simp: held_def)
  then show ?thesis by (auto simp: holdingsleep_def curproc_def mylock_def)
qed

lemma bwrite_spec:
  assumes "cache_ok s" "held s n b"
  obtains s' where "bwrite b s = Inr s'" "cache_ok s'" "held s' n b"
    "s' = s\<lparr>medium := (medium s)(unat n := view s n), dwrites := dwrites s @ [(unat n, view s n)]\<rparr>"
    "view s' = view s" "refs s' = refs s" "blk_lock s' = blk_lock s"
proof -
  let ?s = "s\<lparr>medium := (medium s)(unat n := view s n), dwrites := dwrites s @ [(unat n, view s n)]\<rparr>"
  have c: "cached_in s n b" "b_valid (bufs s ! b)" using assms(2) by (auto simp: held_def)
  then have rw: "disk_rw b True s = ?s"
    using held_data [OF assms] by (simp add: disk_rw_def cached_in_def Let_def)
  have cin: "cached_in ?s = cached_in s" by (simp add: cached_in_def fun_eq_iff)
  have sl: "slot_of ?s = slot_of s" by (rule ext) (simp add: slot_of_def cin)
  have uneq: "unat k \<noteq> unat n" if "k \<noteq> n" for k using that by (simp add: word_unat_eq_iff)
  have ro: "refs ?s = refs s" "blk_lock ?s = blk_lock s"
    by (simp_all add: refs_def blk_lock_def sl fun_eq_iff cong: option.case_cong)
  have "buf_ok (medium ?s) (bufs s ! c)" if "c < NBUF" for c
  proof (cases "b_dev (bufs s ! c) = 1 \<and> b_blockno (bufs s ! c) = n")
    case True
    then have "c = b" using cache_okD(3) [OF assms(1), of n b c] c that by (simp add: cached_in_def)
    then show ?thesis using cache_okD(2) [OF assms(1) that] c held_data [OF assms]
      by (auto simp: buf_ok_def cached_in_def)
  next
    case False
    then show ?thesis using cache_okD(2) [OF assms(1) that] uneq by (auto simp: buf_ok_def)
  qed
  then have ok: "cache_ok ?s"
    using assms(1) length_view [OF assms(1)] by (simp add: cache_ok_def cin)
  have vw: "view ?s k = view s k" for k
  proof (cases s k rule: slot_cases)
    case uncached
    then have "k \<noteq> n" using c(1) slot_of_None [of s n] by auto
    moreover have "slot_of ?s k = None" by (simp only: sl uncached)
    ultimately show ?thesis
      using view_uncached(1) [OF uncached] view_uncached(1) [of ?s k] uneq by simp
  next
    case (cached c')
    then have "cached_in ?s k c'" by (simp only: cin)
    note v = view_cached(1) [OF assms(1) cached] view_cached(1) [OF ok this]
    show ?thesis
    proof (cases "k = n")
      case True
      then have "c' = b" using cache_okD(3) [OF assms(1)] cached c(1) by blast
      with v c(2) show ?thesis by simp
    next
      case False
      with v uneq show ?thesis by simp
    qed
  qed
  have "held ?s n b"
    using assms(2) by (simp add: held_def cin ro mylock_def myproc_def mycpu_def)
  moreover have "bwrite b s = Inr ?s"
    using held_holdingsleep [OF assms] by (simp add: bwrite_def rw)
  moreover have "view ?s = view s" using vw by (rule ext)
  ultimately show ?thesis using that [of ?s] ok ro by blast
qed

lemma bio_wakeup_frame:
  "mylock (wakeup ch s) = mylock s" "myproc (wakeup ch s) = myproc s"
  if "the (myproc s) < length (procs s)"
  using that by (auto simp: mylock_def myproc_def mycpu_def wakeup_def wakeup_proc_def
      enumerate_eq_zip Let_def)

lemma wakeup_bufs [simp]:
  "bufs (wakeup ch s) = bufs s" "medium (wakeup ch s) = medium s" "dwrites (wakeup ch s) = dwrites s"
  "view (wakeup ch s) = view s" "refs (wakeup ch s) = refs s" "blk_lock (wakeup ch s) = blk_lock s"
  "cached_in (wakeup ch s) = cached_in s" "cache_ok (wakeup ch s) = cache_ok s"
proof -
  show b: "bufs (wakeup ch s) = bufs s" "medium (wakeup ch s) = medium s" "dwrites (wakeup ch s) = dwrites s"
    by (simp_all add: wakeup_def)
  show c: "cached_in (wakeup ch s) = cached_in s" by (simp add: cached_in_def fun_eq_iff b)
  have "slot_of (wakeup ch s) = slot_of s" by (rule ext) (simp add: slot_of_def c)
  then show "view (wakeup ch s) = view s" "refs (wakeup ch s) = refs s" "blk_lock (wakeup ch s) = blk_lock s"
    by (auto simp: view_def refs_def blk_lock_def b intro!: ext split: option.split)
  show "cache_ok (wakeup ch s) = cache_ok s" by (simp add: cache_ok_def b c)
qed

lemma brelse_spec:
  assumes "cache_ok s" "held s n b" "refs s n = 1 \<Longrightarrow> view s n = medium s (unat n)"
    "the (myproc s) < length (procs s)"
  obtains s' where "brelse b s = Inr s'" "cache_ok s'"
    "s' = s\<lparr>bufs := bufs s', procs := procs (wakeup (ChBufLock b) s)\<rparr>"
    "view s' = view s" "refs s' = (refs s)(n := refs s n - 1)" "blk_lock s' = (blk_lock s)(n := initsleeplock)"
    "mylock s' = mylock s" "myproc s' = myproc s" "keeps s s' n"
proof -
  let ?w = "wakeup (ChBufLock b) s"
  let ?f = "\<lambda>u. u\<lparr>b_lock := initsleeplock, b_refcnt := b_refcnt u - 1\<rparr>"
  let ?s1 = "upd_buf b ?f ?w"
  have c: "cached_in s n b" "b_valid (bufs s ! b)" "0 < refs s n" using assms(2) by (auto simp: held_def)
  have b: "b < NBUF" "buf_ok (medium s) (bufs s ! b)" "b_dev (bufs s ! b) = 1" "b_blockno (bufs s ! b) = n"
    using assms(1) c cache_okD(2) by (auto simp: cached_in_def)
  have rc: "unat (b_refcnt (bufs s ! b) - 1) = refs s n - 1"
    using view_cached(2) [OF assms(1) c(1)] c(3) by (metis unat_minus_one unat_gt_0)
  have clean: "b_data (bufs s ! b) = medium s (unat n)" if "b_refcnt (bufs s ! b) - 1 = 0"
    using that rc assms(3) c(3) held_data [OF assms(1,2)] by simp
  have u: "buf_update ?w b ?f n"
    using assms(1) c b clean by (intro buf_updateI) (auto simp: buf_ok_def initsleeplock_def)
  note U = buf_update_ok [OF u] buf_update_view [OF u] buf_update_nth [OF u, of b]
  have l: "length (bufs s) = Suc NBUF" using cache_okD(1) [OF assms(1)] .
  have s1: "upd_buf b (\<lambda>u. u\<lparr>b_refcnt := b_refcnt u - 1\<rparr>) (upd_buf b (\<lambda>u. u\<lparr>b_lock := initsleeplock\<rparr>) ?w) = ?s1"
    using l b by (simp add: upd_buf_def)
  define s1 where "s1 = ?s1"
  define s2 where "s2 = (if b_refcnt (bufs s1 ! b) = 0 then link_front b (unlink b s1) else s1)"
  have rel: "(b_lock (bufs s ! b))\<lparr>slocked := False, spid := 0\<rparr> = initsleeplock"
    by (cases "b_lock (bufs s ! b)") (simp add: initsleeplock_def)
  have op: "brelse b s = Inr s2"
    using held_holdingsleep [OF assms(1,2)] s1
    by (simp add: brelse_def releasesleep_def rel Let_def s2_def s1_def)
  note V = U(1-4) [folded s1_def]
  have fr: "s2 = s1\<lparr>bufs := bufs s2\<rparr>"
    by (simp add: s2_def link_front_def unlink_def upd_buf_def Let_def)
  obtain xs where xs: "dll (bufs s1) xs" "set xs = {..<NBUF}" using cache_okD(5) [OF V(1)] by blast
  then obtain us vs where "xs = us @ b # vs" using b(1) by (metis split_list lessThan_iff)
  with xs have "dll (bufs (link_front b (unlink b s1))) (b # us @ vs)"
    by (intro dll_link_front dll_unlink) (auto simp: dll_def)
  moreover have "set (b # us @ vs) = {..<NBUF}" using xs \<open>xs = us @ b # vs\<close> by auto
  ultimately have dl: "\<exists>ys. dll (bufs s2) ys \<and> set ys = {..<NBUF}" using xs by (auto simp: s2_def)
  have co: "map core (bufs s2) = map core (bufs s1)" by (simp add: s2_def)
  have med: "medium s2 = medium s1" by (subst fr) simp
  note L = links_only [OF co med cache_okD(1) [OF V(1)]]
  have ok: "cache_ok s2"
    using V(1) dl L(1,5) med unfolding cache_ok_def by simp
  have fr': "s2 = s\<lparr>bufs := bufs s2, procs := procs ?w\<rparr>"
    by (subst fr) (simp add: s1_def upd_buf_def wakeup_def)
  have "mylock s2 = mylock s" "myproc s2 = myproc s"
    using bio_wakeup_frame [OF assms(4), of "ChBufLock b"]
    by (subst fr, simp add: s1_def mylock_def myproc_def mycpu_def)+
  moreover have "view s2 = view s" "refs s2 = (refs s)(n := refs s n - 1)" "blk_lock s2 = (blk_lock s)(n := initsleeplock)"
    using L(2-4) V(2-4) rc c(2) held_data [OF assms(1,2)] by (simp_all add: fun_upd_idem)
  moreover have "keeps s s2 n"
  proof (rule keeps_trans)
    have "keeps ?w s1 n" unfolding s1_def by (rule buf_update_keeps [OF u])
    then show "keeps s s1 n" by (simp add: keeps_def)
    show "keeps s1 s2 n" by (rule links_keep [OF co med cache_okD(1) [OF V(1)]])
    show "\<And>m. m \<noteq> n \<Longrightarrow> refs s1 m = refs s m" using V(3) by simp
  qed
  ultimately show ?thesis using that [OF op ok fr'] by blast
qed

end
