(* ===== verification/Bcache.thy ===== *)
theory Bcache
  imports Bio
begin

text \<open>
  More of the buffer cache: pinning, initialisation, and the properties of \<^verbatim>\<open>kernel/bio.c\<close>.
\<close>

text \<open>Storing into the data of a locked buffer, as the clients do, and the pin count.\<close>

definition set_data :: "nat \<Rightarrow> block \<Rightarrow> 'a dstate_scheme \<Rightarrow> 'a dstate_scheme" where
  "set_data b d s = upd_buf b (\<lambda>u. u\<lparr>b_data := d\<rparr>) s"

lemma set_data_spec:
  assumes "cache_ok s" "held s n b" "length d = BSIZE"
  shows "cache_ok (set_data b d s)" "held (set_data b d s) n b" "view (set_data b d s) = (view s)(n := d)"
    "refs (set_data b d s) = refs s" "blk_lock (set_data b d s) = blk_lock s"
    "set_data b d s = s\<lparr>bufs := bufs (set_data b d s)\<rparr>" "keeps s (set_data b d s) n"
proof -
  let ?f = "\<lambda>u. u\<lparr>b_data := d\<rparr>"
  have c: "cached_in s n b" "b_valid (bufs s ! b)" "0 < refs s n" using assms(2) by (auto simp: held_def)
  have b: "buf_ok (medium s) (bufs s ! b)" "b_dev (bufs s ! b) = 1"
    using assms(1) c cache_okD(2) by (auto simp: cached_in_def)
  have "b_refcnt (bufs s ! b) \<noteq> 0" using c(3) view_cached(2) [OF assms(1) c(1)] by auto
  then have u: "buf_update s b ?f n"
    using assms(1,3) c b by (intro buf_updateI) (auto simp: buf_ok_def)
  note U = buf_update_ok [OF u] buf_update_view [OF u] buf_update_nth [OF u, of b]
  show ok: "cache_ok (set_data b d s)" and v: "view (set_data b d s) = (view s)(n := d)"
    and r: "refs (set_data b d s) = refs s" and l: "blk_lock (set_data b d s) = blk_lock s"
    using U view_cached [OF assms(1) c(1)] c by (simp_all add: set_data_def fun_upd_idem)
  show "held (set_data b d s) n b"
    using assms(2) U r l by (simp add: held_def set_data_def)
  show "set_data b d s = s\<lparr>bufs := bufs (set_data b d s)\<rparr>" by (simp add: set_data_def upd_buf_def)
  show "keeps s (set_data b d s) n" using buf_update_keeps [OF u] by (simp add: set_data_def)
qed

lemma bpin_spec:
  assumes "cache_ok s" "cached_in s n b" "refs s n + 1 < 2 ^ 32"
  shows "cache_ok (bpin b s)" "cached_in (bpin b s) = cached_in s" "view (bpin b s) = view s"
    "refs (bpin b s) = (refs s)(n := refs s n + 1)" "blk_lock (bpin b s) = blk_lock s"
    "bpin b s = s\<lparr>bufs := bufs (bpin b s)\<rparr>" "b_valid (bufs (bpin b s) ! c) = b_valid (bufs s ! c)"
proof -
  let ?f = "\<lambda>u. u\<lparr>b_refcnt := b_refcnt u + 1\<rparr>"
  have b: "buf_ok (medium s) (bufs s ! b)" "b_dev (bufs s ! b) = 1"
    using assms(1,2) cache_okD(2) by (auto simp: cached_in_def)
  have rc: "unat (b_refcnt (bufs s ! b) + 1) = refs s n + 1"
    using assms(3) view_cached(2) [OF assms(1,2)] by (simp add: unat_word_ariths)
  then have "b_refcnt (bufs s ! b) + 1 \<noteq> 0" by (metis add_is_0 one_neq_zero unat_0)
  then have u: "buf_update s b ?f n"
    using assms(1,2) b by (intro buf_updateI) (auto simp: buf_ok_def)
  note U = buf_update_ok [OF u] buf_update_view [OF u] buf_update_nth [OF u]
  show "cache_ok (bpin b s)" "view (bpin b s) = view s"
    "refs (bpin b s) = (refs s)(n := refs s n + 1)" "blk_lock (bpin b s) = blk_lock s"
    "b_valid (bufs (bpin b s) ! c) = b_valid (bufs s ! c)"
    using U view_cached [OF assms(1,2)] rc by (simp_all add: bpin_def fun_upd_idem)
  show "cached_in (bpin b s) = cached_in s"
    using U(6) by (auto simp: cached_in_def bpin_def fun_eq_iff)
  show "bpin b s = s\<lparr>bufs := bufs (bpin b s)\<rparr>" by (simp add: bpin_def upd_buf_def)
qed

lemma bunpin_spec:
  assumes "cache_ok s" "held s n b" "2 \<le> refs s n"
  shows "cache_ok (bunpin b s)" "held (bunpin b s) n b" "view (bunpin b s) = view s"
    "refs (bunpin b s) = (refs s)(n := refs s n - 1)" "blk_lock (bunpin b s) = blk_lock s"
    "bunpin b s = s\<lparr>bufs := bufs (bunpin b s)\<rparr>" "keeps s (bunpin b s) n"
proof -
  let ?f = "\<lambda>u. u\<lparr>b_refcnt := b_refcnt u - 1\<rparr>"
  have c: "cached_in s n b" "b_valid (bufs s ! b)" using assms(2) by (auto simp: held_def)
  have b: "buf_ok (medium s) (bufs s ! b)" "b_dev (bufs s ! b) = 1"
    using assms(1) c cache_okD(2) by (auto simp: cached_in_def)
  have "0 < unat (b_refcnt (bufs s ! b))" using view_cached(2) [OF assms(1) c(1)] assms(3) by simp
  then have rc: "unat (b_refcnt (bufs s ! b) - 1) = refs s n - 1"
    using view_cached(2) [OF assms(1) c(1)] by (metis unat_minus_one unat_gt_0)
  have "b_refcnt (bufs s ! b) - 1 \<noteq> 0"
  proof
    assume "b_refcnt (bufs s ! b) - 1 = 0"
    with rc have "refs s n - 1 = 0" by (simp only: unat_0)
    with assms(3) show False by simp
  qed
  then have u: "buf_update s b ?f n"
    using assms(1) c b by (intro buf_updateI) (auto simp: buf_ok_def)
  note U = buf_update_ok [OF u] buf_update_view [OF u] buf_update_nth [OF u]
  show "cache_ok (bunpin b s)" "view (bunpin b s) = view s"
    and r: "refs (bunpin b s) = (refs s)(n := refs s n - 1)" and l: "blk_lock (bunpin b s) = blk_lock s"
    using U view_cached [OF assms(1) c(1)] rc c by (simp_all add: bunpin_def fun_upd_idem)
  show "held (bunpin b s) n b"
    using assms(2,3) U r l c unfolding held_def by (simp add: bunpin_def)
  show "bunpin b s = s\<lparr>bufs := bufs (bunpin b s)\<rparr>" by (simp add: bunpin_def upd_buf_def)
  show "keeps s (bunpin b s) n" using buf_update_keeps [OF u] by (simp add: bunpin_def)
qed

section \<open>Frame\<close>

lemma cache_cong:
  assumes "bufs s' = bufs s" "medium s' = medium s"
  shows "cached_in s' = cached_in s" "slot_of s' = slot_of s" "view s' = view s" "refs s' = refs s"
    "blk_lock s' = blk_lock s" "cache_ok s' = cache_ok s" "busy s' = busy s"
proof -
  show c: "cached_in s' = cached_in s" by (simp add: cached_in_def fun_eq_iff assms)
  show sl: "slot_of s' = slot_of s" by (rule ext) (simp add: slot_of_def c)
  show "view s' = view s" "blk_lock s' = blk_lock s" "cache_ok s' = cache_ok s"
    by (auto simp: view_def blk_lock_def cache_ok_def sl c assms intro!: ext split: option.split)
  show r: "refs s' = refs s" by (auto simp: refs_def sl assms intro!: ext split: option.split)
  show "busy s' = busy s" by (simp add: busy_def r)
qed

lemma held_cong:
  assumes "bufs s' = bufs s" "medium s' = medium s" "mylock s' = mylock s" "myproc s' = myproc s"
  shows "held s' = held s"
  by (simp add: held_def fun_eq_iff cache_cong [OF assms(1,2)] assms)

text \<open>A locked buffer of another block stays locked, with the same contents.\<close>

lemma held_keeps:
  assumes "keeps s s' n" "m \<noteq> n" "held s m c" "refs s' m = refs s m" "blk_lock s' m = blk_lock s m"
    "mylock s' = mylock s" "myproc s' = myproc s"
  shows "held s' m c"
  using assms by (simp add: held_def keeps_def)

lemma busy_refs: "refs s' = refs s \<Longrightarrow> busy s' = busy s"
  by (simp add: busy_def)

text \<open>Reading a block that nobody uses, as most clients do.\<close>

lemma bread_idle:
  assumes "cache_ok s" "myproc s \<noteq> None" "card (busy s) < NBUF" "refs s n = 0"
  obtains b s' where "bread (of_nat ROOTDEV) n s = Inr (b, s')" "cache_ok s'" "held s' n b"
    "s' = s\<lparr>bufs := bufs s'\<rparr>" "view s' = view s" "refs s' = (refs s)(n := 1)"
    "blk_lock s' = (blk_lock s)(n := mylock s)" "keeps s s' n"
proof (rule bread_spec [OF assms(1,2)])
  show "\<not> slocked (blk_lock s n)" using view_idle(2) [OF assms(1,4)] by (simp add: initsleeplock_def)
qed (use assms that in auto)

section \<open>Initialisation\<close>

definition zero_buf :: buf where
  "zero_buf = \<lparr>b_valid = False, b_disk = False, b_dev = 0, b_blockno = 0, b_lock = initsleeplock,
     b_refcnt = 0, b_prev = 0, b_next = 0, b_data = replicate BSIZE 0\<rparr>"

lemma upd_lock_core:
  "b_lock (bs ! b) = initsleeplock \<Longrightarrow> map core (bs[b := (bs ! b)\<lparr>b_lock := initsleeplock\<rparr>]) = map core bs"
  by (cases "bs ! b") (simp add: map_list_update_id core_def)

definition binit_inv :: "'a dstate_scheme \<Rightarrow> nat \<Rightarrow> 'a dstate_scheme \<Rightarrow> bool" where
  "binit_inv s k t \<longleftrightarrow> dll (bufs t) (rev [0..<k]) \<and> map core (bufs t) = replicate 31 zero_buf \<and>
     (\<exists>bs. t = s\<lparr>bufs := bs\<rparr>)"

lemma binit_step:
  assumes "binit_inv s k t" "k < NBUF"
  shows "binit_inv s (Suc k) (upd_buf k (\<lambda>u. u\<lparr>b_lock := initsleeplock\<rparr>) (link_front k t))"
proof -
  define l where "l = link_front k t"
  obtain bs where t: "t = s\<lparr>bufs := bs\<rparr>" using assms(1) by (auto simp: binit_inv_def)
  have l: "dll (bufs l) (k # rev [0..<k])" "map core (bufs l) = replicate 31 zero_buf"
    using assms unfolding l_def by (auto intro!: dll_link_front simp: binit_inv_def)
  have "length (bufs l) = 31" using l(2) by (metis length_map length_replicate)
  then have "core (bufs l ! k) = map core (bufs l) ! k" using assms(2) by simp
  also have "\<dots> = zero_buf" using assms(2) by (simp only: l(2)) simp
  finally have "b_lock (bufs l ! k) = initsleeplock" by (metis buf.select_convs(5) core_simps(7) zero_buf_def)
  then have "map core (bufs (upd_buf k (\<lambda>u. u\<lparr>b_lock := initsleeplock\<rparr>) l)) = replicate 31 zero_buf"
    using l(2) upd_lock_core [of "bufs l" k] by (simp only: upd_buf_def) simp
  moreover have "\<exists>bs. upd_buf k (\<lambda>u. u\<lparr>b_lock := initsleeplock\<rparr>) l = s\<lparr>bufs := bs\<rparr>"
    by (simp add: l_def link_front_def upd_buf_def Let_def t) blast
  ultimately show ?thesis using l(1) unfolding l_def [symmetric] by (simp add: binit_inv_def dll_upd_buf)
qed

lemma binit_inv_binit:
  assumes "bufs s = replicate 31 zero_buf"
  shows "binit_inv s NBUF (binit s)"
proof -
  let ?s = "upd_buf HEAD (\<lambda>u. u\<lparr>b_prev := HEAD, b_next := HEAD\<rparr>) s"
  have "map core (bufs ?s) = map core (bufs s)" by (rule upd_buf_core) (simp add: core_def)
  moreover have "core zero_buf = zero_buf" by (simp add: core_def zero_buf_def)
  ultimately have "binit_inv s 0 ?s"
    using assms by (auto simp: binit_inv_def dll_def nextf_def prevf_def nth_upd_buf) (auto simp: upd_buf_def)
  then have "binit_inv s k (fold (\<lambda>b s. upd_buf b (\<lambda>u. u\<lparr>b_lock := initsleeplock\<rparr>) (link_front b s)) [0..<k] ?s)"
    if "k \<le> NBUF" for k
    using that by (induction k) (simp_all add: binit_step)
  then show ?thesis unfolding binit_def Let_def by blast
qed

lemma binit_spec:
  assumes "bufs s = replicate 31 zero_buf" "\<And>n. length (medium s n) = BSIZE"
  shows "cache_ok (binit s)" "view (binit s) = (\<lambda>n. medium s (unat n))" "refs (binit s) = (\<lambda>n. 0)"
    "blk_lock (binit s) = (\<lambda>n. initsleeplock)" "binit s = s\<lparr>bufs := bufs (binit s)\<rparr>"
    "slot_of (binit s) n = None"
proof -
  obtain bs where I: "dll (bufs (binit s)) (rev [0..<NBUF])"
    "map core (bufs (binit s)) = replicate 31 zero_buf" "binit s = s\<lparr>bufs := bs\<rparr>"
    using binit_inv_binit [OF assms(1)] by (auto simp: binit_inv_def)
  have len: "length (bufs (binit s)) = 31" using I(2) by (metis length_map length_replicate)
  have z: "core (bufs (binit s) ! b) = zero_buf" if "b < NBUF" for b
  proof -
    have "core (bufs (binit s) ! b) = map core (bufs (binit s)) ! b" using that len by simp
    also have "\<dots> = zero_buf" using that by (simp only: I(2)) simp
    finally show ?thesis .
  qed
  have m: "medium (binit s) = medium s" by (subst I(3)) simp
  have zb: "b_dev (bufs (binit s) ! b) = 0" "b_refcnt (bufs (binit s) ! b) = 0"
    "b_lock (bufs (binit s) ! b) = initsleeplock" "b_data (bufs (binit s) ! b) = replicate BSIZE 0"
    if "b < NBUF" for b
    using arg_cong [OF z [OF that], of b_dev] arg_cong [OF z [OF that], of b_refcnt]
      arg_cong [OF z [OF that], of b_lock] arg_cong [OF z [OF that], of b_data]
    by (simp_all add: zero_buf_def)
  have nc: "\<not> cached_in (binit s) n b" for n b using zb(1) [of b] by (auto simp: cached_in_def)
  then have so: "slot_of (binit s) n = None" for n by (simp add: slot_of_None)
  then show "slot_of (binit s) n = None" .
  show "view (binit s) = (\<lambda>n. medium s (unat n))" "refs (binit s) = (\<lambda>n. 0)"
    "blk_lock (binit s) = (\<lambda>n. initsleeplock)"
    using so by (simp_all add: view_uncached m fun_eq_iff)
  have "buf_ok (medium s) (bufs (binit s) ! b)" if "b < NBUF" for b
    using zb [OF that] by (simp add: buf_ok_def initsleeplock_def)
  then show "cache_ok (binit s)"
    using I(1) nc assms(2) unfolding cache_ok_def m by (auto simp: atLeast0LessThan)
  have "bufs (binit s) = bs" by (subst I(3)) simp
  with I(3) show "binit s = s\<lparr>bufs := bufs (binit s)\<rparr>" by simp
qed

section \<open>Properties\<close>

text \<open>A state in which process 0 runs on hart 0 after \<open>binit\<close>, with a zeroed disk.\<close>

definition boot_dstate :: dstate where
  "boot_dstate = \<lparr>mem = (\<lambda>_. 0), procs = replicate NPROC zero_proc,
     cpus = replicate NCPU (zero_cpu\<lparr>c_proc := Some 0\<rparr>), hartid = 0, sie = False, nextpid = 1,
     initproc = None, ticks = 0, bufs = replicate 31 zero_buf, medium = (\<lambda>_. replicate BSIZE 0),
     dwrites = []\<rparr>"

lemma boot_dstate_facts:
  "cache_ok (binit boot_dstate)" "myproc (binit boot_dstate) \<noteq> None" "refs (binit boot_dstate) = (\<lambda>n. 0)"
  "view (binit boot_dstate) = (\<lambda>n. replicate BSIZE 0)" "blk_lock (binit boot_dstate) = (\<lambda>n. initsleeplock)"
  "the (myproc (binit boot_dstate)) < length (procs (binit boot_dstate))" "busy (binit boot_dstate) = {}"
  "slot_of (binit boot_dstate) n = None"
proof -
  have p: "bufs boot_dstate = replicate 31 zero_buf" "medium boot_dstate = (\<lambda>_. replicate BSIZE 0)"
    by (simp_all add: boot_dstate_def)
  note B = binit_spec [OF p(1), unfolded p(2), simplified]
  show "cache_ok (binit boot_dstate)" "refs (binit boot_dstate) = (\<lambda>n. 0)"
    "view (binit boot_dstate) = (\<lambda>n. replicate BSIZE 0)" "blk_lock (binit boot_dstate) = (\<lambda>n. initsleeplock)"
    using B(1-4) by simp_all
  then show "busy (binit boot_dstate) = {}" by (simp add: busy_def)
  show "slot_of (binit boot_dstate) n = None" by (rule B(6))
  have "procs (binit boot_dstate) = procs boot_dstate" "cpus (binit boot_dstate) = cpus boot_dstate"
    "hartid (binit boot_dstate) = hartid boot_dstate" by (subst B(5), simp)+
  then show "myproc (binit boot_dstate) \<noteq> None" "the (myproc (binit boot_dstate)) < length (procs (binit boot_dstate))"
    by (simp_all add: myproc_def mycpu_def boot_dstate_def)
qed

text \<open>
  Property (C25). \<open>bread\<close> returns the current contents of the block: on a well-formed cache, for a
  block that is not locked, with fewer than 30 blocks in use (so that a free buffer exists), it
  neither panics nor sleeps nor loops, the buffer it returns is locked by the caller and holds the
  latest contents of the block (cached, or from the medium), the contents of every block stay what
  they were, and only this block's reference count and lock change.
\<close>

theorem bread_current_contents:
  assumes "cache_ok s" "myproc s \<noteq> None" "\<not> slocked (blk_lock s n)" "refs s n + 1 < 2 ^ 32"
    "card (busy s) < NBUF"
  shows "\<exists>b s'. bread (of_nat ROOTDEV) n s = Inr (b, s') \<and> cache_ok s' \<and> held s' n b \<and>
     b_data (bufs s' ! b) = view s n \<and> view s' = view s \<and> medium s' = medium s \<and>
     refs s' = (refs s)(n := refs s n + 1) \<and> blk_lock s' = (blk_lock s)(n := mylock s)"
proof -
  obtain b s' where *: "bread (of_nat ROOTDEV) n s = Inr (b, s')" "cache_ok s'" "held s' n b"
    "s' = s\<lparr>bufs := bufs s'\<rparr>" "view s' = view s" "refs s' = (refs s)(n := refs s n + 1)"
    "blk_lock s' = (blk_lock s)(n := mylock s)"
    using bread_spec [OF assms(1-4)] assms(5) by blast
  have "medium s' = medium s" by (subst *(4)) simp
  with * held_data [OF *(2,3)] show ?thesis by auto
qed

theorem bread_current_contents_witness:
  "\<exists>b s'. bread (of_nat ROOTDEV) 45 (binit boot_dstate) = Inr (b, s') \<and> cache_ok s' \<and> held s' 45 b \<and>
     b_data (bufs s' ! b) = view (binit boot_dstate) 45 \<and> view s' = view (binit boot_dstate) \<and>
     medium s' = medium (binit boot_dstate) \<and>
     refs s' = (refs (binit boot_dstate))(45 := refs (binit boot_dstate) 45 + 1) \<and>
     blk_lock s' = (blk_lock (binit boot_dstate))(45 := mylock (binit boot_dstate))"
  by (rule bread_current_contents) (simp_all add: boot_dstate_facts initsleeplock_def)

lemma find_rev_last:
  "find P (rev xs) = Some b \<Longrightarrow> \<exists>us vs. xs = us @ b # vs \<and> P b \<and> (\<forall>c \<in> set vs. \<not> P c)"
proof (induction xs rule: rev_induct)
  case (snoc x xs)
  show ?case
  proof (cases "P x")
    case True
    with snoc show ?thesis by (intro exI [of _ xs] exI [of _ "[]"]) auto
  next
    case False
    with snoc obtain us vs where "xs = us @ b # vs" "P b" "\<forall>c \<in> set vs. \<not> P c" by auto
    with False show ?thesis by (intro exI [of _ us] exI [of _ "vs @ [x]"]) auto
  qed
qed simp

lemma lock_buf_dll: "lock_buf b s = Inr (b', s') \<Longrightarrow> b' = b \<and> dll (bufs s') xs = dll (bufs s) xs"
  by (auto simp: lock_buf_def dll_upd_buf)

text \<open>
  Property (C37). Replacement is least recently used: when the block is not cached, \<open>bget\<close> takes
  the unreferenced buffer that stands last on the list (every buffer behind it is in use), and it
  leaves the order of the list as it is.
\<close>

theorem bget_recycles_lru:
  assumes "cache_ok s" "myproc s \<noteq> None" "slot_of s n = None" "card (busy s) < NBUF"
    "dll (bufs s) xs" "set xs = {..<NBUF}"
  shows "\<exists>b s' us vs. bget (of_nat ROOTDEV) n s = Inr (b, s') \<and> xs = us @ b # vs \<and>
     b_refcnt (bufs s ! b) = 0 \<and> (\<forall>c \<in> set vs. b_refcnt (bufs s ! c) \<noteq> 0) \<and> dll (bufs s') xs"
proof -
  let ?f = "\<lambda>b s. upd_buf b (\<lambda>u. u\<lparr>b_dev := of_nat ROOTDEV, b_blockno := n, b_valid := False, b_refcnt := 1\<rparr>) s"
  obtain c where "c < NBUF" "b_refcnt (bufs s ! c) = 0" using free_buffer [OF assms(1,4)] by blast
  then obtain b where b: "find (\<lambda>b. b_refcnt (bufs s ! b) = 0) (rev xs) = Some b"
    using assms(6) by (metis (mono_tags, lifting) find_None_iff lessThan_iff not_Some_eq set_rev)
  then obtain us vs where uv: "xs = us @ b # vs" "b_refcnt (bufs s ! b) = 0"
    "\<forall>c \<in> set vs. b_refcnt (bufs s ! c) \<noteq> 0"
    using find_rev_last [OF b] by blast
  have g: "bget (of_nat ROOTDEV) n s = lock_buf b (?f b s)"
    using assms(3) b by (simp add: bget_def bscan_forward [OF assms(5)] bscan_backward [OF assms(5)]
        find_cached [OF assms(1,5,6), simplified])
  obtain b' s' where r: "bget (of_nat ROOTDEV) n s = Inr (b', s')" using bget_miss [OF assms(1-4)] by auto
  then have "b' = b \<and> dll (bufs s') xs"
    using lock_buf_dll [of b "?f b s" b' s' xs] g assms(5) by (simp add: dll_upd_buf)
  then show ?thesis using r uv by blast
qed

theorem bget_recycles_lru_witness:
  "\<exists>b s' us vs. bget (of_nat ROOTDEV) 45 (binit boot_dstate) = Inr (b, s') \<and> rev [0..<NBUF] = us @ b # vs \<and>
     b_refcnt (bufs (binit boot_dstate) ! b) = 0 \<and>
     (\<forall>c \<in> set vs. b_refcnt (bufs (binit boot_dstate) ! c) \<noteq> 0) \<and> dll (bufs s') (rev [0..<NBUF])"
proof (rule bget_recycles_lru)
  have "binit_inv boot_dstate NBUF (binit boot_dstate)"
    by (rule binit_inv_binit) (simp add: boot_dstate_def)
  then show "dll (bufs (binit boot_dstate)) (rev [0..<NBUF])" by (simp add: binit_inv_def)
qed (auto simp: boot_dstate_facts)

end
