(* ===== verification/DiskSched.thy ===== *)
theory DiskSched
  imports Bcache "HOL-Library.Multiset"
begin

text \<open>
  The request queue of the swap disks with its two scheduling policies, and the RAID layouts of
  the swap area (second half of \<^verbatim>\<open>kernel/virtio_disk.c\<close>). The requests hold pointers to the
  data, which are followed only when the queue is drained: \<open>PMem a\<close> points into memory,
  \<open>PParity\<close> to the one global \<^verbatim>\<open>parity_buf\<close>.

  The block numbers and scores stay far below \<open>2 ^ 31\<close> (the swap area ends at block 69152), so
  the \<^verbatim>\<open>int\<close> variables are integers here.
\<close>

section \<open>State\<close>

datatype dptr = PMem u64 | PParity

record disk_req =
  rq_valid :: bool
  rq_blockno :: nat
  rq_write :: bool
  rq_priority :: int
  rq_data :: dptr

record qstate = dstate +
  disk_policy :: int
  disk_head_pos :: int
  req_queue :: "disk_req list"
  stat_reads :: int
  stat_writes :: int
  stat_latency_sum :: int
  stat_req_count :: int
  raid_mode :: int
  slot_raid_mode :: "int list"
  parity_buf :: block
  failed_disk_mask :: u32

abbreviation (input) SCHED_FCFS :: int where "SCHED_FCFS \<equiv> 0"
abbreviation (input) SCHED_SSTF :: int where "SCHED_SSTF \<equiv> 1"
abbreviation (input) BLOCKS_PER_PAGE :: nat where "BLOCKS_PER_PAGE \<equiv> 4"
abbreviation (input) NSWAPBLOCKS_PER_MODE :: nat where "NSWAPBLOCKS_PER_MODE \<equiv> 16384"
abbreviation (input) BLOCKS_PER_DISK :: nat where "BLOCKS_PER_DISK \<equiv> 4096"
abbreviation (input) DATA_PER_ROW :: nat where "DATA_PER_ROW \<equiv> 3"

definition load_block :: "dptr \<Rightarrow> 'a qstate_scheme \<Rightarrow> block" where
  "load_block ptr s = (case ptr of PMem a \<Rightarrow> mem_read (mem s) a BSIZE | PParity \<Rightarrow> parity_buf s)"

definition store_block :: "dptr \<Rightarrow> block \<Rightarrow> 'a qstate_scheme \<Rightarrow> 'a qstate_scheme" where
  "store_block ptr d s = (case ptr of PMem a \<Rightarrow> s\<lparr>mem := mem_write (mem s) a d\<rparr> | PParity \<Rightarrow> s\<lparr>parity_buf := d\<rparr>)"

section \<open>Settings and statistics\<close>

definition set_failed_disk :: "int \<Rightarrow> 'a qstate_scheme \<Rightarrow> int \<times> 'a qstate_scheme" where
  "set_failed_disk d s =
     (if d < 0 \<or> d \<ge> int NDISKS then (-1, s)
      else (0, s\<lparr>failed_disk_mask := failed_disk_mask s OR push_bit (nat d) 1\<rparr>))"

definition setdisksched :: "int \<Rightarrow> 'a qstate_scheme \<Rightarrow> int \<times> 'a qstate_scheme" where
  "setdisksched policy s =
     (if policy \<noteq> SCHED_FCFS \<and> policy \<noteq> SCHED_SSTF then (-1, s) else (0, s\<lparr>disk_policy := policy\<rparr>))"

definition set_raid_mode :: "int \<Rightarrow> 'a qstate_scheme \<Rightarrow> 'a qstate_scheme" where
  "set_raid_mode mode s = s\<lparr>raid_mode := mode\<rparr>"

definition get_disk_stats :: "'a qstate_scheme \<Rightarrow> int \<times> int \<times> int" where
  "get_disk_stats s =
     (stat_reads s, stat_writes s,
      if stat_req_count s > 0 then stat_latency_sum s div stat_req_count s else 0)"

section \<open>The queue\<close>

definition do_disk_read :: "nat \<Rightarrow> dptr \<Rightarrow> 'a qstate_scheme \<Rightarrow> 'a qstate_scheme res" where
  "do_disk_read blockno dst s =
     rbind (bread (of_nat ROOTDEV) (of_nat blockno) s) (\<lambda>(b, s).
       brelse b (store_block dst (b_data (bufs s ! b)) s))"

definition do_disk_write :: "nat \<Rightarrow> dptr \<Rightarrow> 'a qstate_scheme \<Rightarrow> 'a qstate_scheme res" where
  "do_disk_write blockno src s =
     rbind (bread (of_nat ROOTDEV) (of_nat blockno) s) (\<lambda>(b, s).
     rbind (bwrite b (set_data b (load_block src s) s)) (brelse b))"

fun enqueue_in :: "disk_req \<Rightarrow> disk_req list \<Rightarrow> disk_req list" where
  "enqueue_in r [] = []"
| "enqueue_in r (q # qs) = (if \<not> rq_valid q then r # qs else q # enqueue_in r qs)"

definition enqueue_disk_req :: "nat \<Rightarrow> bool \<Rightarrow> dptr \<Rightarrow> int \<Rightarrow> 'a qstate_scheme \<Rightarrow> 'a qstate_scheme" where
  "enqueue_disk_req blockno write data priority s =
     s\<lparr>req_queue := enqueue_in \<lparr>rq_valid = True, rq_blockno = blockno, rq_write = write,
                                  rq_priority = priority, rq_data = data\<rparr> (req_queue s)\<rparr>"

text \<open>First come, first served takes the occupied slot with the lowest index.\<close>

definition pick_fcfs :: "disk_req list \<Rightarrow> nat option" where
  "pick_fcfs q = find (\<lambda>i. rq_valid (q ! i)) [0..<NDISKREQS]"

definition sstf_score :: "int \<Rightarrow> disk_req \<Rightarrow> int" where
  "sstf_score head r =
     (let dist = int (rq_blockno r) - head; dist = (if dist < 0 then - dist else dist)
      in dist * 4 + rq_priority r)"

fun sstf_scan :: "int \<Rightarrow> disk_req list \<Rightarrow> nat list \<Rightarrow> int \<Rightarrow> nat option \<Rightarrow> nat option" where
  "sstf_scan head q [] best_score best_idx = best_idx"
| "sstf_scan head q (i # is) best_score best_idx =
     (if \<not> rq_valid (q ! i) then sstf_scan head q is best_score best_idx
      else let score = sstf_score head (q ! i)
           in if score < best_score then sstf_scan head q is score (Some i)
              else sstf_scan head q is best_score best_idx)"

definition pick_sstf :: "int \<Rightarrow> disk_req list \<Rightarrow> nat option" where
  "pick_sstf head q = sstf_scan head q [0..<NDISKREQS] 0x7fffffff None"

definition pick_req :: "'a qstate_scheme \<Rightarrow> nat option" where
  "pick_req s = (if disk_policy s = SCHED_FCFS then pick_fcfs (req_queue s)
                 else pick_sstf (disk_head_pos s) (req_queue s))"

text \<open>
  Taking request \<open>i\<close> off the queue, with the statistics; the last step updates the average
  latency of the running process. (The operands of the division are not negative.)
\<close>

definition note_latency :: "int \<Rightarrow> proc \<Rightarrow> proc" where
  "note_latency lat p =
     (let total_ops = disk_reads p + disk_writes p
      in if total_ops \<le> 1 then p\<lparr>avg_disk_latency := lat\<rparr>
         else p\<lparr>avg_disk_latency := (avg_disk_latency p * (total_ops - 1) + lat) div total_ops\<rparr>)"

definition take_req :: "nat \<Rightarrow> 'a qstate_scheme \<Rightarrow> 'a qstate_scheme" where
  "take_req i s =
     (let r = req_queue s ! i;
          dist = int (rq_blockno r) - disk_head_pos s;
          dist = (if dist < 0 then - dist else dist);
          lat = dist + ROTATIONAL_DELAY;
          s = s\<lparr>req_queue := (req_queue s)[i := r\<lparr>rq_valid := False\<rparr>]\<rparr>;
          s = (if rq_write r then s\<lparr>stat_writes := stat_writes s + 1\<rparr> else s\<lparr>stat_reads := stat_reads s + 1\<rparr>);
          s = s\<lparr>stat_latency_sum := stat_latency_sum s + lat, stat_req_count := stat_req_count s + 1,
                disk_head_pos := int (rq_blockno r)\<rparr>
      in case myproc s of None \<Rightarrow> s | Some p \<Rightarrow> upd_proc p (note_latency lat) s)"

text \<open>
  The loop takes one request off per turn, so \<open>NDISKREQS + 1\<close> turns are enough for it to find the
  queue empty.
\<close>

fun run_queue :: "nat \<Rightarrow> 'a qstate_scheme \<Rightarrow> 'a qstate_scheme res" where
  "run_queue 0 s = Inl Diverges"
| "run_queue (Suc k) s =
     (case pick_req s of
        None \<Rightarrow> Inr s
      | Some i \<Rightarrow>
          let r = req_queue s ! i; s = take_req i s
          in rbind (if rq_write r then do_disk_write (rq_blockno r) (rq_data r) s
                    else do_disk_read (rq_blockno r) (rq_data r) s) (run_queue k))"

definition run_disk_queue :: "'a qstate_scheme \<Rightarrow> 'a qstate_scheme res" where
  "run_disk_queue s = run_queue (Suc NDISKREQS) s"

section \<open>RAID layouts\<close>

definition raid_real_block :: "nat \<Rightarrow> nat \<Rightarrow> nat \<Rightarrow> nat" where
  "raid_real_block mode disk_id phys_offset =
     (let region_base = SWAP_START + mode * NSWAPBLOCKS_PER_MODE
      in region_base + disk_id * BLOCKS_PER_DISK + phys_offset)"

text \<open>\<open>page + b * BSIZE\<close>\<close>

definition page_block :: "u64 \<Rightarrow> nat \<Rightarrow> dptr" where
  "page_block page b = PMem (page + of_nat (b * BSIZE))"

definition raid0_page :: "bool \<Rightarrow> nat \<Rightarrow> u64 \<Rightarrow> int \<Rightarrow> 'a qstate_scheme \<Rightarrow> 'a qstate_scheme" where
  "raid0_page write slot page priority s =
     fold (\<lambda>b. let logical = slot * BLOCKS_PER_PAGE + b;
                   disk_id = logical mod NDISKS;
                   phys = logical div NDISKS
               in enqueue_disk_req (raid_real_block 0 disk_id phys) write (page_block page b) priority)
       [0..<BLOCKS_PER_PAGE] s"

definition raid0_write_page :: "nat \<Rightarrow> u64 \<Rightarrow> int \<Rightarrow> 'a qstate_scheme \<Rightarrow> 'a qstate_scheme" where
  "raid0_write_page = raid0_page True"

definition raid0_read_page :: "nat \<Rightarrow> u64 \<Rightarrow> int \<Rightarrow> 'a qstate_scheme \<Rightarrow> 'a qstate_scheme" where
  "raid0_read_page = raid0_page False"

definition raid1_write_page :: "nat \<Rightarrow> u64 \<Rightarrow> int \<Rightarrow> 'a qstate_scheme \<Rightarrow> 'a qstate_scheme" where
  "raid1_write_page slot page priority s =
     fold (\<lambda>b s. let logical = slot * BLOCKS_PER_PAGE + b;
                     disk_id = logical mod NDISKS;
                     mirror = (disk_id + 1) mod NDISKS;
                     phys = logical div NDISKS;
                     s = enqueue_disk_req (raid_real_block 1 disk_id phys) True (page_block page b) priority s
                 in enqueue_disk_req (raid_real_block 1 mirror phys) True (page_block page b) priority s)
       [0..<BLOCKS_PER_PAGE] s"

definition raid1_read_page :: "nat \<Rightarrow> u64 \<Rightarrow> int \<Rightarrow> 'a qstate_scheme \<Rightarrow> 'a qstate_scheme" where
  "raid1_read_page slot page priority s =
     fold (\<lambda>b. let logical = slot * BLOCKS_PER_PAGE + b;
                   disk_id = logical mod NDISKS;
                   phys = logical div NDISKS
               in enqueue_disk_req (raid_real_block 1 disk_id phys) False (page_block page b) priority)
       [0..<BLOCKS_PER_PAGE] s"

text \<open>
  The body of the inner loop of RAID 5: block \<open>i\<close> of the row is the \<open>i\<close>-th data block, on disk
  \<open>i\<close>, or \<open>i + 1\<close> from the parity disk on. The row loop runs for \<open>row_start = 0\<close> and \<open>3\<close>.
\<close>

definition raid5_disk :: "nat \<Rightarrow> nat \<Rightarrow> nat" where
  "raid5_disk par_disk i = (if i \<ge> par_disk then i + 1 else i)"

definition xor_block :: "block \<Rightarrow> block \<Rightarrow> block" where
  "xor_block = map2 (XOR)"

definition raid5_write_row :: "nat \<Rightarrow> u64 \<Rightarrow> int \<Rightarrow> nat \<Rightarrow> 'a qstate_scheme \<Rightarrow> 'a qstate_scheme" where
  "raid5_write_row slot page priority row_start s =
     (let row = (slot * BLOCKS_PER_PAGE + row_start) div DATA_PER_ROW;
          par_disk = row mod NDISKS;
          phys = row div NDISKS;
          s = s\<lparr>parity_buf := replicate BSIZE 0\<rparr>;
          s = fold (\<lambda>i s. let block_idx = row_start + i
                 in if block_idx < BLOCKS_PER_PAGE then
                      let s = s\<lparr>parity_buf := xor_block (parity_buf s) (load_block (page_block page block_idx) s)\<rparr>
                      in enqueue_disk_req (raid_real_block 2 (raid5_disk par_disk i) phys) True
                           (page_block page block_idx) priority s
                    else s) [0..<DATA_PER_ROW] s
      in enqueue_disk_req (raid_real_block 2 par_disk phys) True PParity priority s)"

definition raid5_write_page :: "nat \<Rightarrow> u64 \<Rightarrow> int \<Rightarrow> 'a qstate_scheme \<Rightarrow> 'a qstate_scheme" where
  "raid5_write_page slot page priority s = fold (raid5_write_row slot page priority) [0, 3] s"

definition raid5_read_row :: "nat \<Rightarrow> u64 \<Rightarrow> int \<Rightarrow> nat \<Rightarrow> 'a qstate_scheme \<Rightarrow> 'a qstate_scheme" where
  "raid5_read_row slot page priority row_start s =
     (let row = (slot * BLOCKS_PER_PAGE + row_start) div DATA_PER_ROW;
          par_disk = row mod NDISKS;
          phys = row div NDISKS
      in fold (\<lambda>i s. let block_idx = row_start + i
           in if block_idx < BLOCKS_PER_PAGE then
                enqueue_disk_req (raid_real_block 2 (raid5_disk par_disk i) phys) False
                  (page_block page block_idx) priority s
              else s) [0..<DATA_PER_ROW] s)"

definition raid5_read_page :: "nat \<Rightarrow> u64 \<Rightarrow> int \<Rightarrow> 'a qstate_scheme \<Rightarrow> 'a qstate_scheme" where
  "raid5_read_page slot page priority s = fold (raid5_read_row slot page priority) [0, 3] s"

definition disk_swap_write :: "nat \<Rightarrow> u64 \<Rightarrow> int \<Rightarrow> 'a qstate_scheme \<Rightarrow> 'a qstate_scheme res" where
  "disk_swap_write slot page priority s =
     (let mode = raid_mode s;
          s = (if slot < 4096 then s\<lparr>slot_raid_mode := (slot_raid_mode s)[slot := mode]\<rparr> else s)
      in run_disk_queue
           (if mode = 0 then raid0_write_page slot page priority s
            else if mode = 1 then raid1_write_page slot page priority s
            else if mode = 2 then raid5_write_page slot page priority s
            else raid0_write_page slot page priority s))"

definition disk_swap_read :: "nat \<Rightarrow> u64 \<Rightarrow> int \<Rightarrow> 'a qstate_scheme \<Rightarrow> 'a qstate_scheme res" where
  "disk_swap_read slot page priority s =
     (let mode = (if slot < 4096 then slot_raid_mode s ! slot else 0)
      in run_disk_queue
           (if mode = 0 then raid0_read_page slot page priority s
            else if mode = 1 then raid1_read_page slot page priority s
            else if mode = 2 then raid5_read_page slot page priority s
            else raid0_read_page slot page priority s))"

section \<open>Single transfers\<close>

text \<open>A process runs, and the cache has a free buffer.\<close>

definition io_ready :: "'a dstate_scheme \<Rightarrow> bool" where
  "io_ready s \<longleftrightarrow> cache_ok s \<and> myproc s \<noteq> None \<and> the (myproc s) < length (procs s) \<and> card (busy s) < NBUF"

text \<open>The parts of the state that the queue itself keeps.\<close>

definition qfields :: "'a qstate_scheme \<Rightarrow> disk_req list \<times> int \<times> int \<times> int \<times> int list" where
  "qfields s = (req_queue s, disk_policy s, disk_head_pos s, raid_mode s, slot_raid_mode s)"

lemma length_wakeup [simp]: "length (procs (wakeup ch s)) = length (procs s)"
  by (simp add: wakeup_def)

lemma io_readyI:
  assumes "io_ready s" "cache_ok s'" "refs s' = refs s" "myproc s' = myproc s" "length (procs s') = length (procs s)"
  shows "io_ready s'"
  using assms busy_refs [OF assms(3)] by (simp add: io_ready_def)

lemma length_load [simp]: "length (parity_buf s) = BSIZE \<Longrightarrow> length (load_block ptr s) = BSIZE"
  by (simp add: load_block_def split: dptr.split)

lemma do_disk_write_spec:
  assumes "io_ready s" "refs s (of_nat n) = 0" "length (parity_buf s) = BSIZE"
  obtains s' where "do_disk_write n ptr s = Inr s'" "io_ready s'" "refs s' = refs s"
    "view s' = (view s)(of_nat n := load_block ptr s)" "mem s' = mem s" "parity_buf s' = parity_buf s"
    "qfields s' = qfields s"
proof -
  let ?n = "of_nat n :: u32" and ?d = "load_block ptr s"
  have r: "cache_ok s" "myproc s \<noteq> None" "the (myproc s) < length (procs s)" "card (busy s) < NBUF"
    using assms(1) by (auto simp: io_ready_def)
  obtain b s1 where s1: "bread (of_nat ROOTDEV) ?n s = Inr (b, s1)" "cache_ok s1" "held s1 ?n b"
    "s1 = s\<lparr>bufs := bufs s1\<rparr>" "view s1 = view s" "refs s1 = (refs s)(?n := 1)"
    using bread_idle [OF r(1,2,4) assms(2)] by metis
  have ld: "length ?d = BSIZE" using assms(3) by simp
  have f1: "load_block ptr s1 = ?d" "procs s1 = procs s" "myproc s1 = myproc s"
    "mem s1 = mem s" "parity_buf s1 = parity_buf s" "qfields s1 = qfields s"
    by (subst s1(4), simp add: load_block_def myproc_def mycpu_def qfields_def split: dptr.split)+
  define s2 where "s2 = set_data b ?d s1"
  note S2 = set_data_spec [OF s1(2,3) ld, folded s2_def]
  have f2: "procs s2 = procs s1" "myproc s2 = myproc s1" "mem s2 = mem s1" "parity_buf s2 = parity_buf s1"
    "qfields s2 = qfields s1"
    by (subst S2(6), simp add: myproc_def mycpu_def qfields_def)+
  obtain s3 where s3: "bwrite b s2 = Inr s3" "cache_ok s3" "held s3 ?n b"
    "s3 = s2\<lparr>medium := (medium s2)(unat ?n := view s2 ?n), dwrites := dwrites s2 @ [(unat ?n, view s2 ?n)]\<rparr>"
    "view s3 = view s2" "refs s3 = refs s2"
    using bwrite_spec [OF S2(1,2)] by metis
  have f3: "procs s3 = procs s2" "myproc s3 = myproc s2" "mem s3 = mem s2" "parity_buf s3 = parity_buf s2"
    "qfields s3 = qfields s2" "medium s3 (unat ?n) = view s3 ?n"
    unfolding s3(5) by (subst s3(4), simp add: myproc_def mycpu_def qfields_def)+
  obtain s4 where s4: "brelse b s3 = Inr s4" "cache_ok s4"
    "s4 = s3\<lparr>bufs := bufs s4, procs := procs (wakeup (ChBufLock b) s3)\<rparr>"
    "view s4 = view s3" "refs s4 = (refs s3)(?n := refs s3 ?n - 1)" "myproc s4 = myproc s3"
    using brelse_spec [OF s3(2,3)] f3 f2 f1 r(3) by metis
  have f4: "length (procs s4) = length (procs s3)" "mem s4 = mem s3" "parity_buf s4 = parity_buf s3"
    "qfields s4 = qfields s3"
    by (subst s4(3), simp add: qfields_def)+
  have rf: "refs s4 = refs s" using s4(5) s3(6) S2(4) s1(6) assms(2) by auto
  show thesis
  proof (rule that)
    show "do_disk_write n ptr s = Inr s4"
      using s1(1) s3(1) s4(1) f1(1) by (simp add: do_disk_write_def s2_def)
    show "io_ready s4"
      using io_readyI [OF assms(1) s4(2) rf] s4(6) f4(1) f3 f2 f1 by simp
    show "view s4 = (view s)(of_nat n := ?d)" using s4(4) s3(5) S2(3) s1(5) by simp
  qed (use rf f4 f3 f2 f1 in simp_all)
qed

lemma do_disk_read_spec:
  assumes "io_ready s" "refs s (of_nat n) = 0"
  obtains s' where "do_disk_read n ptr s = Inr s'" "io_ready s'" "refs s' = refs s" "view s' = view s"
    "mem s' = mem (store_block ptr (view s (of_nat n)) s)"
    "parity_buf s' = parity_buf (store_block ptr (view s (of_nat n)) s)" "qfields s' = qfields s"
proof -
  let ?n = "of_nat n :: u32"
  let ?d = "view s ?n"
  have r: "cache_ok s" "myproc s \<noteq> None" "the (myproc s) < length (procs s)" "card (busy s) < NBUF"
    using assms(1) by (auto simp: io_ready_def)
  obtain b s1 where s1: "bread (of_nat ROOTDEV) ?n s = Inr (b, s1)" "cache_ok s1" "held s1 ?n b"
    "s1 = s\<lparr>bufs := bufs s1\<rparr>" "view s1 = view s" "refs s1 = (refs s)(?n := 1)"
    using bread_idle [OF r(1,2,4) assms(2)] by metis
  define s2 where "s2 = store_block ptr ?d s1"
  have cong: "bufs s2 = bufs s1" "medium s2 = medium s1" "mylock s2 = mylock s1" "myproc s2 = myproc s1"
    "procs s2 = procs s1" "qfields s2 = qfields s1"
    by (simp_all add: s2_def store_block_def mylock_def myproc_def mycpu_def qfields_def split: dptr.split)
  note C = cache_cong [OF cong(1,2)] held_cong [OF cong(1-4)]
  have f1: "procs s1 = procs s" "myproc s1 = myproc s" "medium s1 = medium s" "qfields s1 = qfields s"
    by (subst s1(4), simp add: myproc_def mycpu_def qfields_def)+
  have f2: "mem s2 = mem (store_block ptr ?d s)" "parity_buf s2 = parity_buf (store_block ptr ?d s)"
    unfolding s2_def by (subst s1(4), simp add: store_block_def split: dptr.split)+
  have "view s2 ?n = medium s2 (unat ?n)" "the (myproc s2) < length (procs s2)"
    using view_idle(1) [OF r(1) assms(2)] C s1(5) cong f1 r(3) by simp_all
  then obtain s4 where s4: "brelse b s2 = Inr s4" "cache_ok s4"
    "s4 = s2\<lparr>bufs := bufs s4, procs := procs (wakeup (ChBufLock b) s2)\<rparr>"
    "view s4 = view s2" "refs s4 = (refs s2)(?n := refs s2 ?n - 1)" "myproc s4 = myproc s2"
    using brelse_spec [of s2 ?n b] s1(2,3) C by metis
  have f4: "length (procs s4) = length (procs s2)" "mem s4 = mem s2" "parity_buf s4 = parity_buf s2"
    "qfields s4 = qfields s2"
    by (subst s4(3), simp add: qfields_def)+
  have rf: "refs s4 = refs s" using s4(5) C(4) s1(6) assms(2) by auto
  show thesis
  proof (rule that)
    show "do_disk_read n ptr s = Inr s4"
      using s1(1) s4(1) held_data [OF s1(2,3)] s1(5) by (simp add: do_disk_read_def s2_def)
    show "io_ready s4"
      using io_readyI [OF assms(1) s4(2) rf] s4(6) f4(1) f1 cong by simp
  qed (use rf s4(4) C(3) s1(5) f4 f2 f1 cong in simp_all)
qed

section \<open>Draining the queue\<close>

lemma sstf_scan_spec:
  defines "ok \<equiv> \<lambda>q i. rq_valid (q ! i)"
  shows "sstf_scan h q is best bi = bi \<and> (\<forall>i \<in> set is. ok q i \<longrightarrow> best \<le> sstf_score h (q ! i)) \<or>
    (\<exists>i \<in> set is. sstf_scan h q is best bi = Some i \<and> ok q i \<and> sstf_score h (q ! i) < best \<and>
       (\<forall>j \<in> set is. ok q j \<longrightarrow> sstf_score h (q ! i) \<le> sstf_score h (q ! j)))"
  unfolding ok_def
proof (induction "is" arbitrary: best bi)
  case (Cons i "is")
  show ?case
  proof (cases "rq_valid (q ! i) \<and> sstf_score h (q ! i) < best")
    case True
    with Cons.IH [of "sstf_score h (q ! i)" "Some i"] show ?thesis by (force simp: Let_def)
  next
    case False
    with Cons.IH [of best bi] show ?thesis by (force simp: Let_def)
  qed
qed simp

text \<open>The requests the swap code makes: small block numbers, MLFQ levels as priorities.\<close>

definition req_ok :: "disk_req \<Rightarrow> bool" where
  "req_ok r \<longleftrightarrow> rq_blockno r < 100000 \<and> 0 \<le> rq_priority r \<and> rq_priority r < 4"

definition pending :: "'a qstate_scheme \<Rightarrow> disk_req list" where
  "pending s = filter rq_valid (req_queue s)"

definition queue_ok :: "'a qstate_scheme \<Rightarrow> bool" where
  "queue_ok s \<longleftrightarrow> length (req_queue s) = NDISKREQS \<and> (\<forall>r \<in> set (pending s). req_ok r) \<and>
     0 \<le> disk_head_pos s \<and> disk_head_pos s < 100000 \<and> length (parity_buf s) = BSIZE"

lemma sstf_score_bound:
  "req_ok r \<Longrightarrow> 0 \<le> h \<Longrightarrow> h < 100000 \<Longrightarrow> sstf_score h r < 0x7fffffff"
  by (auto simp: sstf_score_def req_ok_def Let_def)

lemma pick_req_None: "queue_ok s \<Longrightarrow> pick_req s = None \<longleftrightarrow> pending s = []"
proof -
  assume q: "queue_ok s"
  have "pick_sstf (disk_head_pos s) (req_queue s) = None \<longleftrightarrow> (\<forall>i < NDISKREQS. \<not> rq_valid (req_queue s ! i))"
  proof
    assume "pick_sstf (disk_head_pos s) (req_queue s) = None"
    with sstf_scan_spec [of "disk_head_pos s" "req_queue s" "[0..<NDISKREQS]" "0x7fffffff" None]
    have "\<forall>i < NDISKREQS. rq_valid (req_queue s ! i) \<longrightarrow> 0x7fffffff \<le> sstf_score (disk_head_pos s) (req_queue s ! i)"
      by (auto simp: pick_sstf_def)
    with q show "\<forall>i < NDISKREQS. \<not> rq_valid (req_queue s ! i)"
      using sstf_score_bound [of _ "disk_head_pos s"] by (force simp: queue_ok_def pending_def)
  next
    assume "\<forall>i < NDISKREQS. \<not> rq_valid (req_queue s ! i)"
    with sstf_scan_spec [of "disk_head_pos s" "req_queue s" "[0..<NDISKREQS]" "0x7fffffff" None]
    show "pick_sstf (disk_head_pos s) (req_queue s) = None" by (auto simp: pick_sstf_def)
  qed
  with q show ?thesis
    by (auto simp: pick_req_def pick_fcfs_def find_None_iff pending_def filter_empty_conv queue_ok_def all_set_conv_all_nth)
qed

lemma pick_req_Some:
  assumes "pick_req s = Some i"
  shows "i < NDISKREQS" "rq_valid (req_queue s ! i)"
    "disk_policy s = SCHED_FCFS \<Longrightarrow> \<forall>j < i. \<not> rq_valid (req_queue s ! j)"
  using assms sstf_scan_spec [of "disk_head_pos s" "req_queue s" "[0..<NDISKREQS]" "0x7fffffff" None]
  by (auto simp: pick_req_def pick_fcfs_def pick_sstf_def find_Some_iff split: if_splits)

lemma filter_split:
  assumes "i < length q" "rq_valid (q ! i)"
  shows "filter rq_valid q = filter rq_valid (take i q) @ q ! i # filter rq_valid (drop (Suc i) q)"
    "filter rq_valid (q[i := (q ! i)\<lparr>rq_valid := False\<rparr>]) =
       filter rq_valid (take i q) @ filter rq_valid (drop (Suc i) q)"
  using assms by (subst id_take_nth_drop [of i q], simp_all add: upd_conv_take_nth_drop)

lemma take_req_spec:
  assumes "pick_req s = Some i" "queue_ok s" "io_ready s"
  defines "r \<equiv> req_queue s ! i" and "s' \<equiv> take_req i s"
  shows "mset (pending s) = add_mset r (mset (pending s'))"
    "disk_policy s = SCHED_FCFS \<Longrightarrow> pending s = r # pending s'"
    "queue_ok s'" "io_ready s'" "refs s' = refs s" "view s' = view s" "mem s' = mem s"
    "parity_buf s' = parity_buf s" "disk_policy s' = disk_policy s" "raid_mode s' = raid_mode s"
    "slot_raid_mode s' = slot_raid_mode s"
proof -
  note P = pick_req_Some [OF assms(1)]
  have len: "length (req_queue s) = NDISKREQS" using assms(2) by (simp add: queue_ok_def)
  have q': "req_queue s' = (req_queue s)[i := r\<lparr>rq_valid := False\<rparr>]"
    and fr: "mem s' = mem s" "parity_buf s' = parity_buf s" "disk_policy s' = disk_policy s"
      "raid_mode s' = raid_mode s" "slot_raid_mode s' = slot_raid_mode s" "bufs s' = bufs s"
      "medium s' = medium s" "cpus s' = cpus s" "hartid s' = hartid s" "length (procs s') = length (procs s)"
      "disk_head_pos s' = int (rq_blockno r)"
    by (auto simp: s'_def take_req_def r_def Let_def upd_proc_def split: option.split)
  note sp = filter_split [of i "req_queue s", unfolded len, OF P(1,2), folded r_def]
  show "mset (pending s) = add_mset r (mset (pending s'))"
    by (simp add: pending_def q' sp)
  have "filter rq_valid (take i (req_queue s)) = []" if "disk_policy s = SCHED_FCFS"
    using P(3) [OF that] P(1) len by (auto simp: filter_empty_conv in_set_conv_nth)
  then show "disk_policy s = SCHED_FCFS \<Longrightarrow> pending s = r # pending s'"
    by (simp add: pending_def q' sp)
  have rp: "r \<in> set (pending s)" "set (pending s') \<subseteq> set (pending s)" by (auto simp: pending_def q' sp)
  then have "req_ok r" using assms(2) by (simp add: queue_ok_def)
  then show "queue_ok s'"
    using assms(2) rp fr(2,11) q' len by (auto simp: queue_ok_def req_ok_def)
  note C = cache_cong [OF fr(6,7)]
  show "refs s' = refs s" "view s' = view s" by (rule C)+
  show "io_ready s'"
    using assms(3) C fr by (simp add: io_ready_def myproc_def mycpu_def)
qed (simp_all add: s'_def take_req_def Let_def upd_proc_def split: option.split)

text \<open>The effect of one request on the block contents, the memory and the parity buffer.\<close>

type_synonym io_view = "(u32 \<Rightarrow> block) \<times> memory \<times> block"

definition io_view_of :: "'a qstate_scheme \<Rightarrow> io_view" where
  "io_view_of s = (view s, mem s, parity_buf s)"

fun exec_req :: "disk_req \<Rightarrow> io_view \<Rightarrow> io_view" where
  "exec_req r (v, m, pb) =
     (let n = of_nat (rq_blockno r) in
      if rq_write r
      then (v(n := (case rq_data r of PMem a \<Rightarrow> mem_read m a BSIZE | PParity \<Rightarrow> pb)), m, pb)
      else (case rq_data r of PMem a \<Rightarrow> (v, mem_write m a (v n), pb) | PParity \<Rightarrow> (v, m, v n)))"

definition idle_blocks :: "'a qstate_scheme \<Rightarrow> bool" where
  "idle_blocks s \<longleftrightarrow> (\<forall>r \<in> set (pending s). refs s (of_nat (rq_blockno r)) = 0)"

lemma exec_one:
  assumes "queue_ok s" "io_ready s" "refs s (of_nat (rq_blockno r)) = 0"
  obtains s' where "(if rq_write r then do_disk_write (rq_blockno r) (rq_data r) s
       else do_disk_read (rq_blockno r) (rq_data r) s) = Inr s'"
    "queue_ok s'" "io_ready s'" "refs s' = refs s" "io_view_of s' = exec_req r (io_view_of s)"
    "qfields s' = qfields s"
proof (cases "rq_write r")
  case True
  obtain s' where s': "do_disk_write (rq_blockno r) (rq_data r) s = Inr s'" "io_ready s'" "refs s' = refs s"
    "view s' = (view s)(of_nat (rq_blockno r) := load_block (rq_data r) s)" "mem s' = mem s"
    "parity_buf s' = parity_buf s" "qfields s' = qfields s"
    using do_disk_write_spec [OF assms(2,3)] assms(1) by (metis queue_ok_def)
  have "queue_ok s'" using assms(1) s'(6,7) by (simp add: queue_ok_def pending_def qfields_def)
  with s' True that show ?thesis by (simp add: io_view_of_def load_block_def Let_def)
next
  case False
  obtain s' where s': "do_disk_read (rq_blockno r) (rq_data r) s = Inr s'" "io_ready s'" "refs s' = refs s"
    "view s' = view s" "mem s' = mem (store_block (rq_data r) (view s (of_nat (rq_blockno r))) s)"
    "parity_buf s' = parity_buf (store_block (rq_data r) (view s (of_nat (rq_blockno r))) s)"
    "qfields s' = qfields s"
    using do_disk_read_spec [OF assms(2,3)] by metis
  have "length (view s (of_nat (rq_blockno r))) = BSIZE"
    using assms(2) length_view by (auto simp: io_ready_def)
  then have "queue_ok s'"
    using assms(1) s'(6,7) by (simp add: queue_ok_def pending_def qfields_def store_block_def split: dptr.splits)
  with s' False that show ?thesis
    by (simp add: io_view_of_def store_block_def Let_def split: dptr.split)
qed

lemma run_queue_spec:
  assumes "queue_ok s" "io_ready s" "idle_blocks s" "length (pending s) < k"
  shows "\<exists>s' rs. run_queue k s = Inr s' \<and> mset rs = mset (pending s) \<and>
    (disk_policy s = SCHED_FCFS \<longrightarrow> rs = pending s) \<and> io_view_of s' = fold exec_req rs (io_view_of s) \<and>
    pending s' = [] \<and> queue_ok s' \<and> io_ready s' \<and> refs s' = refs s \<and> disk_policy s' = disk_policy s \<and>
    raid_mode s' = raid_mode s \<and> slot_raid_mode s' = slot_raid_mode s"
  using assms
proof (induction k arbitrary: s)
  case (Suc k)
  show ?case
  proof (cases "pick_req s")
    case None
    then have "pending s = []" using pick_req_None [OF Suc.prems(1)] by simp
    with None Suc.prems show ?thesis by (intro exI [of _ s] exI [of _ "[]"]) simp
  next
    case (Some i)
    define r where "r = req_queue s ! i"
    define s1 where "s1 = take_req i s"
    note T = take_req_spec [OF Some Suc.prems(1,2), folded r_def s1_def]
    have r: "r \<in> set (pending s)" "set (pending s1) \<subseteq> set (pending s)"
      using T(1) by (metis insert_iff set_mset_add_mset_insert set_mset_mset, metis set_mset_add_mset_insert set_mset_mset subset_insertI)
    then have "refs s1 (of_nat (rq_blockno r)) = 0" using Suc.prems(3) T(5) by (simp add: idle_blocks_def)
    then obtain s2 where s2: "(if rq_write r then do_disk_write (rq_blockno r) (rq_data r) s1
       else do_disk_read (rq_blockno r) (rq_data r) s1) = Inr s2"
      "queue_ok s2" "io_ready s2" "refs s2 = refs s1" "io_view_of s2 = exec_req r (io_view_of s1)"
      "qfields s2 = qfields s1"
      using exec_one [OF T(3,4)] by metis
    have q: "pending s2 = pending s1" "disk_policy s2 = disk_policy s" "raid_mode s2 = raid_mode s"
      "slot_raid_mode s2 = slot_raid_mode s" using s2(6) T by (simp_all add: pending_def qfields_def)
    have "size (mset (pending s)) = Suc (size (mset (pending s1)))" using T(1) by simp
    then have "length (pending s2) < k" using Suc.prems(4) q(1) by simp
    moreover have "idle_blocks s2"
      using Suc.prems(3) r(2) T(5) s2(4) q(1) by (auto simp: idle_blocks_def)
    ultimately obtain s' rs where IH: "run_queue k s2 = Inr s'" "mset rs = mset (pending s2)"
      "disk_policy s2 = SCHED_FCFS \<longrightarrow> rs = pending s2" "io_view_of s' = fold exec_req rs (io_view_of s2)"
      "pending s' = []" "queue_ok s'" "io_ready s'" "refs s' = refs s2" "disk_policy s' = disk_policy s2"
      "raid_mode s' = raid_mode s2" "slot_raid_mode s' = slot_raid_mode s2"
      using Suc.IH [OF s2(2,3)] by metis
    have "run_queue (Suc k) s = Inr s'"
      using Some s2(1) [unfolded r_def s1_def] IH(1) by (simp add: Let_def split: if_splits)
    moreover have "io_view_of s' = fold exec_req (r # rs) (io_view_of s)"
      using IH(4) s2(5) T(6-8) by (simp add: io_view_of_def)
    moreover have "mset (r # rs) = mset (pending s)" "disk_policy s = SCHED_FCFS \<longrightarrow> r # rs = pending s"
      using IH(2,3) T(1,2) q by simp_all
    ultimately show ?thesis
      using IH(5-11) q s2(4) T(5) by (intro exI [of _ s'] exI [of _ "r # rs"]) simp
  qed
qed simp

text \<open>
  Property (C26). Draining the queue executes every pending request exactly once, whatever the
  policy, and terminates with an empty queue: with the cache in order and no requested block in
  use, \<open>run_disk_queue\<close> returns, and its effect on the block contents, the memory and the parity
  buffer is that of the pending requests one after the other, in some order; under FCFS it is the
  order of the queue.
\<close>

theorem run_disk_queue_executes_all:
  assumes "queue_ok s" "io_ready s" "idle_blocks s"
  shows "\<exists>s' rs. run_disk_queue s = Inr s' \<and> mset rs = mset (pending s) \<and>
    (disk_policy s = SCHED_FCFS \<longrightarrow> rs = pending s) \<and> io_view_of s' = fold exec_req rs (io_view_of s) \<and>
    pending s' = []"
proof -
  have "length (pending s) \<le> length (req_queue s)" unfolding pending_def by (rule length_filter_le)
  then have "length (pending s) < Suc NDISKREQS" using assms(1) by (simp add: queue_ok_def)
  from run_queue_spec [OF assms this] show ?thesis unfolding run_disk_queue_def by blast
qed

text \<open>
  Property (C38). Under SSTF the request taken next has the least score of all pending ones, where
  the score is four times the seek distance plus the priority: no pending request is nearer, and
  none at the same distance has a more urgent priority.
\<close>

theorem sstf_picks_nearest:
  assumes "queue_ok s" "disk_policy s = SCHED_SSTF" "pending s \<noteq> []"
  shows "\<exists>i. pick_req s = Some i \<and> req_queue s ! i \<in> set (pending s) \<and>
    (\<forall>r \<in> set (pending s).
       \<bar>int (rq_blockno (req_queue s ! i)) - disk_head_pos s\<bar> < \<bar>int (rq_blockno r) - disk_head_pos s\<bar> \<or>
       \<bar>int (rq_blockno (req_queue s ! i)) - disk_head_pos s\<bar> = \<bar>int (rq_blockno r) - disk_head_pos s\<bar> \<and>
       rq_priority (req_queue s ! i) \<le> rq_priority r)"
proof -
  let ?h = "disk_head_pos s" and ?q = "req_queue s"
  have len: "length ?q = NDISKREQS" and ok: "\<And>r. r \<in> set (pending s) \<Longrightarrow> req_ok r"
    using assms(1) by (auto simp: queue_ok_def)
  obtain i where p: "pick_req s = Some i" using pick_req_None [OF assms(1)] assms(3) by auto
  then have scan: "sstf_scan ?h ?q [0..<NDISKREQS] 0x7fffffff None = Some i"
    using assms(2) by (simp add: pick_req_def pick_sstf_def)
  have i: "?q ! i \<in> set (pending s)"
    using pick_req_Some(1,2) [OF p] len by (simp add: pending_def)
  have "sstf_score ?h (?q ! i) \<le> sstf_score ?h r" if r: "r \<in> set (pending s)" for r
  proof -
    obtain j where "j < NDISKREQS" "r = ?q ! j" "rq_valid (?q ! j)"
      using r len by (auto simp: pending_def in_set_conv_nth)
    with sstf_scan_spec [of ?h ?q "[0..<NDISKREQS]" "0x7fffffff" None] scan show ?thesis by auto
  qed
  then have "\<bar>int (rq_blockno (?q ! i)) - ?h\<bar> * 4 + rq_priority (?q ! i) \<le>
      \<bar>int (rq_blockno r) - ?h\<bar> * 4 + rq_priority r" if "r \<in> set (pending s)" for r
    using that by (simp add: sstf_score_def abs_if Let_def)
  moreover have "0 \<le> rq_priority r \<and> rq_priority r < 4" if "r \<in> set (pending s)" for r
    using ok [OF that] by (simp add: req_ok_def)
  ultimately have "\<bar>int (rq_blockno (?q ! i)) - ?h\<bar> < \<bar>int (rq_blockno r) - ?h\<bar> \<or>
       \<bar>int (rq_blockno (?q ! i)) - ?h\<bar> = \<bar>int (rq_blockno r) - ?h\<bar> \<and>
       rq_priority (?q ! i) \<le> rq_priority r" if "r \<in> set (pending s)" for r
    using that i by (smt (verit))
  with p i show ?thesis by blast
qed

section \<open>A concrete state\<close>

definition boot_qstate :: "int \<Rightarrow> disk_req list \<Rightarrow> qstate" where
  "boot_qstate policy reqs = \<lparr>mem = (\<lambda>a. ucast a), procs = replicate NPROC zero_proc,
     cpus = replicate NCPU (zero_cpu\<lparr>c_proc := Some 0\<rparr>), hartid = 0, sie = False, nextpid = 1,
     initproc = None, ticks = 0, bufs = replicate 31 zero_buf, medium = (\<lambda>_. replicate BSIZE 0),
     dwrites = [], disk_policy = policy, disk_head_pos = 0,
     req_queue = reqs @ replicate (NDISKREQS - length reqs)
       \<lparr>rq_valid = False, rq_blockno = 0, rq_write = False, rq_priority = 0, rq_data = PParity\<rparr>,
     stat_reads = 0, stat_writes = 0, stat_latency_sum = 0, stat_req_count = 0, raid_mode = 0,
     slot_raid_mode = replicate 4096 0, parity_buf = replicate BSIZE 0, failed_disk_mask = 0\<rparr>"

lemma boot_qstate_facts:
  "io_ready (binit (boot_qstate p reqs))" "refs (binit (boot_qstate p reqs)) = (\<lambda>n. 0)"
  "pending (binit (boot_qstate p reqs)) = filter rq_valid reqs"
  "length reqs \<le> NDISKREQS \<Longrightarrow> list_all req_ok reqs \<Longrightarrow> queue_ok (binit (boot_qstate p reqs))"
  "disk_policy (binit (boot_qstate p reqs)) = p" "raid_mode (binit (boot_qstate p reqs)) = 0"
  "slot_raid_mode (binit (boot_qstate p reqs)) = replicate 4096 0"
proof -
  let ?b = "boot_qstate p reqs"
  have B0: "bufs ?b = replicate 31 zero_buf" "\<And>n. length (medium ?b n) = BSIZE"
    by (simp_all add: boot_qstate_def)
  note B = binit_spec [OF B0]
  have fr: "cpus (binit ?b) = cpus ?b" "hartid (binit ?b) = hartid ?b" "procs (binit ?b) = procs ?b"
    "req_queue (binit ?b) = req_queue ?b" "disk_head_pos (binit ?b) = disk_head_pos ?b"
    "parity_buf (binit ?b) = parity_buf ?b" and p: "disk_policy (binit ?b) = disk_policy ?b"
    and m: "raid_mode (binit ?b) = raid_mode ?b" and sm: "slot_raid_mode (binit ?b) = slot_raid_mode ?b"
    by (subst B(5), simp)+
  show "refs (binit ?b) = (\<lambda>n. 0)" by (rule B(3))
  then show "io_ready (binit ?b)"
    using B(1) fr by (simp add: io_ready_def busy_def myproc_def mycpu_def boot_qstate_def)
  show pe: "pending (binit ?b) = filter rq_valid reqs"
    unfolding pending_def fr by (simp add: boot_qstate_def)
  show "length reqs \<le> NDISKREQS \<Longrightarrow> list_all req_ok reqs \<Longrightarrow> queue_ok (binit ?b)"
    by (auto simp: queue_ok_def pe list_all_iff fr) (simp_all add: boot_qstate_def)
  show "disk_policy (binit ?b) = p" "raid_mode (binit ?b) = 0" "slot_raid_mode (binit ?b) = replicate 4096 0"
    by (simp_all add: p m sm) (simp_all add: boot_qstate_def)
qed

definition example_reqs :: "disk_req list" where
  "example_reqs =
     [\<lparr>rq_valid = True, rq_blockno = 20007, rq_write = True, rq_priority = 1, rq_data = PMem 4096\<rparr>,
      \<lparr>rq_valid = True, rq_blockno = 20003, rq_write = False, rq_priority = 0, rq_data = PMem 8192\<rparr>]"

theorem run_disk_queue_executes_all_witness:
  "\<exists>s' rs. run_disk_queue (binit (boot_qstate SCHED_SSTF example_reqs)) = Inr s' \<and>
    mset rs = mset (pending (binit (boot_qstate SCHED_SSTF example_reqs))) \<and>
    (disk_policy (binit (boot_qstate SCHED_SSTF example_reqs)) = SCHED_FCFS \<longrightarrow>
       rs = pending (binit (boot_qstate SCHED_SSTF example_reqs))) \<and>
    io_view_of s' = fold exec_req rs (io_view_of (binit (boot_qstate SCHED_SSTF example_reqs))) \<and>
    pending s' = []"
  by (rule run_disk_queue_executes_all)
    (simp_all add: boot_qstate_facts idle_blocks_def example_reqs_def req_ok_def)

theorem sstf_picks_nearest_witness:
  "\<exists>i. pick_req (binit (boot_qstate SCHED_SSTF example_reqs)) = Some i"
  using sstf_picks_nearest [of "binit (boot_qstate SCHED_SSTF example_reqs)"]
  by (simp add: boot_qstate_facts example_reqs_def req_ok_def) blast

end
