(* ===== verification/Raid.thy ===== *)
theory Raid
  imports DiskSched
begin

text \<open>
  How the RAID layouts of \<^verbatim>\<open>kernel/virtio_disk.c\<close> fill the request queue, and the RAID 0 round
  trip under every scheduling policy.
\<close>

section \<open>Filling the queue\<close>

definition mkreq :: "nat \<Rightarrow> bool \<Rightarrow> dptr \<Rightarrow> int \<Rightarrow> disk_req" where
  "mkreq n w d p = \<lparr>rq_valid = True, rq_blockno = n, rq_write = w, rq_priority = p, rq_data = d\<rparr>"

lemma mkreq_simps [simp]:
  "rq_valid (mkreq n w d p)" "rq_blockno (mkreq n w d p) = n" "rq_write (mkreq n w d p) = w"
  "rq_data (mkreq n w d p) = d" "rq_priority (mkreq n w d p) = p"
  by (simp_all add: mkreq_def)

text \<open>The occupied slots come first, \<open>k\<close> of them.\<close>

definition filled :: "nat \<Rightarrow> 'a qstate_scheme \<Rightarrow> bool" where
  "filled k s \<longleftrightarrow> (\<exists>us vs. req_queue s = us @ vs \<and> length us = k \<and> length (us @ vs) = NDISKREQS \<and>
     (\<forall>r \<in> set us. rq_valid r) \<and> (\<forall>r \<in> set vs. \<not> rq_valid r))"

lemma enqueue_in_prefix:
  "(\<forall>r \<in> set us. rq_valid r) \<Longrightarrow> \<not> rq_valid v \<Longrightarrow> enqueue_in r (us @ v # vs) = us @ r # vs"
  by (induction us) auto

lemma enqueue_filled:
  assumes "filled k s" "k < NDISKREQS"
  shows "filled (Suc k) (enqueue_disk_req n w d p s) \<and>
    pending (enqueue_disk_req n w d p s) = pending s @ [mkreq n w d p]"
proof -
  define s' where "s' = enqueue_disk_req n w d p s"
  obtain us vs where q: "req_queue s = us @ vs" "length us = k" "length (us @ vs) = NDISKREQS"
    "\<forall>r \<in> set us. rq_valid r" "\<forall>r \<in> set vs. \<not> rq_valid r"
    using assms(1) by (auto simp: filled_def)
  then obtain v vs' where vs: "vs = v # vs'" using assms(2) by (cases vs) auto
  then have q': "req_queue s' = (us @ [mkreq n w d p]) @ vs'"
    using q by (simp add: s'_def enqueue_disk_req_def enqueue_in_prefix mkreq_def)
  have "filled (Suc k) s'"
    unfolding filled_def q' using q vs by (intro exI [of _ "us @ [mkreq n w d p]"] exI [of _ vs']) auto
  moreover have "filter rq_valid vs' = []" "filter rq_valid vs = []" using q(5) vs by (auto simp: filter_empty_conv)
  ultimately show ?thesis unfolding s'_def [symmetric] by (simp add: pending_def q' q(1))
qed

definition enqueue_all :: "int \<Rightarrow> (nat \<times> bool \<times> dptr) list \<Rightarrow> 'a qstate_scheme \<Rightarrow> 'a qstate_scheme" where
  "enqueue_all p = fold (\<lambda>(n, w, d). enqueue_disk_req n w d p)"

lemma enqueue_all_filled:
  assumes "filled k s" "k + length l \<le> NDISKREQS"
  shows "filled (k + length l) (enqueue_all p l s) \<and>
    pending (enqueue_all p l s) = pending s @ map (\<lambda>(n, w, d). mkreq n w d p) l"
  using assms
proof (induction l arbitrary: k s)
  case (Cons r l)
  obtain n w d where r: "r = (n, w, d)" by (metis prod_cases3)
  have "filled (Suc k) (enqueue_disk_req n w d p s) \<and>
      pending (enqueue_disk_req n w d p s) = pending s @ [mkreq n w d p]"
    using Cons.prems by (intro enqueue_filled) auto
  with Cons.IH [of "Suc k" "enqueue_disk_req n w d p s"] Cons.prems r show ?case
    by (simp add: enqueue_all_def)
qed (simp add: enqueue_all_def)

lemma filled_0: "queue_ok s \<Longrightarrow> pending s = [] \<Longrightarrow> filled 0 s"
  unfolding filled_def queue_ok_def pending_def
  by (intro exI [of _ "[]"] exI [of _ "req_queue s"]) (auto simp: filter_empty_conv)

lemma filled_parity [simp]: "filled k (s\<lparr>parity_buf := d\<rparr>) = filled k s" "pending (s\<lparr>parity_buf := d\<rparr>) = pending s"
  "filled k (s\<lparr>slot_raid_mode := x\<rparr>) = filled k s" "pending (s\<lparr>slot_raid_mode := x\<rparr>) = pending s"
  by (simp_all add: filled_def pending_def)

text \<open>Everything but the queue itself, when only the queue, the parity buffer and the slot modes change.\<close>

definition queue_only :: "'a qstate_scheme \<Rightarrow> 'a qstate_scheme \<Rightarrow> bool" where
  "queue_only s s' \<longleftrightarrow> s'\<lparr>req_queue := [], parity_buf := [], slot_raid_mode := []\<rparr> =
     s\<lparr>req_queue := [], parity_buf := [], slot_raid_mode := []\<rparr>"

lemma queue_onlyD:
  assumes "queue_only s s'"
  shows "view s' = view s" "refs s' = refs s" "io_ready s' = io_ready s" "mem s' = mem s"
    "disk_policy s' = disk_policy s" "raid_mode s' = raid_mode s" "disk_head_pos s' = disk_head_pos s"
proof -
  note eq = assms [unfolded queue_only_def]
  have C: "bufs s' = bufs s" "medium s' = medium s"
    using arg_cong [OF eq, of bufs] arg_cong [OF eq, of medium] by simp_all
  note cong = cache_cong [OF C]
  show "view s' = view s" "refs s' = refs s" by (rule cong)+
  show "io_ready s' = io_ready s"
    unfolding io_ready_def cong
    using arg_cong [OF eq, of procs] arg_cong [OF eq, of cpus] arg_cong [OF eq, of hartid]
    by (simp add: myproc_def mycpu_def)
  show "mem s' = mem s" "disk_policy s' = disk_policy s" "raid_mode s' = raid_mode s"
    "disk_head_pos s' = disk_head_pos s"
    using arg_cong [OF eq, of mem] arg_cong [OF eq, of disk_policy] arg_cong [OF eq, of raid_mode]
      arg_cong [OF eq, of disk_head_pos] by simp_all
qed

lemma queue_only_refl: "queue_only s s"
  by (simp add: queue_only_def)

lemma queue_only_enqueue: "queue_only s s' \<Longrightarrow> queue_only s (enqueue_disk_req n w d p s')"
  by (simp add: queue_only_def enqueue_disk_req_def)

lemma queue_only_parity:
  "queue_only s s' \<Longrightarrow> queue_only s (s'\<lparr>parity_buf := d\<rparr>)"
  "queue_only s s' \<Longrightarrow> queue_only s (s'\<lparr>slot_raid_mode := x\<rparr>)"
  by (simp_all add: queue_only_def)

lemma queue_only_enqueue_all:
  "queue_only s s' \<Longrightarrow> queue_only s (enqueue_all p l s')"
  "parity_buf (enqueue_all p l s') = parity_buf s'" "slot_raid_mode (enqueue_all p l s') = slot_raid_mode s'"
  "mem (enqueue_all p l s') = mem s'"
proof -
  show "queue_only s s' \<Longrightarrow> queue_only s (enqueue_all p l s')"
    by (induction l arbitrary: s') (auto simp: enqueue_all_def queue_only_enqueue)
  show "parity_buf (enqueue_all p l s') = parity_buf s'" "slot_raid_mode (enqueue_all p l s') = slot_raid_mode s'"
    "mem (enqueue_all p l s') = mem s'"
    by (induction l arbitrary: s') (auto simp: enqueue_all_def enqueue_disk_req_def)
qed

lemmas queue_only_intros = queue_only_refl queue_only_enqueue queue_only_parity

section \<open>RAID 0\<close>

definition raid0_req :: "bool \<Rightarrow> nat \<Rightarrow> u64 \<Rightarrow> int \<Rightarrow> nat \<Rightarrow> disk_req" where
  "raid0_req w slot page p b = mkreq (SWAP_START + b * BLOCKS_PER_DISK + slot) w (page_block page b) p"

lemma raid0_page_queue:
  assumes "filled 0 s" "pending s = []"
  shows "pending (raid0_page w slot page p s) = map (raid0_req w slot page p) [0, 1, 2, 3] \<and>
    (\<exists>k. filled k (raid0_page w slot page p s)) \<and> queue_only s (raid0_page w slot page p s) \<and>
    parity_buf (raid0_page w slot page p s) = parity_buf s \<and>
    slot_raid_mode (raid0_page w slot page p s) = slot_raid_mode s"
proof -
  let ?l = "map (\<lambda>b. (SWAP_START + b * BLOCKS_PER_DISK + slot, w, page_block page b)) [0, 1, 2, 3]"
  have u: "[0..<BLOCKS_PER_PAGE] = [0, 1, 2, 3]" by (simp add: upt_rec)
  have r: "raid0_page w slot page p s = enqueue_all p ?l s"
    by (simp add: raid0_page_def u raid_real_block_def enqueue_all_def Let_def)
  have "pending (enqueue_all p ?l s) = map (raid0_req w slot page p) [0, 1, 2, 3]"
    using enqueue_all_filled [OF assms(1), of ?l p] assms(2) by (simp add: raid0_req_def)
  moreover have "\<exists>k. filled k (enqueue_all p ?l s)"
    using enqueue_all_filled [OF assms(1), of ?l p] by auto
  ultimately show ?thesis unfolding r by (simp only: queue_only_enqueue_all queue_only_refl simp_thms)
qed

lemma filled_queue_ok:
  assumes "filled k s'" "queue_only s s'" "queue_ok s" "length (parity_buf s') = BSIZE"
    "\<And>r. r \<in> set (pending s') \<Longrightarrow> req_ok r"
  shows "queue_ok s'"
  using assms queue_onlyD(7) [OF assms(2)] by (auto simp: queue_ok_def filled_def)

section \<open>Sequences of transfers\<close>

definition req_value :: "memory \<Rightarrow> block \<Rightarrow> disk_req \<Rightarrow> block" where
  "req_value m pb r = (case rq_data r of PMem a \<Rightarrow> mem_read m a BSIZE | PParity \<Rightarrow> pb)"

lemma exec_writes:
  assumes "\<forall>r \<in> set rs. rq_write r" "distinct (map (\<lambda>r. of_nat (rq_blockno r) :: u32) rs)"
  shows "\<exists>v'. fold exec_req rs (v, m, pb) = (v', m, pb) \<and>
    (\<forall>r \<in> set rs. v' (of_nat (rq_blockno r)) = req_value m pb r) \<and>
    (\<forall>n. n \<notin> (\<lambda>r. of_nat (rq_blockno r)) ` set rs \<longrightarrow> v' n = v n)"
  using assms
proof (induction rs arbitrary: v)
  case (Cons r rs)
  let ?v = "v(of_nat (rq_blockno r) := req_value m pb r)"
  have "exec_req r (v, m, pb) = (?v, m, pb)" using Cons.prems by (simp add: req_value_def Let_def)
  moreover obtain v' where "fold exec_req rs (?v, m, pb) = (v', m, pb)"
    "\<forall>q \<in> set rs. v' (of_nat (rq_blockno q)) = req_value m pb q"
    "\<forall>n. n \<notin> (\<lambda>r. of_nat (rq_blockno r)) ` set rs \<longrightarrow> v' n = ?v n"
    using Cons by fastforce
  ultimately show ?case using Cons.prems(2) by (intro exI [of _ v']) auto
qed simp

lemma mem_write_page:
  assumes "b < 4" "length d = BSIZE"
  shows "mem_write m (page + of_nat (b * BSIZE)) d x =
    (if unat (x - page) div BSIZE = b then d ! (unat (x - page) mod BSIZE) else m x)"
proof -
  let ?y = "x - page" and ?k = "b * BSIZE"
  have k: "unat (of_nat ?k :: u64) = ?k" using assms(1) by (intro unat_of_nat_u64) simp
  have "x - (page + of_nat ?k) = ?y - of_nat ?k" by simp
  then have sub: "unat (x - (page + of_nat ?k)) =
      (if ?k \<le> unat ?y then unat ?y - ?k else unat ?y + 2 ^ 64 - ?k)"
    using unat_sub_if' [of ?y "of_nat ?k"] by (simp only: k) simp
  have "unat (x - (page + of_nat ?k)) < BSIZE \<longleftrightarrow> unat ?y div BSIZE = b"
  proof
    assume "unat (x - (page + of_nat ?k)) < BSIZE"
    then have "?k \<le> unat ?y" "unat ?y < ?k + BSIZE" using sub assms(1) by (auto split: if_splits)
    then show "unat ?y div BSIZE = b" using div_nat_eqI [of b BSIZE "unat ?y"] by simp
  next
    assume "unat ?y div BSIZE = b"
    then have "?k \<le> unat ?y" "unat ?y < ?k + BSIZE" by auto
    then show "unat (x - (page + of_nat ?k)) < BSIZE" using sub by simp
  qed
  moreover have "unat (x - (page + of_nat ?k)) = unat ?y mod BSIZE" if "unat ?y div BSIZE = b"
    using that sub by (auto simp: minus_div_mult_eq_mod [symmetric])
  ultimately show ?thesis using assms(2) by (simp add: mem_write_def)
qed

lemma exec_reads_page:
  assumes "\<And>n. length (v n) = BSIZE" "set bs \<subseteq> {..<4}" "distinct bs"
  shows "fold exec_req (map (\<lambda>b. mkreq (f b) False (page_block page b) p) bs) (v, m, pb) =
    (v, \<lambda>x. let k = unat (x - page) in
        if k div BSIZE \<in> set bs then v (of_nat (f (k div BSIZE))) ! (k mod BSIZE) else m x, pb)"
  using assms(2,3)
proof (induction bs arbitrary: m)
  case (Cons b bs)
  let ?m = "mem_write m (page + of_nat (b * BSIZE)) (v (of_nat (f b)))"
  have w: "?m x = (if unat (x - page) div BSIZE = b then v (of_nat (f b)) ! (unat (x - page) mod BSIZE) else m x)" for x
    using Cons.prems(1) assms(1) by (intro mem_write_page) auto
  have "exec_req (mkreq (f b) False (page_block page b) p) (v, m, pb) = (v, ?m, pb)"
    by (simp add: page_block_def Let_def)
  then show ?case using Cons by (auto simp: w [simplified] Let_def fun_eq_iff)
qed simp

lemma mset_map_perm: "mset rs = mset (map f xs) \<Longrightarrow> \<exists>bs. rs = map f bs \<and> mset bs = mset xs"
proof (induction rs arbitrary: xs)
  case (Cons r rs)
  have "set (r # rs) = set (map f xs)" using Cons.prems by (rule mset_eq_setD)
  then have "r \<in> set (map f xs)" by auto
  then obtain x where x: "x \<in> set xs" "r = f x" by auto
  then have "mset xs = add_mset x (mset (remove1 x xs))" by simp
  then have "mset (map f xs) = add_mset r (mset (map f (remove1 x xs)))"
    using x(2) by (simp only: mset_map image_mset_add_mset)
  then have "mset rs = mset (map f (remove1 x xs))" using Cons.prems by simp
  with Cons.IH obtain bs where "rs = map f bs" "mset bs = mset (remove1 x xs)" by blast
  with x show ?case by (intro exI [of _ "x # bs"]) simp
qed simp

section \<open>The RAID 0 round trip\<close>

text \<open>The blocks of a slot in the RAID 0 region.\<close>

definition raid0_block :: "nat \<Rightarrow> nat \<Rightarrow> nat" where
  "raid0_block slot b = SWAP_START + b * BLOCKS_PER_DISK + slot"

lemma raid0_block_inj:
  "slot < NSWAPSPACE \<Longrightarrow> b < 4 \<Longrightarrow> c < 4 \<Longrightarrow>
   (of_nat (raid0_block slot b) :: u32) = of_nat (raid0_block slot c) \<longleftrightarrow> b = c"
proof -
  assume "slot < NSWAPSPACE" "b < 4" "c < 4"
  then have "unat (of_nat (raid0_block slot b) :: u32) = raid0_block slot b"
    "unat (of_nat (raid0_block slot c) :: u32) = raid0_block slot c"
    by (intro unat_of_nat_u32; simp add: raid0_block_def)+
  then show ?thesis by (simp only: word_unat_eq_iff) (simp add: raid0_block_def)
qed

lemma raid0_req_simps [simp]:
  "rq_write (raid0_req w slot page p b) = w" "rq_data (raid0_req w slot page p b) = page_block page b"
  "rq_blockno (raid0_req w slot page p b) = raid0_block slot b" "rq_priority (raid0_req w slot page p b) = p"
  by (simp_all add: raid0_req_def raid0_block_def)

text \<open>A quiet swap layer: queue empty, cache in order, the blocks of the slot not in use.\<close>

definition swap_ready :: "nat \<Rightarrow> 'a qstate_scheme \<Rightarrow> bool" where
  "swap_ready slot s \<longleftrightarrow> queue_ok s \<and> io_ready s \<and> pending s = [] \<and>
     (\<forall>b < 4. refs s (of_nat (raid0_block slot b)) = 0)"

lemma run_requests:
  assumes "queue_ok s" "io_ready s" "\<exists>k. filled k t" "queue_only s t" "length (parity_buf t) = BSIZE"
    "\<forall>r \<in> set (pending t). req_ok r \<and> refs s (of_nat (rq_blockno r)) = 0"
  shows "\<exists>s' rs. run_disk_queue t = Inr s' \<and> mset rs = mset (pending t) \<and>
    (disk_policy s = SCHED_FCFS \<longrightarrow> rs = pending t) \<and>
    io_view_of s' = fold exec_req rs (view s, mem s, parity_buf t) \<and>
    pending s' = [] \<and> queue_ok s' \<and> io_ready s' \<and> refs s' = refs s \<and>
    raid_mode s' = raid_mode s \<and> slot_raid_mode s' = slot_raid_mode t"
proof -
  note Q = queue_onlyD [OF assms(4)]
  obtain k where k: "filled k t" using assms(3) by blast
  have "queue_ok t" using assms(6) by (intro filled_queue_ok [OF k assms(4,1,5)]) auto
  moreover have "idle_blocks t" using assms(6) Q(2) by (simp add: idle_blocks_def)
  moreover have "io_ready t" using Q(3) assms(2) by simp
  moreover have "length (pending t) < Suc NDISKREQS"
    using k length_filter_le [of rq_valid "req_queue t"] by (auto simp: filled_def pending_def)
  ultimately obtain s' rs where s': "run_queue (Suc NDISKREQS) t = Inr s'" "mset rs = mset (pending t)"
    "disk_policy t = SCHED_FCFS \<longrightarrow> rs = pending t" "io_view_of s' = fold exec_req rs (io_view_of t)"
    "pending s' = []" "queue_ok s'" "io_ready s'" "refs s' = refs t"
    "raid_mode s' = raid_mode t" "slot_raid_mode s' = slot_raid_mode t"
    using run_queue_spec by blast
  then show ?thesis using Q unfolding run_disk_queue_def
    by (intro exI [of _ s'] exI [of _ rs]) (simp add: io_view_of_def)
qed

lemma raid0_run:
  assumes "swap_ready slot s" "slot < NSWAPSPACE" "0 \<le> p" "p < 4"
  shows "\<exists>s' bs. run_disk_queue (raid0_page w slot page p s) = Inr s' \<and> mset bs = mset [0, 1, 2, 3 :: nat] \<and>
    io_view_of s' = fold exec_req (map (raid0_req w slot page p) bs) (io_view_of s) \<and>
    pending s' = [] \<and> queue_ok s' \<and> io_ready s' \<and> refs s' = refs s \<and> slot_raid_mode s' = slot_raid_mode s"
proof -
  have r: "queue_ok s" "io_ready s" "pending s = []" "\<And>b. b < 4 \<Longrightarrow> refs s (of_nat (raid0_block slot b)) = 0"
    using assms(1) by (auto simp: swap_ready_def)
  define t where "t = raid0_page w slot page p s"
  have t: "pending t = map (raid0_req w slot page p) [0, 1, 2, 3]" "\<exists>k. filled k t" "queue_only s t"
    "parity_buf t = parity_buf s" "slot_raid_mode t = slot_raid_mode s"
    using raid0_page_queue [OF filled_0 [OF r(1,3)] r(3), of w slot page p] unfolding t_def by blast+
  have "length (parity_buf t) = BSIZE" using t(4) r(1) by (simp add: queue_ok_def)
  moreover have "req_ok r \<and> refs s (of_nat (rq_blockno r)) = 0" if "r \<in> set (pending t)" for r
  proof -
    have "r \<in> raid0_req w slot page p ` {0, 1, 2, 3}" using that t(1) by (metis list.set(1,2) set_map)
    then obtain b where "b \<in> {0, 1, 2, 3}" and b2: "r = raid0_req w slot page p b" by blast
    then have b: "b < 4" "r = raid0_req w slot page p b" by auto
    have "raid0_block slot b < 100000" using b(1) assms(2) by (simp add: raid0_block_def)
    with b r(4) [OF b(1)] assms(3,4) show ?thesis by (simp add: req_ok_def)
  qed
  ultimately obtain s' rs where s': "run_disk_queue t = Inr s'" "mset rs = mset (pending t)"
    "io_view_of s' = fold exec_req rs (view s, mem s, parity_buf t)"
    "pending s' = []" "queue_ok s'" "io_ready s'" "refs s' = refs s" "slot_raid_mode s' = slot_raid_mode t"
    using run_requests [OF r(1,2) t(2,3)] by blast
  obtain bs where "rs = map (raid0_req w slot page p) bs" "mset bs = mset [0, 1, 2, 3]"
    using mset_map_perm s'(2) t(1) by metis
  with s' t show ?thesis unfolding t_def [symmetric]
    by (intro exI [of _ s'] exI [of _ bs]) (simp add: io_view_of_def)
qed

lemma perm4: "mset bs = mset [0, 1, 2, 3 :: nat] \<Longrightarrow> distinct bs \<and> set bs = {..<4}"
proof -
  assume "mset bs = mset [0, 1, 2, 3 :: nat]"
  then have "set bs = set [0, 1, 2, 3]" "distinct bs \<longleftrightarrow> distinct [0, 1, 2, 3 :: nat]"
    by (metis set_mset_mset, metis mset_eq_imp_distinct_iff)
  then show ?thesis by auto
qed

lemma disk_swap_write_raid0:
  assumes "swap_ready slot s" "slot < NSWAPSPACE" "0 \<le> p" "p < 4" "raid_mode s \<noteq> 1" "raid_mode s \<noteq> 2"
    "length (slot_raid_mode s) = NSWAPSPACE"
  shows "\<exists>s'. disk_swap_write slot page p s = Inr s' \<and> swap_ready slot s' \<and> mem s' = mem s \<and>
    slot_raid_mode s' = (slot_raid_mode s)[slot := raid_mode s] \<and>
    (\<forall>b < 4. view s' (of_nat (raid0_block slot b)) = mem_read (mem s) (page + of_nat (b * BSIZE)) BSIZE) \<and>
    (\<forall>n. n \<notin> (\<lambda>b. of_nat (raid0_block slot b)) ` {..<4} \<longrightarrow> view s' n = view s n)"
proof -
  define t where "t = s\<lparr>slot_raid_mode := (slot_raid_mode s)[slot := raid_mode s]\<rparr>"
  have qo: "queue_only s t" unfolding t_def by (intro queue_only_intros)
  note Q = queue_onlyD [OF qo]
  have tr: "swap_ready slot t"
    using assms(1) Q by (simp add: swap_ready_def queue_ok_def) (simp add: t_def)
  obtain s' bs where s': "run_disk_queue (raid0_page True slot page p t) = Inr s'" "mset bs = mset [0, 1, 2, 3 :: nat]"
    "io_view_of s' = fold exec_req (map (raid0_req True slot page p) bs) (io_view_of t)"
    "pending s' = []" "queue_ok s'" "io_ready s'" "refs s' = refs t" "slot_raid_mode s' = slot_raid_mode t"
    using raid0_run [OF tr assms(2-4), of True page] by blast
  let ?rs = "map (raid0_req True slot page p) bs"
  have d: "distinct bs" "set bs = {..<4}" using perm4 [OF s'(2)] by auto
  have "distinct (map (\<lambda>r. of_nat (rq_blockno r) :: u32) ?rs)"
    using d raid0_block_inj [OF assms(2)]
    by (auto simp: distinct_map inj_on_def)
  then obtain v' where v': "fold exec_req ?rs (view t, mem t, parity_buf t) = (v', mem t, parity_buf t)"
    "\<forall>r \<in> set ?rs. v' (of_nat (rq_blockno r)) = req_value (mem t) (parity_buf t) r"
    "\<forall>n. n \<notin> (\<lambda>r. of_nat (rq_blockno r)) ` set ?rs \<longrightarrow> v' n = view t n"
    using exec_writes [of ?rs "view t" "mem t" "parity_buf t"] by auto
  then have io: "view s' = v'" "mem s' = mem s" using s'(3) Q(4) by (auto simp: io_view_of_def)
  have op: "disk_swap_write slot page p s = Inr s'"
    using s'(1) assms(2,5,6) by (cases "raid_mode s = 0") (simp_all add: disk_swap_write_def raid0_write_page_def t_def Let_def)
  show ?thesis
  proof (intro exI [of _ s'] conjI)
    show "swap_ready slot s'" using s'(4-7) tr by (simp add: swap_ready_def)
    show "\<forall>b < 4. view s' (of_nat (raid0_block slot b)) = mem_read (mem s) (page + of_nat (b * BSIZE)) BSIZE"
      using v'(2) io d Q(4) by (simp add: req_value_def page_block_def)
    show "\<forall>n. n \<notin> (\<lambda>b. of_nat (raid0_block slot b)) ` {..<4} \<longrightarrow> view s' n = view s n"
      using v'(3) io d Q(1) by (auto simp: image_image)
  qed (use op io s'(8) in \<open>simp_all add: t_def\<close>)
qed

lemma mem_read_cong: "(\<And>i. i < n \<Longrightarrow> m (a + of_nat i) = m' (a' + of_nat i)) \<Longrightarrow> mem_read m a n = mem_read m' a' n"
  by (simp add: mem_read_def)

lemma disk_swap_read_raid0:
  fixes t :: "'a qstate_scheme"
  assumes t: "swap_ready slot t" "slot < NSWAPSPACE" "0 \<le> q" "q < 4" "slot_raid_mode t ! slot \<noteq> 1" "slot_raid_mode t ! slot \<noteq> 2"
    "\<forall>b < 4. view t (of_nat (raid0_block slot b)) = mem_read m (page + of_nat (b * BSIZE)) BSIZE"
  shows "\<exists>t1. disk_swap_read slot page' q t = Inr t1 \<and> swap_ready slot t1 \<and>
    mem_read (mem t1) page' PGSIZE = mem_read m page PGSIZE \<and> (\<forall>x. PGSIZE \<le> unat (x - page') \<longrightarrow> mem t1 x = mem t x)"
proof -
  obtain t1 bs where t1: "run_disk_queue (raid0_page False slot page' q t) = Inr t1"
    "mset bs = mset [0, 1, 2, 3 :: nat]"
    "io_view_of t1 = fold exec_req (map (raid0_req False slot page' q) bs) (io_view_of t)"
    "pending t1 = []" "queue_ok t1" "io_ready t1" "refs t1 = refs t"
    using raid0_run [OF t(1-4), of False page'] by blast
  have len: "length (view t n) = BSIZE" for n
    using t(1) length_view by (auto simp: swap_ready_def io_ready_def)
  have rq: "raid0_req False slot page' q = (\<lambda>b. mkreq (raid0_block slot b) False (page_block page' b) q)"
    by (simp add: raid0_req_def raid0_block_def fun_eq_iff)
  have m: "mem t1 x = (if unat (x - page') < PGSIZE
      then view t (of_nat (raid0_block slot (unat (x - page') div BSIZE))) ! (unat (x - page') mod BSIZE)
      else mem t x)" for x
  proof -
    have bs: "distinct bs" "set bs = {..<4}" using perm4 [OF t1(2)] by auto
    have "io_view_of t1 = (view t, \<lambda>x. let k = unat (x - page') in
        if k div BSIZE \<in> set bs then view t (of_nat (raid0_block slot (k div BSIZE))) ! (k mod BSIZE)
        else mem t x, parity_buf t)"
      using exec_reads_page [of "view t" bs "raid0_block slot" page' q "mem t" "parity_buf t", OF len] bs
      by (simp add: t1(3) rq io_view_of_def [of t])
    then have "mem t1 = (\<lambda>x. let k = unat (x - page') in
        if k div BSIZE \<in> set bs then view t (of_nat (raid0_block slot (k div BSIZE))) ! (k mod BSIZE)
        else mem t x)" by (simp add: io_view_of_def)
    moreover have "k div BSIZE \<in> set bs \<longleftrightarrow> k < PGSIZE" for k :: nat unfolding bs by auto
    ultimately show ?thesis by (simp add: Let_def)
  qed
  have "mem t1 (page' + of_nat i) = m (page + of_nat i)" if i: "i < PGSIZE" for i
  proof -
    have u: "unat (of_nat i :: u64) = i" using i by (intro unat_of_nat_u64) simp
    have b: "i div BSIZE < 4" "i = i div BSIZE * BSIZE + i mod BSIZE" using i by auto
    have "mem t1 (page' + of_nat i) = view t (of_nat (raid0_block slot (i div BSIZE))) ! (i mod BSIZE)"
      using m [of "page' + of_nat i"] i by (simp only: add_diff_cancel_left' u if_True)
    also have "\<dots> = mem_read m (page + of_nat (i div BSIZE * BSIZE)) BSIZE ! (i mod BSIZE)" using t(7) b(1) by simp
    also have "\<dots> = m (page + of_nat (i div BSIZE * BSIZE) + of_nat (i mod BSIZE))" by (rule nth_mem_read) simp
    also have "\<dots> = m (page + of_nat i)" using b(2) by (metis add.assoc of_nat_add)
    finally show ?thesis .
  qed
  then have "mem_read (mem t1) page' PGSIZE = mem_read m page PGSIZE" by (rule mem_read_cong)
  moreover have "disk_swap_read slot page' q t = Inr t1"
    using t1(1) t(2,5,6) by (simp add: disk_swap_read_def raid0_read_page_def Let_def)
  moreover have "swap_ready slot t1" using t1(4-7) t(1) by (simp add: swap_ready_def)
  ultimately show ?thesis using m by (intro exI [of _ t1]) simp
qed

text \<open>
  Property (C3). A page swapped out under RAID 0 (or any mode that is treated like it) comes back
  unchanged, under every scheduling policy: \<open>disk_swap_write\<close> returns; in every later state in
  which the slot's four blocks and its recorded mode are still what they were (whatever the
  policy, the RAID mode, the cache and the memory are by then), \<open>disk_swap_read\<close> into any page
  returns, the page then holds the 4096 bytes of the original page, and no other byte of memory
  has changed.
\<close>

theorem raid0_swap_round_trip:
  fixes s :: "'a qstate_scheme"
  assumes "swap_ready slot s" "slot < NSWAPSPACE" "0 \<le> p" "p < 4" "raid_mode s \<noteq> 1" "raid_mode s \<noteq> 2"
    "length (slot_raid_mode s) = NSWAPSPACE"
  shows "\<exists>s1. disk_swap_write slot page p s = Inr s1 \<and> swap_ready slot s1 \<and> mem s1 = mem s \<and>
    (\<forall>(t :: 'a qstate_scheme) page' q. swap_ready slot t \<longrightarrow> 0 \<le> q \<longrightarrow> q < 4 \<longrightarrow> slot_raid_mode t = slot_raid_mode s1 \<longrightarrow>
       (\<forall>b < 4. view t (of_nat (raid0_block slot b)) = view s1 (of_nat (raid0_block slot b))) \<longrightarrow>
       (\<exists>t1. disk_swap_read slot page' q t = Inr t1 \<and>
          mem_read (mem t1) page' PGSIZE = mem_read (mem s) page PGSIZE \<and>
          (\<forall>x. PGSIZE \<le> unat (x - page') \<longrightarrow> mem t1 x = mem t x)))"
proof -
  obtain s1 where s1: "disk_swap_write slot page p s = Inr s1" "swap_ready slot s1" "mem s1 = mem s"
    "slot_raid_mode s1 = (slot_raid_mode s)[slot := raid_mode s]"
    "\<forall>b < 4. view s1 (of_nat (raid0_block slot b)) = mem_read (mem s) (page + of_nat (b * BSIZE)) BSIZE"
    using disk_swap_write_raid0 [OF assms, of page] by blast
  have "\<exists>t1. disk_swap_read slot page' q t = Inr t1 \<and>
      mem_read (mem t1) page' PGSIZE = mem_read (mem s) page PGSIZE \<and>
      (\<forall>x. PGSIZE \<le> unat (x - page') \<longrightarrow> mem t1 x = mem t x)"
    if t: "swap_ready slot t" "0 \<le> q" "q < 4" "slot_raid_mode t = slot_raid_mode s1"
      "\<forall>b < 4. view t (of_nat (raid0_block slot b)) = view s1 (of_nat (raid0_block slot b))" for t :: "'a qstate_scheme" and page' q
  proof -
    have "slot_raid_mode t ! slot \<noteq> 1" "slot_raid_mode t ! slot \<noteq> 2" using t(4) s1(4) assms(2,5-7) by simp_all
    moreover have "\<forall>b < 4. view t (of_nat (raid0_block slot b)) = mem_read (mem s) (page + of_nat (b * BSIZE)) BSIZE"
      using t(5) s1(5) by simp
    ultimately show ?thesis using disk_swap_read_raid0 [OF t(1) assms(2) t(2,3)] by blast
  qed
  with s1 show ?thesis by blast
qed

theorem raid0_swap_round_trip_witness:
  "\<exists>s1 t1. disk_swap_write 5 4096 2 (binit (boot_qstate SCHED_SSTF [])) = Inr s1 \<and>
     disk_swap_read 5 16384 0 s1 = Inr t1 \<and>
     mem_read (mem t1) 16384 PGSIZE = mem_read (mem (binit (boot_qstate SCHED_SSTF []))) 4096 PGSIZE"
proof -
  let ?s = "binit (boot_qstate SCHED_SSTF [])"
  have "swap_ready 5 ?s" "(5 :: nat) < NSWAPSPACE" "(0 :: int) \<le> 2" "(2 :: int) < 4"
    "raid_mode ?s \<noteq> 1" "raid_mode ?s \<noteq> 2" "length (slot_raid_mode ?s) = NSWAPSPACE"
    by (simp_all add: swap_ready_def boot_qstate_facts)
  note R = raid0_swap_round_trip [OF this, of 4096]
  then obtain s1 where s1: "disk_swap_write 5 4096 2 ?s = Inr s1" "swap_ready 5 s1"
    and all: "\<forall>(t :: qstate) page' q. swap_ready 5 t \<longrightarrow> 0 \<le> q \<longrightarrow> q < 4 \<longrightarrow> slot_raid_mode t = slot_raid_mode s1 \<longrightarrow>
       (\<forall>b < 4. view t (of_nat (raid0_block 5 b)) = view s1 (of_nat (raid0_block 5 b))) \<longrightarrow>
       (\<exists>t1. disk_swap_read 5 page' q t = Inr t1 \<and>
          mem_read (mem t1) page' PGSIZE = mem_read (mem ?s) 4096 PGSIZE \<and>
          (\<forall>x. PGSIZE \<le> unat (x - page') \<longrightarrow> mem t1 x = mem t x))"
    by (elim exE conjE) (rule that)
  from all [rule_format, of s1 0 16384] s1 show ?thesis by auto
qed

end
