(* ===== verification/RaidRedundant.thy ===== *)
theory RaidRedundant
  imports Raid
begin

text \<open>
  The redundant layouts of the swap area, RAID 1 and RAID 5, as \<^verbatim>\<open>kernel/virtio_disk.c\<close> has them.
\<close>

section \<open>RAID 1\<close>

text \<open>
  The mirror of the block on disk \<open>d\<close> goes to the same offset of disk \<open>d + 1\<close>, which is where the
  next block of the page has its primary copy.
\<close>

definition raid1_block :: "nat \<Rightarrow> nat \<Rightarrow> nat" where
  "raid1_block slot d = SWAP_START + NSWAPBLOCKS_PER_MODE + d * BLOCKS_PER_DISK + slot"

definition raid1_req :: "nat \<Rightarrow> u64 \<Rightarrow> int \<Rightarrow> nat \<times> nat \<Rightarrow> disk_req" where
  "raid1_req slot page p db = mkreq (raid1_block slot (fst db)) True (page_block page (snd db)) p"

lemma raid1_write_queue:
  assumes "filled 0 s" "pending s = []"
  shows "pending (raid1_write_page slot page p s) =
      map (raid1_req slot page p) [(0, 0), (1, 0), (1, 1), (2, 1), (2, 2), (3, 2), (3, 3), (0, 3)] \<and>
    (\<exists>k. filled k (raid1_write_page slot page p s)) \<and> queue_only s (raid1_write_page slot page p s) \<and>
    parity_buf (raid1_write_page slot page p s) = parity_buf s \<and>
    slot_raid_mode (raid1_write_page slot page p s) = slot_raid_mode s"
proof -
  let ?l = "map (\<lambda>(d, b). (raid1_block slot d, True, page_block page b))
    [(0, 0), (1, 0), (1, 1), (2, 1), (2, 2), (3, 2), (3, 3), (0, 3)]"
  have u: "[0..<BLOCKS_PER_PAGE] = [0, 1, 2, 3]" by (simp add: upt_rec)
  have r: "raid1_write_page slot page p s = enqueue_all p ?l s"
    by (simp add: raid1_write_page_def u raid_real_block_def raid1_block_def enqueue_all_def Let_def)
  have "pending (enqueue_all p ?l s) =
      map (raid1_req slot page p) [(0, 0), (1, 0), (1, 1), (2, 1), (2, 2), (3, 2), (3, 3), (0, 3)]"
    using enqueue_all_filled [OF assms(1), of ?l p] assms(2) by (simp add: raid1_req_def)
  moreover have "\<exists>k. filled k (enqueue_all p ?l s)"
    using enqueue_all_filled [OF assms(1), of ?l p] by auto
  ultimately show ?thesis unfolding r by (simp only: queue_only_enqueue_all queue_only_refl simp_thms)
qed

text \<open>
  Property (C35). RAID 1 loses the first block of every page under FCFS: with the swap layer quiet
  and RAID 1 selected, after \<open>disk_swap_write\<close> the primary copy of block 0 holds block 3 (its
  mirror was written on top of it last), while blocks 1, 2 and 3 are in place. So reading the page
  back returns the last quarter in place of the first.
\<close>

theorem raid1_block_0_overwritten:
  assumes "queue_ok s" "io_ready s" "pending s = []" "\<forall>d < 4. refs s (of_nat (raid1_block slot d)) = 0"
    "slot < NSWAPSPACE" "0 \<le> p" "p < 4" "raid_mode s = 1" "disk_policy s = SCHED_FCFS"
  shows "\<exists>s1. disk_swap_write slot page p s = Inr s1 \<and>
    view s1 (of_nat (raid1_block slot 0)) = mem_read (mem s) (page + of_nat (3 * BSIZE)) BSIZE \<and>
    (\<forall>b \<in> {1, 2, 3}. view s1 (of_nat (raid1_block slot b)) = mem_read (mem s) (page + of_nat (b * BSIZE)) BSIZE)"
proof -
  define t0 where "t0 = s\<lparr>slot_raid_mode := (slot_raid_mode s)[slot := 1]\<rparr>"
  define t where "t = raid1_write_page slot page p t0"
  let ?l = "[(0, 0), (1, 0), (1, 1), (2, 1), (2, 2), (3, 2), (3, 3), (0, 3)] :: (nat \<times> nat) list"
  have "filled 0 t0" "pending t0 = []" using filled_0 [OF assms(1,3)] assms(3) by (simp_all add: t0_def)
  note W = raid1_write_queue [OF this, of slot page p, folded t_def]
  have qo: "queue_only s t" "parity_buf t = parity_buf s"
    using W by (simp_all add: queue_only_def t0_def)
  have W1: "pending t = map (raid1_req slot page p) ?l" and W2: "\<exists>k. filled k t" using W by blast+
  have len: "length (parity_buf t) = BSIZE" using qo(2) assms(1) by (simp add: queue_ok_def)
  have reqs: "req_ok r \<and> refs s (of_nat (rq_blockno r)) = 0" if r: "r \<in> set (pending t)" for r
  proof -
    from r have "r \<in> raid1_req slot page p ` set ?l" by (simp only: W1 set_map)
    then obtain d b where d: "(d, b) \<in> set ?l" "r = raid1_req slot page p (d, b)" by (elim imageE) force
    from d(1) have "d < 4" by auto
    then have "raid1_block slot d < 100000" using assms(5) by (simp add: raid1_block_def)
    with d(2) assms(4,6,7) \<open>d < 4\<close> show ?thesis by (simp add: req_ok_def raid1_req_def)
  qed
  then have "\<forall>r \<in> set (pending t). req_ok r \<and> refs s (of_nat (rq_blockno r)) = 0" by blast
  from run_requests [OF assms(1,2) W2 qo(1) len this] obtain s1 rs where s1: "run_disk_queue t = Inr s1"
    "disk_policy s = SCHED_FCFS \<longrightarrow> rs = pending t"
    "io_view_of s1 = fold exec_req rs (view s, mem s, parity_buf t)"
    by (elim exE conjE) (rule that)
  have u: "unat (of_nat (raid1_block slot d) :: u32) = raid1_block slot d" if "d < 4" for d
    using that assms(5) by (intro unat_of_nat_u32) (simp add: raid1_block_def)
  have inj: "(of_nat (raid1_block slot d) :: u32) = of_nat (raid1_block slot e) \<longleftrightarrow> d = e"
    if "d < 4" "e < 4" for d e
    using u [OF that(1)] u [OF that(2)] by (simp only: word_unat_eq_iff) (simp add: raid1_block_def)
  let ?n = "\<lambda>d. of_nat (raid1_block slot d) :: u32"
  let ?x = "\<lambda>b. mem_read (mem s) (page + of_nat (b * BSIZE)) BSIZE"
  have "fold exec_req (pending t) (view s, mem s, parity_buf t) =
      ((view s)(?n 0 := ?x 0, ?n 1 := ?x 0, ?n 1 := ?x 1, ?n 2 := ?x 1, ?n 2 := ?x 2, ?n 3 := ?x 2,
         ?n 3 := ?x 3, ?n 0 := ?x 3), mem s, parity_buf t)"
    unfolding W1 by (simp add: raid1_req_def page_block_def Let_def)
  then have "view s1 = (view s)(?n 0 := ?x 0, ?n 1 := ?x 0, ?n 1 := ?x 1, ?n 2 := ?x 1, ?n 2 := ?x 2,
      ?n 3 := ?x 2, ?n 3 := ?x 3, ?n 0 := ?x 3)"
    using s1(2,3) assms(9) by (simp add: io_view_of_def)
  moreover have "disk_swap_write slot page p s = Inr s1"
    using s1(1) assms(5,8) by (simp add: disk_swap_write_def t_def t0_def Let_def)
  ultimately show ?thesis by (intro exI [of _ s1]) (simp add: inj)
qed

definition quiet :: "int \<Rightarrow> qstate" where
  "quiet mode = (binit (boot_qstate SCHED_FCFS []))\<lparr>raid_mode := mode\<rparr>"

lemma quiet_facts:
  "queue_ok (quiet m)" "io_ready (quiet m)" "pending (quiet m) = []" "refs (quiet m) = (\<lambda>n. 0)"
  "raid_mode (quiet m) = m" "disk_policy (quiet m) = SCHED_FCFS" "length (parity_buf (quiet m)) = BSIZE"
proof -
  let ?b = "binit (boot_qstate SCHED_FCFS [])"
  have c: "bufs (quiet m) = bufs ?b" "medium (quiet m) = medium ?b" by (simp_all add: quiet_def)
  note C = cache_cong [OF c]
  have q: "queue_ok ?b" by (rule boot_qstate_facts) simp_all
  show "queue_ok (quiet m)" using q by (simp add: queue_ok_def quiet_def pending_def)
  then show "length (parity_buf (quiet m)) = BSIZE" by (simp add: queue_ok_def)
  show "io_ready (quiet m)"
    using boot_qstate_facts(1) [of 0 "[]"] C by (simp add: io_ready_def) (simp add: quiet_def myproc_def mycpu_def)
  show "refs (quiet m) = (\<lambda>n. 0)" using C(4) boot_qstate_facts(2) by simp
  show "pending (quiet m) = []" "raid_mode (quiet m) = m" "disk_policy (quiet m) = SCHED_FCFS"
    using boot_qstate_facts(3,5) [of 0 "[]"] by (simp_all add: quiet_def pending_def)
qed

theorem raid1_block_0_overwritten_witness:
  "\<exists>s1. disk_swap_write 7 4096 0 (quiet 1) = Inr s1 \<and>
    view s1 (of_nat (raid1_block 7 0)) = mem_read (mem (quiet 1)) (4096 + of_nat (3 * BSIZE)) BSIZE \<and>
    (\<forall>b \<in> {1, 2, 3}. view s1 (of_nat (raid1_block 7 b)) = mem_read (mem (quiet 1)) (4096 + of_nat (b * BSIZE)) BSIZE)"
  by (rule raid1_block_0_overwritten) (simp_all add: quiet_facts)

section \<open>RAID 5\<close>

text \<open>Where the code puts data block \<open>b\<close> of a slot.\<close>

definition raid5_block :: "nat \<Rightarrow> nat \<Rightarrow> nat" where
  "raid5_block slot b =
     (let row = (slot * BLOCKS_PER_PAGE + b div DATA_PER_ROW * DATA_PER_ROW) div DATA_PER_ROW
      in raid_real_block 2 (raid5_disk (row mod NDISKS) (b mod DATA_PER_ROW)) (row div NDISKS))"

lemma row_offset: "slot * 4 div 3 div 4 = slot div 3" "Suc (slot * 4 div 3) div 4 = slot div (3 :: nat)"
proof -
  have swap: "a div 3 div 4 = a div 4 div (3 :: nat)" for a
    by (simp add: div_mult2_eq [symmetric])
  show "slot * 4 div 3 div 4 = slot div 3" by (simp add: swap)
  have "Suc (slot * 4 div 3) = (slot * 4 + 3) div 3" by simp
  also have "\<dots> div 4 = (slot * 4 + 3) div 4 div 3" by (rule swap)
  also have "(slot * 4 + 3) div 4 = slot" by simp
  finally show "Suc (slot * 4 div 3) div 4 = slot div (3 :: nat)" .
qed

text \<open>
  The RAID 5 layout gives three swap slots the same four physical blocks: all four
  data blocks of a slot lie at offset \<open>slot div 3\<close> of the simulated disks, so the data of slots
  \<open>3 k\<close>, \<open>3 k + 1\<close> and \<open>3 k + 2\<close> share the four blocks at offset \<open>k\<close>.
\<close>

theorem raid5_slots_share_blocks:
  "raid5_block slot b \<in> (\<lambda>d. raid_real_block 2 d (slot div 3)) ` {..<NDISKS}" if "b < BLOCKS_PER_PAGE"
proof -
  have "raid5_disk par i < NDISKS" if "i < 3" for par i using that by (simp add: raid5_disk_def)
  moreover have "b = 0 \<or> b = 1 \<or> b = 2 \<or> b = 3" using that by linarith
  ultimately show ?thesis by (auto simp: raid5_block_def Let_def row_offset)
qed

theorem raid5_slots_share_blocks_witness:
  "raid5_block 4 2 \<in> (\<lambda>d. raid_real_block 2 d (4 div 3)) ` {..<NDISKS}"
  by (rule raid5_slots_share_blocks) simp

definition raid5_req :: "u64 \<Rightarrow> int \<Rightarrow> nat \<times> dptr \<Rightarrow> disk_req" where
  "raid5_req page p nd = mkreq (fst nd) True (snd nd) p"

text \<open>The six requests of a page, for its two rows; they all follow their pointers later.\<close>

definition raid5_list :: "nat \<Rightarrow> u64 \<Rightarrow> (nat \<times> dptr) list" where
  "raid5_list slot page =
     (let r = slot * 4 div 3; blk = (\<lambda>d. raid_real_block 2 d (slot div 3))
      in [(blk (raid5_disk (r mod 4) 0), page_block page 0), (blk (raid5_disk (r mod 4) 1), page_block page 1),
          (blk (raid5_disk (r mod 4) 2), page_block page 2), (blk (r mod 4), PParity),
          (blk (raid5_disk (Suc r mod 4) 0), page_block page 3), (blk (Suc r mod 4), PParity)])"

lemma xor_zero: "length d = n \<Longrightarrow> xor_block (replicate n 0) d = d"
  by (induction d arbitrary: n) (auto simp: xor_block_def)

lemma enqueue_all_snoc: "enqueue_disk_req n w d p (enqueue_all p l s) = enqueue_all p (l @ [(n, w, d)]) s"
  by (simp add: enqueue_all_def)

lemma enqueue_parity: "enqueue_disk_req n w d p (s\<lparr>parity_buf := x\<rparr>) = (enqueue_disk_req n w d p s)\<lparr>parity_buf := x\<rparr>"
  by (simp add: enqueue_disk_req_def)

lemma raid5_write_queue:
  "raid5_write_page slot page p s =
    enqueue_all p (map (\<lambda>(n, d). (n, True, d)) (raid5_list slot page))
      (s\<lparr>parity_buf := mem_read (mem s) (page + of_nat (3 * BSIZE)) BSIZE\<rparr>)"
proof -
  have u: "[0..<DATA_PER_ROW] = [0, 1, 2]" by (simp add: upt_rec)
  have e: "(slot * 4 + 3) div 3 = Suc (slot * 4 div 3)" by simp
  have m [simp]: "mem (enqueue_disk_req n w d p t) = mem t" for n w d t by (simp add: enqueue_disk_req_def)
  have pb [simp]: "load_block (page_block page b) t = mem_read (mem t) (page + of_nat (b * BSIZE)) BSIZE" for b t
    by (simp add: load_block_def page_block_def)
  show ?thesis
    unfolding raid5_write_page_def raid5_write_row_def u raid5_list_def
    by (simp add: e row_offset Let_def enqueue_all_def enqueue_parity xor_zero numeral_2_eq_2)
qed

lemma row_parity: "slot * 4 div 3 mod 4 = slot mod 3" "Suc (slot * 4 div 3) mod 4 = slot mod 3 + (1 :: nat)"
proof -
  have "slot = 3 * (slot div 3) + slot mod 3" by simp
  then obtain k j where s: "slot = 3 * k + j" "j < 3" by (metis mod_less_divisor zero_less_numeral)
  then have "slot * 4 div 3 = 4 * k + j"
    by (cases "j = 0"; cases "j = 1"; cases "j = 2") auto
  moreover have "slot mod 3 = j" using s by simp
  ultimately show "slot * 4 div 3 mod 4 = slot mod 3" "Suc (slot * 4 div 3) mod 4 = slot mod 3 + 1"
    using s(2) by (simp_all add: mod_Suc)
qed

text \<open>
  Property (C36). RAID 5 does not keep the page either: under FCFS, after \<open>disk_swap_write\<close> the
  place of the page's block 0 holds block 3, because the second row of the page is written to the
  same offset as the first; and both rows get the parity of the second one, because the queue
  keeps a pointer to the one parity buffer.
\<close>

theorem raid5_block_0_overwritten:
  assumes "queue_ok s" "io_ready s" "pending s = []"
    "\<forall>d < 4. refs s (of_nat (raid_real_block 2 d (slot div 3))) = 0"
    "slot < NSWAPSPACE" "0 \<le> p" "p < 4" "raid_mode s = 2" "disk_policy s = SCHED_FCFS"
  shows "\<exists>s1. disk_swap_write slot page p s = Inr s1 \<and>
    view s1 (of_nat (raid5_block slot 0)) = mem_read (mem s) (page + of_nat (3 * BSIZE)) BSIZE \<and>
    view s1 (of_nat (raid_real_block 2 (slot mod 3 + 1) (slot div 3))) =
      mem_read (mem s) (page + of_nat (3 * BSIZE)) BSIZE"
proof -
  let ?x3 = "mem_read (mem s) (page + of_nat (3 * BSIZE)) BSIZE"
  let ?l = "map (\<lambda>(n, d). (n, True, d)) (raid5_list slot page)"
  define t0 where "t0 = s\<lparr>slot_raid_mode := (slot_raid_mode s)[slot := 2], parity_buf := ?x3\<rparr>"
  define t where "t = enqueue_all p ?l t0"
  have q0: "queue_only s t0" unfolding t0_def by (simp add: queue_only_def)
  then have qo: "queue_only s t" unfolding t_def by (rule queue_only_enqueue_all)
  have "filled 0 t0" "pending t0 = []" using filled_0 [OF assms(1,3)] assms(3) by (simp_all add: t0_def)
  with enqueue_all_filled [of 0 t0 ?l p] have W1: "pending t = map (raid5_req page p) (raid5_list slot page)"
    and W2: "\<exists>k. filled k t"
    by (auto simp: t_def raid5_list_def raid5_req_def Let_def)
  have pb: "parity_buf t = ?x3" "length (parity_buf t) = BSIZE"
    by (simp_all add: t_def queue_only_enqueue_all t0_def)
  have b: "raid_real_block 2 d (slot div 3) < 100000" if "d < 4" for d
    using that assms(5) by (simp add: raid_real_block_def)
  have rd: "raid5_disk x i < 4" if "i < 3" for x i using that by (simp add: raid5_disk_def)
  have in_row: "fst ` set (raid5_list slot page) \<subseteq> (\<lambda>d. raid_real_block 2 d (slot div 3)) ` {..<4}"
    unfolding raid5_list_def Let_def by (simp add: rd)
  have "req_ok r \<and> refs s (of_nat (rq_blockno r)) = 0" if "r \<in> set (pending t)" for r
  proof -
    from that obtain nd where nd: "nd \<in> set (raid5_list slot page)" "r = raid5_req page p nd"
      unfolding W1 by auto
    with in_row obtain d where "d < 4" "fst nd = raid_real_block 2 d (slot div 3)" by auto
    with nd(2) b assms(4,6,7) show ?thesis by (simp add: raid5_req_def req_ok_def)
  qed
  then have "\<forall>r \<in> set (pending t). req_ok r \<and> refs s (of_nat (rq_blockno r)) = 0" by blast
  from run_requests [OF assms(1,2) W2 qo pb(2) this] obtain s1 rs where s1: "run_disk_queue t = Inr s1"
    "disk_policy s = SCHED_FCFS \<longrightarrow> rs = pending t"
    "io_view_of s1 = fold exec_req rs (view s, mem s, parity_buf t)"
    by (elim exE conjE) (rule that)
  let ?n = "\<lambda>d. of_nat (raid_real_block 2 d (slot div 3)) :: u32"
  have u: "unat (?n d) = raid_real_block 2 d (slot div 3)" if "d < 4" for d
    using b [OF that] by (intro unat_of_nat_u32) simp
  have inj: "?n d = ?n e \<longleftrightarrow> d = e" if "d < 4" "e < 4" for d e
    using u [OF that(1)] u [OF that(2)] by (simp only: word_unat_eq_iff) (simp add: raid_real_block_def)
  have v: "view s1 = fst (fold exec_req (pending t) (view s, mem s, ?x3))"
    using s1(2,3) assms(9) pb(1) by (simp add: io_view_of_def) (metis fst_conv)
  have "slot mod 3 = 0 \<or> slot mod 3 = 1 \<or> slot mod 3 = 2" by linarith
  then have "view s1 (of_nat (raid5_block slot 0)) = ?x3 \<and>
      view s1 (of_nat (raid_real_block 2 (slot mod 3 + 1) (slot div 3))) = ?x3"
    unfolding v W1 raid5_list_def
    by (elim disjE) (simp_all add: row_parity row_offset raid5_block_def raid5_req_def raid5_disk_def page_block_def inj Let_def)
  moreover have "disk_swap_write slot page p s = Inr s1"
    using s1(1) assms(5,8) by (simp add: disk_swap_write_def raid5_write_queue t_def t0_def Let_def)
  ultimately show ?thesis by blast
qed

theorem raid5_block_0_overwritten_witness:
  "\<exists>s1. disk_swap_write 4 4096 1 (quiet 2) = Inr s1 \<and>
    view s1 (of_nat (raid5_block 4 0)) = mem_read (mem (quiet 2)) (4096 + of_nat (3 * BSIZE)) BSIZE \<and>
    view s1 (of_nat (raid_real_block 2 (4 mod 3 + 1) (4 div 3))) =
      mem_read (mem (quiet 2)) (4096 + of_nat (3 * BSIZE)) BSIZE"
  by (rule raid5_block_0_overwritten) (simp_all add: quiet_facts)

end
