(* ===== verification/Log.thy ===== *)
theory Log
  imports DiskSched
begin

text \<open>
  The write-ahead log (\<^verbatim>\<open>kernel/log.c\<close>). The in-memory header \<^verbatim>\<open>log.lh\<close> and the header block on
  disk have the same layout: \<^verbatim>\<open>n\<close> at offset 0 and \<^verbatim>\<open>block[i]\<close> at offset \<open>4 + 4 * i\<close>.
\<close>

section \<open>State and operations\<close>

record lstate = qstate +
  log_start :: int
  outstanding :: int
  committing :: bool
  log_dev :: u32
  lh_n :: int
  lh_block :: "u32 list"

text \<open>Block number \<open>log.start + i\<close>.\<close>

definition log_blk :: "int \<Rightarrow> 'a lstate_scheme \<Rightarrow> u32" where
  "log_blk i s = of_int (log_start s + i)"

definition install_one :: "bool \<Rightarrow> nat \<Rightarrow> 'a lstate_scheme \<Rightarrow> 'a lstate_scheme res" where
  "install_one recovering tail s =
     rbind (bread (log_dev s) (log_blk (int tail + 1) s) s) (\<lambda>(lbuf, s).
     rbind (bread (log_dev s) (lh_block s ! tail) s) (\<lambda>(dbuf, s).
     rbind (bwrite dbuf (set_data dbuf (b_data (bufs s ! lbuf)) s)) (\<lambda>s.
       let s = (if recovering then s else bunpin dbuf s)
       in rbind (brelse lbuf s) (brelse dbuf))))"

definition install_trans :: "bool \<Rightarrow> 'a lstate_scheme \<Rightarrow> 'a lstate_scheme res" where
  "install_trans recovering s = rfold (install_one recovering) [0..<nat (lh_n s)] s"

definition hdr_n :: "block \<Rightarrow> int" where
  "hdr_n d = sint (get32 d 0)"

definition hdr_block :: "block \<Rightarrow> nat \<Rightarrow> u32" where
  "hdr_block d i = get32 d (4 + 4 * i)"

definition read_head :: "'a lstate_scheme \<Rightarrow> 'a lstate_scheme res" where
  "read_head s =
     rbind (bread (log_dev s) (log_blk 0 s) s) (\<lambda>(b, s).
       let d = b_data (bufs s ! b); n = hdr_n d
       in if n > int LOGBLOCKS then Inl Undefined
          else brelse b (s\<lparr>lh_n := n,
                 lh_block := map (hdr_block d) [0..<nat n] @ drop (nat n) (lh_block s)\<rparr>))"

definition encode_head :: "int \<Rightarrow> u32 list \<Rightarrow> block \<Rightarrow> block" where
  "encode_head n bl d = fold (\<lambda>i d. put32 d (4 + 4 * i) (bl ! i)) [0..<nat n] (put32 d 0 (of_int n))"

definition write_head :: "'a lstate_scheme \<Rightarrow> 'a lstate_scheme res" where
  "write_head s =
     rbind (bread (log_dev s) (log_blk 0 s) s) (\<lambda>(b, s).
     rbind (bwrite b (set_data b (encode_head (lh_n s) (lh_block s) (b_data (bufs s ! b))) s)) (brelse b))"

definition recover_from_log :: "'a lstate_scheme \<Rightarrow> 'a lstate_scheme res" where
  "recover_from_log s =
     rbind (read_head s) (\<lambda>s.
     rbind (install_trans True s) (\<lambda>s. write_head (s\<lparr>lh_n := 0\<rparr>)))"

text \<open>The size check compares \<open>4 + 4 * 30\<close> with 1024; \<open>logstart\<close> comes from the superblock.\<close>

definition initlog :: "u32 \<Rightarrow> int \<Rightarrow> 'a lstate_scheme \<Rightarrow> 'a lstate_scheme res" where
  "initlog dev logstart s =
     rbind (panic_if (4 + 4 * LOGBLOCKS \<ge> BSIZE) ''initlog: too big logheader'') (\<lambda>_.
       recover_from_log (s\<lparr>log_start := logstart, log_dev := dev\<rparr>))"

definition begin_op :: "'a lstate_scheme \<Rightarrow> 'a lstate_scheme res" where
  "begin_op s =
     (if committing s then Inl (Sleeps ChLog)
      else if lh_n s + (outstanding s + 1) * int MAXOPBLOCKS > int LOGBLOCKS then Inl (Sleeps ChLog)
      else Inr (s\<lparr>outstanding := outstanding s + 1\<rparr>))"

definition write_log_one :: "nat \<Rightarrow> 'a lstate_scheme \<Rightarrow> 'a lstate_scheme res" where
  "write_log_one tail s =
     rbind (bread (log_dev s) (log_blk (int tail + 1) s) s) (\<lambda>(to, s).
     rbind (bread (log_dev s) (lh_block s ! tail) s) (\<lambda>(from, s).
     rbind (bwrite to (set_data to (b_data (bufs s ! from)) s)) (\<lambda>s.
     rbind (brelse from s) (brelse to))))"

definition write_log :: "'a lstate_scheme \<Rightarrow> 'a lstate_scheme res" where
  "write_log s = rfold write_log_one [0..<nat (lh_n s)] s"

definition commit :: "'a lstate_scheme \<Rightarrow> 'a lstate_scheme res" where
  "commit s =
     (if lh_n s > 0 then
        rbind (write_log s) (\<lambda>s.
        rbind (write_head s) (\<lambda>s.
        rbind (install_trans False s) (\<lambda>s. write_head (s\<lparr>lh_n := 0\<rparr>))))
      else Inr s)"

definition end_op :: "'a lstate_scheme \<Rightarrow> 'a lstate_scheme res" where
  "end_op s =
     (let s = s\<lparr>outstanding := outstanding s - 1\<rparr> in
      rbind (panic_if (committing s) ''log.committing'') (\<lambda>_.
        if outstanding s = 0
        then rbind (commit (s\<lparr>committing := True\<rparr>)) (\<lambda>s. Inr (wakeup ChLog (s\<lparr>committing := False\<rparr>)))
        else Inr (wakeup ChLog s)))"

definition log_write :: "nat \<Rightarrow> 'a lstate_scheme \<Rightarrow> 'a lstate_scheme res" where
  "log_write b s =
     rbind (panic_if (lh_n s \<ge> int LOGBLOCKS) ''too big a transaction'') (\<lambda>_.
     rbind (panic_if (outstanding s < 1) ''log_write outside of trans'') (\<lambda>_.
       let n = b_blockno (bufs s ! b);
           i = (case find (\<lambda>i. lh_block s ! i = n) [0..<nat (lh_n s)] of Some i \<Rightarrow> i | None \<Rightarrow> nat (lh_n s));
           s = s\<lparr>lh_block := (lh_block s)[i := n]\<rparr>
       in Inr (if i = nat (lh_n s) then (bpin b s)\<lparr>lh_n := lh_n s + 1\<rparr> else s)))"

section \<open>The header block\<close>

lemma encode_head_loop:
  fixes bl :: "u32 list"
  assumes "length d = BSIZE" "k \<le> LOGBLOCKS"
  defines "e \<equiv> fold (\<lambda>i d. put32 d (4 + 4 * i) (bl ! i)) [0..<k] d"
  shows "length e = BSIZE \<and> get32 e 0 = get32 d 0 \<and> (\<forall>i < k. hdr_block e i = bl ! i)"
  using assms(2) unfolding e_def
proof (induction k)
  case (Suc k)
  let ?e = "fold (\<lambda>i d. put32 d (4 + 4 * i) (bl ! i)) [0..<k] d"
  have IH: "length ?e = BSIZE" "get32 ?e 0 = get32 d 0" "\<forall>i < k. hdr_block ?e i = bl ! i" using Suc by auto
  have "hdr_block (put32 ?e (4 + 4 * k) (bl ! k)) i = bl ! i" if "i < Suc k" for i
  proof (cases "i = k")
    case True
    then show ?thesis using IH(1) Suc.prems by (simp add: hdr_block_def get32_put32)
  next
    case False
    then show ?thesis using that IH Suc.prems by (auto simp: hdr_block_def get32_put32_other)
  qed
  then show ?case using IH Suc.prems by (simp add: get32_put32_other)
qed (use assms in simp)

lemma encode_head_spec:
  assumes "length d = BSIZE" "0 \<le> n" "n \<le> int LOGBLOCKS"
  shows "length (encode_head n bl d) = BSIZE" "hdr_n (encode_head n bl d) = n"
    "\<forall>i < nat n. hdr_block (encode_head n bl d) i = bl ! i"
proof -
  have l: "length (put32 d 0 (of_int n)) = BSIZE" using assms(1) by simp
  have n: "nat n \<le> LOGBLOCKS" using assms(3) by simp
  note L = encode_head_loop [OF l n, of bl, folded encode_head_def]
  show "length (encode_head n bl d) = BSIZE" "\<forall>i < nat n. hdr_block (encode_head n bl d) i = bl ! i"
    using L by auto
  have "sint (of_int n :: u32) = n" using assms(2,3) by (simp add: int_word_sint)
  then show "hdr_n (encode_head n bl d) = n"
    using L assms(1) by (simp add: hdr_n_def get32_put32)
qed

section \<open>The cache operations inside the log\<close>

definition running :: "'a dstate_scheme \<Rightarrow> bool" where
  "running s \<longleftrightarrow> cache_ok s \<and> myproc s \<noteq> None \<and> the (myproc s) < length (procs s)"

text \<open>The state outside the cache and the disk, as far as the log depends on it.\<close>

definition same_env :: "'a lstate_scheme \<Rightarrow> 'a lstate_scheme \<Rightarrow> bool" where
  "same_env s s' \<longleftrightarrow> mylock s' = mylock s \<and> myproc s' = myproc s \<and> length (procs s') = length (procs s) \<and>
     log_start s' = log_start s \<and> outstanding s' = outstanding s \<and> committing s' = committing s \<and>
     log_dev s' = log_dev s \<and> lh_n s' = lh_n s \<and> lh_block s' = lh_block s"

lemma same_env_refl [simp]: "same_env s s" by (simp add: same_env_def)

lemma same_env_trans: "same_env s s' \<Longrightarrow> same_env s' s'' \<Longrightarrow> same_env s s''"
  by (simp add: same_env_def)

lemma same_env_bufs:
  assumes "s' = s\<lparr>bufs := x\<rparr>"
  shows "same_env s s'" "medium s' = medium s" "dwrites s' = dwrites s"
  by (simp_all add: assms same_env_def mylock_def myproc_def mycpu_def)

lemma log_bread:
  assumes "running s" "\<not> slocked (blk_lock s n)" "refs s n + 1 < 2 ^ 32" "refs s n = 0 \<Longrightarrow> card (busy s) < NBUF"
  obtains b s' where "bread (of_nat ROOTDEV) n s = Inr (b, s')" "running s'" "held s' n b" "view s' = view s"
    "refs s' = (refs s)(n := refs s n + 1)" "blk_lock s' = (blk_lock s)(n := mylock s)"
    "medium s' = medium s" "dwrites s' = dwrites s" "same_env s s'" "\<forall>m c. m \<noteq> n \<longrightarrow> held s m c \<longrightarrow> held s' m c"
proof -
  have r: "cache_ok s" "myproc s \<noteq> None" "the (myproc s) < length (procs s)" using assms(1) by (auto simp: running_def)
  obtain b s' where s': "bread (of_nat ROOTDEV) n s = Inr (b, s')" "cache_ok s'" "held s' n b"
    "s' = s\<lparr>bufs := bufs s'\<rparr>" "view s' = view s" "refs s' = (refs s)(n := refs s n + 1)"
    "blk_lock s' = (blk_lock s)(n := mylock s)" "keeps s s' n"
    using bread_spec [OF r(1,2) assms(2-4)] by blast
  note E = same_env_bufs [OF s'(4)]
  have "running s'" using s'(2) r E(1) by (simp add: running_def same_env_def)
  moreover have "held s' m c" if "m \<noteq> n" "held s m c" for m c
    using held_keeps [OF s'(8) that] s'(6,7) that(1) E(1) by (simp add: same_env_def)
  ultimately show thesis using that [OF s'(1) _ s'(3,5-7)] E by blast
qed

lemma log_bread_idle:
  assumes "running s" "refs s n = 0" "card (busy s) < NBUF"
  obtains b s' where "bread (of_nat ROOTDEV) n s = Inr (b, s')" "running s'" "held s' n b" "view s' = view s"
    "refs s' = (refs s)(n := 1)" "blk_lock s' = (blk_lock s)(n := mylock s)"
    "medium s' = medium s" "dwrites s' = dwrites s" "same_env s s'" "\<forall>m c. m \<noteq> n \<longrightarrow> held s m c \<longrightarrow> held s' m c"
proof (rule log_bread [OF assms(1)])
  show "\<not> slocked (blk_lock s n)"
    using view_idle(2) [of s n] assms by (simp add: running_def initsleeplock_def)
qed (use assms that in auto)

lemma log_set_data:
  assumes "running s" "held s n b" "length d = BSIZE"
  shows "running (set_data b d s)" "held (set_data b d s) n b" "view (set_data b d s) = (view s)(n := d)"
    "refs (set_data b d s) = refs s" "blk_lock (set_data b d s) = blk_lock s"
    "medium (set_data b d s) = medium s" "dwrites (set_data b d s) = dwrites s" "same_env s (set_data b d s)"
    "m \<noteq> n \<Longrightarrow> held s m c \<Longrightarrow> held (set_data b d s) m c"
proof -
  have r: "cache_ok s" using assms(1) by (simp add: running_def)
  note S = set_data_spec [OF r assms(2,3)]
  note E = same_env_bufs [OF S(6)]
  show "running (set_data b d s)" using S(1) assms(1) E(1) by (simp add: running_def same_env_def)
  show "held (set_data b d s) n b" "view (set_data b d s) = (view s)(n := d)"
    "refs (set_data b d s) = refs s" "blk_lock (set_data b d s) = blk_lock s" by (fact S)+
  show "medium (set_data b d s) = medium s" "dwrites (set_data b d s) = dwrites s" "same_env s (set_data b d s)"
    by (fact E)+
  show "m \<noteq> n \<Longrightarrow> held s m c \<Longrightarrow> held (set_data b d s) m c"
    using held_keeps [OF S(7)] S(4,5) E(1) by (simp add: same_env_def)
qed

lemma log_bwrite:
  assumes "running s" "held s n b"
  obtains s' where "bwrite b s = Inr s'" "running s'" "held s' n b" "view s' = view s" "refs s' = refs s"
    "blk_lock s' = blk_lock s" "medium s' = (medium s)(unat n := view s n)"
    "dwrites s' = dwrites s @ [(unat n, view s n)]" "same_env s s'" "\<forall>m c. held s m c \<longrightarrow> held s' m c"
proof -
  have r: "cache_ok s" using assms(1) by (simp add: running_def)
  obtain s' where s': "bwrite b s = Inr s'" "cache_ok s'" "held s' n b"
    "s' = s\<lparr>medium := (medium s)(unat n := view s n), dwrites := dwrites s @ [(unat n, view s n)]\<rparr>"
    "view s' = view s" "refs s' = refs s" "blk_lock s' = blk_lock s"
    by (rule bwrite_spec [OF r assms(2)])
  have E: "same_env s s'" "medium s' = (medium s)(unat n := view s n)"
    "dwrites s' = dwrites s @ [(unat n, view s n)]"
    by (simp_all add: s'(4) same_env_def mylock_def myproc_def mycpu_def)
  have "running s'" using s'(2) assms(1) E(1) by (simp add: running_def same_env_def)
  moreover have "held s' m c" if "held s m c" for m c
    using that s'(6,7) E(1) by (simp add: held_def cached_in_def same_env_def) (simp add: s'(4))
  ultimately show thesis using that [OF s'(1) _ s'(3,5-7)] E by blast
qed

lemma log_brelse:
  assumes "running s" "held s n b" "refs s n = 1 \<Longrightarrow> view s n = medium s (unat n)"
  obtains s' where "brelse b s = Inr s'" "running s'" "view s' = view s" "refs s' = (refs s)(n := refs s n - 1)"
    "blk_lock s' = (blk_lock s)(n := initsleeplock)" "medium s' = medium s" "dwrites s' = dwrites s"
    "same_env s s'" "\<forall>m c. m \<noteq> n \<longrightarrow> held s m c \<longrightarrow> held s' m c"
proof -
  have r: "cache_ok s" "the (myproc s) < length (procs s)" using assms(1) by (auto simp: running_def)
  obtain s' where s': "brelse b s = Inr s'" "cache_ok s'"
    "s' = s\<lparr>bufs := bufs s', procs := procs (wakeup (ChBufLock b) s)\<rparr>"
    "view s' = view s" "refs s' = (refs s)(n := refs s n - 1)" "blk_lock s' = (blk_lock s)(n := initsleeplock)"
    "mylock s' = mylock s" "myproc s' = myproc s" "keeps s s' n"
    by (rule brelse_spec [OF r(1) assms(2,3) r(2)])
  have E: "log_start s' = log_start s" "outstanding s' = outstanding s" "committing s' = committing s"
    "log_dev s' = log_dev s" "lh_n s' = lh_n s" "lh_block s' = lh_block s" "medium s' = medium s"
    "dwrites s' = dwrites s" "length (procs s') = length (procs s)"
    by (subst s'(3), simp)+
  have env: "same_env s s'" using E s'(7,8) by (simp add: same_env_def)
  have run: "running s'" using s'(2) assms(1) env by (simp add: running_def same_env_def)
  have "held s' m c" if m: "m \<noteq> n" "held s m c" for m c
    using held_keeps [OF s'(9) m] m(1) s'(5-8) by simp
  then show thesis using that [OF s'(1) run s'(4,5,6) E(7,8) env] by blast
qed

lemma log_bunpin:
  assumes "running s" "held s n b" "2 \<le> refs s n"
  shows "running (bunpin b s)" "held (bunpin b s) n b" "view (bunpin b s) = view s"
    "refs (bunpin b s) = (refs s)(n := refs s n - 1)" "blk_lock (bunpin b s) = blk_lock s"
    "medium (bunpin b s) = medium s" "dwrites (bunpin b s) = dwrites s" "same_env s (bunpin b s)"
    "m \<noteq> n \<Longrightarrow> held s m c \<Longrightarrow> held (bunpin b s) m c"
proof -
  have r: "cache_ok s" using assms(1) by (simp add: running_def)
  note S = bunpin_spec [OF r assms(2,3)]
  note E = same_env_bufs [OF S(6)]
  show "running (bunpin b s)" using S(1) assms(1) E(1) by (simp add: running_def same_env_def)
  show "held (bunpin b s) n b" "view (bunpin b s) = view s"
    "refs (bunpin b s) = (refs s)(n := refs s n - 1)" "blk_lock (bunpin b s) = blk_lock s" by (fact S)+
  show "medium (bunpin b s) = medium s" "dwrites (bunpin b s) = dwrites s" "same_env s (bunpin b s)"
    by (fact E)+
  show "m \<noteq> n \<Longrightarrow> held s m c \<Longrightarrow> held (bunpin b s) m c"
    using held_keeps [OF S(7)] S(4,5) E(1) by (simp add: same_env_def)
qed

lemma unlocked_init: "running s \<Longrightarrow> \<not> slocked (blk_lock s n) \<Longrightarrow> blk_lock s n = initsleeplock"
  by (cases s n rule: slot_cases)
    (auto simp: running_def view_cached view_uncached cached_in_def buf_ok_def dest: cache_okD(2))

lemma busy_upd: "refs s' = (refs s)(n := k) \<Longrightarrow> busy s' \<subseteq> insert n (busy s)"
  by (auto simp: busy_def)

lemma card_busy_upd: "refs s' = (refs s)(n := k) \<Longrightarrow> card (busy s') \<le> Suc (card (busy s))"
proof -
  assume "refs s' = (refs s)(n := k)"
  then have "card (busy s') \<le> card (insert n (busy s))" by (intro card_mono busy_upd finite)
  then show ?thesis using card_insert_le_m1 [of "Suc (card (busy s))" "busy s" n] by (simp add: card_insert_if split: if_splits)
qed

section \<open>One block to the log, one block home, the header\<close>

lemma write_log_one_spec:
  assumes "running s" "log_dev s = of_nat ROOTDEV" "m = log_blk (int tail + 1) s" "n = lh_block s ! tail" "m \<noteq> n"
    "refs s m = 0" "0 < refs s n" "refs s n + 1 < 2 ^ 32" "\<not> slocked (blk_lock s n)" "card (busy s) < NBUF"
  obtains s' where "write_log_one tail s = Inr s'" "running s'" "view s' = (view s)(m := view s n)"
    "refs s' = refs s" "blk_lock s' = blk_lock s" "medium s' = (medium s)(unat m := view s n)"
    "dwrites s' = dwrites s @ [(unat m, view s n)]" "same_env s s'"
proof -
  have ok: "cache_ok s" using assms(1) by (simp add: running_def)
  have lm: "blk_lock s m = initsleeplock" using view_idle(2) [OF ok assms(6)] .
  have ln: "blk_lock s n = initsleeplock" by (rule unlocked_init [OF assms(1,9)])
  obtain t s1 where s1: "bread (of_nat ROOTDEV) m s = Inr (t, s1)" "running s1" "held s1 m t" "view s1 = view s"
    "refs s1 = (refs s)(m := 1)" "blk_lock s1 = (blk_lock s)(m := mylock s)" "medium s1 = medium s"
    "dwrites s1 = dwrites s" "same_env s s1" "\<forall>k c. k \<noteq> m \<longrightarrow> held s k c \<longrightarrow> held s1 k c"
    by (rule log_bread_idle [OF assms(1,6,10)])
  have r1: "\<not> slocked (blk_lock s1 n)" "refs s1 n + 1 < 2 ^ 32" "refs s1 n = 0 \<Longrightarrow> card (busy s1) < NBUF"
    using s1(5,6) assms(5,7-9) by auto
  obtain fb s2 where s2: "bread (of_nat ROOTDEV) n s1 = Inr (fb, s2)" "running s2" "held s2 n fb" "view s2 = view s1"
    "refs s2 = (refs s1)(n := refs s1 n + 1)" "blk_lock s2 = (blk_lock s1)(n := mylock s1)" "medium s2 = medium s1"
    "dwrites s2 = dwrites s1" "same_env s1 s2" "\<forall>k c. k \<noteq> n \<longrightarrow> held s1 k c \<longrightarrow> held s2 k c"
    by (rule log_bread [OF s1(2) r1])
  define d where "d = b_data (bufs s2 ! fb)"
  have ok2: "cache_ok s2" using s2(2) by (simp add: running_def)
  have d: "d = view s n" "length d = BSIZE"
    using held_data [OF ok2 s2(3)] s2(4) s1(4) length_view [OF ok] by (simp_all add: d_def)
  have h2: "held s2 m t" using s2(10) assms(5) s1(3) by simp
  note D = log_set_data [OF s2(2) h2 d(2)]
  obtain s3 where s3: "bwrite t (set_data t d s2) = Inr s3" "running s3" "held s3 m t"
    "view s3 = view (set_data t d s2)" "refs s3 = refs (set_data t d s2)" "blk_lock s3 = blk_lock (set_data t d s2)"
    "medium s3 = (medium (set_data t d s2))(unat m := view (set_data t d s2) m)"
    "dwrites s3 = dwrites (set_data t d s2) @ [(unat m, view (set_data t d s2) m)]"
    "same_env (set_data t d s2) s3" "\<forall>k c. held (set_data t d s2) k c \<longrightarrow> held s3 k c"
    by (rule log_bwrite [OF D(1,2)])
  have f3: "held s3 n fb" using s3(10) D(9) [OF assms(5) [symmetric] s2(3)] by simp
  have q3: "refs s3 n = 1 \<Longrightarrow> view s3 n = medium s3 (unat n)" using s3(5) D(4) s2(5) s1(5) assms(5,7) by simp
  obtain s4 where s4: "brelse fb s3 = Inr s4" "running s4" "view s4 = view s3"
    "refs s4 = (refs s3)(n := refs s3 n - 1)" "blk_lock s4 = (blk_lock s3)(n := initsleeplock)"
    "medium s4 = medium s3" "dwrites s4 = dwrites s3" "same_env s3 s4" "\<forall>k c. k \<noteq> n \<longrightarrow> held s3 k c \<longrightarrow> held s4 k c"
    by (rule log_brelse [OF s3(2) f3 q3])
  have h4: "held s4 m t" using s4(9) assms(5) s3(3) by simp
  have q4: "refs s4 m = 1 \<Longrightarrow> view s4 m = medium s4 (unat m)" using s4(3,6) s3(4,7) by simp
  obtain s5 where s5: "brelse t s4 = Inr s5" "running s5" "view s5 = view s4"
    "refs s5 = (refs s4)(m := refs s4 m - 1)" "blk_lock s5 = (blk_lock s4)(m := initsleeplock)"
    "medium s5 = medium s4" "dwrites s5 = dwrites s4" "same_env s4 s5" "\<forall>k c. k \<noteq> m \<longrightarrow> held s4 k c \<longrightarrow> held s5 k c"
    by (rule log_brelse [OF s4(2) h4 q4])
  have env: "same_env s s5"
    by (rule same_env_trans [OF s1(9) same_env_trans [OF s2(9) same_env_trans [OF D(8) same_env_trans [OF s3(9)
         same_env_trans [OF s4(8) s5(8)]]]]])
  have nd: "log_dev s1 = of_nat ROOTDEV" "lh_block s1 ! tail = n" using s1(9) assms(2,4) by (simp_all add: same_env_def)
  show thesis
  proof (rule that)
    show "write_log_one tail s = Inr s5"
      using s1(1) s2(1) s3(1) s4(1) s5(1) assms(2,3) nd by (simp add: write_log_one_def d_def)
    show "running s5" "same_env s s5" by fact+
    show "view s5 = (view s)(m := view s n)" using s5(3) s4(3) s3(4) D(3) s2(4) s1(4) d(1) by simp
    show "refs s5 = refs s"
      using s5(4) s4(4) s3(5) D(4) s2(5) s1(5) assms(5,6) by (auto simp: fun_eq_iff)
    show "blk_lock s5 = blk_lock s"
      using s5(5) s4(5) s3(6) D(5) s2(6) s1(6) lm ln assms(5) by (auto simp: fun_eq_iff)
    show "medium s5 = (medium s)(unat m := view s n)" "dwrites s5 = dwrites s @ [(unat m, view s n)]"
      using s5(6,7) s4(6,7) s3(7,8) D(3,6,7) s2(7,8) s1(7,8) d(1) by simp_all
  qed
qed

lemma install_one_spec:
  assumes "running s" "log_dev s = of_nat ROOTDEV" "m = log_blk (int tail + 1) s" "n = lh_block s ! tail" "m \<noteq> n"
    "refs s m = 0" "refs s n + 1 < 2 ^ 32" "\<not> slocked (blk_lock s n)" "card (busy s) < NBUF"
    "if recovering then refs s n = 0 \<and> Suc (card (busy s)) < NBUF else 0 < refs s n"
  obtains s' where "install_one recovering tail s = Inr s'" "running s'" "view s' = (view s)(n := view s m)"
    "refs s' = (refs s)(n := refs s n - 1)" "blk_lock s' = blk_lock s" "medium s' = (medium s)(unat n := view s m)"
    "dwrites s' = dwrites s @ [(unat n, view s m)]" "same_env s s'"
proof -
  have ok: "cache_ok s" using assms(1) by (simp add: running_def)
  have lm: "blk_lock s m = initsleeplock" "view s m = medium s (unat m)" using view_idle [OF ok assms(6)] by simp_all
  have ln: "blk_lock s n = initsleeplock" by (rule unlocked_init [OF assms(1,8)])
  have un: "unat m \<noteq> unat n" using assms(5) by (simp add: word_unat_eq_iff)
  obtain lb s1 where s1: "bread (of_nat ROOTDEV) m s = Inr (lb, s1)" "running s1" "held s1 m lb" "view s1 = view s"
    "refs s1 = (refs s)(m := 1)" "blk_lock s1 = (blk_lock s)(m := mylock s)" "medium s1 = medium s"
    "dwrites s1 = dwrites s" "same_env s s1" "\<forall>k c. k \<noteq> m \<longrightarrow> held s k c \<longrightarrow> held s1 k c"
    by (rule log_bread_idle [OF assms(1,6,9)])
  have "refs s1 n = 0 \<Longrightarrow> card (busy s1) < NBUF"
    using card_busy_upd [OF s1(5)] s1(5) assms(5,10) by (auto split: if_splits)
  then have r1: "\<not> slocked (blk_lock s1 n)" "refs s1 n + 1 < 2 ^ 32" "refs s1 n = 0 \<Longrightarrow> card (busy s1) < NBUF"
    using s1(5,6) assms(5,7-8) by auto
  obtain db s2 where s2: "bread (of_nat ROOTDEV) n s1 = Inr (db, s2)" "running s2" "held s2 n db" "view s2 = view s1"
    "refs s2 = (refs s1)(n := refs s1 n + 1)" "blk_lock s2 = (blk_lock s1)(n := mylock s1)" "medium s2 = medium s1"
    "dwrites s2 = dwrites s1" "same_env s1 s2" "\<forall>k c. k \<noteq> n \<longrightarrow> held s1 k c \<longrightarrow> held s2 k c"
    by (rule log_bread [OF s1(2) r1])
  define d where "d = b_data (bufs s2 ! lb)"
  have h2: "held s2 m lb" using s2(10) assms(5) s1(3) by simp
  have ok2: "cache_ok s2" using s2(2) by (simp add: running_def)
  have d: "d = view s m" "length d = BSIZE"
    using held_data [OF ok2 h2] s2(4) s1(4) length_view [OF ok] by (simp_all add: d_def)
  note D = log_set_data [OF s2(2,3) d(2)]
  obtain s3 where s3: "bwrite db (set_data db d s2) = Inr s3" "running s3" "held s3 n db"
    "view s3 = view (set_data db d s2)" "refs s3 = refs (set_data db d s2)" "blk_lock s3 = blk_lock (set_data db d s2)"
    "medium s3 = (medium (set_data db d s2))(unat n := view (set_data db d s2) n)"
    "dwrites s3 = dwrites (set_data db d s2) @ [(unat n, view (set_data db d s2) n)]"
    "same_env (set_data db d s2) s3" "\<forall>k c. held (set_data db d s2) k c \<longrightarrow> held s3 k c"
    by (rule log_bwrite [OF D(1,2)])
  have h3: "held s3 m lb" using s3(10) D(9) [OF assms(5) h2] by simp
  define s4 where "s4 = (if recovering then s3 else bunpin db s3)"
  have n3: "refs s3 n = refs s n + 1" using s3(5) D(4) s2(5) s1(5) assms(5) by simp
  then have "recovering \<or> 2 \<le> refs s3 n" using assms(10) by (auto split: if_splits)
  then have s4: "running s4" "held s4 n db" "held s4 m lb" "view s4 = view s3" "blk_lock s4 = blk_lock s3"
    "medium s4 = medium s3" "dwrites s4 = dwrites s3" "same_env s3 s4"
    "refs s4 = (refs s3)(n := (if recovering then refs s3 n else refs s3 n - 1))"
    using s3(2,3) h3 assms(5) log_bunpin [OF s3(2,3)] by (auto simp: s4_def)
  have q4: "refs s4 m = 1 \<Longrightarrow> view s4 m = medium s4 (unat m)"
    using s4(4,6) s3(4,7) D(3,6) s2(4,7) s1(4,7) lm(2) un assms(5) by simp
  obtain s5 where s5: "brelse lb s4 = Inr s5" "running s5" "view s5 = view s4"
    "refs s5 = (refs s4)(m := refs s4 m - 1)" "blk_lock s5 = (blk_lock s4)(m := initsleeplock)"
    "medium s5 = medium s4" "dwrites s5 = dwrites s4" "same_env s4 s5" "\<forall>k c. k \<noteq> m \<longrightarrow> held s4 k c \<longrightarrow> held s5 k c"
    by (rule log_brelse [OF s4(1,3) q4])
  have h5: "held s5 n db" using s5(9) s4(2) assms(5) by simp
  have q5: "refs s5 n = 1 \<Longrightarrow> view s5 n = medium s5 (unat n)" using s5(3,6) s4(4,6) s3(4,7) by simp
  obtain s6 where s6: "brelse db s5 = Inr s6" "running s6" "view s6 = view s5"
    "refs s6 = (refs s5)(n := refs s5 n - 1)" "blk_lock s6 = (blk_lock s5)(n := initsleeplock)"
    "medium s6 = medium s5" "dwrites s6 = dwrites s5" "same_env s5 s6" "\<forall>k c. k \<noteq> n \<longrightarrow> held s5 k c \<longrightarrow> held s6 k c"
    by (rule log_brelse [OF s5(2) h5 q5])
  have env: "same_env s s6"
    by (rule same_env_trans [OF s1(9) same_env_trans [OF s2(9) same_env_trans [OF D(8) same_env_trans [OF s3(9)
         same_env_trans [OF s4(8) same_env_trans [OF s5(8) s6(8)]]]]]])
  have nd: "log_dev s1 = of_nat ROOTDEV" "lh_block s1 ! tail = n" using s1(9) assms(2,4) by (simp_all add: same_env_def)
  show thesis
  proof (rule that)
    show "install_one recovering tail s = Inr s6"
      using s1(1) s2(1) s3(1) s5(1) s6(1) assms(2,3) nd by (simp add: install_one_def d_def s4_def)
    show "running s6" "same_env s s6" by fact+
    show "view s6 = (view s)(n := view s m)" using s6(3) s5(3) s4(4) s3(4) D(3) s2(4) s1(4) d(1) by simp
    show "refs s6 = (refs s)(n := refs s n - 1)"
      using s6(4) s5(4) s4(9) s3(5) D(4) s2(5) s1(5) assms(5,6,10) by (auto simp: fun_eq_iff split: if_splits)
    show "blk_lock s6 = blk_lock s"
      using s6(5) s5(5) s4(5) s3(6) D(5) s2(6) s1(6) lm(1) ln assms(5) by (auto simp: fun_eq_iff)
    show "medium s6 = (medium s)(unat n := view s m)" "dwrites s6 = dwrites s @ [(unat n, view s m)]"
      using s6(6,7) s5(6,7) s4(6,7) s3(7,8) D(3,6,7) s2(7,8) s1(7,8) d(1) by simp_all
  qed
qed

lemma write_head_spec:
  assumes "running s" "log_dev s = of_nat ROOTDEV" "m = log_blk 0 s" "refs s m = 0" "card (busy s) < NBUF"
    "0 \<le> lh_n s" "lh_n s \<le> int LOGBLOCKS"
  obtains s' where "write_head s = Inr s'" "running s'"
    "view s' = (view s)(m := encode_head (lh_n s) (lh_block s) (view s m))" "refs s' = refs s" "blk_lock s' = blk_lock s"
    "medium s' = (medium s)(unat m := encode_head (lh_n s) (lh_block s) (view s m))"
    "dwrites s' = dwrites s @ [(unat m, encode_head (lh_n s) (lh_block s) (view s m))]" "same_env s s'"
proof -
  have ok: "cache_ok s" using assms(1) by (simp add: running_def)
  have lm: "blk_lock s m = initsleeplock" using view_idle(2) [OF ok assms(4)] .
  obtain b s1 where s1: "bread (of_nat ROOTDEV) m s = Inr (b, s1)" "running s1" "held s1 m b" "view s1 = view s"
    "refs s1 = (refs s)(m := 1)" "blk_lock s1 = (blk_lock s)(m := mylock s)" "medium s1 = medium s"
    "dwrites s1 = dwrites s" "same_env s s1" "\<forall>k c. k \<noteq> m \<longrightarrow> held s k c \<longrightarrow> held s1 k c"
    by (rule log_bread_idle [OF assms(1,4,5)])
  define d where "d = encode_head (lh_n s1) (lh_block s1) (b_data (bufs s1 ! b))"
  have ok1: "cache_ok s1" using s1(2) by (simp add: running_def)
  have l: "lh_n s1 = lh_n s" "lh_block s1 = lh_block s" using s1(9) by (simp_all add: same_env_def)
  have d: "d = encode_head (lh_n s) (lh_block s) (view s m)"
    using held_data [OF ok1 s1(3)] s1(4) l by (simp add: d_def)
  have ld: "length d = BSIZE"
    unfolding d by (rule encode_head_spec(1) [OF length_view [OF ok] assms(6,7)])
  note D = log_set_data [OF s1(2,3) ld]
  obtain s3 where s3: "bwrite b (set_data b d s1) = Inr s3" "running s3" "held s3 m b"
    "view s3 = view (set_data b d s1)" "refs s3 = refs (set_data b d s1)" "blk_lock s3 = blk_lock (set_data b d s1)"
    "medium s3 = (medium (set_data b d s1))(unat m := view (set_data b d s1) m)"
    "dwrites s3 = dwrites (set_data b d s1) @ [(unat m, view (set_data b d s1) m)]"
    "same_env (set_data b d s1) s3" "\<forall>k c. held (set_data b d s1) k c \<longrightarrow> held s3 k c"
    by (rule log_bwrite [OF D(1,2)])
  have q: "refs s3 m = 1 \<Longrightarrow> view s3 m = medium s3 (unat m)" using s3(4,7) by simp
  obtain s4 where s4: "brelse b s3 = Inr s4" "running s4" "view s4 = view s3"
    "refs s4 = (refs s3)(m := refs s3 m - 1)" "blk_lock s4 = (blk_lock s3)(m := initsleeplock)"
    "medium s4 = medium s3" "dwrites s4 = dwrites s3" "same_env s3 s4" "\<forall>k c. k \<noteq> m \<longrightarrow> held s3 k c \<longrightarrow> held s4 k c"
    by (rule log_brelse [OF s3(2,3) q])
  show thesis
  proof (rule that)
    show "write_head s = Inr s4" using s1(1) s3(1) s4(1) assms(2,3) by (simp add: write_head_def d_def)
    show "running s4" by fact
    show "same_env s s4"
      by (rule same_env_trans [OF s1(9) same_env_trans [OF D(8) same_env_trans [OF s3(9) s4(8)]]])
    show "view s4 = (view s)(m := encode_head (lh_n s) (lh_block s) (view s m))"
      using s4(3) s3(4) D(3) s1(4) d by simp
    show "refs s4 = refs s" using s4(4) s3(5) D(4) s1(5) assms(4) by (auto simp: fun_eq_iff)
    show "blk_lock s4 = blk_lock s" using s4(5) s3(6) D(5) s1(6) lm by (auto simp: fun_eq_iff)
    show "medium s4 = (medium s)(unat m := encode_head (lh_n s) (lh_block s) (view s m))"
      "dwrites s4 = dwrites s @ [(unat m, encode_head (lh_n s) (lh_block s) (view s m))]"
      using s4(6,7) s3(7,8) D(3,6,7) s1(7,8) d by simp_all
  qed
qed

end
