(* ===== verification/LogCrash.thy ===== *)
theory LogCrash
  imports Log
begin

text \<open>
  Crash safety of the log. The disk sees the sequence \<open>dwrites\<close> of block writes; a crash keeps some
  prefix of it. A transaction is committed by exactly one of these writes, that of the header block.
\<close>

section \<open>The layout of the log\<close>

definition log_area :: "'a lstate_scheme \<Rightarrow> u32 set" where
  "log_area s = (\<lambda>j. log_blk (int j) s) ` {..LOGBLOCKS}"

text \<open>
  The log in use with \<open>n\<close> logged blocks: the blocks of the log are numbered without wrap-around, no
  logged block is logged twice or lies inside the log, and nobody uses the blocks of the log.
\<close>

definition log_layout :: "nat \<Rightarrow> 'a lstate_scheme \<Rightarrow> bool" where
  "log_layout n s \<longleftrightarrow> running s \<and> log_dev s = of_nat ROOTDEV \<and> length (lh_block s) = LOGBLOCKS \<and> n \<le> LOGBLOCKS \<and>
     0 \<le> log_start s \<and> log_start s + int LOGBLOCKS < 2 ^ 31 \<and> distinct (take n (lh_block s)) \<and>
     set (take n (lh_block s)) \<inter> log_area s = {} \<and> (\<forall>b \<in> log_area s. refs s b = 0) \<and> card (busy s) < NBUF"

text \<open>The blocks of a transaction are pinned, unlocked and not about to overflow their counters.\<close>

definition pinned :: "nat \<Rightarrow> 'a lstate_scheme \<Rightarrow> bool" where
  "pinned n s \<longleftrightarrow> (\<forall>i < n. 0 < refs s (lh_block s ! i) \<and> refs s (lh_block s ! i) + 1 < 2 ^ 32 \<and>
     \<not> slocked (blk_lock s (lh_block s ! i)))"

lemma log_layoutD:
  assumes "log_layout n s"
  shows "running s" "cache_ok s" "log_dev s = of_nat ROOTDEV" "length (lh_block s) = LOGBLOCKS" "n \<le> LOGBLOCKS"
    "card (busy s) < NBUF" "j \<le> LOGBLOCKS \<Longrightarrow> refs s (log_blk (int j) s) = 0"
    "i < n \<Longrightarrow> j \<le> LOGBLOCKS \<Longrightarrow> lh_block s ! i \<noteq> log_blk (int j) s"
    "i < n \<Longrightarrow> k < n \<Longrightarrow> lh_block s ! i = lh_block s ! k \<longleftrightarrow> i = k"
proof -
  show "running s" "cache_ok s" "log_dev s = of_nat ROOTDEV" "length (lh_block s) = LOGBLOCKS" "n \<le> LOGBLOCKS"
    "card (busy s) < NBUF" "j \<le> LOGBLOCKS \<Longrightarrow> refs s (log_blk (int j) s) = 0"
    using assms by (auto simp: log_layout_def running_def log_area_def)
  then have t: "take n (lh_block s) ! i = lh_block s ! i" "length (take n (lh_block s)) = n" if "i < n" for i
    using that by auto
  show "lh_block s ! i \<noteq> log_blk (int j) s" if "i < n" "j \<le> LOGBLOCKS"
  proof -
    have "lh_block s ! i \<in> set (take n (lh_block s))" using t that(1) by (metis nth_mem)
    moreover have "log_blk (int j) s \<in> log_area s" using that(2) by (auto simp: log_area_def)
    ultimately show ?thesis using assms unfolding log_layout_def by (metis disjoint_iff)
  qed
  show "lh_block s ! i = lh_block s ! k \<longleftrightarrow> i = k" if "i < n" "k < n"
    using assms t that nth_eq_iff_index_eq [of "take n (lh_block s)" i k] by (simp add: log_layout_def)
qed

lemma log_blk_eq:
  assumes "log_layout n s" "i \<le> LOGBLOCKS" "j \<le> LOGBLOCKS"
  shows "log_blk (int i) s = log_blk (int j) s \<longleftrightarrow> i = j"
proof
  assume "log_blk (int i) s = log_blk (int j) s"
  then have "uint (word_of_int (log_start s + int i) :: u32) = uint (word_of_int (log_start s + int j) :: u32)"
    by (simp only: log_blk_def)
  then have "(log_start s + int i) mod 2 ^ 32 = (log_start s + int j) mod 2 ^ 32"
    by (simp only: uint_word_of_int) simp
  moreover have "0 \<le> log_start s" "log_start s + int LOGBLOCKS < 2 ^ 31" using assms(1) by (auto simp: log_layout_def)
  ultimately show "i = j" using assms(2,3) by simp
qed simp

text \<open>The log block for the logged block \<open>i\<close>; block 0 of the log is the header.\<close>

definition log_slot :: "'a lstate_scheme \<Rightarrow> nat \<Rightarrow> u32" where
  "log_slot s i = log_blk (int i + 1) s"

lemma log_slot_blk: "log_slot s i = log_blk (int (Suc i)) s"
  by (simp add: log_slot_def add.commute)

lemma log_slotD:
  assumes "log_layout n s"
  shows "i < LOGBLOCKS \<Longrightarrow> refs s (log_slot s i) = 0" "refs s (log_blk 0 s) = 0"
    "h < n \<Longrightarrow> i < LOGBLOCKS \<Longrightarrow> log_slot s i \<noteq> lh_block s ! h" "h < n \<Longrightarrow> lh_block s ! h \<noteq> log_blk 0 s"
    "i < LOGBLOCKS \<Longrightarrow> log_slot s i \<noteq> log_blk 0 s"
    "i < LOGBLOCKS \<Longrightarrow> j < LOGBLOCKS \<Longrightarrow> log_slot s i = log_slot s j \<longleftrightarrow> i = j"
proof -
  note L = log_layoutD(7,8) [OF assms] log_blk_eq [OF assms]
  show "refs s (log_slot s i) = 0" if "i < LOGBLOCKS"
    unfolding log_slot_blk by (rule L(1)) (use that in simp)
  show "refs s (log_blk 0 s) = 0" using L(1) [of 0] by simp
  show "log_slot s i \<noteq> lh_block s ! h" if "h < n" "i < LOGBLOCKS"
    unfolding log_slot_blk by (rule not_sym [OF L(2)]) (use that in simp_all)
  show "lh_block s ! h \<noteq> log_blk 0 s" if "h < n" using L(2) [OF that, of 0] by simp
  show "log_slot s i \<noteq> log_blk 0 s" if "i < LOGBLOCKS"
    using L(3) [of "Suc i" 0] that by (simp add: log_slot_blk)
  show "log_slot s i = log_slot s j \<longleftrightarrow> i = j" if "i < LOGBLOCKS" "j < LOGBLOCKS"
    unfolding log_slot_blk using L(3) [of "Suc i" "Suc j"] that by simp
qed

lemma log_area_env: "same_env s s' \<Longrightarrow> log_area s' = log_area s"
  by (simp add: log_area_def log_blk_def same_env_def)

lemma log_blk_env: "same_env s s' \<Longrightarrow> log_blk j s' = log_blk j s"
  by (simp add: log_blk_def same_env_def)

lemma log_layout_env:
  "log_layout n s \<Longrightarrow> same_env s s' \<Longrightarrow> running s' \<Longrightarrow> \<forall>b \<in> log_area s. refs s' b = 0 \<Longrightarrow> card (busy s') < NBUF \<Longrightarrow>
     log_layout n s'"
  using log_area_env [of s s'] by (simp add: log_layout_def) (simp add: same_env_def)

lemma busy_cong: "refs s' = refs s \<Longrightarrow> busy s' = busy s"
  by (simp add: busy_def)

lemma log_slot_env: "same_env s s' \<Longrightarrow> log_slot s' = log_slot s"
  by (simp add: log_slot_def fun_eq_iff log_blk_env [of s s'])

section \<open>Copying the blocks to the log\<close>

definition log_writes :: "nat \<Rightarrow> 'a lstate_scheme \<Rightarrow> (nat \<times> block) list" where
  "log_writes n s = map (\<lambda>i. (unat (log_slot s i), view s (lh_block s ! i))) [0..<n]"

lemma write_log_loop:
  assumes "log_layout n s" "pinned n s" "k \<le> n"
  shows "\<exists>s'. rfold write_log_one [0..<k] s = Inr s' \<and> running s' \<and> same_env s s' \<and> refs s' = refs s \<and>
    blk_lock s' = blk_lock s \<and> medium s' = apply_writes (medium s) (log_writes k s) \<and>
    dwrites s' = dwrites s @ log_writes k s \<and>
    (\<forall>i < k. view s' (log_slot s i) = view s (lh_block s ! i)) \<and>
    (\<forall>b. (\<forall>i < k. b \<noteq> log_slot s i) \<longrightarrow> view s' b = view s b)"
  using assms(3)
proof (induction k)
  case 0
  then show ?case using log_layoutD(1) [OF assms(1)] by (simp add: log_writes_def)
next
  case (Suc k)
  have "k \<le> n" using Suc.prems by simp
  from Suc.IH [OF this] obtain t where t: "rfold write_log_one [0..<k] s = Inr t" "running t" "same_env s t" "refs t = refs s"
    "blk_lock t = blk_lock s" "medium t = apply_writes (medium s) (log_writes k s)"
    "dwrites t = dwrites s @ log_writes k s" "\<forall>i < k. view t (log_slot s i) = view s (lh_block s ! i)"
    "\<forall>b. (\<forall>i < k. b \<noteq> log_slot s i) \<longrightarrow> view t b = view s b" by (elim exE conjE)
  note L = log_layoutD [OF assms(1)]
  let ?m = "log_slot s k" and ?n = "lh_block s ! k"
  have k: "k < n" "k < LOGBLOCKS" using Suc.prems L(5) by auto
  note M = log_slotD [OF assms(1)]
  have ne: "?m \<noteq> ?n" by (rule M(3) [OF k])
  have pn: "0 < refs t ?n" "refs t ?n + 1 < 2 ^ 32" "\<not> slocked (blk_lock t ?n)"
    using assms(2) k(1) t(4,5) by (auto simp: pinned_def)
  have q: "log_dev t = of_nat ROOTDEV" "?m = log_blk (int k + 1) t" "?n = lh_block t ! k" "refs t ?m = 0"
    using t(3,4) L(3) M(1) [OF k(2)] by (simp_all add: same_env_def log_blk_def log_slot_def)
  have b: "card (busy t) < NBUF" using busy_cong [OF t(4)] L(6) by simp
  obtain u where u: "write_log_one k t = Inr u" "running u" "view u = (view t)(?m := view t ?n)"
    "refs u = refs t" "blk_lock u = blk_lock t" "medium u = (medium t)(unat ?m := view t ?n)"
    "dwrites u = dwrites t @ [(unat ?m, view t ?n)]" "same_env t u"
    by (rule write_log_one_spec [OF t(2) q(1-3) ne q(4) pn b])
  have old: "?n \<noteq> log_slot s i" "?m \<noteq> log_slot s i" if "i < k" for i
    using M(3) [OF k(1), of i] M(6) [OF k(2), of i] that k(2) by auto
  have vn: "view t ?n = view s ?n" using t(9) old(1) by blast
  have w: "log_writes (Suc k) s = log_writes k s @ [(unat ?m, view s ?n)]" by (simp add: log_writes_def)
  show ?case
  proof (intro exI conjI)
    show "rfold write_log_one [0..<Suc k] s = Inr u" using t(1) u(1) by (simp add: rfold_append)
    show "same_env s u" by (rule same_env_trans [OF t(3) u(8)])
    show "\<forall>i < Suc k. view u (log_slot s i) = view s (lh_block s ! i)"
      using t(8) u(3) vn not_sym [OF old(2)] by (auto simp: less_Suc_eq)
    show "\<forall>b. (\<forall>i < Suc k. b \<noteq> log_slot s i) \<longrightarrow> view u b = view s b"
      using t(9) u(3) by (auto simp: less_Suc_eq)
  qed (simp_all only: u t vn w apply_writes_simps append_assoc fst_conv snd_conv)
qed

section \<open>Copying the blocks home\<close>

definition home_writes :: "nat \<Rightarrow> 'a lstate_scheme \<Rightarrow> (nat \<times> block) list" where
  "home_writes n s = map (\<lambda>i. (unat (lh_block s ! i), view s (log_slot s i))) [0..<n]"

definition installable :: "bool \<Rightarrow> nat \<Rightarrow> 'a lstate_scheme \<Rightarrow> bool" where
  "installable recovering n s \<longleftrightarrow> (if recovering then refs s = (\<lambda>_. 0) else pinned n s)"

lemma install_loop:
  assumes "log_layout n s" "installable recovering n s" "k \<le> n"
  shows "\<exists>s'. rfold (install_one recovering) [0..<k] s = Inr s' \<and> running s' \<and> same_env s s' \<and>
    refs s' = (\<lambda>b. refs s b - (if b \<in> set (take k (lh_block s)) then 1 else 0)) \<and>
    blk_lock s' = blk_lock s \<and> medium s' = apply_writes (medium s) (home_writes k s) \<and>
    dwrites s' = dwrites s @ home_writes k s \<and> (\<forall>b. b \<notin> set (take k (lh_block s)) \<longrightarrow> view s' b = view s b)"
  using assms(3)
proof (induction k)
  case 0
  then show ?case using log_layoutD(1) [OF assms(1)] by (simp add: home_writes_def)
next
  case (Suc k)
  have "k \<le> n" using Suc.prems by simp
  from Suc.IH [OF this] obtain t where t: "rfold (install_one recovering) [0..<k] s = Inr t" "running t" "same_env s t"
    "refs t = (\<lambda>b. refs s b - (if b \<in> set (take k (lh_block s)) then 1 else 0))"
    "blk_lock t = blk_lock s" "medium t = apply_writes (medium s) (home_writes k s)"
    "dwrites t = dwrites s @ home_writes k s" "\<forall>b. b \<notin> set (take k (lh_block s)) \<longrightarrow> view t b = view s b" by (elim exE conjE)
  note L = log_layoutD [OF assms(1)]
  let ?m = "log_slot s k" and ?n = "lh_block s ! k"
  have k: "k < n" "k < LOGBLOCKS" "k < length (lh_block s)" using Suc.prems L(4,5) by auto
  have tk: "take (Suc k) (lh_block s) = take k (lh_block s) @ [?n]" by (simp add: take_Suc_conv_app_nth k(3))
  note M = log_slotD [OF assms(1)]
  have ne: "?m \<noteq> ?n" by (rule M(3) [OF k(1,2)])
  have nk: "?n \<notin> set (take k (lh_block s))"
    using L(9) [OF _ k(1)] k(1,3) by (auto simp: in_set_conv_nth)
  have mk: "?m \<notin> set (take k (lh_block s))"
    using M(3) [OF _ k(2)] k(1,3) unfolding in_set_conv_nth by (metis length_take min_less_iff_conj nth_take order_less_trans)
  have rt: "refs t ?n = refs s ?n" "refs t ?m = 0" using t(4) nk mk M(1) [OF k(2)] by simp_all
  have bt: "card (busy t) \<le> card (busy s)" using t(4) by (intro card_mono) (auto simp: busy_def)
  have bz: "refs s = (\<lambda>_. 0) \<Longrightarrow> card (busy t) = 0" using bt by (simp add: busy_def)
  have pn: "refs t ?n + 1 < 2 ^ 32" "\<not> slocked (blk_lock t ?n)"
    "if recovering then refs t ?n = 0 \<and> Suc (card (busy t)) < NBUF else 0 < refs t ?n"
    using assms(2) k(1) t(5) rt(1) bz view_idle(2) [OF L(2), of ?n]
    by (auto simp: installable_def pinned_def initsleeplock_def split: if_splits)
  have q: "log_dev t = of_nat ROOTDEV" "?m = log_blk (int k + 1) t" "?n = lh_block t ! k"
    using t(3) L(3) by (simp_all add: same_env_def log_blk_def log_slot_def)
  have b: "card (busy t) < NBUF" using bt L(6) by simp
  obtain u where u: "install_one recovering k t = Inr u" "running u" "view u = (view t)(?n := view t ?m)"
    "refs u = (refs t)(?n := refs t ?n - 1)" "blk_lock u = blk_lock t" "medium u = (medium t)(unat ?n := view t ?m)"
    "dwrites u = dwrites t @ [(unat ?n, view t ?m)]" "same_env t u"
    by (rule install_one_spec [OF t(2) q ne rt(2) pn(1,2) b pn(3)])
  have vm: "view t ?m = view s ?m" using t(8) mk by blast
  have w: "home_writes (Suc k) s = home_writes k s @ [(unat ?n, view s ?m)]" by (simp add: home_writes_def)
  show ?case
  proof (intro exI conjI)
    show "rfold (install_one recovering) [0..<Suc k] s = Inr u" using t(1) u(1) by (simp add: rfold_append)
    show "same_env s u" by (rule same_env_trans [OF t(3) u(8)])
    show "refs u = (\<lambda>b. refs s b - (if b \<in> set (take (Suc k) (lh_block s)) then 1 else 0))"
      using u(4) t(4) nk by (auto simp: tk fun_eq_iff)
    show "\<forall>b. b \<notin> set (take (Suc k) (lh_block s)) \<longrightarrow> view u b = view s b"
      using t(8) u(3) by (simp add: tk)
  qed (simp_all only: u t vm w apply_writes_simps append_assoc fst_conv snd_conv)
qed

section \<open>Commit\<close>

lemma header_frame:
  assumes "bufs s' = bufs s" "medium s' = medium s" "cpus s' = cpus s" "hartid s' = hartid s" "procs s' = procs s"
  shows "running s' = running s" "view s' = view s" "refs s' = refs s" "blk_lock s' = blk_lock s" "busy s' = busy s"
    "held s' n b = held s n b" "mylock s' = mylock s"
proof -
  have m: "myproc s' = myproc s" "mylock s' = mylock s" using assms by (simp_all add: mylock_def myproc_def mycpu_def)
  show "mylock s' = mylock s" by (rule m)
  show "view s' = view s" "refs s' = refs s" "blk_lock s' = blk_lock s"
    using cache_cong [OF assms(1,2)] by simp_all
  then show "busy s' = busy s" by (simp add: busy_def)
  show "running s' = running s" using cache_cong(6) [OF assms(1,2)] m assms(5) by (simp add: running_def)
  show "held s' n b = held s n b" using held_cong [of s' s] assms m by simp
qed

definition commit_writes :: "nat \<Rightarrow> 'a lstate_scheme \<Rightarrow> (nat \<times> block) list" where
  "commit_writes n s = log_writes n s @
     [(unat (log_blk 0 s), encode_head (int n) (lh_block s) (view s (log_blk 0 s)))] @
     map (\<lambda>i. (unat (lh_block s ! i), view s (lh_block s ! i))) [0..<n] @
     [(unat (log_blk 0 s), encode_head 0 (lh_block s) (encode_head (int n) (lh_block s) (view s (log_blk 0 s))))]"

lemma commit_spec:
  assumes "log_layout n s" "pinned n s" "lh_n s = int n" "0 < n"
  shows "\<exists>s'. commit s = Inr s' \<and> running s' \<and> lh_n s' = 0 \<and> dwrites s' = dwrites s @ commit_writes n s \<and>
    medium s' = apply_writes (medium s) (commit_writes n s)"
proof -
  note L = log_layoutD [OF assms(1)] and M = log_slotD [OF assms(1)]
  define hd0 where "hd0 = log_blk 0 s"
  obtain s1 where s1: "write_log s = Inr s1" "running s1" "same_env s s1" "refs s1 = refs s" "blk_lock s1 = blk_lock s"
    "medium s1 = apply_writes (medium s) (log_writes n s)" "dwrites s1 = dwrites s @ log_writes n s"
    "\<forall>i < n. view s1 (log_slot s i) = view s (lh_block s ! i)"
    "\<forall>b. (\<forall>i < n. b \<noteq> log_slot s i) \<longrightarrow> view s1 b = view s b"
    using write_log_loop [OF assms(1,2) le_refl] unfolding write_log_def assms(3) nat_int by (elim exE conjE)
  have h1: "log_dev s1 = of_nat ROOTDEV" "hd0 = log_blk 0 s1" "refs s1 hd0 = 0" "card (busy s1) < NBUF"
    "0 \<le> lh_n s1" "lh_n s1 \<le> int LOGBLOCKS" "lh_n s1 = int n" "lh_block s1 = lh_block s"
    using s1(3) L(3,5,6) M(2) s1(4) busy_cong [OF s1(4)] assms(3)
    by (simp_all add: same_env_def log_blk_def hd0_def)
  define h where "h = encode_head (int n) (lh_block s) (view s hd0)"
  have "view s1 hd0 = view s hd0" using s1(9) M(5) L(5) unfolding hd0_def by (metis order_less_le_trans)
  then obtain s2 where s2: "write_head s1 = Inr s2" "running s2" "view s2 = (view s1)(hd0 := h)" "refs s2 = refs s1"
    "blk_lock s2 = blk_lock s1" "medium s2 = (medium s1)(unat hd0 := h)" "dwrites s2 = dwrites s1 @ [(unat hd0, h)]"
    "same_env s1 s2"
    using write_head_spec [OF s1(2) h1(1-6)] unfolding h1(7,8) h_def by metis
  have e2: "same_env s s2" by (rule same_env_trans [OF s1(3) s2(8)])
  have r2: "refs s2 = refs s" "blk_lock s2 = blk_lock s" using s1(4,5) s2(4,5) by simp_all
  have l2: "log_layout n s2"
    using assms(1) busy_cong [OF r2(1)] L(6) r2(1)
    by (intro log_layout_env [OF assms(1) e2 s2(2)]) (auto simp: log_layout_def)
  have e2': "lh_block s2 = lh_block s" "log_slot s2 = log_slot s" "lh_n s2 = int n"
    using e2 log_slot_env [OF e2] assms(3) by (simp_all add: same_env_def)
  have p2: "installable False n s2" using assms(2) r2 e2'(1) by (simp add: installable_def pinned_def)
  obtain s3 where s3: "install_trans False s2 = Inr s3" "running s3" "same_env s2 s3"
    "refs s3 = (\<lambda>b. refs s2 b - (if b \<in> set (take n (lh_block s2)) then 1 else 0))"
    "blk_lock s3 = blk_lock s2" "medium s3 = apply_writes (medium s2) (home_writes n s2)"
    "dwrites s3 = dwrites s2 @ home_writes n s2" "\<forall>b. b \<notin> set (take n (lh_block s2)) \<longrightarrow> view s3 b = view s2 b"
    using install_loop [OF l2 p2 le_refl] unfolding install_trans_def e2'(3) nat_int by (elim exE conjE)
  have hw: "home_writes n s2 = map (\<lambda>i. (unat (lh_block s ! i), view s (lh_block s ! i))) [0..<n]"
    using s2(3) s1(8) M(5) L(5) by (auto simp: home_writes_def e2' hd0_def)
  define t where "t = s3\<lparr>lh_n := 0\<rparr>"
  note F = header_frame [of t s3, unfolded t_def, simplified, folded t_def]
  have e3: "same_env s s3" by (rule same_env_trans [OF e2 s3(3)])
  have hn: "hd0 \<notin> set (take n (lh_block s2))"
    using M(4) L(4,5) by (auto simp: in_set_conv_nth e2' hd0_def)
  have bt: "card (busy s3) \<le> card (busy s)" using s3(4) r2(1) by (intro card_mono) (auto simp: busy_def)
  have ht: "running t" "log_dev t = of_nat ROOTDEV" "hd0 = log_blk 0 t" "refs t hd0 = 0" "card (busy t) < NBUF"
    "0 \<le> lh_n t" "lh_n t \<le> int LOGBLOCKS" "lh_n t = 0" "lh_block t = lh_block s"
    using F s3(2,4) e3 L(3,6) M(2) r2(1) bt by (simp_all add: same_env_def log_blk_def hd0_def t_def)
  have vt: "view t hd0 = h" using F(2) s3(8) hn s2(3) by simp
  obtain s4 where s4: "write_head t = Inr s4" "running s4" "medium s4 = (medium t)(unat hd0 := encode_head 0 (lh_block s) h)"
    "dwrites s4 = dwrites t @ [(unat hd0, encode_head 0 (lh_block s) h)]" "same_env t s4"
    using write_head_spec [OF ht(1-7)] unfolding ht(8,9) vt by metis
  have "commit s = Inr s4"
    using s1(1) s2(1) s3(1) s4(1) assms(3,4) by (simp add: commit_def t_def)
  moreover have "lh_n s4 = 0" using s4(5) ht(8) by (simp add: same_env_def)
  moreover have "dwrites s4 = dwrites s @ commit_writes n s" "medium s4 = apply_writes (medium s) (commit_writes n s)"
    using s4(3,4) s3(6,7) s2(6,7) s1(6,7) hw by (simp_all add: commit_writes_def h_def hd0_def t_def)
  ultimately show ?thesis using s4(2) by blast
qed

section \<open>Recovery\<close>

lemma read_head_spec:
  assumes "running s" "log_dev s = of_nat ROOTDEV" "m = log_blk 0 s" "refs s m = 0" "card (busy s) < NBUF"
    "hdr_n (view s m) = int n" "n \<le> LOGBLOCKS"
  shows "\<exists>s'. read_head s = Inr s' \<and> running s' \<and> view s' = view s \<and> refs s' = refs s \<and> medium s' = medium s \<and>
    dwrites s' = dwrites s \<and> log_start s' = log_start s \<and> log_dev s' = log_dev s \<and> lh_n s' = int n \<and>
    lh_block s' = map (hdr_block (view s m)) [0..<n] @ drop n (lh_block s)"
proof -
  have ok: "cache_ok s" using assms(1) by (simp add: running_def)
  obtain b s1 where s1: "bread (of_nat ROOTDEV) m s = Inr (b, s1)" "running s1" "held s1 m b" "view s1 = view s"
    "refs s1 = (refs s)(m := 1)" "blk_lock s1 = (blk_lock s)(m := mylock s)" "medium s1 = medium s"
    "dwrites s1 = dwrites s" "same_env s s1" "\<forall>k c. k \<noteq> m \<longrightarrow> held s k c \<longrightarrow> held s1 k c"
    by (rule log_bread_idle [OF assms(1,4,5)])
  have ok1: "cache_ok s1" using s1(2) by (simp add: running_def)
  have d: "b_data (bufs s1 ! b) = view s m" using held_data [OF ok1 s1(3)] s1(4) by simp
  define t where "t = s1\<lparr>lh_n := int n, lh_block := map (hdr_block (view s m)) [0..<n] @ drop n (lh_block s)\<rparr>"
  note F = header_frame [of t s1, unfolded t_def, simplified, folded t_def]
  have t: "running t" "held t m b" "refs t m = 1 \<Longrightarrow> view t m = medium t (unat m)"
    using F s1(2-5,7) view_idle(1) [OF ok assms(4)] by (simp_all add: t_def)
  obtain s2 where s2: "brelse b t = Inr s2" "running s2" "view s2 = view t" "refs s2 = (refs t)(m := refs t m - 1)"
    "medium s2 = medium t" "dwrites s2 = dwrites t" "same_env t s2"
    using log_brelse [OF t] by metis
  have "read_head s = Inr s2"
    using s1(1,9) s2(1) assms(2,3,6,7) d by (simp add: read_head_def t_def same_env_def)
  then show ?thesis
    using s2 F s1(4,5,7-9) assms(4) by (intro exI [of _ s2]) (auto simp: same_env_def t_def)
qed

text \<open>
  A freshly booted machine: a well-formed cache that nobody uses, and a log header on disk with \<open>n\<close>
  distinct blocks outside the log.
\<close>

definition recoverable :: "nat \<Rightarrow> 'a lstate_scheme \<Rightarrow> bool" where
  "recoverable n s \<longleftrightarrow> running s \<and> refs s = (\<lambda>_. 0) \<and> log_dev s = of_nat ROOTDEV \<and>
     length (lh_block s) = LOGBLOCKS \<and> n \<le> LOGBLOCKS \<and> 0 \<le> log_start s \<and> log_start s + int LOGBLOCKS < 2 ^ 31 \<and>
     hdr_n (medium s (unat (log_blk 0 s))) = int n \<and>
     distinct (map (hdr_block (medium s (unat (log_blk 0 s)))) [0..<n]) \<and>
     set (map (hdr_block (medium s (unat (log_blk 0 s)))) [0..<n]) \<inter> log_area s = {}"

lemma recover_spec:
  assumes "recoverable n s"
  defines "hb \<equiv> medium s (unat (log_blk 0 s))"
  shows "\<exists>s' hb'. recover_from_log s = Inr s' \<and> running s' \<and> refs s' = (\<lambda>_. 0) \<and> lh_n s' = 0 \<and> hdr_n hb' = 0 \<and>
    medium s' = (apply_writes (medium s) (map (\<lambda>i. (unat (hdr_block hb i), medium s (unat (log_slot s i)))) [0..<n]))
      (unat (log_blk 0 s) := hb')"
proof -
  have R: "running s" "refs s = (\<lambda>_. 0)" "log_dev s = of_nat ROOTDEV" "length (lh_block s) = LOGBLOCKS" "n \<le> LOGBLOCKS"
    "0 \<le> log_start s" "log_start s + int LOGBLOCKS < 2 ^ 31" "hdr_n hb = int n"
    "distinct (map (hdr_block hb) [0..<n])" "set (map (hdr_block hb) [0..<n]) \<inter> log_area s = {}"
    using assms by (simp_all add: recoverable_def)
  have ok: "cache_ok s" using R(1) by (simp add: running_def)
  have vi: "view s b = medium s (unat b)" for b by (rule view_idle(1) [OF ok]) (simp add: R(2))
  have b0: "busy s = {}" using R(2) by (simp add: busy_def)
  let ?m = "log_blk 0 s"
  have r1: "refs s ?m = 0" "card (busy s) < NBUF" "hdr_n (view s ?m) = int n" using R(2,8) b0 vi by (simp_all add: hb_def)
  obtain s1 where s1: "read_head s = Inr s1" "running s1" "view s1 = view s" "refs s1 = refs s" "medium s1 = medium s"
    "dwrites s1 = dwrites s" "log_start s1 = log_start s" "log_dev s1 = log_dev s" "lh_n s1 = int n"
    "lh_block s1 = map (hdr_block (view s ?m)) [0..<n] @ drop n (lh_block s)"
    using read_head_spec [OF R(1,3) refl r1 R(5)] by (elim exE conjE)
  have hb: "view s ?m = hb" using vi by (simp add: hb_def)
  have tk: "take n (lh_block s1) = map (hdr_block hb) [0..<n]" using s1(10) by (simp add: hb)
  have la: "log_area s1 = log_area s" "log_slot s1 = log_slot s" "log_blk 0 s1 = ?m"
    using s1(7) by (simp_all add: log_area_def log_blk_def log_slot_def fun_eq_iff)
  have l1: "log_layout n s1"
    using R s1 tk la b0 busy_cong [OF s1(4)] hb by (simp add: log_layout_def)
  obtain s2 where s2: "install_trans True s1 = Inr s2" "running s2" "same_env s1 s2"
    "refs s2 = (\<lambda>b. refs s1 b - (if b \<in> set (take n (lh_block s1)) then 1 else 0))"
    "blk_lock s2 = blk_lock s1" "medium s2 = apply_writes (medium s1) (home_writes n s1)"
    "dwrites s2 = dwrites s1 @ home_writes n s1" "\<forall>b. b \<notin> set (take n (lh_block s1)) \<longrightarrow> view s2 b = view s1 b"
    using install_loop [OF l1 _ le_refl, of True] s1(4) R(2) unfolding install_trans_def s1(9) nat_int
    by (auto simp: installable_def)
  have hw: "home_writes n s1 = map (\<lambda>i. (unat (hdr_block hb i), medium s (unat (log_slot s i)))) [0..<n]"
    using hb by (simp add: home_writes_def s1(3,10) la nth_append) (simp add: vi)
  define t where "t = s2\<lparr>lh_n := 0\<rparr>"
  note F = header_frame [of t s2, unfolded t_def, simplified, folded t_def]
  have rt: "refs t = (\<lambda>_. 0)" using F(3) s2(4) s1(4) R(2) by (simp add: fun_eq_iff)
  have t: "running t" "log_dev t = of_nat ROOTDEV" "?m = log_blk 0 t" "refs t ?m = 0" "card (busy t) < NBUF"
    "0 \<le> lh_n t" "lh_n t \<le> int LOGBLOCKS" "lh_n t = 0" "medium t = medium s2"
    using F(1) s2(2,3) s1(7,8) R(3) rt by (simp_all add: t_def same_env_def log_blk_def busy_def)
  define hb' where "hb' = encode_head 0 (lh_block t) (view t ?m)"
  obtain s3 where s3: "write_head t = Inr s3" "running s3" "refs s3 = refs t" "medium s3 = (medium t)(unat ?m := hb')"
    "same_env t s3"
    using write_head_spec [OF t(1-7)] unfolding t(8) hb'_def by metis
  have "cache_ok t" using t(1) by (simp add: running_def)
  then have "hdr_n hb' = 0" unfolding hb'_def by (intro encode_head_spec(2)) (simp_all add: length_view)
  moreover have "recover_from_log s = Inr s3" using s1(1) s2(1) s3(1) by (simp add: recover_from_log_def t_def)
  moreover have "lh_n s3 = 0" using s3(5) t(8) by (simp add: same_env_def)
  ultimately show ?thesis using s3(2-4) rt t(9) s2(6) s1(5) hw by (intro exI [of _ s3] exI [of _ hb']) simp
qed

section \<open>Atomicity\<close>

lemma apply_writes_map:
  assumes "inj_on f {..<n}" "i < n"
  shows "apply_writes m (map (\<lambda>i. (f i, g i)) [0..<n]) (f i) = g i"
proof (rule apply_writes_distinct)
  show "distinct (map fst (map (\<lambda>i. (f i, g i)) [0..<n]))"
    using assms(1) by (simp add: distinct_map comp_def atLeast0LessThan)
qed (use assms(2) in auto)

lemma apply_writes_none:
  "\<forall>i < n. f i \<noteq> x \<Longrightarrow> apply_writes m (take j (map (\<lambda>i. (f i, g i)) [0..<n])) x = m x"
  by (rule apply_writes_other) (fastforce dest!: in_set_takeD)

definition booted :: "'a lstate_scheme \<Rightarrow> bool" where
  "booted c \<longleftrightarrow> running c \<and> refs c = (\<lambda>_. 0) \<and> length (lh_block c) = LOGBLOCKS"

text \<open>The contents of the disk before and after the transaction.\<close>

definition txn_new :: "nat \<Rightarrow> 'a lstate_scheme \<Rightarrow> u32 \<Rightarrow> block" where
  "txn_new n s b = (if b \<in> set (take n (lh_block s)) then view s b else medium s (unat b))"

lemma txn_new_nth: "log_layout n s \<Longrightarrow> i < n \<Longrightarrow> txn_new n s (lh_block s ! i) = view s (lh_block s ! i)"
  using log_layoutD(4,5) [of n s] by (auto simp: txn_new_def in_set_conv_nth)

lemma initlog_empty:
  assumes "booted c" "log_layout n s" "hdr_n (medium c (unat (log_blk 0 s))) = 0"
  shows "\<exists>c'. initlog (of_nat ROOTDEV) (log_start s) c = Inr c' \<and>
    (\<forall>b. b \<notin> log_area s \<longrightarrow> medium c' (unat b) = medium c (unat b))"
proof -
  define d where "d = c\<lparr>log_start := log_start s, log_dev := of_nat ROOTDEV\<rparr>"
  note F = header_frame [of d c, unfolded d_def, simplified, folded d_def]
  have lb: "log_blk j d = log_blk j s" for j by (simp add: log_blk_def d_def)
  have "recoverable 0 d"
    unfolding recoverable_def lb using assms F by (simp add: booted_def log_layout_def d_def)
  from recover_spec [OF this] obtain c' hb where c: "recover_from_log d = Inr c'"
    "medium c' = (medium d)(unat (log_blk 0 s) := hb)" by (auto simp: lb)
  have "log_blk 0 s \<in> log_area s" unfolding log_area_def by (rule image_eqI [of _ _ 0]) simp_all
  then have "b \<notin> log_area s \<Longrightarrow> unat b \<noteq> unat (log_blk 0 s)" for b by (auto simp: word_unat_eq_iff [symmetric])
  then show ?thesis using c by (simp add: initlog_def d_def)
qed

lemma initlog_committed:
  assumes "booted c" "log_layout n s" "hdr_n (medium c (unat (log_blk 0 s))) = int n"
    "\<forall>i < n. hdr_block (medium c (unat (log_blk 0 s))) i = lh_block s ! i"
    "\<forall>i < n. medium c (unat (log_slot s i)) = view s (lh_block s ! i)"
    "\<forall>b. b \<notin> log_area s \<longrightarrow> b \<notin> set (take n (lh_block s)) \<longrightarrow> medium c (unat b) = medium s (unat b)"
  shows "\<exists>c'. initlog (of_nat ROOTDEV) (log_start s) c = Inr c' \<and>
    (\<forall>b. b \<notin> log_area s \<longrightarrow> medium c' (unat b) = txn_new n s b)"
proof -
  define d where "d = c\<lparr>log_start := log_start s, log_dev := of_nat ROOTDEV\<rparr>"
  note F = header_frame [of d c, unfolded d_def, simplified, folded d_def]
  note L = log_layoutD [OF assms(2)]
  have lb: "log_blk j d = log_blk j s" "log_area d = log_area s" "log_slot d = log_slot s" for j
    by (simp_all add: log_blk_def log_area_def log_slot_def fun_eq_iff d_def)
  have md: "medium d = medium c" by (simp add: d_def)
  let ?h = "medium c (unat (log_blk 0 s))"
  have tk: "map (hdr_block ?h) [0..<n] = take n (lh_block s)"
    using assms(4) L(4,5) by (intro nth_equalityI) auto
  have "recoverable n d"
    unfolding recoverable_def lb md tk using assms F by (simp add: booted_def log_layout_def d_def)
  from recover_spec [OF this, unfolded lb md] obtain c' hb where c: "recover_from_log d = Inr c'"
    "medium c' = (apply_writes (medium c) (map (\<lambda>i. (unat (hdr_block ?h i), medium c (unat (log_slot s i)))) [0..<n]))
      (unat (log_blk 0 s) := hb)" by auto
  have eq: "map (\<lambda>i. (unat (hdr_block ?h i), medium c (unat (log_slot s i)))) [0..<n] =
    map (\<lambda>i. (unat (lh_block s ! i), view s (lh_block s ! i))) [0..<n]" using assms(4,5) by simp
  have inj: "inj_on (\<lambda>i. unat (lh_block s ! i)) {..<n}"
    using L(9) by (auto simp: inj_on_def word_unat_eq_iff [symmetric])
  have "medium c' (unat b) = txn_new n s b" if b: "b \<notin> log_area s" for b
  proof -
    have "log_blk 0 s \<in> log_area s" unfolding log_area_def by (rule image_eqI [of _ _ 0]) simp_all
    then have "unat b \<noteq> unat (log_blk 0 s)" using b by (auto simp: word_unat_eq_iff [symmetric])
    then have m: "medium c' (unat b) =
      apply_writes (medium c) (map (\<lambda>i. (unat (lh_block s ! i), view s (lh_block s ! i))) [0..<n]) (unat b)"
      using c(2) eq by simp
    show ?thesis
    proof (cases "b \<in> set (take n (lh_block s))")
      case True
      then obtain i where "i < n" "b = lh_block s ! i" using L(4,5) by (auto simp: in_set_conv_nth)
      then show ?thesis using m apply_writes_map [OF inj] txn_new_nth [OF assms(2)] by simp
    next
      case False
      then have "\<forall>i < n. unat (lh_block s ! i) \<noteq> unat b"
        using L(4,5) by (auto simp: word_unat_eq_iff [symmetric] in_set_conv_nth)
      then show ?thesis
        using m apply_writes_none [of n _ _ _ n] False assms(6) b by (simp add: txn_new_def)
    qed
  qed
  then show ?thesis using c(1) by (intro exI [of _ c']) (simp add: initlog_def d_def)
qed

lemma commit_prefix:
  assumes "log_layout n s" "hdr_n (medium s (unat (log_blk 0 s))) = 0" "medium c = apply_writes (medium s) (take j (commit_writes n s))"
    "booted c"
  shows "\<exists>c'. initlog (of_nat ROOTDEV) (log_start s) c = Inr c' \<and>
    (\<forall>b. b \<notin> log_area s \<longrightarrow> medium c' (unat b) = (if j \<le> n then medium s (unat b) else txn_new n s b))"
proof -
  note L = log_layoutD [OF assms(1)] and M = log_slotD [OF assms(1)]
  define u0 where "u0 = unat (log_blk 0 s)"
  define h where "h = encode_head (int n) (lh_block s) (view s (log_blk 0 s))"
  define B where "B = map (\<lambda>i. (unat (lh_block s ! i), view s (lh_block s ! i))) [0..<n]"
  have cw: "commit_writes n s = log_writes n s @ (u0, h) # B @ [(u0, encode_head 0 (lh_block s) h)]"
    by (simp add: commit_writes_def u0_def h_def B_def)
  have lw: "log_writes n s = map (\<lambda>i. (unat (log_slot s i), view s (lh_block s ! i))) [0..<n]" "length (log_writes n s) = n"
    by (simp_all add: log_writes_def)
  have len: "length (view s (log_blk 0 s)) = BSIZE" "length h = BSIZE"
    using length_view [OF L(2)] encode_head_spec(1) [of _ "int n"] L(5) by (simp_all add: h_def)
  have hh: "hdr_n h = int n" "\<forall>i < n. hdr_block h i = lh_block s ! i"
    using encode_head_spec [OF len(1), of "int n" "lh_block s"] L(5) by (simp_all add: h_def)
  have slot: "\<forall>i < n. unat (log_slot s i) \<noteq> u0" "\<forall>i < n. unat (lh_block s ! i) \<noteq> u0"
    "i < n \<Longrightarrow> \<forall>k < n. unat (lh_block s ! k) \<noteq> unat (log_slot s i)" for i
    using not_sym [OF M(3)] M(4,5) L(5) by (auto simp: u0_def word_unat_eq_iff [symmetric])
  have inj: "inj_on (\<lambda>i. unat (log_slot s i)) {..<n}" "inj_on (\<lambda>i. unat (lh_block s ! i)) {..<n}"
    using M(6) L(5,9) by (auto simp: inj_on_def word_unat_eq_iff [symmetric])
  have out: "\<forall>i < n. unat (log_slot s i) \<noteq> unat b" "unat b \<noteq> u0" if b: "b \<notin> log_area s" for b
  proof -
    have "log_slot s i \<in> log_area s" if "i < n" for i
      using that L(5) unfolding log_slot_blk log_area_def by (intro imageI) simp
    then show "\<forall>i < n. unat (log_slot s i) \<noteq> unat b" using b by (auto simp: word_unat_eq_iff [symmetric])
    have "log_blk 0 s \<in> log_area s" unfolding log_area_def by (rule image_eqI [of _ _ 0]) simp_all
    then show "unat b \<noteq> u0" using b by (auto simp: u0_def word_unat_eq_iff [symmetric])
  qed
  have nB: "\<forall>i < n. unat (lh_block s ! i) \<noteq> unat b" if "b \<notin> set (take n (lh_block s))" for b
    using that L(4,5) by (auto simp: word_unat_eq_iff [symmetric] in_set_conv_nth)
  note none = apply_writes_none and all = apply_writes_none [of n _ _ _ n, simplified]
  consider "j \<le> n" | "n < j" "j \<le> 2 * n + 1" | "2 * n + 2 \<le> j" by linarith
  then show ?thesis
  proof cases
    case 1
    then have "medium c = apply_writes (medium s) (take j (log_writes n s))" using assms(3) lw(2) by (simp add: cw)
    then have m: "\<forall>i < n. unat (log_slot s i) \<noteq> x \<Longrightarrow> medium c x = medium s x" for x
      unfolding lw(1) using none by simp
    then have "hdr_n (medium c (unat (log_blk 0 s))) = 0" using assms(2) slot(1) by (simp add: u0_def)
    from initlog_empty [OF assms(4,1) this] show ?thesis using 1 m out(1) by auto
  next
    case 2
    then obtain k where k: "j = n + Suc k" "k \<le> n" by (metis Suc_leI add_Suc_right le_add_diff_inverse less_imp_Suc_add add_le_cancel_left mult_2 Suc_eq_plus1 not_less_eq_eq add_Suc)
    have lB: "length B = n" by (simp add: B_def)
    have c: "medium c = apply_writes ((apply_writes (medium s) (log_writes n s))(u0 := h)) (take k B)"
      using assms(3) lw(2) k lB by (simp add: cw)
    have "medium c u0 = h" unfolding c B_def using none [OF slot(2)] by simp
    moreover have "\<forall>i < n. medium c (unat (log_slot s i)) = view s (lh_block s ! i)"
      unfolding c B_def using none [OF slot(3)] slot(1) apply_writes_map [OF inj(1)] by (simp add: lw(1))
    moreover have "\<forall>b. b \<notin> log_area s \<longrightarrow> b \<notin> set (take n (lh_block s)) \<longrightarrow> medium c (unat b) = medium s (unat b)"
      unfolding c B_def using none [OF nB] out all by (simp add: lw(1))
    ultimately show ?thesis
      using initlog_committed [OF assms(4,1)] hh 2(1) by (simp add: u0_def)
  next
    case 3
    have lB: "length B = n" by (simp add: B_def)
    have c: "medium c = (apply_writes ((apply_writes (medium s) (log_writes n s))(u0 := h)) B)(u0 := encode_head 0 (lh_block s) h)"
      using assms(3) lw(2) 3 lB by (simp add: cw)
    have "hdr_n (medium c (unat (log_blk 0 s))) = 0"
      using encode_head_spec(2) [OF len(2), of 0] by (simp add: c u0_def)
    note I = initlog_empty [OF assms(4,1) this]
    have "medium c (unat b) = txn_new n s b" if b: "b \<notin> log_area s" for b
    proof (cases "b \<in> set (take n (lh_block s))")
      case True
      then obtain i where "i < n" "b = lh_block s ! i" using L(4,5) by (auto simp: in_set_conv_nth)
      then show ?thesis using out(2) [OF b] apply_writes_map [OF inj(2)] txn_new_nth [OF assms(1)] by (simp add: c B_def)
    next
      case False
      then show ?thesis using all [OF nB [OF False]] all [OF out(1) [OF b]] out(2) [OF b] by (simp add: c B_def lw(1) txn_new_def)
    qed
    then show ?thesis using I 3 by auto
  qed
qed

text \<open>
  Property (C1). A transaction commits atomically with respect to crashes. Take any state in which
  \<open>n\<close> distinct blocks outside the log have been logged and pinned and the header on disk is empty.
  Then \<open>commit\<close> neither panics nor sleeps, and for every prefix of the disk writes it issues, a
  machine that boots from the resulting disk and runs \<open>initlog\<close> ends with all the blocks outside the
  log in their old state, if the crash came before the header was written, or with all the logged
  blocks in their new state and every other block unchanged, if it came after; no crash leaves a mix.
\<close>

theorem commit_crash_atomic:
  assumes "log_layout n s" "pinned n s" "lh_n s = int n" "0 < n" "hdr_n (medium s (unat (log_blk 0 s))) = 0"
  shows "\<exists>s' ws. commit s = Inr s' \<and> lh_n s' = 0 \<and> dwrites s' = dwrites s @ ws \<and> medium s' = apply_writes (medium s) ws \<and>
    (\<forall>j c. booted c \<and> medium c = apply_writes (medium s) (take j ws) \<longrightarrow>
      (\<exists>c'. initlog (of_nat ROOTDEV) (log_start s) c = Inr c' \<and>
        (\<forall>b. b \<notin> log_area s \<longrightarrow> medium c' (unat b) =
           (if j \<le> n then medium s (unat b)
            else if b \<in> set (take n (lh_block s)) then view s b else medium s (unat b)))))"
  using commit_spec [OF assms(1-4)] commit_prefix [OF assms(1,5)] unfolding txn_new_def by blast

section \<open>Logging a block\<close>

lemma log_write_spec:
  assumes "running s" "held s n b" "lh_n s = int k" "k < LOGBLOCKS" "1 \<le> outstanding s" "length (lh_block s) = LOGBLOCKS"
    "n \<notin> set (take k (lh_block s))" "refs s n + 1 < 2 ^ 32"
  shows "\<exists>s'. log_write b s = Inr s' \<and> running s' \<and> held s' n b \<and> view s' = view s \<and>
    refs s' = (refs s)(n := refs s n + 1) \<and> blk_lock s' = blk_lock s \<and> medium s' = medium s \<and>
    lh_n s' = int k + 1 \<and> lh_block s' = (lh_block s)[k := n] \<and> log_start s' = log_start s \<and> log_dev s' = log_dev s"
proof -
  have c: "cached_in s n b" using assms(2) by (simp add: held_def)
  have ok: "cache_ok s" using assms(1) by (simp add: running_def)
  have bn: "b_blockno (bufs s ! b) = n" using c by (simp add: cached_in_def)
  have fd: "find (\<lambda>i. lh_block s ! i = n) [0..<k] = None"
    using assms(4,6,7) by (auto simp: find_None_iff in_set_conv_nth)
  define t where "t = s\<lparr>lh_block := (lh_block s)[k := n]\<rparr>"
  define u where "u = (bpin b t)\<lparr>lh_n := int k + 1\<rparr>"
  note F = header_frame [of t s, unfolded t_def, simplified, folded t_def]
  have t: "cache_ok t" "cached_in t n b" "refs t n + 1 < 2 ^ 32"
    using cache_cong [of t s] ok c assms(8) F(3) by (simp_all add: t_def)
  note P = bpin_spec [OF t]
  note G = header_frame [of u "bpin b t", unfolded u_def, simplified, folded u_def]
  have fr: "medium (bpin b t) = medium t" "cpus (bpin b t) = cpus t" "hartid (bpin b t) = hartid t" "procs (bpin b t) = procs t"
    "log_start (bpin b t) = log_start t" "log_dev (bpin b t) = log_dev t" "lh_block (bpin b t) = lh_block t"
    by (subst P(6), simp)+
  have env: "myproc (bpin b t) = myproc t" "mylock (bpin b t) = mylock t"
    using fr by (simp_all add: myproc_def mycpu_def mylock_def)
  have run: "running (bpin b t)" using F(1) assms(1) P(1) fr(4) env(1) by (simp add: running_def)
  have h: "held (bpin b t) n b"
    using F(6) [of n b] assms(2) P(2,4,5) P(7) [of b] env by (simp add: held_def)
  have "log_write b s = Inr u"
    using assms(3-5) fd bn by (simp add: log_write_def t_def u_def)
  then show ?thesis
    using G run h P F fr by (intro exI [of _ u]) (simp add: u_def t_def)
qed

section \<open>An example transaction\<close>

text \<open>A machine just booted, with the log in blocks 2 to 32 and one file system call under way.\<close>

definition boot_lstate :: lstate where
  "boot_lstate = \<lparr>mem = (\<lambda>_. 0), procs = replicate NPROC zero_proc,
     cpus = replicate NCPU (zero_cpu\<lparr>c_proc := Some 0\<rparr>), hartid = 0, sie = False, nextpid = 1,
     initproc = None, ticks = 0, bufs = replicate 31 zero_buf, medium = (\<lambda>_. replicate BSIZE 0),
     dwrites = [], disk_policy = 0, disk_head_pos = 0,
     req_queue = replicate NDISKREQS
       \<lparr>rq_valid = False, rq_blockno = 0, rq_write = False, rq_priority = 0, rq_data = PParity\<rparr>,
     stat_reads = 0, stat_writes = 0, stat_latency_sum = 0, stat_req_count = 0, raid_mode = 0,
     slot_raid_mode = replicate 4096 0, parity_buf = replicate BSIZE 0, failed_disk_mask = 0,
     log_start = 2, outstanding = 1, committing = False, log_dev = of_nat ROOTDEV, lh_n = 0,
     lh_block = replicate LOGBLOCKS 0\<rparr>"

text \<open>The call reads block 45, fills it with sevens, logs it and releases it.\<close>

definition example_call :: "lstate res" where
  "example_call =
     rbind (bread (of_nat ROOTDEV) 45 (binit boot_lstate)) (\<lambda>(b, s).
     rbind (log_write b (set_data b (replicate BSIZE 7) s)) (brelse b))"

lemma boot_lstate_facts:
  "running (binit boot_lstate)" "refs (binit boot_lstate) = (\<lambda>_. 0)" "view (binit boot_lstate) = (\<lambda>_. replicate BSIZE 0)"
  "blk_lock (binit boot_lstate) = (\<lambda>_. initsleeplock)" "busy (binit boot_lstate) = {}"
  "medium (binit boot_lstate) = (\<lambda>_. replicate BSIZE 0)" "log_start (binit boot_lstate) = 2"
  "outstanding (binit boot_lstate) = 1" "lh_n (binit boot_lstate) = 0" "lh_block (binit boot_lstate) = replicate LOGBLOCKS 0"
  "log_dev (binit boot_lstate) = of_nat ROOTDEV"
proof -
  let ?b = boot_lstate
  have B0: "bufs ?b = replicate 31 zero_buf" "\<And>n. length (medium ?b n) = BSIZE"
    by (simp_all add: boot_lstate_def)
  note B = binit_spec [OF B0]
  show "refs (binit ?b) = (\<lambda>_. 0)" "blk_lock (binit ?b) = (\<lambda>_. initsleeplock)" by (fact B)+
  then show "busy (binit ?b) = {}" by (simp add: busy_def)
  show "view (binit ?b) = (\<lambda>_. replicate BSIZE 0)" using B(2) by (simp add: boot_lstate_def)
  have fr: "cpus (binit ?b) = cpus ?b" "hartid (binit ?b) = hartid ?b" "procs (binit ?b) = procs ?b"
    "medium (binit ?b) = medium ?b" "log_start (binit ?b) = log_start ?b" "outstanding (binit ?b) = outstanding ?b"
    "lh_n (binit ?b) = lh_n ?b" "lh_block (binit ?b) = lh_block ?b" "log_dev (binit ?b) = log_dev ?b"
    by (subst B(5), simp)+
  show "running (binit ?b)"
    using B(1) fr by (simp add: running_def myproc_def mycpu_def boot_lstate_def)
  show "medium (binit ?b) = (\<lambda>_. replicate BSIZE 0)" "log_start (binit ?b) = 2" "outstanding (binit ?b) = 1"
    "lh_n (binit ?b) = 0" "lh_block (binit ?b) = replicate LOGBLOCKS 0" "log_dev (binit ?b) = of_nat ROOTDEV"
    by (simp_all add: fr) (simp_all add: boot_lstate_def)
qed

lemma hdr_zero: "hdr_n (replicate BSIZE 0) = 0" by code_simp

lemma example_call_facts:
  "\<exists>s. example_call = Inr s \<and> log_layout 1 s \<and> pinned 1 s \<and> lh_n s = 1 \<and> log_start s = 2 \<and>
     hdr_n (medium s (unat (log_blk 0 s))) = 0 \<and> lh_block s ! 0 = 45 \<and> view s 45 = replicate BSIZE 7"
proof -
  let ?b = "binit boot_lstate"
  note B = boot_lstate_facts
  have z: "refs ?b 45 = 0" "card (busy ?b) < NBUF" using B(2,5) by simp_all
  obtain b s1 where s1: "bread (of_nat ROOTDEV) 45 ?b = Inr (b, s1)" "running s1" "held s1 45 b" "view s1 = view ?b"
    "refs s1 = (refs ?b)(45 := 1)" "blk_lock s1 = (blk_lock ?b)(45 := mylock ?b)"
    "medium s1 = medium ?b" "dwrites s1 = dwrites ?b" "same_env ?b s1" "\<forall>k c. k \<noteq> 45 \<longrightarrow> held ?b k c \<longrightarrow> held s1 k c"
    by (rule log_bread_idle [OF B(1) z])
  have l7: "length (replicate BSIZE (7::byte)) = BSIZE" by simp
  note D = log_set_data [OF s1(2,3) l7]
  define s2 where "s2 = set_data b (replicate BSIZE 7) s1"
  note D = D [folded s2_def]
  have e2: "same_env ?b s2" by (rule same_env_trans [OF s1(9) D(8)])
  have p2: "lh_n s2 = int 0" "1 \<le> outstanding s2" "length (lh_block s2) = LOGBLOCKS" "45 \<notin> set (take 0 (lh_block s2))"
    "refs s2 45 + 1 < 2 ^ 32"
    using e2 B D(4) s1(5) by (simp_all add: same_env_def)
  obtain s3 where s3: "log_write b s2 = Inr s3" "running s3" "held s3 45 b" "view s3 = view s2"
    "refs s3 = (refs s2)(45 := refs s2 45 + 1)" "blk_lock s3 = blk_lock s2" "medium s3 = medium s2"
    "lh_n s3 = int 0 + 1" "lh_block s3 = (lh_block s2)[0 := 45]" "log_start s3 = log_start s2" "log_dev s3 = log_dev s2"
    using log_write_spec [OF D(1,2) p2(1) _ p2(2-5)] by auto
  have q3: "refs s3 45 = 1 \<Longrightarrow> view s3 45 = medium s3 (unat 45)" using s3(5) D(4) s1(5) by simp
  obtain s4 where s4: "brelse b s3 = Inr s4" "running s4" "view s4 = view s3"
    "refs s4 = (refs s3)(45 := refs s3 45 - 1)" "blk_lock s4 = (blk_lock s3)(45 := initsleeplock)"
    "medium s4 = medium s3" "dwrites s4 = dwrites s3" "same_env s3 s4" "\<forall>k c. k \<noteq> 45 \<longrightarrow> held s3 k c \<longrightarrow> held s4 k c"
    by (rule log_brelse [OF s3(2,3) q3])
  have r4: "refs s4 = (\<lambda>_. 0)(45 := 1)" using s4(4) s3(5) D(4) s1(5) B(2) by (auto simp: fun_eq_iff)
  have e4: "log_start s4 = 2" "log_dev s4 = of_nat ROOTDEV" "lh_n s4 = 1" "lh_block s4 = (replicate LOGBLOCKS 0)[0 := 45]"
    using s4(8) s3(8-11) e2 B by (simp_all add: same_env_def)
  have la: "log_area s4 = (\<lambda>j. of_nat (2 + j)) ` {..LOGBLOCKS}"
    by (simp add: log_area_def log_blk_def e4)
  have n45: "45 \<notin> log_area s4"
  proof
    assume "45 \<in> log_area s4"
    then obtain j where j: "j \<le> LOGBLOCKS" "(45 :: u32) = of_nat (2 + j)" unfolding la by blast
    have "unat (of_nat (2 + j) :: u32) = 2 + j" using j(1) by (intro unat_of_nat_u32) simp
    then have "2 + j = unat (45 :: u32)" by (simp only: j(2))
    then show False using j(1) by simp
  qed
  have busy: "card (busy s4) < NBUF" using r4 by (simp add: busy_def)
  have "log_layout 1 s4"
    using s4(2) e4 n45 busy r4 by (auto simp: log_layout_def take_Suc_conv_app_nth)
  moreover have "pinned 1 s4"
    using r4 e4(4) s4(5) by (simp add: pinned_def initsleeplock_def)
  moreover have "medium s4 = (\<lambda>_. replicate BSIZE 0)" using s4(6) s3(7) D(6) s1(7) B(6) by simp
  then have "hdr_n (medium s4 (unat (log_blk 0 s4))) = 0" by (simp add: hdr_zero)
  moreover have "example_call = Inr s4"
    using s1(1) s3(1) s4(1) by (simp add: example_call_def s2_def)
  moreover have "view s4 45 = replicate BSIZE 7" using s4(3) s3(4) D(3) by simp
  ultimately show ?thesis using e4 by (intro exI [of _ s4]) simp
qed

theorem commit_crash_atomic_witness:
  "\<exists>s s' ws. example_call = Inr s \<and> commit s = Inr s' \<and> lh_n s' = 0 \<and> dwrites s' = dwrites s @ ws \<and>
    medium s' = apply_writes (medium s) ws \<and>
    (\<forall>j c. booted c \<and> medium c = apply_writes (medium s) (take j ws) \<longrightarrow>
      (\<exists>c'. initlog (of_nat ROOTDEV) (log_start s) c = Inr c' \<and>
        (\<forall>b. b \<notin> log_area s \<longrightarrow> medium c' (unat b) =
           (if j \<le> 1 then medium s (unat b)
            else if b \<in> set (take 1 (lh_block s)) then view s b else medium s (unat b)))))"
proof -
  obtain s where s: "example_call = Inr s" "log_layout 1 s" "pinned 1 s" "lh_n s = int 1" "(0 :: nat) < 1"
    "hdr_n (medium s (unat (log_blk 0 s))) = 0" using example_call_facts by auto
  show ?thesis using commit_crash_atomic [OF s(2-6)] s(1) by blast
qed

end
