(* ===== verification/LogReserve.thy ===== *)
theory LogReserve
  imports LogCrash
begin

text \<open>
  Space in the log: the reservation that \<open>begin_op\<close> makes for every file system call, and why
  \<open>log_write\<close> never finds the log full. Several calls are under way at once; a call may log at most
  \<open>MAXOPBLOCKS\<close> blocks, and the calls interleave freely at \<open>begin_op\<close>, \<open>log_write\<close> and \<open>end_op\<close>.
\<close>

section \<open>What the cache operations leave alone\<close>

definition log_view :: "'a lstate_scheme \<Rightarrow> int \<times> bool \<times> int" where
  "log_view s = (outstanding s, committing s, lh_n s)"

lemma upd_buf_log [simp]: "log_view (upd_buf b f s) = log_view s"
  by (simp add: log_view_def upd_buf_def)

lemma wakeup_log [simp]: "log_view (wakeup c s) = log_view s"
  by (simp add: log_view_def wakeup_def)

lemma disk_rw_log [simp]: "log_view (disk_rw b w s) = log_view s"
  by (simp add: log_view_def disk_rw_def upd_buf_def Let_def)

lemma link_log [simp]: "log_view (link_front b s) = log_view s" "log_view (unlink b s) = log_view s"
  by (simp_all add: link_front_def unlink_def Let_def)

lemma lock_buf_log: "lock_buf b s = Inr (c, s') \<Longrightarrow> log_view s' = log_view s"
  by (auto simp: lock_buf_def)

lemma bread_log: "bread d n s = Inr (b, s') \<Longrightarrow> log_view s' = log_view s"
  by (auto simp: bread_def bget_def split: option.splits if_splits dest!: lock_buf_log)

lemma bwrite_log: "bwrite b s = Inr s' \<Longrightarrow> log_view s' = log_view s"
  by (auto simp: bwrite_def)

lemma brelse_log: "brelse b s = Inr s' \<Longrightarrow> log_view s' = log_view s"
  by (auto simp: brelse_def releasesleep_def Let_def split: if_splits)

lemma set_data_log [simp]: "log_view (set_data b d s) = log_view s"
  by (simp add: set_data_def)

lemma bunpin_log [simp]: "log_view (bunpin b s) = log_view s" "log_view (bpin b s) = log_view s"
  by (simp_all add: bunpin_def bpin_def)

lemma rfold_log:
  assumes "\<And>x s s'. f x s = Inr s' \<Longrightarrow> log_view s' = log_view s"
  shows "rfold f xs s = Inr s' \<Longrightarrow> log_view s' = log_view s"
proof (induction xs arbitrary: s)
  case (Cons x xs)
  then show ?case using assms by fastforce
qed simp

lemma write_head_log: "write_head s = Inr s' \<Longrightarrow> log_view s' = log_view s"
  by (auto simp: write_head_def dest!: bread_log bwrite_log brelse_log)

lemma write_log_log: "write_log s = Inr s' \<Longrightarrow> log_view s' = log_view s"
  unfolding write_log_def
  by (erule rfold_log [rotated]) (auto simp: write_log_one_def dest!: bread_log bwrite_log brelse_log)

lemma install_trans_log: "install_trans r s = Inr s' \<Longrightarrow> log_view s' = log_view s"
  unfolding install_trans_def
  by (erule rfold_log [rotated])
    (auto simp: install_one_def Let_def dest!: bread_log bwrite_log brelse_log split: if_splits)

lemma commit_log: "commit s = Inr s' \<Longrightarrow> 0 \<le> lh_n s \<Longrightarrow> log_view s' = (outstanding s, committing s, 0)"
  by (auto simp: commit_def log_view_def split: if_splits dest!: write_head_log write_log_log install_trans_log)

section \<open>The reservation\<close>

text \<open>
  \<open>log_sys bs s\<close>: the log can reach state \<open>s\<close> with the calls that are under way having \<open>bs\<close> blocks
  each left to log. The last rule stands for everything else that runs in between.
\<close>

inductive log_sys :: "nat list \<Rightarrow> 'a lstate_scheme \<Rightarrow> bool" where
  boot: "outstanding s = 0 \<Longrightarrow> \<not> committing s \<Longrightarrow> lh_n s = 0 \<Longrightarrow> log_sys [] s"
| start: "log_sys bs s \<Longrightarrow> begin_op s = Inr s' \<Longrightarrow> log_sys (MAXOPBLOCKS # bs) s'"
| wr: "log_sys bs s \<Longrightarrow> i < length bs \<Longrightarrow> 0 < bs ! i \<Longrightarrow> log_write b s = Inr s' \<Longrightarrow> log_sys (bs[i := bs ! i - 1]) s'"
| finish: "log_sys (us @ k # vs) s \<Longrightarrow> end_op s = Inr s' \<Longrightarrow> log_sys (us @ vs) s'"
| other: "log_sys bs s \<Longrightarrow> log_view s' = log_view s \<Longrightarrow> log_sys bs s'"

definition reserved :: "nat list \<Rightarrow> 'a lstate_scheme \<Rightarrow> bool" where
  "reserved bs s \<longleftrightarrow> outstanding s = int (length bs) \<and> \<not> committing s \<and> 0 \<le> lh_n s \<and>
     (\<forall>k \<in> set bs. k \<le> MAXOPBLOCKS) \<and> lh_n s + int (sum_list bs) \<le> int LOGBLOCKS"

lemma sum_list_le: "(\<forall>k \<in> set bs. k \<le> (m :: nat)) \<Longrightarrow> sum_list bs \<le> length bs * m"
  by (induction bs) auto

lemma sum_list_spend: "i < length bs \<Longrightarrow> 0 < bs ! i \<Longrightarrow> Suc (sum_list (bs[i := bs ! i - 1])) = sum_list (bs :: nat list)"
proof (induction bs arbitrary: i)
  case (Cons a bs)
  then show ?case by (cases i) auto
qed simp

lemma log_write_view:
  "log_write b s = Inr s' \<Longrightarrow> outstanding s' = outstanding s \<and> committing s' = committing s \<and>
     lh_n s \<le> lh_n s' \<and> lh_n s' \<le> lh_n s + 1"
  by (auto simp: log_write_def Let_def bpin_def upd_buf_def split: if_splits option.splits)

lemma end_op_view:
  assumes "end_op s = Inr s'" "0 \<le> lh_n s"
  shows "outstanding s' = outstanding s - 1 \<and> (committing s' \<longrightarrow> committing s) \<and> 0 \<le> lh_n s' \<and> lh_n s' \<le> lh_n s"
proof (cases "outstanding s = 1")
  case True
  then obtain t where "commit (s\<lparr>outstanding := 0, committing := True\<rparr>) = Inr t"
    "s' = wakeup ChLog (t\<lparr>committing := False\<rparr>)"
    using assms(1) by (auto simp: end_op_def Let_def)
  then show ?thesis using commit_log [of "s\<lparr>outstanding := 0, committing := True\<rparr>" t] True assms(2)
    by (simp add: log_view_def wakeup_def)
next
  case False
  then show ?thesis using assms by (auto simp: end_op_def Let_def wakeup_def)
qed

lemma reserved_log_sys: "log_sys bs s \<Longrightarrow> reserved bs s"
proof (induction rule: log_sys.induct)
  case (start bs s s')
  then show ?case
    using sum_list_le [of bs MAXOPBLOCKS] by (auto simp: reserved_def begin_op_def split: if_splits)
next
  case (wr bs s i b s')
  have v: "outstanding s' = outstanding s" "committing s' = committing s" "lh_n s \<le> lh_n s'" "lh_n s' \<le> lh_n s + 1"
    using log_write_view [OF wr(4)] by auto
  have "int (sum_list (bs[i := bs ! i - 1])) + 1 = int (sum_list bs)"
    using sum_list_spend [OF wr(2,3)] by linarith
  moreover have "\<forall>k \<in> set (bs[i := bs ! i - 1]). k \<le> MAXOPBLOCKS"
  proof
    fix k assume "k \<in> set (bs[i := bs ! i - 1])"
    then have "k = bs ! i - 1 \<or> k \<in> set bs" using set_update_subset_insert by fastforce
    then show "k \<le> MAXOPBLOCKS" using wr(2,5) nth_mem [of i bs] unfolding reserved_def by (metis diff_le_self le_trans)
  qed
  ultimately show ?case using wr(5) v by (simp add: reserved_def)
next
  case (finish us k vs s s')
  then show ?case using end_op_view [of s s'] by (auto simp: reserved_def)
qed (auto simp: reserved_def log_view_def)

text \<open>
  Property (C22). Log space is never exhausted: in every state that the log can reach, with any
  number of file system calls under way and interleaved in any order, a call that has logged fewer
  than ten blocks can log another one (\<open>log_write\<close> panics neither because the log is full nor because
  no transaction is open), the calls under way are counted exactly, and the blocks in the log
  together with the blocks the calls may still log fit into the thirty blocks of the log.
\<close>

theorem log_never_full:
  assumes "log_sys bs s" "i < length bs" "0 < bs ! i"
  shows "(\<exists>s'. log_write b s = Inr s') \<and> outstanding s = int (length bs) \<and> \<not> committing s \<and>
    lh_n s + int (sum_list bs) \<le> int LOGBLOCKS"
proof -
  have r: "reserved bs s" by (rule reserved_log_sys [OF assms(1)])
  have "0 < sum_list bs" using sum_list_spend [OF assms(2,3)] by linarith
  then show ?thesis using r assms(2) by (auto simp: reserved_def log_write_def Let_def)
qed

lemma example_sys: "\<exists>s :: lstate. log_sys [9, 10] s"
proof -
  let ?a = "boot_lstate\<lparr>outstanding := 0\<rparr>"
  have 0: "log_sys [] ?a" by (rule log_sys.boot) (simp_all add: boot_lstate_def)
  obtain a1 where a1: "begin_op ?a = Inr a1" by (simp add: begin_op_def boot_lstate_def)
  have 1: "log_sys [10] a1" using log_sys.start [OF 0 a1] by simp
  obtain a2 where a2: "begin_op a1 = Inr a2"
    using a1 by (auto simp: begin_op_def boot_lstate_def split: if_splits)
  have 2: "log_sys [10, 10] a2" using log_sys.start [OF 1 a2] by simp
  obtain a3 where a3: "log_write 0 a2 = Inr a3"
    using reserved_log_sys [OF 2] by (auto simp: reserved_def log_write_def Let_def)
  show ?thesis using log_sys.wr [OF 2 _ _ a3, of 0] by auto
qed

theorem log_never_full_witness:
  "\<exists>s :: lstate. log_sys [9, 10] s \<and> (\<exists>s'. log_write 0 s = Inr s') \<and> outstanding s = 2 \<and> \<not> committing s \<and>
    lh_n s + 19 \<le> int LOGBLOCKS"
proof -
  obtain s :: lstate where s: "log_sys [9, 10] s" using example_sys ..
  then show ?thesis using log_never_full [OF s, of 0 0] by (intro exI [of _ s]) simp
qed

end
