(* ===== verification/CString.thy ===== *)
theory CString
  imports Prelude
begin

text \<open>
  The memory and string routines of the kernel (\<^verbatim>\<open>kernel/string.c\<close>) and of the user library
  (\<^verbatim>\<open>user/ulib.c\<close>), on byte-addressed memory. A loop \<^verbatim>\<open>while(n-- > 0)\<close> is recursion on the number of
  rounds left; a loop that runs until it meets a NUL byte is a partial function, \<open>None\<close> if there is none.
\<close>

section \<open>Blocks of memory\<close>

text \<open>\<^verbatim>\<open>memset\<close>: the byte stored is the low byte of \<open>c\<close>.\<close>

fun set_up :: "memory \<Rightarrow> u64 \<Rightarrow> byte \<Rightarrow> nat \<Rightarrow> memory" where
  "set_up m d c 0 = m"
| "set_up m d c (Suc n) = set_up (m(d := c)) (d + 1) c n"

definition memset :: "memory \<Rightarrow> u64 \<Rightarrow> int \<Rightarrow> u32 \<Rightarrow> memory" where
  "memset m dst c n = set_up m dst (of_int c) (unat n)"

fun memcmp_loop :: "memory \<Rightarrow> u64 \<Rightarrow> u64 \<Rightarrow> nat \<Rightarrow> int" where
  "memcmp_loop m s1 s2 0 = 0"
| "memcmp_loop m s1 s2 (Suc n) =
     (if m s1 \<noteq> m s2 then uint (m s1) - uint (m s2) else memcmp_loop m (s1 + 1) (s2 + 1) n)"

definition memcmp :: "memory \<Rightarrow> u64 \<Rightarrow> u64 \<Rightarrow> u32 \<Rightarrow> int" where
  "memcmp m v1 v2 n = memcmp_loop m v1 v2 (unat n)"

fun copy_up :: "memory \<Rightarrow> u64 \<Rightarrow> u64 \<Rightarrow> nat \<Rightarrow> memory" where
  "copy_up m d s 0 = m"
| "copy_up m d s (Suc n) = copy_up (m(d := m s)) (d + 1) (s + 1) n"

fun copy_down :: "memory \<Rightarrow> u64 \<Rightarrow> u64 \<Rightarrow> nat \<Rightarrow> memory" where
  "copy_down m d s 0 = m"
| "copy_down m d s (Suc n) = copy_down (m(d - 1 := m (s - 1))) (d - 1) (s - 1) n"

definition memmove :: "memory \<Rightarrow> u64 \<Rightarrow> u64 \<Rightarrow> u32 \<Rightarrow> memory" where
  "memmove m dst src n =
     (if n = 0 then m
      else if src < dst \<and> src + ucast n > dst then copy_down m (dst + ucast n) (src + ucast n) (unat n)
      else copy_up m dst src (unat n))"

definition memcpy :: "memory \<Rightarrow> u64 \<Rightarrow> u64 \<Rightarrow> u32 \<Rightarrow> memory" where
  "memcpy m dst src n = memmove m dst src n"

text \<open>The user library's version decides by the order of the two addresses alone.\<close>

definition user_memmove :: "memory \<Rightarrow> u64 \<Rightarrow> u64 \<Rightarrow> int \<Rightarrow> memory" where
  "user_memmove m vdst vsrc n =
     (if vsrc > vdst then copy_up m vdst vsrc (nat n)
      else copy_down m (vdst + of_int n) (vsrc + of_int n) (nat n))"

definition user_memcpy :: "memory \<Rightarrow> u64 \<Rightarrow> u64 \<Rightarrow> u32 \<Rightarrow> memory" where
  "user_memcpy m dst src n = user_memmove m dst src (sint n)"

section \<open>Strings\<close>

fun strncmp :: "memory \<Rightarrow> u64 \<Rightarrow> u64 \<Rightarrow> nat \<Rightarrow> int" where
  "strncmp m p q 0 = 0"
| "strncmp m p q (Suc n) =
     (if m p \<noteq> 0 \<and> m p = m q then strncmp m (p + 1) (q + 1) n else uint (m p) - uint (m q))"

fun strncpy_loop :: "memory \<Rightarrow> u64 \<Rightarrow> u64 \<Rightarrow> nat \<Rightarrow> memory" where
  "strncpy_loop m s t 0 = m"
| "strncpy_loop m s t (Suc n) =
     (if m t \<noteq> 0 then strncpy_loop (m(s := m t)) (s + 1) (t + 1) n
      else set_up (m(s := 0)) (s + 1) 0 n)"

definition strncpy :: "memory \<Rightarrow> u64 \<Rightarrow> u64 \<Rightarrow> int \<Rightarrow> memory" where
  "strncpy m s t n = strncpy_loop m s t (nat n)"

text \<open>\<open>n\<close> is the value of \<^verbatim>\<open>n - 1\<close> left for the test \<^verbatim>\<open>--n > 0\<close>.\<close>

fun safestrcpy_loop :: "memory \<Rightarrow> u64 \<Rightarrow> u64 \<Rightarrow> nat \<Rightarrow> memory" where
  "safestrcpy_loop m s t 0 = m(s := 0)"
| "safestrcpy_loop m s t (Suc n) =
     (if m t \<noteq> 0 then safestrcpy_loop (m(s := m t)) (s + 1) (t + 1) n
      else (m(s := 0))(s + 1 := 0))"

definition safestrcpy :: "memory \<Rightarrow> u64 \<Rightarrow> u64 \<Rightarrow> int \<Rightarrow> memory" where
  "safestrcpy m s t n = (if n \<le> 0 then m else safestrcpy_loop m s t (nat (n - 1)))"

partial_function (option) strlen_from :: "memory \<Rightarrow> u64 \<Rightarrow> int \<Rightarrow> int option" where
  "strlen_from m s n = (if m s = 0 then Some n else strlen_from m (s + 1) (n + 1))"

definition strlen :: "memory \<Rightarrow> u64 \<Rightarrow> int option" where
  "strlen m s = strlen_from m s 0"

partial_function (option) strcpy :: "memory \<Rightarrow> u64 \<Rightarrow> u64 \<Rightarrow> memory option" where
  "strcpy m s t = (if m t = 0 then Some (m(s := 0)) else strcpy (m(s := m t)) (s + 1) (t + 1))"

partial_function (option) strcmp :: "memory \<Rightarrow> u64 \<Rightarrow> u64 \<Rightarrow> int option" where
  "strcmp m p q =
     (if m p \<noteq> 0 \<and> m p = m q then strcmp m (p + 1) (q + 1) else Some (uint (m p) - uint (m q)))"

text \<open>\<open>atoi\<close>: the sum overflows, which is undefined, beyond the largest \<^verbatim>\<open>int\<close>.\<close>

partial_function (option) atoi_from :: "memory \<Rightarrow> u64 \<Rightarrow> int \<Rightarrow> (int res) option" where
  "atoi_from m s n =
     (if 48 \<le> m s \<and> m s \<le> 57
      then if n * 10 + uint (m s) \<ge> 2 ^ 31 then Some (Inl Undefined)
           else atoi_from m (s + 1) (n * 10 + uint (m s) - 48)
      else Some (Inr n))"

definition atoi :: "memory \<Rightarrow> u64 \<Rightarrow> (int res) option" where
  "atoi m s = atoi_from m s 0"

section \<open>What the block routines do\<close>

lemma mem_write_Nil [simp]: "mem_write m a [] = m"
  by (simp add: mem_write_def)

lemma mem_write_Cons:
  assumes "length bs < 2 ^ 64"
  shows "mem_write m a (b # bs) = mem_write (m(a := b)) (a + 1) bs"
proof
  fix x
  show "mem_write m a (b # bs) x = mem_write (m(a := b)) (a + 1) bs x"
  proof (cases "x = a")
    case True
    have "unat (- 1 :: u64) = 2 ^ 64 - 1" by (simp add: unsigned_minus_1_eq_mask mask_eq_exp_minus_1)
    then show ?thesis using True assms by (simp add: mem_write_def)
  next
    case False
    then have "x - a \<noteq> 0" by simp
    then have "unat (x - a - 1) = unat (x - a) - 1" "0 < unat (x - a)" by (rule unat_minus_one, simp add: unat_gt_0)
    then have "unat (x - a) = Suc (unat (x - (a + 1)))" by (simp add: diff_diff_eq)
    then show ?thesis using False by (simp add: mem_write_def)
  qed
qed

lemma set_up_spec: "n < 2 ^ 64 \<Longrightarrow> set_up m d c n = mem_write m d (replicate n c)"
  by (induction n arbitrary: m d) (simp_all add: mem_write_Cons)

lemma mem_read_Suc: "mem_read m a (Suc n) = m a # mem_read m (a + 1) n"
  by (simp add: mem_read_def upt_conv_Cons map_Suc_upt [symmetric] add.assoc del: upt_Suc)

lemma mem_read_Suc_end: "mem_read m a (Suc n) = mem_read m a n @ [m (a + of_nat n)]"
  by (simp add: mem_read_def)

lemma mem_read_upd: "\<forall>j < n. a + of_nat j \<noteq> d \<Longrightarrow> mem_read (m(d := b)) a n = mem_read m a n"
  by (auto simp: mem_read_def)

lemma copy_up_spec:
  assumes "\<forall>j < n. \<forall>i < j. d + of_nat i \<noteq> s + of_nat j" "n < 2 ^ 64"
  shows "copy_up m d s n = mem_write m d (mem_read m s n)"
  using assms
proof (induction n arbitrary: m d s)
  case (Suc n)
  have a: "d + 1 + of_nat i \<noteq> s + 1 + of_nat j" if "i < j" "j < n" for i j
    using Suc.prems(1) [rule_format, of "Suc j" "Suc i"] that by (simp add: algebra_simps)
  have b: "s + 1 + of_nat j \<noteq> d" if "j < n" for j
    using Suc.prems(1) [rule_format, of "Suc j" 0] that by (auto simp: algebra_simps)
  have "copy_up m d s (Suc n) = mem_write (m(d := m s)) (d + 1) (mem_read (m(d := m s)) (s + 1) n)"
    using Suc.IH a Suc.prems(2) by simp
  also have "\<dots> = mem_write (m(d := m s)) (d + 1) (mem_read m (s + 1) n)"
    using b by (simp add: mem_read_upd)
  also have "\<dots> = mem_write m d (mem_read m s (Suc n))"
    using Suc.prems(2) by (simp add: mem_read_Suc mem_write_Cons)
  finally show ?case .
qed (simp add: mem_read_def)

lemma mem_write_snoc:
  assumes "length bs < 2 ^ 64"
  shows "mem_write m a (bs @ [b]) = mem_write (m(a + of_nat (length bs) := b)) a bs"
proof
  fix x
  have "unat (x - a) = length bs \<longleftrightarrow> x = a + of_nat (length bs)"
  proof
    assume "unat (x - a) = length bs"
    then have "of_nat (unat (x - a)) = (of_nat (length bs) :: u64)" by (rule arg_cong)
    then show "x = a + of_nat (length bs)" by (simp add: algebra_simps)
  qed (simp add: unat_of_nat_u64 [OF assms])
  then show "mem_write m a (bs @ [b]) x = mem_write (m(a + of_nat (length bs) := b)) a bs x"
    by (auto simp: mem_write_def nth_append less_Suc_eq)
qed

lemma copy_down_spec:
  assumes "\<forall>i < n. \<forall>j < i. d + of_nat i \<noteq> s + of_nat j" "n < 2 ^ 64"
  shows "copy_down m (d + of_nat n) (s + of_nat n) n = mem_write m d (mem_read m s n)"
  using assms
proof (induction n arbitrary: m)
  case (Suc n)
  let ?m = "m(d + of_nat n := m (s + of_nat n))"
  have "copy_down m (d + of_nat (Suc n)) (s + of_nat (Suc n)) (Suc n) = copy_down ?m (d + of_nat n) (s + of_nat n) n"
    by simp
  also have "\<dots> = mem_write ?m d (mem_read ?m s n)" using Suc by simp
  also have "mem_read ?m s n = mem_read m s n"
    using not_sym [OF Suc.prems(1) [rule_format, of n]] by (intro mem_read_upd) simp
  also have "mem_write ?m d (mem_read m s n) = mem_write m d (mem_read m s (Suc n))"
    using Suc.prems(2) mem_write_snoc [of "mem_read m s n" m d] by (simp add: mem_read_Suc_end)
  finally show ?case .
qed (simp add: mem_read_def)

text \<open>A region of \<open>n\<close> bytes at \<open>a\<close> that ends before the end of the address space.\<close>

definition region :: "u64 \<Rightarrow> nat \<Rightarrow> bool" where
  "region a n \<longleftrightarrow> unat a + n < 2 ^ 64"

lemma unat_region: "region a n \<Longrightarrow> i \<le> n \<Longrightarrow> unat (a + of_nat i) = unat a + i"
  by (simp add: region_def unat_word_ariths unat_of_nat take_bit_nat_eq_self)

lemma region_below:
  assumes "region d n" "region s n" "unat d < unat s" "i < j" "j < n"
  shows "d + of_nat i \<noteq> s + of_nat j" "s + of_nat j \<noteq> d + of_nat i"
  using unat_region [OF assms(1), of i] unat_region [OF assms(2), of j] assms(3-5) by auto

lemma region_disjoint:
  assumes "region d n" "region s n" "unat s + n \<le> unat d" "i < n" "j < n"
  shows "d + of_nat i \<noteq> s + of_nat j"
  using unat_region [OF assms(1), of i] unat_region [OF assms(2), of j] assms(3-5) by auto

lemma ucast_u32_of_nat: "(ucast (n :: u32) :: u64) = of_nat (unat n)"
  by (simp add: unsigned_ucast_eq)

lemma memmove_spec:
  assumes "region dst (unat n)" "region src (unat n)"
  shows "memmove m dst src n = mem_write m dst (mem_read m src (unat n))"
proof (cases "n = 0")
  case True
  then show ?thesis by (simp add: memmove_def mem_read_def)
next
  case False
  let ?k = "unat n"
  have k: "0 < ?k" "?k < 2 ^ 64" using False assms(1) by (simp_all add: unat_gt_0 region_def)
  show ?thesis
  proof (cases "src < dst \<and> src + ucast n > dst")
    case True
    then have "unat src < unat dst" by (simp add: word_less_nat_alt)
    then have "\<forall>i < ?k. \<forall>j < i. dst + of_nat i \<noteq> src + of_nat j" using region_below(2) [OF assms(2,1)] by blast
    from copy_down_spec [OF this k(2)] show ?thesis using True False by (simp only: memmove_def ucast_u32_of_nat simp_thms if_True if_False)
  next
    case up: False
    have "unat src < unat dst \<longrightarrow> unat src + ?k \<le> unat dst"
      using up unat_region [OF assms(2) order_refl] unfolding word_less_nat_alt ucast_u32_of_nat by linarith
    then consider "unat dst < unat src" | "src = dst" | "unat src + ?k \<le> unat dst"
      unfolding word_unat_eq_iff [of src] by linarith
    then have "dst + of_nat i \<noteq> src + of_nat j" if "i < j" "j < ?k" for i j
    proof cases
      case 1
      then show ?thesis using region_below(1) [OF assms _ that] by simp
    next
      case 2
      then show ?thesis using unat_region [OF assms(1), of i] unat_region [OF assms(1), of j] that by auto
    next
      case 3
      then show ?thesis using region_disjoint [OF assms 3, of i j] that by simp
    qed
    then have "copy_up m dst src ?k = mem_write m dst (mem_read m src ?k)" using k(2) by (intro copy_up_spec) blast+
    then show ?thesis using up False by (simp only: memmove_def if_False)
  qed
qed

lemma user_memmove_spec:
  assumes "region dst k" "region src k" "n = int k"
  shows "user_memmove m dst src n = mem_write m dst (mem_read m src k)"
proof -
  have k: "k < 2 ^ 64" using assms(1) by (simp add: region_def)
  show ?thesis
proof (cases "src > dst")
  case True
  then have "unat dst < unat src" by (simp add: word_less_nat_alt)
  then have "\<forall>j < k. \<forall>i < j. dst + of_nat i \<noteq> src + of_nat j" using region_below(1) [OF assms(1,2)] by blast
  from copy_up_spec [OF this k] show ?thesis using True assms(3) by (simp add: user_memmove_def)
next
  case False
  then have "unat src \<le> unat dst" unfolding word_less_nat_alt not_less .
  then consider "unat src < unat dst" | "src = dst" unfolding word_unat_eq_iff [of src] by linarith
  then have "dst + of_nat i \<noteq> src + of_nat j" if "i < k" "j < i" for i j
  proof cases
    case 1
    then show ?thesis using region_below(2) [OF assms(2,1) 1 that(2,1)] by simp
  next
    case 2
    then show ?thesis using unat_region [OF assms(1), of i] unat_region [OF assms(1), of j] that by auto
  qed
  then have "copy_down m (dst + of_nat k) (src + of_nat k) k = mem_write m dst (mem_read m src k)"
    using k by (intro copy_down_spec) blast+
  then show ?thesis using False assms(3) by (simp add: user_memmove_def)
qed
qed

lemma sint_small: "unat (n :: u32) < 2 ^ 31 \<Longrightarrow> sint n = int (unat n)"
proof -
  assume a: "unat n < 2 ^ 31"
  define k where "k = int (unat n)"
  have "0 \<le> k" by (simp only: k_def)
  moreover have "k < 2 ^ 31" using of_nat_less_iff [where ?'a = int, THEN iffD2, OF a] by (simp only: k_def of_nat_power of_nat_numeral)
  ultimately have "sint (word_of_int k :: u32) = k" unfolding int_word_sint by simp
  then show ?thesis by (simp add: k_def)
qed

text \<open>
  Property (C27). Copying is safe for overlapping regions. For all regions that end before the end of
  the address space, overlapping in either direction or not, \<open>memmove\<close> of the kernel and \<open>memmove\<close> of the
  user library leave in the destination the bytes the source had before the call, change nothing
  else, and so agree with each other although they choose the direction of the copy differently.
\<close>

theorem memmove_overlap_safe:
  assumes "region dst (unat n)" "region src (unat n)" "unat n < 2 ^ 31"
  shows "memmove m dst src n = mem_write m dst (mem_read m src (unat n)) \<and>
    user_memmove m dst src (sint n) = memmove m dst src n"
proof -
  have "sint n = int (unat n)" by (rule sint_small [OF assms(3)])
  then show ?thesis using memmove_spec [OF assms(1,2)] user_memmove_spec [OF assms(1,2)] by simp
qed

theorem memmove_overlap_safe_witness:
  "memmove (\<lambda>a. ucast a) 1001 1000 3 = mem_write (\<lambda>a. ucast a) 1001 (mem_read (\<lambda>a. ucast a) 1000 (unat (3 :: u32))) \<and>
    user_memmove (\<lambda>a. ucast a) 1001 1000 (sint (3 :: u32)) = memmove (\<lambda>a. ucast a) 1001 1000 3"
  by (rule memmove_overlap_safe) (simp_all add: region_def)

section \<open>What the string routines do\<close>

text \<open>The bytes \<open>xs\<close>, none of them NUL, and a NUL after them.\<close>

fun cstr :: "memory \<Rightarrow> u64 \<Rightarrow> byte list \<Rightarrow> bool" where
  "cstr m a [] \<longleftrightarrow> m a = 0"
| "cstr m a (x # xs) \<longleftrightarrow> m a = x \<and> x \<noteq> 0 \<and> cstr m (a + 1) xs"

lemma cstr_cong: "\<forall>i \<le> length xs. m' (a + of_nat i) = m (a + of_nat i) \<Longrightarrow> cstr m' a xs = cstr m a xs"
proof (induction xs arbitrary: a)
  case (Cons x xs)
  have "cstr m' (a + 1) xs = cstr m (a + 1) xs"
  proof (rule Cons.IH, intro allI impI)
    show "m' (a + 1 + of_nat i) = m (a + 1 + of_nat i)" if "i \<le> length xs" for i
      using Cons.prems [rule_format, of "Suc i"] that by (simp add: add.assoc)
  qed
  moreover have "m' a = m a" using Cons.prems [rule_format, of 0] by simp
  ultimately show ?case by simp
qed simp

lemma strlen_spec: "cstr m a xs \<Longrightarrow> strlen_from m a n = Some (n + int (length xs))"
proof (induction xs arbitrary: a n)
  case (Cons x xs)
  then show ?case by (subst strlen_from.simps) simp
qed (subst strlen_from.simps, simp)

lemma strcmp_spec:
  "cstr m p xs \<Longrightarrow> cstr m q ys \<Longrightarrow> \<exists>r. strcmp m p q = Some r \<and> (r = 0 \<longleftrightarrow> xs = ys)"
proof (induction xs arbitrary: p q ys)
  case Nil
  then show ?case by (cases ys) (auto simp: strcmp.simps unsigned_eq_0_iff)
next
  case (Cons x xs)
  then show ?case
    by (cases ys) (auto simp: strcmp.simps [of m p q] word_uint_eq_iff [symmetric] unsigned_eq_0_iff)
qed

text \<open>The string in a field of \<open>n\<close> bytes, which a NUL ends only if it is shorter.\<close>

definition field_str :: "memory \<Rightarrow> u64 \<Rightarrow> nat \<Rightarrow> byte list" where
  "field_str m a n = takeWhile (\<lambda>b. b \<noteq> 0) (mem_read m a n)"

lemma strncmp_spec: "strncmp m p q n = 0 \<longleftrightarrow> field_str m p n = field_str m q n"
proof (induction n arbitrary: p q)
  case (Suc n)
  have "uint (m p) = uint (m q) \<longleftrightarrow> m p = m q" by (simp add: word_uint_eq_iff)
  then show ?case using Suc by (auto simp: field_str_def mem_read_Suc)
qed (simp add: field_str_def mem_read_def)

text \<open>The destination \<open>[s, s + n)\<close> and the string at \<open>t\<close> with its NUL do not overlap.\<close>

definition apart :: "u64 \<Rightarrow> nat \<Rightarrow> u64 \<Rightarrow> nat \<Rightarrow> bool" where
  "apart s n t k \<longleftrightarrow> (\<forall>i < n. \<forall>j < k. s + of_nat i \<noteq> t + of_nat j)"

lemma apart_step:
  assumes "apart s (Suc n) t (Suc k)"
  shows "apart (s + 1) n (t + 1) k" "\<forall>j < k. t + 1 + of_nat j \<noteq> s"
proof -
  have "s + 1 + of_nat i \<noteq> t + 1 + of_nat j" if "i < n" "j < k" for i j
  proof -
    have "s + of_nat (Suc i) \<noteq> t + of_nat (Suc j)" using assms that unfolding apart_def by blast
    then show ?thesis by (simp add: add.assoc)
  qed
  then show "apart (s + 1) n (t + 1) k" by (simp add: apart_def)
  have "t + of_nat (Suc j) \<noteq> s" if "j < k" for j
  proof -
    have "s + of_nat 0 \<noteq> t + of_nat (Suc j)" using assms that unfolding apart_def by blast
    then show ?thesis by simp
  qed
  then show "\<forall>j < k. t + 1 + of_nat j \<noteq> s" by (simp add: add.assoc)
qed

lemma apart_regions:
  assumes "region s n" "region t k" "unat s + n \<le> unat t \<or> unat t + k \<le> unat s"
  shows "apart s n t k"
  unfolding apart_def
proof (intro allI impI)
  fix i j assume "i < n" "j < k"
  then show "s + of_nat i \<noteq> t + of_nat j"
    using unat_region [OF assms(1), of i] unat_region [OF assms(2), of j] assms(3) by auto
qed

lemma cstr_upd: "\<forall>j \<le> length xs. a + of_nat j \<noteq> s \<Longrightarrow> cstr (m(s := b)) a xs = cstr m a xs"
  by (rule cstr_cong) auto

lemma mem_write_outside: "length bs \<le> unat (x - a) \<Longrightarrow> mem_write m a bs x = m x"
  by (simp add: mem_write_def)

lemma safestrcpy_loop_spec:
  "cstr m t xs \<Longrightarrow> apart s (Suc n) t (Suc (length xs)) \<Longrightarrow> Suc n < 2 ^ 64 \<Longrightarrow>
     \<exists>bs. safestrcpy_loop m s t n = mem_write m s bs \<and> length bs \<le> Suc n \<and>
       take (Suc (length (take n xs))) bs = take n xs @ [0]"
proof (induction n arbitrary: m s t xs)
  case 0
  then show ?case by (intro exI [of _ "[0]"]) (simp add: mem_write_Cons)
next
  case (Suc n)
  show ?case
  proof (cases xs)
    case Nil
    then show ?thesis using Suc.prems by (intro exI [of _ "[0, 0]"]) (simp add: mem_write_Cons)
  next
    case (Cons x ys)
    note A = apart_step [of s "Suc n" t "Suc (length ys)"]
    have x: "m t = x" "x \<noteq> 0" "cstr m (t + 1) ys" using Suc.prems(1) Cons by auto
    have "cstr (m(s := x)) (t + 1) ys"
      using x(3) A(2) Suc.prems(2) Cons by (subst cstr_upd) auto
    moreover have "apart (s + 1) (Suc n) (t + 1) (Suc (length ys))" "Suc n < 2 ^ 64" using A(1) Suc.prems(2,3) Cons by auto
    ultimately obtain bs where bs: "safestrcpy_loop (m(s := x)) (s + 1) (t + 1) n = mem_write (m(s := x)) (s + 1) bs"
      "length bs \<le> Suc n" "take (Suc (length (take n ys))) bs = take n ys @ [0]"
      using Suc.IH by blast
    then show ?thesis
      using x(1,2) Cons Suc.prems(3) by (intro exI [of _ "x # bs"]) (simp add: mem_write_Cons)
  qed
qed

lemma cstr_mem_write:
  assumes "take (Suc (length xs)) bs = xs @ [0]" "0 \<notin> set xs" "length bs < 2 ^ 64"
  shows "cstr (mem_write m a bs) a xs"
  using assms
proof (induction xs arbitrary: bs m a)
  case Nil
  then obtain cs where "bs = 0 # cs" by (cases bs) auto
  then show ?case by (simp add: mem_write_def)
next
  case (Cons x xs)
  then obtain cs where cs: "bs = x # cs" "take (Suc (length xs)) cs = xs @ [0]" by (cases bs) auto
  have "mem_write m a bs a = x" using cs by (simp add: mem_write_def)
  moreover have "mem_write m a bs = mem_write (m(a := x)) (a + 1) cs"
    using cs(1) Cons.prems(3) by (simp add: mem_write_Cons)
  moreover have "cstr (mem_write (m(a := x)) (a + 1) cs) (a + 1) xs"
    by (rule Cons.IH [OF cs(2)]) (use Cons.prems cs(1) in auto)
  ultimately show ?case using Cons.prems(2) by simp
qed

lemma cstr_nonzero: "cstr m a xs \<Longrightarrow> 0 \<notin> set xs"
  by (induction xs arbitrary: a) auto

text \<open>
  \<open>safestrcpy\<close> always leaves a terminated string and stays inside its buffer: given a
  string and a buffer of \<open>n > 0\<close> bytes that does not overlap it, the buffer afterwards holds the first
  \<open>n - 1\<close> bytes of the string (all of it, if it is shorter) followed by a NUL, and no byte outside
  the \<open>n\<close> bytes of the buffer changes.
\<close>

theorem safestrcpy_terminates_string:
  assumes "cstr m t xs" "0 < n" "n < 2 ^ 31" "apart s (nat n) t (Suc (length xs))"
  shows "cstr (safestrcpy m s t n) s (take (nat n - 1) xs) \<and>
    (\<forall>x. nat n \<le> unat (x - s) \<longrightarrow> safestrcpy m s t n x = m x)"
proof -
  define k where "k = nat (n - 1)"
  have k: "nat n = Suc k" "nat (n - 1) = k" and b: "Suc k < 2 ^ 64" using assms(2,3) by (simp_all add: k_def)
  obtain bs where bs: "safestrcpy_loop m s t k = mem_write m s bs" "length bs \<le> Suc k"
    "take (Suc (length (take k xs))) bs = take k xs @ [0]"
    using safestrcpy_loop_spec [OF assms(1) _ b] assms(4) k(1) by auto
  have e: "safestrcpy m s t n = mem_write m s bs" using assms(2) k(2) bs(1) by (simp add: safestrcpy_def)
  have "0 \<notin> set (take k xs)" using cstr_nonzero [OF assms(1)] by (meson in_set_takeD)
  then have "cstr (mem_write m s bs) s (take k xs)" using bs b by (intro cstr_mem_write) auto
  then show ?thesis using e k(1) bs(2) by (auto intro: mem_write_outside)
qed

theorem safestrcpy_terminates_string_witness:
  "let m = (\<lambda>a. if a = 5000 then 104 else if a = 5001 then 105 else 0) in
     cstr (safestrcpy m 9000 5000 16) 9000 [104, 105] \<and>
     (\<forall>x. 16 \<le> unat (x - 9000) \<longrightarrow> safestrcpy m 9000 5000 16 x = m x)"
proof -
  let ?m = "\<lambda>a :: u64. if a = 5000 then 104 else if a = 5001 then 105 else (0 :: byte)"
  have "apart 9000 (nat 16) 5000 (Suc (length [104 :: byte, 105]))"
    by (rule apart_regions) (simp_all add: region_def)
  then show ?thesis using safestrcpy_terminates_string [of ?m 5000 "[104, 105]" 16 9000] by simp
qed

end
