(* ===== verification/Console.thy ===== *)
theory Console
  imports Proc Ring
begin

text \<open>
  The console line discipline (\<^verbatim>\<open>kernel/console.c\<close>) on top of the UART driver (\<^verbatim>\<open>kernel/uart.c\<close>). The
  UART itself is a device: \<open>rx\<close> are the received bytes that wait in its FIFO, \<open>tx_idle\<close> is the bit of
  \<^verbatim>\<open>LSR\<close> that says it can take a byte, and \<open>sent\<close> records the bytes written to \<^verbatim>\<open>THR\<close>.
\<close>

abbreviation INPUT_BUF_SIZE :: nat where "INPUT_BUF_SIZE \<equiv> 128"

section \<open>The driver\<close>

record console =
  cbuf :: "byte list"
  c_r :: u32
  c_w :: u32
  c_e :: u32
  tx_busy :: bool
  tx_idle :: bool
  rx :: "byte list"
  sent :: "byte list"

text \<open>
  \<open>uartwrite\<close> returns the bytes that are left when it must sleep on \<^verbatim>\<open>&tx_chan\<close>; after the wakeup it
  goes on with them.
\<close>

fun uartwrite :: "byte list \<Rightarrow> console \<Rightarrow> byte list \<times> console" where
  "uartwrite [] k = ([], k)"
| "uartwrite (b # bs) k =
     (if tx_busy k then (b # bs, k) else uartwrite bs (k\<lparr>sent := sent k @ [b], tx_busy := True\<rparr>))"

text \<open>The wait for the device to become idle ends at once if it is idle and never otherwise.\<close>

definition uartputc_sync :: "int \<Rightarrow> console \<Rightarrow> console" where
  "uartputc_sync c k = k\<lparr>sent := sent k @ [of_int c]\<rparr>"

definition consputc :: "int \<Rightarrow> console \<Rightarrow> console" where
  "consputc c k =
     (if c = 0x100 then uartputc_sync 8 (uartputc_sync 32 (uartputc_sync 8 k)) else uartputc_sync c k)"

definition uartgetc :: "console \<Rightarrow> int \<times> console" where
  "uartgetc k = (case rx k of [] \<Rightarrow> (-1, k) | b # bs \<Rightarrow> (uint b, k\<lparr>rx := bs\<rparr>))"

section \<open>The line discipline\<close>

lemma consputc_frame [simp]:
  "cbuf (consputc c k) = cbuf k" "c_r (consputc c k) = c_r k" "c_w (consputc c k) = c_w k" "c_e (consputc c k) = c_e k"
  "rx (consputc c k) = rx k" "tx_busy (consputc c k) = tx_busy k"
  by (simp_all add: consputc_def uartputc_sync_def)

function kill_line :: "console \<Rightarrow> console" where
  "kill_line k =
     (if c_e k \<noteq> c_w k \<and> cbuf k ! slot INPUT_BUF_SIZE (c_e k - 1) \<noteq> 10
      then kill_line (consputc 0x100 (k\<lparr>c_e := c_e k - 1\<rparr>)) else k)"
  by pat_completeness auto

termination
proof (relation "measure (\<lambda>k. unat (c_e k - c_w k))")
  fix k :: console
  assume "c_e k \<noteq> c_w k \<and> cbuf k ! slot INPUT_BUF_SIZE (c_e k - 1) \<noteq> 10"
  then have "c_e k - c_w k \<noteq> 0" by simp
  then have "unat (c_e k - c_w k - 1) < unat (c_e k - c_w k)"
    by (metis One_nat_def diff_less less_numeral_extra(1) unat_gt_0 unat_minus_one)
  then show "(consputc 0x100 (k\<lparr>c_e := c_e k - 1\<rparr>), k) \<in> measure (\<lambda>k. unat (c_e k - c_w k))"
    by (simp add: algebra_simps)
qed simp

declare kill_line.simps [simp del]

text \<open>
  \<open>consoleintr\<close> returns whether it wakes the readers up. \<^verbatim>\<open>procdump\<close>, on control-P, only prints.
\<close>

definition consoleintr :: "int \<Rightarrow> console \<Rightarrow> bool \<times> console" where
  "consoleintr c k =
     (if c = 16 then (False, k)
      else if c = 21 then (False, kill_line k)
      else if c = 8 \<or> c = 127 then
        (False, if c_e k \<noteq> c_w k then consputc 0x100 (k\<lparr>c_e := c_e k - 1\<rparr>) else k)
      else if c \<noteq> 0 \<and> c_e k - c_r k < of_nat INPUT_BUF_SIZE then
        let c = (if c = 13 then 10 else c);
            k = consputc c k;
            k = k\<lparr>cbuf := (cbuf k)[slot INPUT_BUF_SIZE (c_e k) := of_int c], c_e := c_e k + 1\<rparr>
        in if c = 10 \<or> c = 4 \<or> c_e k - c_r k = of_nat INPUT_BUF_SIZE
           then (True, k\<lparr>c_w := c_e k\<rparr>) else (False, k)
      else (False, k))"

text \<open>The part of \<open>uartintr\<close> that takes the received bytes; \<open>n\<close> bounds the bytes in the FIFO.\<close>

fun uart_receive :: "nat \<Rightarrow> console \<Rightarrow> console" where
  "uart_receive 0 k = k"
| "uart_receive (Suc n) k =
     (case uartgetc k of (c, k) \<Rightarrow> if c = -1 then k else uart_receive n (snd (consoleintr c k)))"

definition uartintr :: "console \<Rightarrow> console" where
  "uartintr k = uart_receive (Suc (length (rx k))) (if tx_idle k then k\<lparr>tx_busy := False\<rparr> else k)"

text \<open>
  \<open>consoleread\<close>: what it returns or, when it must wait for input, the arguments with which it goes on;
  the bytes copied out so far; the console. \<open>cout a\<close> says whether the copy to address \<open>a\<close> succeeds.
\<close>

datatype cr_result = CrRet int | CrSleep u64 int

function consoleread_loop ::
  "(u64 \<Rightarrow> bool) \<Rightarrow> bool \<Rightarrow> int \<Rightarrow> u64 \<Rightarrow> int \<Rightarrow> console \<Rightarrow> cr_result \<times> byte list \<times> console" where
  "consoleread_loop cout kld target dst n k =
     (if n > 0 then
        if c_r k = c_w k then (if kld then CrRet (-1) else CrSleep dst n, [], k)
        else let c = cbuf k ! slot INPUT_BUF_SIZE (c_r k); k' = k\<lparr>c_r := c_r k + 1\<rparr> in
          if c = 4 then (CrRet (target - n), [], if n < target then k'\<lparr>c_r := c_r k' - 1\<rparr> else k')
          else if \<not> cout dst then (CrRet (target - n), [], k')
          else if c = 10 then (CrRet (target - (n - 1)), [c], k')
          else (case consoleread_loop cout kld target (dst + 1) (n - 1) k' of (r, bs, k'') \<Rightarrow> (r, c # bs, k''))
      else (CrRet (target - n), [], k))"
  by pat_completeness auto
termination
  by (relation "measure (\<lambda>(cout, kld, target, dst, n, k). nat n)") auto

declare consoleread_loop.simps [simp del]

definition consoleread :: "(u64 \<Rightarrow> bool) \<Rightarrow> bool \<Rightarrow> u64 \<Rightarrow> int \<Rightarrow> console \<Rightarrow> cr_result \<times> byte list \<times> console" where
  "consoleread cout kld dst n k = consoleread_loop cout kld n dst n k"

text \<open>
  \<open>consolewrite\<close> fetches batches of up to 32 bytes; \<open>cin a n\<close> are the bytes at \<open>a\<close>, if they can be
  read. The bytes given to \<open>uartwrite\<close> are collected; \<open>uartwrite\<close> returns when all are sent.
\<close>

function consolewrite_loop :: "(u64 \<Rightarrow> nat \<Rightarrow> byte list option) \<Rightarrow> u64 \<Rightarrow> int \<Rightarrow> int \<Rightarrow> int \<times> byte list" where
  "consolewrite_loop cin src n i =
     (if i < n then
        let nn = min 32 (n - i) in
        case cin (src + of_int i) (nat nn) of
          None \<Rightarrow> (i, [])
        | Some bs \<Rightarrow> (case consolewrite_loop cin src n (i + nn) of (r, out) \<Rightarrow> (r, bs @ out))
      else (i, []))"
  by pat_completeness auto
termination
  by (relation "measure (\<lambda>(cin, src, n, i). nat (n - i))") auto

declare consolewrite_loop.simps [simp del]

definition consolewrite :: "(u64 \<Rightarrow> nat \<Rightarrow> byte list option) \<Rightarrow> u64 \<Rightarrow> int \<Rightarrow> int \<times> byte list" where
  "consolewrite cin src n = consolewrite_loop cin src n 0"

section \<open>Invariant and abstraction\<close>

interpretation cons_ring: ring INPUT_BUF_SIZE "TYPE(32)"
  by unfold_locales simp_all

text \<open>The complete lines that wait for a reader, and the line being edited.\<close>

definition committed :: "console \<Rightarrow> byte list" where
  "committed k = ring_list INPUT_BUF_SIZE (cbuf k) (c_r k) (c_w k)"

definition editing :: "console \<Rightarrow> byte list" where
  "editing k = ring_list INPUT_BUF_SIZE (cbuf k) (c_w k) (c_e k)"

definition cons_ok :: "console \<Rightarrow> bool" where
  "cons_ok k \<longleftrightarrow> length (cbuf k) = INPUT_BUF_SIZE \<and> unat (c_e k - c_r k) \<le> INPUT_BUF_SIZE \<and>
     unat (c_w k - c_r k) \<le> unat (c_e k - c_r k) \<and> 10 \<notin> set (editing k)"

text \<open>The specification: two lists and the effect of a typed character on them.\<close>

definition line_disc :: "int \<Rightarrow> byte list \<times> byte list \<Rightarrow> byte list \<times> byte list" where
  "line_disc c ls =
     (let (com, ed) = ls in
      if c = 16 then (com, ed)
      else if c = 21 then (com, [])
      else if c = 8 \<or> c = 127 then (com, butlast ed)
      else if c \<noteq> 0 \<and> length com + length ed < INPUT_BUF_SIZE then
        let b = (if c = 13 then 10 else of_int c) in
        if b = 10 \<or> b = 4 \<or> length com + length ed + 1 = INPUT_BUF_SIZE then (com @ ed @ [b], [])
        else (com, ed @ [b])
      else (com, ed))"

lemma cons_split:
  assumes "unat (c_w k - c_r k) \<le> unat (c_e k - c_r k)"
  shows "ring_list INPUT_BUF_SIZE d (c_r k) (c_e k) = ring_list INPUT_BUF_SIZE d (c_r k) (c_w k) @ ring_list INPUT_BUF_SIZE d (c_w k) (c_e k)"
  by (rule cons_ring.ring_list_split [OF assms])

lemma cons_lengths:
  "cons_ok k \<Longrightarrow> length (committed k) + length (editing k) = unat (c_e k - c_r k)"
  using arg_cong [OF cons_split [of k "cbuf k"], of length] by (simp add: cons_ok_def committed_def editing_def)

lemma unat_pred: "(a :: u32) \<noteq> b \<Longrightarrow> unat (a - 1 - b) = unat (a - b) - 1 \<and> 0 < unat (a - b)"
proof -
  assume "a \<noteq> b"
  then have "a - b \<noteq> 0" by simp
  then have "unat (a - b - 1) = unat (a - b) - 1" "0 < unat (a - b)" by (rule unat_minus_one, simp add: unat_gt_0)
  then show ?thesis by (simp add: algebra_simps)
qed

lemma unat_succ: "unat ((a :: u32) - b) < 128 \<Longrightarrow> unat (a + 1 - b) = Suc (unat (a - b))"
proof -
  assume a: "unat (a - b) < 128"
  have "unat (a - b + 1) = Suc (unat (a - b))"
    using a by (simp add: unat_word_ariths)
  then show ?thesis by (simp add: algebra_simps)
qed

lemma cons_unpush:
  assumes "cons_ok k" "c_e k \<noteq> c_w k"
  shows "cons_ok (k\<lparr>c_e := c_e k - 1\<rparr>)"
    "editing k = editing (k\<lparr>c_e := c_e k - 1\<rparr>) @ [cbuf k ! slot INPUT_BUF_SIZE (c_e k - 1)]"
    "committed (k\<lparr>c_e := c_e k - 1\<rparr>) = committed k"
proof -
  show e: "editing k = editing (k\<lparr>c_e := c_e k - 1\<rparr>) @ [cbuf k ! slot INPUT_BUF_SIZE (c_e k - 1)]"
    using cons_ring.ring_unpush [of "c_w k" "c_e k" "cbuf k"] assms(2) by (simp add: editing_def)
  show "committed (k\<lparr>c_e := c_e k - 1\<rparr>) = committed k" by (simp add: committed_def)
  have ok: "unat (c_w k - c_r k) \<le> unat (c_e k - c_r k)" "unat (c_e k - c_r k) \<le> INPUT_BUF_SIZE"
    using assms(1) by (simp_all add: cons_ok_def)
  have "c_w k - c_r k \<noteq> c_e k - c_r k" using assms(2) by simp
  then have lt: "unat (c_w k - c_r k) < unat (c_e k - c_r k)" using ok(1) by (simp add: word_unat_eq_iff)
  then have "c_e k \<noteq> c_r k" by auto
  note u = unat_pred [OF this]
  show "cons_ok (k\<lparr>c_e := c_e k - 1\<rparr>)"
    using assms(1) e lt u by (auto simp: cons_ok_def)
qed

lemma cons_push:
  fixes b :: byte
  assumes "cons_ok k" "unat (c_e k - c_r k) < INPUT_BUF_SIZE"
  defines "k' \<equiv> k\<lparr>cbuf := (cbuf k)[slot INPUT_BUF_SIZE (c_e k) := b], c_e := c_e k + 1\<rparr>"
  shows "committed k' = committed k" "editing k' = editing k @ [b]" "unat (c_e k' - c_r k') = Suc (unat (c_e k - c_r k))"
    "length (cbuf k') = INPUT_BUF_SIZE" "unat (c_w k' - c_r k') \<le> unat (c_e k' - c_r k')"
proof -
  have ok: "length (cbuf k) = INPUT_BUF_SIZE" "unat (c_w k - c_r k) \<le> unat (c_e k - c_r k)"
    using assms(1) by (simp_all add: cons_ok_def)
  show u: "unat (c_e k' - c_r k') = Suc (unat (c_e k - c_r k))" using unat_succ [OF assms(2)] by (simp add: k'_def)
  show "length (cbuf k') = INPUT_BUF_SIZE" using ok(1) by (simp add: k'_def)
  show le: "unat (c_w k' - c_r k') \<le> unat (c_e k' - c_r k')" using ok(2) u by (simp add: k'_def)
  have ew: "unat (c_e k - c_w k) < INPUT_BUF_SIZE"
    using cons_lengths [OF assms(1)] assms(2) by (simp add: editing_def)
  show ed: "editing k' = editing k @ [b]"
    using cons_ring.ring_push [OF ok(1) ew] by (simp add: editing_def k'_def)
  have "committed k' @ editing k' = (committed k @ editing k) @ [b]"
    using cons_ring.ring_push [OF ok(1) assms(2), of b] cons_split [OF ok(2), of "cbuf k"] cons_split [OF le, of "cbuf k'"]
    by (simp add: committed_def editing_def k'_def)
  then show "committed k' = committed k" using ed by simp
qed

lemma consputc_abs [simp]:
  "committed (consputc c k) = committed k" "editing (consputc c k) = editing k" "cons_ok (consputc c k) = cons_ok k"
  by (simp_all add: committed_def editing_def cons_ok_def)

lemma kill_line_spec:
  "cons_ok k \<Longrightarrow> cons_ok (kill_line k) \<and> committed (kill_line k) = committed k \<and> editing (kill_line k) = []"
proof (induction k rule: kill_line.induct)
  case (1 k)
  show ?case
  proof (cases "c_e k = c_w k")
    case True
    then show ?thesis using "1.prems" by (simp add: kill_line.simps [of k] editing_def)
  next
    case False
    note u = cons_unpush [OF "1.prems" False]
    have nl: "cbuf k ! slot INPUT_BUF_SIZE (c_e k - 1) \<noteq> 10"
      using "1.prems" u(2) by (auto simp: cons_ok_def)
    have "cons_ok (consputc 0x100 (k\<lparr>c_e := c_e k - 1\<rparr>))" using u(1) by simp
    then show ?thesis using "1.IH" False nl u(3) by (simp add: kill_line.simps [of k])
  qed
qed

lemma byte_of_int: "0 \<le> c \<Longrightarrow> c < 256 \<Longrightarrow> 0 \<le> d \<Longrightarrow> d < 256 \<Longrightarrow> of_int c = (of_int d :: byte) \<longleftrightarrow> c = d"
  by (simp add: word_of_int_eq_iff take_bit_eq_mod)

lemma consoleintr_spec:
  assumes "cons_ok k" "0 \<le> c" "c < 256" "consoleintr c k = (woken, k')"
  shows "cons_ok k' \<and> (committed k', editing k') = line_disc c (committed k, editing k) \<and>
    (woken \<longleftrightarrow> committed k' \<noteq> committed k)"
proof -
  have len: "length (committed k) + length (editing k) = unat (c_e k - c_r k)" by (rule cons_lengths [OF assms(1)])
  consider "c = 16" | "c = 21" | "c = 8 \<or> c = 127" | (other) "c \<notin> {16, 21, 8, 127}" by blast
  then show ?thesis
  proof cases
    case 1
    then show ?thesis using assms by (auto simp: consoleintr_def line_disc_def)
  next
    case 2
    then show ?thesis using assms kill_line_spec [OF assms(1)] by (auto simp: consoleintr_def line_disc_def)
  next
    case 3
    show ?thesis
    proof (cases "c_e k = c_w k")
      case True
      then have "editing k = []" by (simp add: editing_def)
      then show ?thesis using 3 True assms by (auto simp: consoleintr_def line_disc_def)
    next
      case False
      then show ?thesis
        using 3 assms cons_unpush [OF assms(1) False] by (auto simp: consoleintr_def line_disc_def)
    qed
  next
    case other
    have room: "c_e k - c_r k < of_nat INPUT_BUF_SIZE \<longleftrightarrow> length (committed k) + length (editing k) < INPUT_BUF_SIZE"
      unfolding len by (simp add: word_less_nat_alt)
    show ?thesis
    proof (cases "c \<noteq> 0 \<and> c_e k - c_r k < of_nat INPUT_BUF_SIZE")
      case False
      then show ?thesis using other assms room by (auto simp: consoleintr_def line_disc_def)
    next
      case True
      define c' where "c' = (if c = 13 then 10 else c)"
      define b :: byte where "b = of_int c'"
      let ?k = "consputc c' k"
      let ?p = "?k\<lparr>cbuf := (cbuf ?k)[slot INPUT_BUF_SIZE (c_e ?k) := b], c_e := c_e ?k + 1\<rparr>"
      have ok1: "cons_ok ?k" "unat (c_e ?k - c_r ?k) < INPUT_BUF_SIZE" using assms(1) True by (simp_all add: word_less_nat_alt)
      note P = cons_push [OF ok1, of b]
      have c10: "(c' = 10) = (b = 10)" "(c' = 4) = (b = 4)"
        using byte_of_int [of c' 10] byte_of_int [of c' 4] assms(2,3) by (auto simp: b_def c'_def)
      have full: "c_e ?p - c_r ?p = of_nat INPUT_BUF_SIZE \<longleftrightarrow> length (committed k) + length (editing k) + 1 = INPUT_BUF_SIZE"
        using P(3) len by (simp add: word_unat_eq_iff)
      have b': "b = (if c = 13 then 10 else of_int c)" by (simp add: b_def c'_def)
      define fin where "fin \<longleftrightarrow> b = 10 \<or> b = 4 \<or> length (committed k) + length (editing k) + 1 = INPUT_BUF_SIZE"
      have I: "(woken, k') = (if fin then (True, ?p\<lparr>c_w := c_e ?p\<rparr>) else (False, ?p))"
        using other True assms(4) c10 full unfolding consoleintr_def Let_def fin_def
        by (simp only: c'_def [symmetric] b_def [symmetric]) auto
      have D: "line_disc c (committed k, editing k) =
        (if fin then (committed k @ editing k @ [b], []) else (committed k, editing k @ [b]))"
        using other True room unfolding line_disc_def fin_def b' by simp
      show ?thesis
      proof (cases fin)
        case True
        then have k': "k' = ?p\<lparr>c_w := c_e ?p\<rparr>" "woken" using I by auto
        have "committed k' = committed ?p @ editing ?p"
          using cons_split [OF P(5), of "cbuf ?p"] unfolding k' by (simp add: committed_def editing_def)
        moreover have "editing k' = []" "length (cbuf k') = INPUT_BUF_SIZE" unfolding k' using P(4) by (simp_all add: editing_def)
        ultimately show ?thesis
          using P ok1(2) D True k' unfolding cons_ok_def by simp
      next
        case False
        then have k': "k' = ?p" "\<not> woken" using I by auto
        show ?thesis
          using P ok1 D False k' assms(1) unfolding cons_ok_def by (auto simp: fin_def)
      qed
    qed
  qed
qed

text \<open>
  Property (C18). The console buffer implements the line discipline. For every received character,
  \<open>consoleintr\<close> on the circular buffer with its three wrapping indices changes the complete lines
  and the line being edited exactly as the specification says: backspace and delete remove the last
  character of the edited line only, control-U all of it, a newline or control-D (or the last free
  slot) completes the line, a full buffer ignores the character. It wakes the readers exactly when
  it completes a line, and the invariant of the buffer is preserved.
\<close>

theorem consoleintr_refines_line_discipline:
  assumes "cons_ok k" "0 \<le> c" "c < 256" "consoleintr c k = (woken, k')"
  shows "cons_ok k' \<and> (committed k', editing k') = line_disc c (committed k, editing k) \<and>
    (woken \<longleftrightarrow> committed k' \<noteq> committed k)"
  by (rule consoleintr_spec [OF assms])

definition boot_console :: console where
  "boot_console = \<lparr>cbuf = replicate INPUT_BUF_SIZE 0, c_r = 0, c_w = 0, c_e = 0, tx_busy = False, tx_idle = True,
     rx = [], sent = []\<rparr>"

lemma cons_ok_boot: "cons_ok boot_console" "committed boot_console = []" "editing boot_console = []"
  by (simp_all add: cons_ok_def boot_console_def editing_def committed_def)

theorem consoleintr_refines_line_discipline_witness:
  "let (woken, k') = consoleintr 97 boot_console in
     cons_ok k' \<and> (committed k', editing k') = line_disc 97 (committed boot_console, editing boot_console) \<and>
     (woken \<longleftrightarrow> committed k' \<noteq> committed boot_console)"
proof -
  obtain woken k' where e: "consoleintr 97 boot_console = (woken, k')" by fastforce
  show ?thesis using consoleintr_refines_line_discipline [OF cons_ok_boot(1) _ _ e] e by simp
qed

section \<open>Reading lines\<close>

text \<open>
  What a read of at most \<open>n\<close> bytes takes from the complete lines: the bytes up to and including the
  first newline. A control-D ends the read and is kept for the next one unless it comes first.
\<close>

fun read_line :: "bool \<Rightarrow> nat \<Rightarrow> byte list \<Rightarrow> byte list \<times> byte list" where
  "read_line first 0 com = ([], com)"
| "read_line first (Suc n) [] = ([], [])"
| "read_line first (Suc n) (c # cs) =
     (if c = 4 then ([], if first then cs else c # cs)
      else if c = 10 then ([c], cs)
      else let (bs, rest) = read_line False n cs in (c # bs, rest))"

lemma cons_pop:
  assumes "cons_ok k" "c_r k \<noteq> c_w k"
  shows "committed k = cbuf k ! slot INPUT_BUF_SIZE (c_r k) # committed (k\<lparr>c_r := c_r k + 1\<rparr>)"
    "cons_ok (k\<lparr>c_r := c_r k + 1\<rparr>)" "editing (k\<lparr>c_r := c_r k + 1\<rparr>) = editing k"
proof -
  show "committed k = cbuf k ! slot INPUT_BUF_SIZE (c_r k) # committed (k\<lparr>c_r := c_r k + 1\<rparr>)"
    using cons_ring.ring_pop [OF assms(2)] by (simp add: committed_def)
  show ed: "editing (k\<lparr>c_r := c_r k + 1\<rparr>) = editing k" by (simp add: editing_def)
  have le: "unat (c_w k - c_r k) \<le> unat (c_e k - c_r k)" using assms(1) by (simp add: cons_ok_def)
  have "c_w k - c_r k \<noteq> 0" using assms(2) by simp
  then have "0 < unat (c_w k - c_r k)" by (simp add: unat_gt_0)
  then have "c_r k \<noteq> c_e k" using le by auto
  then show "cons_ok (k\<lparr>c_r := c_r k + 1\<rparr>)"
    using assms ed le unat_diff_step_u32 [of "c_r k" "c_w k"] unat_diff_step_u32 [of "c_r k" "c_e k"]
    by (auto simp: cons_ok_def)
qed

text \<open>The read has to wait for more input: less than \<open>n\<close> bytes are complete, and nothing among them ends it.\<close>

definition waits :: "nat \<Rightarrow> byte list \<Rightarrow> bool" where
  "waits n com \<longleftrightarrow> length com < n \<and> 10 \<notin> set com \<and> 4 \<notin> set com"

lemma waits_simps [simp]:
  "\<not> waits 0 com" "waits (Suc n) []" "waits (Suc n) (c # com) \<longleftrightarrow> c \<noteq> 10 \<and> c \<noteq> 4 \<and> waits n com"
  by (auto simp: waits_def)

lemma consoleread_loop_spec:
  assumes "cons_ok k" "\<forall>a. cout a" "0 \<le> n" "n \<le> target" "consoleread_loop cout False target dst n k = (res, bs, k')"
  shows "cons_ok k' \<and> (bs, committed k') = read_line (n = target) (nat n) (committed k) \<and> editing k' = editing k \<and>
    res = (if waits (nat n) (committed k) then CrSleep (dst + of_nat (length bs)) (n - int (length bs))
           else CrRet (target - n + int (length bs)))"
  using assms
proof (induction cout "False" target dst n k arbitrary: bs k' res rule: consoleread_loop.induct)
  case (1 cout target dst n k)
  note unf = consoleread_loop.simps [of cout False target dst n k]
  consider "n = 0" | "0 < n" "c_r k = c_w k" | (some) "0 < n" "c_r k \<noteq> c_w k" using "1.prems"(3) by linarith
  then show ?case
  proof cases
    case 1
    then show ?thesis using "1.prems"(1) "1.prems"(5) [unfolded unf] by simp
  next
    case 2
    then have "committed k = []" by (simp add: committed_def)
    moreover obtain m where "nat n = Suc m" using 2(1) by (metis gr0_conv_Suc zero_less_nat_eq)
    ultimately show ?thesis using 2 "1.prems"(1) "1.prems"(5) [unfolded unf] by auto
  next
    case some
    let ?c = "cbuf k ! slot INPUT_BUF_SIZE (c_r k)" and ?k = "k\<lparr>c_r := c_r k + 1\<rparr>"
    note P = cons_pop [OF "1.prems"(1) some(2)]
    obtain m where m: "nat n = Suc m" "nat (n - 1) = m" using some(1)
      by (metis Suc_nat_eq_nat_zadd1 diff_add_cancel int_one_le_iff_zero_less nonneg_eq_int zle_diff1_eq add.commute)
    consider "?c = 4" | "?c = 10" | (plain) "?c \<noteq> 4" "?c \<noteq> 10" by blast
    then show ?thesis
    proof cases
      case 1
      then show ?thesis
        using some "1.prems" P m by (auto simp: unf Let_def)
    next
      case 2
      then show ?thesis using some "1.prems" P m by (auto simp: unf Let_def)
    next
      case plain
      obtain r bs1 where rec: "consoleread_loop cout False target (dst + 1) (n - 1) ?k = (r, bs1, k')"
        "res = r" "bs = ?c # bs1"
        using some plain "1.prems"(2,5) by (auto simp: unf Let_def split: prod.splits)
      have "cons_ok k' \<and> (bs1, committed k') = read_line (n - 1 = target) (nat (n - 1)) (committed ?k) \<and> editing k' = editing ?k \<and>
        r = (if waits (nat (n - 1)) (committed ?k) then CrSleep (dst + 1 + of_nat (length bs1)) (n - 1 - int (length bs1))
             else CrRet (target - (n - 1) + int (length bs1)))"
        using some plain "1.prems" P by (intro "1.hyps" [OF _ _ refl refl _ _ _ _ _ _ _ rec(1)]) auto
      then show ?thesis
        using P m plain rec(2,3) "1.prems"(4) by (auto simp: algebra_simps split: prod.split)
    qed
  qed
qed

text \<open>
  Property (C31). A read from the console returns one line. If a process reads \<open>n\<close> bytes, its buffer is
  writable and it is not killed, the bytes it gets are the next complete line, or its first \<open>n\<close> bytes, or
  what precedes a control-D (which is kept for the next read unless it comes first, where it gives an
  empty read). The call sleeps, with the rest of the request, exactly if the completed input has fewer than \<open>n\<close> bytes and neither a newline nor a
  control-D; otherwise it returns the number of bytes. The line being edited is never read.
\<close>

theorem consoleread_delivers_line:
  assumes "cons_ok k" "\<forall>a. cout a" "0 \<le> n" "consoleread cout False dst n k = (res, bs, k')"
  shows "cons_ok k' \<and> (bs, committed k') = read_line True (nat n) (committed k) \<and> editing k' = editing k \<and>
    res = (if length (committed k) < nat n \<and> 10 \<notin> set (committed k) \<and> 4 \<notin> set (committed k)
           then CrSleep (dst + of_nat (length bs)) (n - int (length bs)) else CrRet (int (length bs)))"
  using consoleread_loop_spec [OF assms(1-3) order_refl, of dst res bs k'] assms(4) by (simp add: consoleread_def waits_def)

theorem consoleread_delivers_line_witness:
  "\<exists>k res bs k'. cons_ok k \<and> committed k = [97, 10] \<and> consoleread (\<lambda>_. True) False 4096 100 k = (res, bs, k') \<and>
    bs = [97, 10] \<and> committed k' = [] \<and> res = CrRet 2"
proof -
  obtain w1 k1 where k1: "consoleintr 97 boot_console = (w1, k1)" by fastforce
  have ok1: "cons_ok k1" "(committed k1, editing k1) = ([], [97])"
    using consoleintr_spec [OF cons_ok_boot(1) _ _ k1] cons_ok_boot by (simp_all add: line_disc_def)
  obtain w2 k2 where k2: "consoleintr 10 k1 = (w2, k2)" by fastforce
  have ok2: "cons_ok k2" "(committed k2, editing k2) = ([97, 10], [])"
    using consoleintr_spec [OF ok1(1) _ _ k2] ok1(2) by (simp_all add: line_disc_def)
  obtain res bs k' where r: "consoleread (\<lambda>_. True) False 4096 100 k2 = (res, bs, k')" by (cases "consoleread (\<lambda>_. True) False 4096 100 k2")
  have "read_line True 100 [97, 10] = ([97, 10], [])"
    using read_line.simps(3) [of True 99] read_line.simps(3) [of False 98] by simp
  then have "bs = [97, 10] \<and> committed k' = [] \<and> res = CrRet 2"
    using consoleread_delivers_line [OF ok2(1) _ _ r] ok2(2) by simp
  then show ?thesis using ok2 r by blast
qed

end
