(* ===== verification/Printf.thy ===== *)
theory Printf
  imports CString Console
begin

text \<open>
  Formatted output: \<^verbatim>\<open>kernel/printf.c\<close>, which prints to the console, and \<^verbatim>\<open>user/printf.c\<close>, which prints to
  a file. A format is a list of characters without its NUL, the variable arguments are 64-bit words
  (a string argument is an address), and the result is the sequence of arguments passed to \<^verbatim>\<open>consputc\<close> or \<^verbatim>\<open>putc\<close>.
\<close>

section \<open>Numbers\<close>

definition kdigits :: string where "kdigits = ''0123456789abcdef''"

definition udigits :: string where "udigits = ''0123456789ABCDEF''"

text \<open>
  The loop that fills \<open>buf\<close> from the last digit to the first, \<open>k\<close> being the room left in the
  twenty bytes of the array: writing beyond them is undefined.
\<close>

fun digit_loop :: "string \<Rightarrow> u64 \<Rightarrow> nat \<Rightarrow> u64 \<Rightarrow> string res" where
  "digit_loop ds base 0 x = Inl Undefined"
| "digit_loop ds base (Suc k) x =
     (if base = 0 \<or> length ds \<le> unat (x mod base) then Inl Undefined
      else if x div base \<noteq> 0
           then rbind (digit_loop ds base k (x div base)) (\<lambda>r. Inr (ds ! unat (x mod base) # r))
           else Inr [ds ! unat (x mod base)])"

text \<open>The negation of the least \<^verbatim>\<open>long long\<close> overflows, which is undefined.\<close>

abbreviation LLONG_MIN :: int where "LLONG_MIN \<equiv> - (2 ^ 63)"

definition printint :: "u64 \<Rightarrow> u64 \<Rightarrow> bool \<Rightarrow> string res" where
  "printint xx base sign =
     (let sign = (sign \<and> sint xx < 0);
          x = (if sign then - xx else xx)
      in if sign \<and> sint xx = LLONG_MIN then Inl Undefined
         else rbind (digit_loop kdigits base 20 x) (\<lambda>buf.
           if sign then if length buf < 20 then Inr (rev (buf @ ''-'')) else Inl Undefined
           else Inr (rev buf)))"

fun nibbles :: "string \<Rightarrow> nat \<Rightarrow> u64 \<Rightarrow> string" where
  "nibbles ds 0 x = []"
| "nibbles ds (Suc n) x = ds ! unat (drop_bit 60 x) # nibbles ds n (push_bit 4 x)"

definition printptr :: "u64 \<Rightarrow> string" where
  "printptr x = ''0x'' @ nibbles kdigits 16 x"

text \<open>The same in the user library.\<close>

definition user_printint :: "u64 \<Rightarrow> u64 \<Rightarrow> bool \<Rightarrow> string res" where
  "user_printint xx base is_signed =
     (let (neg, x) = (if is_signed \<and> sint xx < 0 then (True, - xx) else (False, xx))
      in if neg \<and> sint xx = LLONG_MIN then Inl Undefined
         else rbind (digit_loop udigits base 20 x) (\<lambda>buf.
           if neg then if length buf < 20 then Inr (rev (buf @ ''-'')) else Inl Undefined
           else Inr (rev buf)))"

definition user_printptr :: "u64 \<Rightarrow> string" where
  "user_printptr x = ''0x'' @ nibbles udigits 16 x"

section \<open>Formats\<close>

text \<open>How \<^verbatim>\<open>va_arg\<close> reads a register for the types \<^verbatim>\<open>int\<close>, \<^verbatim>\<open>uint32\<close> and \<^verbatim>\<open>uint64\<close>.\<close>

datatype atype = AInt | AUint | ALong

fun va_word :: "atype \<Rightarrow> u64 \<Rightarrow> u64" where
  "va_word AInt w = scast (ucast w :: u32)"
| "va_word AUint w = ucast (ucast w :: u32)"
| "va_word ALong w = w"

datatype conv = Num atype u64 bool | Ptr | Chr | Str | Percent | Unknown

text \<open>The conversion that the characters after a percent sign ask for, and how many they are.\<close>

definition conv_of :: "char \<Rightarrow> char \<Rightarrow> char \<Rightarrow> conv \<times> nat" where
  "conv_of c0 c1 c2 =
     (if c0 = CHR ''d'' then (Num AInt 10 True, 1)
      else if c0 = CHR ''l'' \<and> c1 = CHR ''d'' then (Num ALong 10 True, 2)
      else if c0 = CHR ''l'' \<and> c1 = CHR ''l'' \<and> c2 = CHR ''d'' then (Num ALong 10 True, 3)
      else if c0 = CHR ''u'' then (Num AUint 10 False, 1)
      else if c0 = CHR ''l'' \<and> c1 = CHR ''u'' then (Num ALong 10 False, 2)
      else if c0 = CHR ''l'' \<and> c1 = CHR ''l'' \<and> c2 = CHR ''u'' then (Num ALong 10 False, 3)
      else if c0 = CHR ''x'' then (Num AUint 16 False, 1)
      else if c0 = CHR ''l'' \<and> c1 = CHR ''x'' then (Num ALong 16 False, 2)
      else if c0 = CHR ''l'' \<and> c1 = CHR ''l'' \<and> c2 = CHR ''x'' then (Num ALong 16 False, 3)
      else if c0 = CHR ''p'' then (Ptr, 1)
      else if c0 = CHR ''c'' then (Chr, 1)
      else if c0 = CHR ''s'' then (Str, 1)
      else if c0 = CHR ''%'' then (Percent, 1)
      else (Unknown, 1))"

definition fmt_at :: "string \<Rightarrow> nat \<Rightarrow> char" where
  "fmt_at s i = (if i < length s then s ! i else CHR 0x00)"

definition cput :: "char \<Rightarrow> int" where "cput c = int (of_char c)"

partial_function (option) bytes_at :: "memory \<Rightarrow> u64 \<Rightarrow> (byte list) option" where
  "bytes_at m s = (if m s = 0 then Some [] else Option.bind (bytes_at m (s + 1)) (\<lambda>bs. Some (m s # bs)))"

definition str_arg :: "memory \<Rightarrow> u64 \<Rightarrow> (int list) res" where
  "str_arg m s =
     (if s = 0 then Inr (map cput ''(null)'')
      else case bytes_at m s of None \<Rightarrow> Inl Diverges | Some bs \<Rightarrow> Inr (map uint bs))"

definition take_arg :: "u64 list \<Rightarrow> (u64 \<times> u64 list) res" where
  "take_arg args = (case args of [] \<Rightarrow> Inl Undefined | w # ws \<Rightarrow> Inr (w, ws))"

text \<open>One conversion of the kernel's \<^verbatim>\<open>printf\<close>: what is printed, and the arguments left.\<close>

definition print_conv :: "memory \<Rightarrow> char \<Rightarrow> conv \<Rightarrow> u64 list \<Rightarrow> (int list \<times> u64 list) res" where
  "print_conv m c0 cv args =
     (case cv of
        Num t base sign \<Rightarrow>
          rbind (take_arg args) (\<lambda>(w, ws). rbind (printint (va_word t w) base sign) (\<lambda>r. Inr (map cput r, ws)))
      | Ptr \<Rightarrow> rbind (take_arg args) (\<lambda>(w, ws). Inr (map cput (printptr w), ws))
      | Chr \<Rightarrow> rbind (take_arg args) (\<lambda>(w, ws). Inr ([sint (ucast w :: u32)], ws))
      | Str \<Rightarrow> rbind (take_arg args) (\<lambda>(w, ws). rbind (str_arg m w) (\<lambda>r. Inr (r, ws)))
      | Percent \<Rightarrow> Inr ([cput CHR ''%''], args)
      | Unknown \<Rightarrow> Inr ([cput CHR ''%'', cput c0], args))"

function printf :: "memory \<Rightarrow> string \<Rightarrow> u64 list \<Rightarrow> (int list) res" where
  "printf m fmt args =
     (if fmt = [] then Inr []
      else if fmt_at fmt 0 \<noteq> CHR ''%''
      then rbind (printf m (drop 1 fmt) args) (\<lambda>r. Inr (cput (fmt_at fmt 0) # r))
      else if fmt_at fmt 1 = CHR 0x00 then Inr []
      else let (cv, n) = conv_of (fmt_at fmt 1) (fmt_at fmt 2) (fmt_at fmt 3) in
           rbind (print_conv m (fmt_at fmt 1) cv args) (\<lambda>(out, args).
           rbind (printf m (drop (Suc n) fmt) args) (\<lambda>r. Inr (out @ r))))"
  by pat_completeness auto

termination
  by (relation "measure (\<lambda>(m, fmt, args). length fmt)") auto

declare printf.simps [simp del]

text \<open>The user library's \<open>vprintf\<close>, a state machine; \<open>putc\<close> truncates its argument to a byte.\<close>

definition user_conv_of :: "char \<Rightarrow> char \<Rightarrow> char \<Rightarrow> conv \<times> nat" where
  "user_conv_of c0 c1 c2 =
     (if c0 = CHR ''d'' then (Num AInt 10 True, 1)
      else if c0 = CHR ''l'' \<and> c1 = CHR ''d'' then (Num ALong 10 True, 2)
      else if c0 = CHR ''l'' \<and> c1 = CHR ''l'' \<and> c2 = CHR ''d'' then (Num ALong 10 True, 3)
      else if c0 = CHR ''u'' then (Num AUint 10 False, 1)
      else if c0 = CHR ''l'' \<and> c1 = CHR ''u'' then (Num ALong 10 False, 2)
      else if c0 = CHR ''l'' \<and> c1 = CHR ''l'' \<and> c2 = CHR ''u'' then (Num ALong 10 False, 3)
      else if c0 = CHR ''x'' then (Num AUint 16 False, 1)
      else if c0 = CHR ''l'' \<and> c1 = CHR ''x'' then (Num ALong 16 False, 2)
      else if c0 = CHR ''l'' \<and> c1 = CHR ''l'' \<and> c2 = CHR ''x'' then (Num ALong 16 False, 3)
      else if c0 = CHR ''p'' then (Ptr, 1)
      else if c0 = CHR ''c'' then (Chr, 1)
      else if c0 = CHR ''s'' then (Str, 1)
      else if c0 = CHR ''%'' then (Percent, 1)
      else (Unknown, 1))"

definition user_print_conv :: "memory \<Rightarrow> char \<Rightarrow> conv \<Rightarrow> u64 list \<Rightarrow> (byte list \<times> u64 list) res" where
  "user_print_conv m c0 cv args =
     (case cv of
        Num t base is_signed \<Rightarrow>
          rbind (take_arg args) (\<lambda>(w, ws). rbind (user_printint (va_word t w) base is_signed) (\<lambda>r. Inr (map of_char r, ws)))
      | Ptr \<Rightarrow> rbind (take_arg args) (\<lambda>(w, ws). Inr (map of_char (user_printptr w), ws))
      | Chr \<Rightarrow> rbind (take_arg args) (\<lambda>(w, ws). Inr ([ucast (ucast w :: u32)], ws))
      | Str \<Rightarrow> rbind (take_arg args) (\<lambda>(w, ws).
          if w = 0 then Inr (map of_char ''(null)'', ws)
          else case bytes_at m w of None \<Rightarrow> Inl Diverges | Some bs \<Rightarrow> Inr (bs, ws))
      | Percent \<Rightarrow> Inr ([of_char CHR ''%''], args)
      | Unknown \<Rightarrow> Inr ([of_char CHR ''%'', of_char c0], args))"

function vprintf :: "memory \<Rightarrow> bool \<Rightarrow> string \<Rightarrow> u64 list \<Rightarrow> (byte list) res" where
  "vprintf m st fmt args =
     (if fmt = [] then Inr []
      else let c0 = fmt_at fmt 0 in
        if \<not> st
        then if c0 = CHR ''%'' then vprintf m True (drop 1 fmt) args
             else rbind (vprintf m False (drop 1 fmt) args) (\<lambda>r. Inr (of_char c0 # r))
        else let (cv, n) = user_conv_of c0 (fmt_at fmt 1) (fmt_at fmt 2) in
             rbind (user_print_conv m c0 cv args) (\<lambda>(out, args).
             rbind (vprintf m False (drop n fmt) args) (\<lambda>r. Inr (out @ r))))"
  by pat_completeness auto

lemma user_conv_of_pos: "user_conv_of c0 c1 c2 = (cv, n) \<Longrightarrow> 0 < n"
  by (auto simp: user_conv_of_def split: if_splits)

termination vprintf
proof (relation "measure (\<lambda>(m, st, fmt, args). length fmt)")
qed (auto dest: user_conv_of_pos [OF sym])

declare vprintf.simps [simp del]

section \<open>The digits of a number\<close>

text \<open>The value of a list of digits, the last digit of the number first.\<close>

fun horner :: "nat \<Rightarrow> nat list \<Rightarrow> nat" where
  "horner b [] = 0"
| "horner b (d # ds) = d + b * horner b ds"

definition numeral_ok :: "nat \<Rightarrow> nat list \<Rightarrow> bool" where
  "numeral_ok b ns \<longleftrightarrow> ns \<noteq> [] \<and> (\<forall>d \<in> set ns. d < b) \<and> (last ns \<noteq> 0 \<or> length ns = 1)"

lemma digit_loop_spec:
  assumes "2 \<le> unat base" "unat base \<le> length ds" "unat x < unat base ^ k" "0 < k"
  shows "\<exists>ns. digit_loop ds base k x = Inr (map ((!) ds) ns) \<and> length ns \<le> k \<and> numeral_ok (unat base) ns \<and>
    horner (unat base) ns = unat x"
  using assms(3,4)
proof (induction k arbitrary: x)
  case (Suc k)
  let ?b = "unat base"
  have b0: "base \<noteq> 0" using assms(1) by auto
  have m: "unat (x mod base) = unat x mod ?b" "unat (x div base) = unat x div ?b"
    by (simp_all add: unat_mod_distrib unat_div_distrib)
  have lt: "unat x mod ?b < ?b" using assms(1) by simp
  show ?case
  proof (cases "x div base = 0")
    case True
    then have "unat x div ?b = 0" using m(2) by simp
    then have "unat x < ?b" using assms(1) by (simp add: div_eq_0_iff)
    then show ?thesis
      using True b0 lt m assms(2) by (intro exI [of _ "[unat x]"]) (simp add: numeral_ok_def)
  next
    case False
    have q: "unat (x div base) < ?b ^ k"
      using Suc.prems(1) assms(1) unfolding m by (simp add: less_mult_imp_div_less mult.commute)
    have "0 < k" using False q by (cases k) (simp_all add: unat_eq_zero)
    then obtain ns where ns: "digit_loop ds base k (x div base) = Inr (map ((!) ds) ns)" "length ns \<le> k"
      "numeral_ok ?b ns" "horner ?b ns = unat x div ?b"
      using Suc.IH [OF q] m(2) by auto
    have "unat x div ?b \<noteq> 0" using False m(2) by (metis unat_eq_zero)
    then have "last ns \<noteq> 0"
      using ns(3,4) unfolding numeral_ok_def by (cases ns) (auto simp: length_Suc_conv)
    then show ?thesis
      using ns False b0 lt m(1) assms(2)
      by (intro exI [of _ "unat x mod ?b # ns"]) (auto simp: numeral_ok_def)
  qed
qed simp

lemma unat_minus_sint:
  assumes "sint (x :: u64) < 0"
  shows "int (unat (- x)) = - sint x"
proof -
  have "- (2 ^ 63) \<le> sint x" using sint_greater_eq [of x] by simp
  then have "uint (word_of_int (- sint x) :: u64) = - sint x"
    unfolding uint_word_of_int using assms by simp
  then show ?thesis by simp
qed

lemma sint_nonneg: "\<not> sint (x :: u64) < 0 \<Longrightarrow> sint x = uint x"
proof -
  assume a: "\<not> sint x < 0"
  moreover have "sint x < 2 ^ 63" using sint_less [of x] by simp
  ultimately have "uint (word_of_int (sint x) :: u64) = sint x" unfolding uint_word_of_int by simp
  then show ?thesis by simp
qed

lemma horner_ge: "ns \<noteq> [] \<Longrightarrow> last ns \<noteq> 0 \<Longrightarrow> b ^ (length ns - 1) \<le> horner b ns"
proof (induction ns)
  case (Cons d ns)
  show ?case
  proof (cases ns)
    case Nil
    then show ?thesis using Cons.prems by simp
  next
    case (Cons e es)
    then have "b ^ (length ns - 1) \<le> horner b ns" using Cons.IH Cons.prems by simp
    then have "b * b ^ (length ns - 1) \<le> d + b * horner b ns" by (simp add: trans_le_add2)
    then show ?thesis using Cons by simp
  qed
qed simp

lemma numeral_length:
  assumes "numeral_ok b ns" "horner b ns < b ^ k" "1 \<le> b" "0 < k"
  shows "length ns \<le> k"
proof (cases "length ns = 1")
  case False
  then have "b ^ (length ns - 1) < b ^ k" using horner_ge [of ns b] assms(1,2) by (auto simp: numeral_ok_def)
  then have "\<not> k \<le> length ns - 1" using power_increasing [OF _ assms(3), of k "length ns - 1"] by linarith
  then show ?thesis by linarith
qed (use assms(4) in simp)

lemma printint_digits:
  fixes xx :: u64
  assumes "base = 10 \<or> base = 16" "length ds = 16" "neg \<longrightarrow> sint xx < 0" "x = (if neg then - xx else xx)"
  shows "\<exists>ns. digit_loop ds base 20 x = Inr (map ((!) ds) ns) \<and> (neg \<longrightarrow> length ns < 20) \<and> length ns \<le> 20 \<and>
    numeral_ok (unat base) ns \<and> int (horner (unat base) ns) = (if neg then - sint xx else uint xx)"
proof -
  have b: "2 \<le> unat base" "unat base \<le> length ds" "(10 :: nat) \<le> unat base" using assms(1,2) by auto
  have "unat x < 2 ^ 64" using unsigned_less [of x] by simp
  also have "(2 :: nat) ^ 64 < 10 ^ 20" by simp
  also have "(10 :: nat) ^ 20 \<le> unat base ^ 20" by (rule power_mono [OF b(3)]) simp
  finally have "unat x < unat base ^ 20" .
  from digit_loop_spec [OF b(1,2) this] obtain ns where ns: "digit_loop ds base 20 x = Inr (map ((!) ds) ns)"
    "length ns \<le> 20" "numeral_ok (unat base) ns" "horner (unat base) ns = unat x" by auto
  have "length ns \<le> 19" if neg
  proof (rule numeral_length [OF ns(3)])
    have "- (2 ^ 63) \<le> sint xx" using sint_greater_eq [of xx] by simp
    then have "int (unat x) \<le> 2 ^ 63" using unat_minus_sint [of xx] assms(3,4) that by simp
    then have "unat x \<le> 2 ^ 63" by (metis of_nat_le_iff of_nat_numeral of_nat_power)
    also have "(2 :: nat) ^ 63 < 10 ^ 19" by simp
    also have "(10 :: nat) ^ 19 \<le> unat base ^ 19" by (rule power_mono [OF b(3)]) simp
    finally show "horner (unat base) ns < unat base ^ 19" using ns(4) by simp
  qed (use b in auto)
  then show ?thesis using ns unat_minus_sint [of xx] assms(3,4) by (intro exI [of _ ns]) auto
qed

text \<open>
  Property (C29). \<open>printint\<close> prints the number it is given. For every 64-bit argument, in decimal and in
  hexadecimal, signed or unsigned, it stays inside the twenty bytes of its buffer and prints a minus
  sign exactly for negative signed arguments, followed by the digits of the magnitude, most
  significant first and without leading zeros; only the negation of the least signed number is undefined.
\<close>

theorem printint_prints_number:
  assumes "base = 10 \<or> base = 16"
  shows "if sign \<and> sint xx = LLONG_MIN then printint xx base sign = Inl Undefined
    else \<exists>ns. printint xx base sign = Inr ((if sign \<and> sint xx < 0 then ''-'' else []) @ map ((!) kdigits) (rev ns)) \<and>
      numeral_ok (unat base) ns \<and> int (horner (unat base) ns) = (if sign then \<bar>sint xx\<bar> else uint xx) \<and>
      (if sign \<and> sint xx < 0 then length ns < 20 else length ns \<le> 20)"
proof (cases "sign \<and> sint xx = LLONG_MIN")
  case True
  then show ?thesis by (simp add: printint_def)
next
  case False
  have pos: "\<not> sint xx < 0 \<Longrightarrow> sint xx = uint xx" by (rule sint_nonneg)
  have k: "length kdigits = 16" by (simp add: kdigits_def)
  from printint_digits [OF assms k, of "sign \<and> sint xx < 0" xx] obtain ns where
    "digit_loop kdigits base 20 (if sign \<and> sint xx < 0 then - xx else xx) = Inr (map ((!) kdigits) ns)"
    "sign \<and> sint xx < 0 \<longrightarrow> length ns < 20" "length ns \<le> 20" "numeral_ok (unat base) ns"
    "int (horner (unat base) ns) = (if sign \<and> sint xx < 0 then - sint xx else uint xx)" by auto
  then show ?thesis using pos False by (simp only: if_False) (intro exI [of _ ns], auto simp: printint_def rev_map)
qed

theorem printint_prints_number_witness:
  "\<exists>ns. printint (- 305) 10 True = Inr (''-'' @ map ((!) kdigits) (rev ns)) \<and>
    numeral_ok 10 ns \<and> int (horner 10 ns) = 305 \<and> length ns < 20"
  using printint_prints_number [of 10 True "- 305"] by simp

section \<open>Reading back a printed number\<close>

lemma digit_char: "d < 10 \<Longrightarrow> of_char (udigits ! d) = (of_nat (48 + d) :: byte)"
  by (simp add: udigits_def less_Suc_eq numeral_eq_Suc) (elim disjE; simp)

definition read_digits :: "nat list \<Rightarrow> int \<Rightarrow> int" where
  "read_digits ds n = foldl (\<lambda>v d. v * 10 + int d) n ds"

lemma read_digits_ge: "0 \<le> n \<Longrightarrow> n \<le> read_digits ds n"
proof (induction ds arbitrary: n)
  case (Cons d ds)
  have "n * 10 + int d \<le> read_digits ds (n * 10 + int d)" using Cons by simp
  then show ?case using Cons.prems by (simp add: read_digits_def)
qed (simp add: read_digits_def)

lemma read_digits_rev: "read_digits (rev ns) 0 = int (horner 10 ns)"
  by (induction ns) (simp_all add: read_digits_def)

lemma digit_byte: "d < 10 \<Longrightarrow> uint (of_nat (48 + d) :: byte) = 48 + int d" "d < 10 \<Longrightarrow> (48 :: byte) \<le> of_nat (48 + d)"
  "d < 10 \<Longrightarrow> of_nat (48 + d) \<le> (57 :: byte)"
  by (simp_all add: less_Suc_eq numeral_eq_Suc) (elim disjE; simp)+

lemma atoi_digits:
  "cstr m a (map (\<lambda>d. of_nat (48 + d)) ds) \<Longrightarrow> \<forall>d \<in> set ds. d < 10 \<Longrightarrow> 0 \<le> n \<Longrightarrow> ds \<noteq> [] \<or> n + 48 < 2 ^ 31 \<Longrightarrow>
     atoi_from m a n = Some (if read_digits ds n + 48 < 2 ^ 31 then Inr (read_digits ds n) else Inl Undefined)"
proof (induction ds arbitrary: a n)
  case Nil
  then show ?case by (subst atoi_from.simps) (simp add: read_digits_def)
next
  case (Cons d ds)
  have d: "m a = of_nat (48 + d)" "d < 10" "cstr m (a + 1) (map (\<lambda>d. of_nat (48 + d)) ds)" using Cons.prems by auto
  note b = digit_byte [OF d(2), folded d(1)]
  have s: "read_digits (d # ds) n = read_digits ds (n * 10 + int d)" by (simp add: read_digits_def)
  have le: "n * 10 + int d \<le> read_digits (d # ds) n" unfolding s using Cons.prems(3) by (intro read_digits_ge) simp
  have e: "n * 10 + uint (m a) - 48 = n * 10 + int d" using b(1) by simp
  show ?case
  proof (cases "n * 10 + uint (m a) \<ge> 2 ^ 31")
    case True
    then have "\<not> read_digits (d # ds) n + 48 < 2 ^ 31" using le b(1) by linarith
    then show ?thesis using True b(2,3) by (subst atoi_from.simps) simp
  next
    case False
    then have "n * 10 + int d + 48 < 2 ^ 31" using b(1) by linarith
    then have "atoi_from m (a + 1) (n * 10 + int d) =
        Some (if read_digits ds (n * 10 + int d) + 48 < 2 ^ 31 then Inr (read_digits ds (n * 10 + int d)) else Inl Undefined)"
      using Cons.prems d(3) by (intro Cons.IH) auto
    then show ?thesis using False b(2,3) s by (subst atoi_from.simps) (simp only: e if_True if_False simp_thms)
  qed
qed

lemma user_printint_decimal:
  fixes n :: int
  assumes "- (2 ^ 31) \<le> n" "n < 2 ^ 31"
  shows "\<exists>ns. user_printint (of_int n) 10 True = Inr ((if n < 0 then ''-'' else []) @ map ((!) udigits) (rev ns)) \<and>
    numeral_ok 10 ns \<and> int (horner 10 ns) = \<bar>n\<bar>"
proof -
  let ?x = "of_int n :: u64"
  have s: "sint ?x = n" using assms unfolding int_word_sint by simp
  have u: "uint ?x = n" if "\<not> n < 0" using assms that by (simp add: uint_word_of_int)
  have k: "length udigits = 16" by (simp add: udigits_def)
  from printint_digits [of 10 udigits "n < 0" ?x] k s obtain ns where
    "digit_loop udigits 10 20 (if n < 0 then - ?x else ?x) = Inr (map ((!) udigits) ns)" "n < 0 \<longrightarrow> length ns < 20"
    "numeral_ok 10 ns" "int (horner 10 ns) = \<bar>n\<bar>" using u by auto
  then show ?thesis using s assms by (intro exI [of _ ns]) (auto simp: user_printint_def rev_map)
qed

text \<open>
  Property (C32). What \<open>atoi\<close> makes of a printed number. The user library's \<open>printint\<close> prints every \<^verbatim>\<open>int\<close>, and from the string, wherever
  in memory it is stored, \<open>atoi\<close> gets the same number if it lies between 0 and 2147483599. It does not know the minus
  sign, so it returns 0 for every negative number, and for the 48 numbers above it adds the last character before it
  subtracts the code of \<^verbatim>\<open>'0'\<close>, which overflows and is undefined.
\<close>

theorem printint_atoi_round_trip:
  assumes "- (2 ^ 31) \<le> n" "n < 2 ^ 31"
  shows "\<exists>out. user_printint (of_int n) 10 True = Inr out \<and>
    (\<forall>m a. cstr m a (map of_char out) \<longrightarrow>
       atoi m a = Some (if n < 0 then Inr 0 else if n < 2147483600 then Inr n else Inl Undefined))"
proof -
  obtain ns where ns: "user_printint (of_int n) 10 True = Inr ((if n < 0 then ''-'' else []) @ map ((!) udigits) (rev ns))"
    "numeral_ok 10 ns" "int (horner 10 ns) = \<bar>n\<bar>" using user_printint_decimal [OF assms] by blast
  let ?out = "map ((!) udigits) (rev ns)"
  have lt: "\<forall>d \<in> set (rev ns). d < 10" "rev ns \<noteq> []" using ns(2) by (simp_all add: numeral_ok_def)
  then have c: "map of_char ?out = map (\<lambda>d. of_nat (48 + d) :: byte) (rev ns)" by (simp add: digit_char del: of_nat_add)
  have "atoi m a = Some (if n < 2147483600 then Inr n else Inl Undefined)" if "\<not> n < 0" "cstr m a (map of_char ?out)" for m a
    using atoi_digits [OF _ lt(1), of m a 0] that lt(2) read_digits_rev [of ns] ns(3) unfolding c by (simp add: atoi_def)
  moreover have "atoi m a = Some (Inr 0)" if "cstr m a (map of_char (''-'' @ ?out))" for m a
    using that by (subst atoi_def, subst atoi_from.simps) simp
  ultimately show ?thesis using ns(1) by (intro exI [of _ "(if n < 0 then ''-'' else []) @ ?out"]) simp
qed

theorem printint_atoi_round_trip_witness:
  "(\<exists>out. user_printint (of_int 4711) 10 True = Inr out \<and>
     (\<forall>m a. cstr m a (map of_char out) \<longrightarrow> atoi m a = Some (Inr 4711))) \<and>
   (\<exists>out. user_printint (of_int (- 5)) 10 True = Inr out \<and>
     (\<forall>m a. cstr m a (map of_char out) \<longrightarrow> atoi m a = Some (Inr 0)))"
  using printint_atoi_round_trip [of 4711] printint_atoi_round_trip [of "- 5"] by simp

section \<open>The kernel's and the user's printf\<close>

lemma digit_loop_decimal: "digit_loop kdigits 10 k x = digit_loop udigits 10 k x"
proof (induction k arbitrary: x)
  case (Suc k)
  have "unat (x mod 10) < 10" using unat_mod_distrib [of x 10] by simp
  then have "kdigits ! unat (x mod 10) = udigits ! unat (x mod 10)" "unat (x mod 10) < length kdigits" "length kdigits = length udigits"
    by (simp_all add: kdigits_def udigits_def) (simp add: less_Suc_eq numeral_eq_Suc; elim disjE; simp)
  then show ?case using Suc by simp
qed simp

lemma printint_decimal: "user_printint xx 10 sign = printint xx 10 sign"
  by (cases "sign \<and> sint xx < 0") (auto simp: user_printint_def printint_def digit_loop_decimal)

lemma of_int_cput: "of_int (cput c) = (of_char c :: byte)"
  by (cases c) (simp add: cput_def)

lemma scast_byte: "(scast (w :: u32) :: byte) = ucast w"
  by (rule bit_word_eqI) (auto simp: bit_simps)

lemma user_conv_of_eq: "user_conv_of c0 c1 c2 = conv_of c0 c1 c2"
  by (simp add: user_conv_of_def conv_of_def)

text \<open>The bytes that a sequence of calls of \<^verbatim>\<open>consputc\<close> sends to the UART.\<close>

definition console_bytes :: "int list \<Rightarrow> byte list" where
  "console_bytes cs = sent (fold consputc cs boot_console)"

lemma sent_consputc: "sent (consputc c k) = sent k @ (if c = 0x100 then [8, 32, 8] else [of_int c])"
  by (simp add: consputc_def uartputc_sync_def)

lemma sent_fold: "sent (fold consputc cs k) = sent k @ console_bytes cs"
proof -
  have *: "sent (fold consputc cs k) = sent k @ concat (map (\<lambda>c. if c = 0x100 then [8, 32, 8] else [of_int c]) cs)" for k
    by (induction cs arbitrary: k) (simp_all add: sent_consputc)
  show ?thesis using * [of k] * [of boot_console] by (simp add: console_bytes_def boot_console_def)
qed

lemma console_bytes_append [simp]: "console_bytes (cs @ ds) = console_bytes cs @ console_bytes ds"
  using sent_fold [of ds "fold consputc cs boot_console"] by (simp add: console_bytes_def)

lemma console_bytes_plain: "0x100 \<notin> set cs \<Longrightarrow> console_bytes cs = map of_int cs"
proof (induction cs)
  case (Cons c cs)
  then show ?case using sent_fold [of cs "consputc c boot_console"]
    by (simp add: console_bytes_def sent_consputc) (simp add: boot_console_def)
qed (simp add: console_bytes_def boot_console_def)

lemma cput_byte: "cput c \<noteq> 256"
proof -
  have "of_char c < (256 :: nat)" by (cases c) (simp add: of_bool_def)
  then show ?thesis unfolding cput_def by linarith
qed

lemma console_bytes_string [simp]: "console_bytes (map cput r) = map of_char r" "console_bytes [cput c] = [of_char c]"
  "console_bytes [cput c, cput d] = [of_char c, of_char d]"
proof -
  have *: "console_bytes (map cput r) = map of_char r" for r
    using cput_byte by (subst console_bytes_plain) (auto simp: of_int_cput dest: sym)
  show "console_bytes (map cput r) = map of_char r" by (rule *)
  show "console_bytes [cput c] = [of_char c]" "console_bytes [cput c, cput d] = [of_char c, of_char d]"
    using * [of "[c]"] * [of "[c, d]"] by simp_all
qed

lemma console_bytes_uint [simp]: "console_bytes (map uint (bs :: byte list)) = bs"
proof -
  have "uint (b :: byte) \<noteq> 0x100" for b using uint_lt2p [of b] by simp
  then show ?thesis by (subst console_bytes_plain) (auto simp: comp_def)
qed

text \<open>
  The conversions of a format, each with the arguments that are left when it is reached, and those for which the two
  implementations print the same: decimal numbers, strings, percent signs, unknown ones, and characters other than the
  value 0x100 that the console takes for a backspace.
\<close>

definition takes_arg :: "conv \<Rightarrow> bool" where
  "takes_arg cv \<longleftrightarrow> cv \<noteq> Percent \<and> cv \<noteq> Unknown"

function conversions :: "string \<Rightarrow> u64 list \<Rightarrow> (conv \<times> u64 list) list" where
  "conversions fmt args =
     (if fmt = [] then []
      else if fmt_at fmt 0 \<noteq> CHR ''%'' then conversions (drop 1 fmt) args
      else if fmt_at fmt 1 = CHR 0x00 then []
      else let (cv, n) = conv_of (fmt_at fmt 1) (fmt_at fmt 2) (fmt_at fmt 3)
           in (cv, args) # conversions (drop (Suc n) fmt) (if takes_arg cv then drop 1 args else args))"
  by pat_completeness auto

termination conversions
  by (relation "measure (\<lambda>(fmt, args). length fmt)") auto

declare conversions.simps [simp del]

definition same_conv :: "conv \<times> u64 list \<Rightarrow> bool" where
  "same_conv d =
     (case d of (cv, args) \<Rightarrow>
      (case cv of Num t base sign \<Rightarrow> base = 10 | Ptr \<Rightarrow> False
       | Chr \<Rightarrow> (case args of [] \<Rightarrow> True | w # ws \<Rightarrow> (ucast w :: u32) \<noteq> 0x100) | _ \<Rightarrow> True))"

lemma sint_0x100: "sint (w :: u32) = 0x100 \<longleftrightarrow> w = 0x100"
  using signed_word_eqI [of w "0x100"] by auto

lemma console_bytes_char: "w \<noteq> 0x100 \<Longrightarrow> console_bytes [sint (w :: u32)] = [ucast w]"
  by (subst console_bytes_plain) (simp_all add: sint_0x100 scast_byte)

lemma user_print_conv_eq:
  "same_conv (cv, args) \<Longrightarrow>
     user_print_conv m c0 cv args = rbind (print_conv m c0 cv args) (\<lambda>(out, ws). Inr (console_bytes out, ws))"
  by (cases cv)
    (auto simp: user_print_conv_def print_conv_def same_conv_def take_arg_def printint_decimal str_arg_def
      console_bytes_char console_bytes_string(1) [of "''(null)''", simplified] rbind_assoc split_beta split: list.splits option.split
      intro!: arg_cong [of _ _ "rbind _"])

lemma print_conv_args:
  "print_conv m c0 cv args = Inr (out, ws) \<Longrightarrow> ws = (if takes_arg cv then drop 1 args else args)"
  by (cases cv; cases args) (auto simp: print_conv_def takes_arg_def take_arg_def split: sum.splits)

lemma fmt_at_simps:
  "fmt_at (c # r) 0 = c" "fmt_at (c # r) 1 = fmt_at r 0" "fmt_at (c # r) (Suc 0) = fmt_at r 0" "fmt_at (c # r) 2 = fmt_at r 1" "fmt_at (c # r) 3 = fmt_at r 2"
  by (simp_all add: fmt_at_def numeral_eq_Suc)

lemma vprintf_plain:
  "vprintf m False (c # r) args =
     (if c = CHR ''%'' then vprintf m True r args else rbind (vprintf m False r args) (\<lambda>out. Inr (of_char c # out)))"
  by (subst vprintf.simps) (simp add: fmt_at_simps)

lemma vprintf_conv:
  "r \<noteq> [] \<Longrightarrow> user_conv_of (fmt_at r 0) (fmt_at r 1) (fmt_at r 2) = (cv, n) \<Longrightarrow>
     vprintf m True r args = rbind (user_print_conv m (fmt_at r 0) cv args) (\<lambda>(out, args).
       rbind (vprintf m False (drop n r) args) (\<lambda>rs. Inr (out @ rs)))"
  by (subst vprintf.simps) simp

lemma printf_plain: "c \<noteq> CHR ''%'' \<Longrightarrow> printf m (c # r) args = rbind (printf m r args) (\<lambda>out. Inr (cput c # out))"
  by (subst printf.simps) (simp add: fmt_at_simps)

lemma printf_conv:
  "fmt_at r 0 \<noteq> CHR 0x00 \<Longrightarrow> conv_of (fmt_at r 0) (fmt_at r 1) (fmt_at r 2) = (cv, n) \<Longrightarrow>
     printf m (CHR ''%'' # r) args = rbind (print_conv m (fmt_at r 0) cv args) (\<lambda>(out, args).
       rbind (printf m (drop n r) args) (\<lambda>rs. Inr (out @ rs)))"
  by (subst printf.simps) (simp add: fmt_at_simps)

lemma conversions_step:
  "c \<noteq> CHR ''%'' \<Longrightarrow> conversions (c # r) args = conversions r args"
  "fmt_at r 0 \<noteq> CHR 0x00 \<Longrightarrow> conv_of (fmt_at r 0) (fmt_at r 1) (fmt_at r 2) = (cv, n) \<Longrightarrow>
     conversions (CHR ''%'' # r) args = (cv, args) # conversions (drop n r) (if takes_arg cv then drop 1 args else args)"
  by (subst conversions.simps; simp add: fmt_at_simps)+

text \<open>
  Property (C28). The two implementations of \<open>printf\<close> agree. For every format (a string without NUL) whose conversions are not
  hexadecimal (those differ: the kernel prints lower-case digits) and in which no \<^verbatim>\<open>%c\<close> is given the value 0x100 (which the
  kernel's console takes for a backspace), the state machine of the user library writes exactly the bytes that the kernel's loop sends to the
  UART, and it fails in the same cases (too few arguments, a string without end, the negation of the least
  number).
\<close>

theorem user_printf_equals_kernel_printf:
  assumes "CHR 0x00 \<notin> set fmt" "\<forall>d \<in> set (conversions fmt args). same_conv d"
  shows "vprintf m False fmt args = rbind (printf m fmt args) (\<lambda>out. Inr (console_bytes out))"
  using assms
proof (induction "length fmt" arbitrary: fmt args rule: less_induct)
  case less
  show ?case
  proof (cases fmt)
    case Nil
    then show ?thesis by (simp add: vprintf.simps printf.simps console_bytes_plain)
  next
    case (Cons c r)
    have IH: "vprintf m False (drop k r) ws = rbind (printf m (drop k r) ws) (\<lambda>out. Inr (console_bytes out))"
      if "\<forall>d \<in> set (conversions (drop k r) ws). same_conv d" for k ws
      using less.prems(1) that by (intro less.hyps) (auto simp: Cons dest: in_set_dropD)
    consider "c \<noteq> CHR ''%''" | "c = CHR ''%''" "r = []" | "c = CHR ''%''" "r \<noteq> []" by blast
    then show ?thesis
    proof cases
      case 1
      then show ?thesis using IH [of 0 args] less.prems(2) console_bytes_append [of "[cput c]"]
        unfolding Cons by (simp add: vprintf_plain printf_plain rbind_assoc conversions_step)
    next
      case 2
      then show ?thesis unfolding Cons
        by (simp add: vprintf_plain vprintf.simps [of m True] printf.simps fmt_at_simps fmt_at_def console_bytes_plain)
    next
      case 3
      obtain cv n where cv: "conv_of (fmt_at r 0) (fmt_at r 1) (fmt_at r 2) = (cv, n)" by fastforce
      have nz: "fmt_at r 0 \<noteq> CHR 0x00" using 3(2) less.prems(1) Cons by (cases r) (auto simp: fmt_at_def)
      have same: "same_conv (cv, args)" "\<forall>d \<in> set (conversions (drop n r) (if takes_arg cv then drop 1 args else args)). same_conv d"
        using less.prems(2) unfolding Cons 3(1) conversions_step(2) [OF nz cv] by simp_all
      show ?thesis
        unfolding Cons 3(1) vprintf_plain if_P [OF refl] vprintf_conv [OF 3(2) cv [folded user_conv_of_eq]] printf_conv [OF nz cv]
          user_print_conv_eq [OF same(1)]
        using IH [OF same(2)] print_conv_args [of m "fmt_at r 0" cv args]
        by (cases "print_conv m (fmt_at r 0) cv args") (auto simp: rbind_assoc)
    qed
  qed
qed

theorem user_printf_equals_kernel_printf_witness:
  "vprintf (\<lambda>_. 0) False ''max=%d%%%c'' [42, 65] = rbind (printf (\<lambda>_. 0) ''max=%d%%%c'' [42, 65]) (\<lambda>out. Inr (console_bytes out))"
  by (rule user_printf_equals_kernel_printf)
    (simp_all add: conversions.simps fmt_at_def conv_of_def takes_arg_def same_conv_def)

end
