(* ===== verification/Grep.thy ===== *)
theory Grep
  imports Prelude
begin

text \<open>
  The pattern matcher and the line filter of \<^verbatim>\<open>user/grep.c\<close>. C strings are lists of characters
  without the terminating NUL; \<open>at0 s i\<close> is \<^verbatim>\<open>s[i]\<close>, which is NUL at the end of the string.
\<close>

definition NUL :: char where "NUL = CHR 0x00"

definition at0 :: "string \<Rightarrow> nat \<Rightarrow> char" where
  "at0 s i = (if i < length s then s ! i else NUL)"

section \<open>The matcher\<close>

function matchhere :: "string \<Rightarrow> string \<Rightarrow> bool"
  and matchstar :: "char \<Rightarrow> string \<Rightarrow> string \<Rightarrow> bool" where
  "matchhere re tx =
     (if re = [] then True
      else if at0 re 1 = CHR ''*'' then matchstar (at0 re 0) (drop 2 re) tx
      else if at0 re 0 = CHR ''$'' \<and> length re = 1 then tx = []
      else if tx \<noteq> [] \<and> (at0 re 0 = CHR ''.'' \<or> at0 re 0 = at0 tx 0) then matchhere (drop 1 re) (drop 1 tx)
      else False)"
| "matchstar c re tx =
     (if matchhere re tx then True
      else if tx \<noteq> [] \<and> (at0 tx 0 = c \<or> c = CHR ''.'') then matchstar c re (drop 1 tx)
      else False)"
  by pat_completeness auto

termination
  by (relation "measures
        [case_sum (\<lambda>(re, t). length re) (\<lambda>(c, re, t). length re),
         case_sum (\<lambda>(re, t). length t) (\<lambda>(c, re, t). length t),
         case_sum (\<lambda>_. 0) (\<lambda>_. 1)]") auto

declare matchhere.simps [simp del] matchstar.simps [simp del]

fun match_from :: "string \<Rightarrow> string \<Rightarrow> bool" where
  "match_from re tx =
     (if matchhere re tx then True else case tx of [] \<Rightarrow> False | _ # tx' \<Rightarrow> match_from re tx')"

declare match_from.simps [simp del]

definition match_re :: "string \<Rightarrow> string \<Rightarrow> bool" where
  "match_re re tx = (if at0 re 0 = CHR ''^'' then matchhere (drop 1 re) tx else match_from re tx)"

section \<open>What a pattern means\<close>

text \<open>A pattern is a sequence of atoms, each a character, a dot or one of these under a star.\<close>

datatype item = One char | Many char

fun items :: "string \<Rightarrow> item list" where
  "items [] = []"
| "items [c] = (if c = CHR ''$'' then [] else [One c])"
| "items (c # d # re) = (if d = CHR ''*'' then Many c # items re else One c # items (d # re))"

fun end_anchored :: "string \<Rightarrow> bool" where
  "end_anchored [] = False"
| "end_anchored [c] = (c = CHR ''$'')"
| "end_anchored (c # d # re) = (if d = CHR ''*'' then end_anchored re else end_anchored (d # re))"

definition atom_ok :: "char \<Rightarrow> char \<Rightarrow> bool" where
  "atom_ok c x \<longleftrightarrow> c = CHR ''.'' \<or> c = x"

fun item_lang :: "item \<Rightarrow> string set" where
  "item_lang (One c) = {[x] |x. atom_ok c x}"
| "item_lang (Many c) = {xs. \<forall>x \<in> set xs. atom_ok c x}"

fun items_lang :: "item list \<Rightarrow> string set" where
  "items_lang [] = {[]}"
| "items_lang (i # is) = {xs @ ys |xs ys. xs \<in> item_lang i \<and> ys \<in> items_lang is}"

text \<open>\<open>tx\<close> begins with a word of the pattern, and ends with it if the pattern ends with \<open>$\<close>.\<close>

definition here_spec :: "string \<Rightarrow> string \<Rightarrow> bool" where
  "here_spec re tx \<longleftrightarrow> (\<exists>mid post. tx = mid @ post \<and> mid \<in> items_lang (items re) \<and>
     (end_anchored re \<longrightarrow> post = []))"

lemma items_langI: "xs \<in> item_lang i \<Longrightarrow> ys \<in> items_lang is \<Longrightarrow> xs @ ys \<in> items_lang (i # is)"
  by auto

lemma here_spec_Nil: "here_spec [] tx"
  by (simp add: here_spec_def)

lemma here_spec_dollar: "here_spec [CHR ''$''] tx \<longleftrightarrow> tx = []"
  by (auto simp: here_spec_def)

lemma here_spec_one:
  assumes "length re = 0 \<longrightarrow> c \<noteq> CHR ''$''" "at0 re 0 \<noteq> CHR ''*''"
  shows "here_spec (c # re) tx \<longleftrightarrow> (\<exists>x t. tx = x # t \<and> atom_ok c x \<and> here_spec re t)"
proof -
  have i: "items (c # re) = One c # items re" "end_anchored (c # re) = end_anchored re"
    using assms by (cases re; simp add: at0_def)+
  show ?thesis
  proof
    assume "here_spec (c # re) tx"
    then obtain m post where m: "tx = m @ post" "m \<in> items_lang (One c # items re)" "end_anchored re \<longrightarrow> post = []"
      unfolding here_spec_def i by blast
    then obtain x ys where x: "m = [x] @ ys" "atom_ok c x" "ys \<in> items_lang (items re)" by auto
    have "here_spec re (ys @ post)" unfolding here_spec_def using m(3) x(3) by blast
    then show "\<exists>x t. tx = x # t \<and> atom_ok c x \<and> here_spec re t"
      using m(1) x by (intro exI [of _ x] exI [of _ "ys @ post"]) simp
  next
    assume "\<exists>x t. tx = x # t \<and> atom_ok c x \<and> here_spec re t"
    then obtain x t where x: "tx = x # t" "atom_ok c x" "here_spec re t" by blast
    then obtain mid post where m: "t = mid @ post" "mid \<in> items_lang (items re)" "end_anchored re \<longrightarrow> post = []"
      unfolding here_spec_def by blast
    have "[x] @ mid \<in> items_lang (One c # items re)" by (rule items_langI) (use x m in auto)
    then show "here_spec (c # re) tx" unfolding here_spec_def i using m x(1)
      by (intro exI [of _ "x # mid"] exI [of _ post]) (simp del: items_lang.simps)
  qed
qed

lemma here_spec_many:
  "here_spec (c # CHR ''*'' # re) tx \<longleftrightarrow>
     (\<exists>xs t. tx = xs @ t \<and> (\<forall>x \<in> set xs. atom_ok c x) \<and> here_spec re t)"
proof
  assume "here_spec (c # CHR ''*'' # re) tx"
  then obtain m post where m: "tx = m @ post" "m \<in> items_lang (Many c # items re)" "end_anchored re \<longrightarrow> post = []"
    unfolding here_spec_def by auto
  then obtain xs ys where x: "m = xs @ ys" "\<forall>x \<in> set xs. atom_ok c x" "ys \<in> items_lang (items re)" by auto
  have "here_spec re (ys @ post)" unfolding here_spec_def using m(3) x(3) by blast
  then show "\<exists>xs t. tx = xs @ t \<and> (\<forall>x \<in> set xs. atom_ok c x) \<and> here_spec re t"
    using m(1) x by (intro exI [of _ xs] exI [of _ "ys @ post"]) simp
next
  assume "\<exists>xs t. tx = xs @ t \<and> (\<forall>x \<in> set xs. atom_ok c x) \<and> here_spec re t"
  then obtain xs t where x: "tx = xs @ t" "\<forall>x \<in> set xs. atom_ok c x" "here_spec re t" by blast
  then obtain mid post where m: "t = mid @ post" "mid \<in> items_lang (items re)" "end_anchored re \<longrightarrow> post = []"
    unfolding here_spec_def by blast
  have "xs @ mid \<in> items_lang (Many c # items re)" by (rule items_langI) (use x m in auto)
  then show "here_spec (c # CHR ''*'' # re) tx" unfolding here_spec_def using m x(1)
    by (intro exI [of _ "xs @ mid"] exI [of _ post]) (simp del: items_lang.simps)
qed

lemma star_step:
  "(\<exists>xs t. tx = xs @ t \<and> (\<forall>x \<in> set xs. atom_ok c x) \<and> P t) \<longleftrightarrow>
     P tx \<or> (\<exists>x u. tx = x # u \<and> atom_ok c x \<and> (\<exists>xs t. u = xs @ t \<and> (\<forall>x \<in> set xs. atom_ok c x) \<and> P t))"
  (is "?l \<longleftrightarrow> ?r")
proof
  assume ?l
  then obtain xs t where "tx = xs @ t" "\<forall>x \<in> set xs. atom_ok c x" "P t" by blast
  then show ?r by (cases xs) auto
next
  assume ?r
  then show ?l
  proof
    assume "P tx"
    then show ?l by (intro exI [of _ "[]"] exI [of _ tx]) simp
  next
    assume "\<exists>x u. tx = x # u \<and> atom_ok c x \<and> (\<exists>xs t. u = xs @ t \<and> (\<forall>x \<in> set xs. atom_ok c x) \<and> P t)"
    then obtain x xs t where "tx = (x # xs) @ t" "atom_ok c x" "\<forall>x \<in> set xs. atom_ok c x" "P t" by auto
    then show ?l by (intro exI [of _ "x # xs"] exI [of _ t]) simp
  qed
qed

lemma match_correct:
  "matchhere re tx \<longleftrightarrow> here_spec re tx"
  "matchstar c re tx \<longleftrightarrow> (\<exists>xs t. tx = xs @ t \<and> (\<forall>x \<in> set xs. atom_ok c x) \<and> here_spec re t)"
proof (induction re tx and c re tx rule: matchhere_matchstar.induct)
  case (1 re tx)
  show ?case
  proof (cases re)
    case Nil
    then show ?thesis by (simp add: matchhere.simps here_spec_Nil)
  next
    case (Cons c re')
    consider (star) "at0 re 1 = CHR ''*''" | (dollar) "at0 re 1 \<noteq> CHR ''*''" "c = CHR ''$''" "re' = []"
      | (one) "at0 re 1 \<noteq> CHR ''*''" "\<not> (c = CHR ''$'' \<and> re' = [])" by blast
    then show ?thesis
    proof cases
      case star
      then obtain re'' where "re = c # CHR ''*'' # re''" using Cons by (cases re') (auto simp: at0_def NUL_def)
      then show ?thesis using "1.IH"(1) by (simp add: matchhere.simps [of "c # CHR ''*'' # re''"] here_spec_many at0_def)
    next
      case dollar
      then show ?thesis using Cons here_spec_dollar [of tx] by (simp add: matchhere.simps [of "''$''"] at0_def NUL_def)
    next
      case one
      then have h: "at0 re' 0 \<noteq> CHR ''*''" "length re' = 0 \<longrightarrow> c \<noteq> CHR ''$''" using Cons by (auto simp: at0_def split: if_splits)
      have "matchhere re tx \<longleftrightarrow> tx \<noteq> [] \<and> (c = CHR ''.'' \<or> c = at0 tx 0) \<and> matchhere re' (drop 1 tx)"
        using one Cons by (subst matchhere.simps) (auto simp: at0_def)
      also have "\<dots> \<longleftrightarrow> (\<exists>x t. tx = x # t \<and> atom_ok c x \<and> here_spec re' t)"
        using "1.IH"(2) one Cons by (cases tx) (auto simp: at0_def atom_ok_def)
      finally show ?thesis using here_spec_one [OF h(2,1)] Cons by simp
    qed
  qed
next
  case (2 c re tx)
  then show ?case
    by (subst star_step, subst matchstar.simps) (cases tx; auto simp: at0_def atom_ok_def)
qed

lemma match_from_correct: "match_from re tx \<longleftrightarrow> (\<exists>pre t. tx = pre @ t \<and> here_spec re t)"
proof (induction re tx rule: match_from.induct)
  case (1 re tx)
  show ?case
  proof (cases tx)
    case Nil
    then show ?thesis by (simp add: match_from.simps match_correct)
  next
    case (Cons x t)
    have "(\<exists>pre u. tx = pre @ u \<and> here_spec re u) \<longleftrightarrow> here_spec re tx \<or> (\<exists>pre u. t = pre @ u \<and> here_spec re u)"
      unfolding Cons by (metis append_Cons append_Nil append_eq_Cons_conv)
    then show ?thesis using 1 Cons by (auto simp: match_from.simps [of re "x # t"] match_correct)
  qed
qed

text \<open>
  Property (C20). The matcher decides the language of the pattern. \<open>match\<close> terminates on every pattern
  and tx and returns true exactly when the tx has a factor in the language of the pattern's
  atoms, at the start if the pattern begins with \<open>^\<close> and at the end if it ends with \<open>$\<close>.
\<close>

theorem grep_match_correct:
  "match_re re tx \<longleftrightarrow>
     (\<exists>pre mid post. tx = pre @ mid @ post \<and>
        mid \<in> items_lang (items (if at0 re 0 = CHR ''^'' then drop 1 re else re)) \<and>
        (at0 re 0 = CHR ''^'' \<longrightarrow> pre = []) \<and>
        (end_anchored (if at0 re 0 = CHR ''^'' then drop 1 re else re) \<longrightarrow> post = []))"
  by (auto simp: match_re_def match_correct match_from_correct here_spec_def)

theorem grep_match_correct_witness: "match_re ''^a.*c$'' ''abbc''"
proof -
  have c: "at0 ''^a.*c$'' 0 = CHR ''^''" "drop 1 ''^a.*c$'' = ''a.*c$''" "items ''a.*c$'' = [One CHR ''a'', Many CHR ''.'', One CHR ''c'']"
    by (simp_all add: at0_def)
  have "''a'' @ ''bb'' @ ''c'' @ [] \<in> items_lang [One CHR ''a'', Many CHR ''.'', One CHR ''c'']"
    by (intro items_langI) (simp_all add: atom_ok_def)
  then have "''abbc'' \<in> items_lang (items ''a.*c$'')" by (simp only: c(3) append.simps)
  then show ?thesis
    unfolding grep_match_correct c(1) if_P [OF refl] c(2)
    by (intro exI [of _ "[]"] exI [of _ "''abbc''"] conjI) simp_all
qed

section \<open>The line filter\<close>

fun strchr :: "string \<Rightarrow> char \<Rightarrow> nat option" where
  "strchr [] c = None"
| "strchr (x # s) c = (if x = c then Some 0 else map_option Suc (strchr s c))"

lemma strchr_Some: "strchr s c = Some k \<Longrightarrow> k < length s \<and> s ! k = c \<and> c \<notin> set (take k s)"
proof (induction s arbitrary: k)
  case (Cons x s)
  then show ?case by (cases k) (auto split: if_splits)
qed simp

lemma strchr_None: "strchr s c = None \<longleftrightarrow> c \<notin> set s"
  by (induction s) auto

lemma strchr_append: "strchr s c = Some k \<Longrightarrow> strchr (s @ t) c = Some k"
  by (induction s arbitrary: k) (auto split: if_splits)

text \<open>The string that starts at \<open>p\<close> in the buffer ends at the first NUL.\<close>

definition cstring :: "string \<Rightarrow> string" where
  "cstring p = takeWhile (\<lambda>c. c \<noteq> NUL) p"

abbreviation nl :: char where "nl \<equiv> CHR 0x0A"

text \<open>
  The inner loop on the bytes \<open>p\<close> of the buffer: the lines written to the output, and the bytes
  left over, which the next round keeps at the start of the buffer.
\<close>

function grep_scan :: "string \<Rightarrow> string \<Rightarrow> string \<times> string" where
  "grep_scan pattern p =
     (case strchr (cstring p) nl of
        None \<Rightarrow> ([], p)
      | Some k \<Rightarrow>
          (let (out, rest) = grep_scan pattern (drop (Suc k) p)
           in ((if match_re pattern (take k p) then take (Suc k) p else []) @ out, rest)))"
  by pat_completeness auto

lemma cstring_length: "length (cstring p) \<le> length p"
  by (simp add: cstring_def length_takeWhile_le)

termination grep_scan
proof (relation "measure (\<lambda>(re, p). length p)")
  fix pattern p k
  assume "strchr (cstring p) nl = Some k"
  then have "k < length p" using strchr_Some cstring_length order_less_le_trans by blast
  then show "((pattern, drop (Suc k) p), pattern, p) \<in> measure (\<lambda>(re, p). length p)" by simp
qed simp

declare grep_scan.simps [simp del]

text \<open>
  The outer loop. \<open>m\<close> is what the round before kept at the start of \<^verbatim>\<open>buf\<close>, \<open>inp\<close> is what is left of the
  file and \<open>chunk i\<close> is the number of bytes that are available to call number \<open>i\<close> of \<^verbatim>\<open>read\<close>. The call returns
  no more than these, than the rest of the file and than the space of \<^verbatim>\<open>sizeof(buf)-m-1\<close> bytes it is given; a result of 0
  (or less) ends the loop.
\<close>

definition read_size :: "string \<Rightarrow> nat" where
  "read_size m = 1024 - length m - 1"

function grep_run :: "string \<Rightarrow> (nat \<Rightarrow> nat) \<Rightarrow> nat \<Rightarrow> string \<Rightarrow> string \<Rightarrow> string" where
  "grep_run pattern chunk i m inp =
     (let n = min (chunk i) (min (read_size m) (length inp))
      in if n = 0 then []
         else let (out, rest) = grep_scan pattern (m @ take n inp)
              in out @ grep_run pattern chunk (Suc i) rest (drop n inp))"
  by pat_completeness auto

termination grep_run
  by (relation "measure (\<lambda>(re, c, i, m, inp). length inp)") auto

declare grep_run.simps [simp del]

definition grep :: "string \<Rightarrow> (nat \<Rightarrow> nat) \<Rightarrow> string \<Rightarrow> string" where
  "grep pattern chunk inp = grep_run pattern chunk 0 [] inp"

lemma cstring_id: "NUL \<notin> set p \<Longrightarrow> cstring p = p"
  by (auto simp: cstring_def takeWhile_eq_all_conv)

definition unlines :: "string list \<Rightarrow> string" where
  "unlines ls = concat (map (\<lambda>l. l @ [nl]) ls)"

lemma strchr_line: "nl \<notin> set l \<Longrightarrow> strchr (l @ nl # r) nl = Some (length l)"
  by (induction l) auto

lemma grep_scan_lines:
  "\<forall>l \<in> set ls. nl \<notin> set l \<Longrightarrow> nl \<notin> set r \<Longrightarrow> NUL \<notin> set (unlines ls @ r) \<Longrightarrow>
     grep_scan re (unlines ls @ r) = (unlines (filter (match_re re) ls), r)"
proof (induction ls)
  case Nil
  have "strchr r nl = None" using Nil.prems(2) by (simp add: strchr_None)
  then show ?case using Nil.prems(3) by (simp add: unlines_def grep_scan.simps [of re r] cstring_id)
next
  case (Cons l ls)
  have u: "unlines (l # ls) @ r = l @ nl # unlines ls @ r" by (simp add: unlines_def)
  have c: "cstring (l @ nl # unlines ls @ r) = l @ nl # unlines ls @ r" using Cons.prems(3) unfolding u by (rule cstring_id)
  have s: "strchr (cstring (l @ nl # unlines ls @ r)) nl = Some (length l)"
    unfolding c using Cons.prems(1) by (intro strchr_line) simp
  have "grep_scan re (unlines ls @ r) = (unlines (filter (match_re re) ls), r)" using Cons by (simp add: unlines_def)
  moreover have "unlines (filter (match_re re) (l # ls)) = (if match_re re l then l @ [nl] else []) @ unlines (filter (match_re re) ls)"
    by (simp add: unlines_def)
  ultimately show ?case unfolding u by (subst grep_scan.simps) (simp add: s)
qed

lemma unlines_simps [simp]: "unlines [] = []" "unlines (l # ls) = l @ nl # unlines ls" "unlines (ls @ ks) = unlines ls @ unlines ks"
  by (simp_all add: unlines_def)

lemma length_line: "l \<in> set ls \<Longrightarrow> length l < length (unlines ls)"
  by (induction ls) auto

text \<open>A prefix of a text consists of complete lines and the beginning of a line.\<close>

lemma unlines_split:
  assumes "P @ Q = unlines ls @ r" "\<forall>l \<in> set ls. nl \<notin> set l" "nl \<notin> set r"
  shows "\<exists>ls1 ls2 r1. ls = ls1 @ ls2 \<and> P = unlines ls1 @ r1 \<and> nl \<notin> set r1 \<and> r1 @ Q = unlines ls2 @ r"
  using assms
proof (induction ls arbitrary: P)
  case Nil
  then have "nl \<notin> set P" by (metis append_Nil in_set_conv_decomp_first Un_iff set_append unlines_simps(1))
  then show ?case using Nil.prems(1) by (intro exI [of _ "[]"] exI [of _ P]) simp
next
  case (Cons l ls)
  show ?case
  proof (cases "length P \<le> length l")
    case True
    then have "P = take (length P) l" using Cons.prems(1) by (metis append_eq_conv_conj take_append unlines_simps(2) append_assoc
      append.simps(1) diff_is_0_eq take_0 append_Nil2)
    then have "nl \<notin> set P" using Cons.prems(2) by (metis in_set_takeD list.set_intros(1))
    then show ?thesis using Cons.prems(1) by (intro exI [of _ "[]"] exI [of _ "l # ls"] exI [of _ P]) simp
  next
    case False
    then obtain P' where P: "P = l @ nl # P'" using Cons.prems(1)
      by (auto simp: append_eq_append_conv2 append_eq_Cons_conv)
    then have "P' @ Q = unlines ls @ r" using Cons.prems(1) by simp
    then obtain ls1 ls2 r1 where "ls = ls1 @ ls2" "P' = unlines ls1 @ r1" "nl \<notin> set r1" "r1 @ Q = unlines ls2 @ r"
      using Cons.IH [of P'] Cons.prems(2,3) by auto
    then show ?thesis using P by (intro exI [of _ "l # ls1"] exI [of _ ls2] exI [of _ r1]) simp
  qed
qed

definition line_fits :: "string \<Rightarrow> bool" where
  "line_fits l \<longleftrightarrow> length l < 1023"

text \<open>
  The invariant of the loop: what was kept has no newline, so it is the beginning of the next line. The loop ends
  when the input does, or when the kept bytes fill the buffer.
\<close>

lemma grep_run_lines:
  assumes "m @ inp = unlines ls @ r" "nl \<notin> set m" "length m \<le> 1023"
    and "\<forall>l \<in> set ls. nl \<notin> set l" "nl \<notin> set r" "NUL \<notin> set (m @ inp)" "\<And>i. 0 < chunk i"
  shows "grep_run re chunk i m inp = unlines (filter (match_re re) (takeWhile line_fits ls))"
  using assms(1-6)
proof (induction "length inp" arbitrary: i m inp ls rule: less_induct)
  case less
  define n where "n = min (chunk i) (min (read_size m) (length inp))"
  show ?case
  proof (cases "n = 0")
    case True
    then have "read_size m = 0 \<or> inp = []" using assms(7) [of i] by (auto simp: n_def min_def split: if_splits)
    then have "takeWhile line_fits ls = []"
    proof
      assume "inp = []"
      then have "ls = []" using less.prems(1,2) by (cases ls) auto
      then show ?thesis by simp
    next
      assume "read_size m = 0"
      then have full: "length m = 1023" using less.prems(3) by (simp add: read_size_def)
      have "\<not> line_fits l" if "ls = l # ls'" for l ls'
      proof
        assume "line_fits l"
        then have "m ! length l = (unlines ls @ r) ! length l" "length l < length m"
          using full less.prems(1) by (simp_all add: line_fits_def flip: less.prems(1)) (simp add: nth_append)
        then show False using that less.prems(2) by (auto simp: in_set_conv_nth)
      qed
      then show ?thesis by (cases ls) auto
    qed
    then show ?thesis using True by (subst grep_run.simps) (simp add: n_def)
  next
    case False
    let ?P = "m @ take n inp" and ?Q = "drop n inp"
    have n: "0 < n" "n \<le> length inp" "n \<le> read_size m" using False by (auto simp: n_def)
    have "?P @ ?Q = unlines ls @ r" using less.prems(1) by simp
    from unlines_split [OF this less.prems(4,5)] obtain ls1 ls2 r1
      where s: "ls = ls1 @ ls2" "?P = unlines ls1 @ r1" "nl \<notin> set r1" "r1 @ ?Q = unlines ls2 @ r" by blast
    have len: "length ?P \<le> 1023" using n less.prems(3) by (simp add: read_size_def)
    have fits: "\<forall>l \<in> set ls1. line_fits l"
      using length_line [of _ ls1] len unfolding s(2) line_fits_def by fastforce
    have nul: "NUL \<notin> set ?P" "NUL \<notin> set ?Q" using less.prems(6) by (auto dest: in_set_takeD in_set_dropD)
    have scan: "grep_scan re ?P = (unlines (filter (match_re re) ls1), r1)"
      unfolding s(2) using less.prems(4) s nul(1) by (intro grep_scan_lines) auto
    have "NUL \<notin> set (r1 @ ?Q)" using nul unfolding s(2) by simp
    then have "grep_run re chunk (Suc i) r1 ?Q = unlines (filter (match_re re) (takeWhile line_fits ls2))"
      using less.prems(4,5) s n len by (intro less.hyps) auto
    moreover have "takeWhile line_fits ls = ls1 @ takeWhile line_fits ls2"
      unfolding s(1) using fits by (intro takeWhile_append2) blast
    ultimately show ?thesis using False scan by (subst grep_run.simps) (simp add: n_def [symmetric] Let_def)
  qed
qed

text \<open>
  Property (C30). \<open>grep\<close> prints exactly the matching lines up to the first line that does not fit into its buffer. The
  input is a text without NUL bytes that consists of the lines \<open>ls\<close> and an unfinished line \<open>r\<close>, and every call of \<^verbatim>\<open>read\<close> finds at
  least one byte as long as there is input, so that it may arrive in any division, also in the middle of lines. Then the output is the matching
  lines among those before the first line of 1023 bytes or more, in order and each with its newline. At such a line the
  call of \<^verbatim>\<open>read\<close> is given no space, returns 0 and ends the program, and no later line is printed; the unfinished line is
  not examined.
\<close>

theorem grep_prints_matching_lines:
  assumes "inp = unlines ls @ r" "\<forall>l \<in> set ls. nl \<notin> set l" "nl \<notin> set r" "NUL \<notin> set inp" "\<And>i. 0 < chunk i"
  shows "grep pattern chunk inp = unlines (filter (match_re pattern) (takeWhile (\<lambda>l. length l < 1023) ls))"
  using grep_run_lines [of "[]" inp ls r chunk pattern 0] assms by (simp add: grep_def line_fits_def [abs_def])

theorem grep_prints_matching_lines_witness:
  "grep ''b'' (\<lambda>i. if i = 0 then 1 else 3) (unlines [''ab'', ''c'', replicate 1023 CHR ''d'', ''b''] @ ''b'') = unlines [''ab'']"
proof -
  have "match_re ''b'' ''ab''" "\<not> match_re ''b'' ''c''"
    by (simp_all add: match_re_def at0_def NUL_def match_from.simps matchhere.simps)
  then show ?thesis
    using grep_prints_matching_lines [of "unlines [''ab'', ''c'', replicate 1023 CHR ''d'', ''b''] @ ''b''"
        "[''ab'', ''c'', replicate 1023 CHR ''d'', ''b'']" "''b''" "\<lambda>i. if i = 0 then 1 else 3" "''b''"]
    by (simp add: NUL_def)
qed

end
