(* ===== verification/Kalloc.thy ===== *)
theory Kalloc
  imports Log CString
begin

text \<open>
  Physical pages: the free list, the frame table with its clock hand, and swapping
  (\<^verbatim>\<open>kernel/kalloc.c\<close>). The free list is linked through the free pages themselves, so it lives in \<open>mem\<close>.
  The symbol \<^verbatim>\<open>end\<close> that the linker defines is the field \<open>kend\<close>, which no operation changes.
\<close>

section \<open>Words in memory and page table entries\<close>

definition load64 :: "memory \<Rightarrow> u64 \<Rightarrow> u64" where
  "load64 m a =
     ucast (m a) OR push_bit 8 (ucast (m (a + 1))) OR push_bit 16 (ucast (m (a + 2))) OR
     push_bit 24 (ucast (m (a + 3))) OR push_bit 32 (ucast (m (a + 4))) OR push_bit 40 (ucast (m (a + 5))) OR
     push_bit 48 (ucast (m (a + 6))) OR push_bit 56 (ucast (m (a + 7)))"

definition le64 :: "u64 \<Rightarrow> byte list" where
  "le64 v = [ucast v, ucast (drop_bit 8 v), ucast (drop_bit 16 v), ucast (drop_bit 24 v),
     ucast (drop_bit 32 v), ucast (drop_bit 40 v), ucast (drop_bit 48 v), ucast (drop_bit 56 v)]"

definition store64 :: "memory \<Rightarrow> u64 \<Rightarrow> u64 \<Rightarrow> memory" where
  "store64 m a v = mem_write m a (le64 v)"

abbreviation (input) PTE_V :: u64 where "PTE_V \<equiv> 1"
abbreviation (input) PTE_R :: u64 where "PTE_R \<equiv> 2"
abbreviation (input) PTE_W :: u64 where "PTE_W \<equiv> 4"
abbreviation (input) PTE_X :: u64 where "PTE_X \<equiv> 8"
abbreviation (input) PTE_U :: u64 where "PTE_U \<equiv> 16"
abbreviation (input) PTE_SWAPPED :: u64 where "PTE_SWAPPED \<equiv> 256"
abbreviation (input) KERNBASE :: u64 where "KERNBASE \<equiv> 0x80000000"
abbreviation (input) PHYSTOP :: u64 where "PHYSTOP \<equiv> 0x88000000"
abbreviation (input) MAXVA :: u64 where "MAXVA \<equiv> 0x4000000000"
abbreviation (input) PGSZ :: u64 where "PGSZ \<equiv> 4096"

definition PGROUNDUP :: "u64 \<Rightarrow> u64" where
  "PGROUNDUP a = (a + PGSZ - 1) AND NOT (PGSZ - 1)"

definition PGROUNDDOWN :: "u64 \<Rightarrow> u64" where
  "PGROUNDDOWN a = a AND NOT (PGSZ - 1)"

definition PA2PTE :: "u64 \<Rightarrow> u64" where
  "PA2PTE pa = push_bit 10 (drop_bit 12 pa)"

definition PTE2PA :: "u64 \<Rightarrow> u64" where
  "PTE2PA pte = push_bit 12 (drop_bit 10 pte)"

definition PTE_FLAGS :: "u64 \<Rightarrow> u64" where
  "PTE_FLAGS pte = pte AND 0x3FF"

definition PX :: "nat \<Rightarrow> u64 \<Rightarrow> u64" where
  "PX level va = drop_bit (12 + 9 * level) va AND 0x1FF"

text \<open>The address of the entry for \<open>va\<close> in a page table page.\<close>

definition pte_addr :: "u64 \<Rightarrow> nat \<Rightarrow> u64 \<Rightarrow> u64" where
  "pte_addr pt level va = pt + 8 * PX level va"

text \<open>The loop of \<open>walk\<close> with \<open>alloc = 0\<close>; the null pointer is 0.\<close>

fun walk_from :: "memory \<Rightarrow> nat \<Rightarrow> u64 \<Rightarrow> u64 \<Rightarrow> u64" where
  "walk_from m 0 pt va = pte_addr pt 0 va"
| "walk_from m (Suc level) pt va =
     (let pte = load64 m (pte_addr pt (Suc level) va)
      in if pte AND PTE_V \<noteq> 0 then walk_from m level (PTE2PA pte) va else 0)"

definition walk_lookup :: "memory \<Rightarrow> u64 \<Rightarrow> u64 \<Rightarrow> u64 res" where
  "walk_lookup m pt va = (if va \<ge> MAXVA then Inl (Panic ''walk'') else Inr (walk_from m 2 pt va))"

section \<open>State and operations\<close>

record frame =
  fr_in_use :: bool
  fr_p :: "nat option"
  fr_reference_bit :: bool
  fr_va :: u64

record kstate = lstate +
  kend :: u64
  freelist :: u64
  frames :: "frame list"
  swap_space :: "bool list"
  clock_hand :: nat

definition frame_index :: "u64 \<Rightarrow> nat" where
  "frame_index pa = unat (ucast (drop_bit 12 (pa - KERNBASE)) :: u32)"

definition kfree :: "u64 \<Rightarrow> 'a kstate_scheme \<Rightarrow> 'a kstate_scheme res" where
  "kfree pa s =
     (if pa mod PGSZ \<noteq> 0 \<or> pa < kend s \<or> pa \<ge> PHYSTOP then Inl (Panic ''kfree'')
      else let i = frame_index pa;
               s = (if i < NFRAME
                    then s\<lparr>frames := (frames s)[i := (frames s ! i)\<lparr>fr_in_use := False, fr_p := None, fr_va := 0\<rparr>]\<rparr>
                    else s);
               s = s\<lparr>mem := memset (mem s) pa 1 (of_nat PGSIZE)\<rparr>
           in Inr (s\<lparr>mem := store64 (mem s) pa (freelist s), freelist := pa\<rparr>))"

text \<open>The loop of \<open>freerange\<close>, \<open>n\<close> rounds at most.\<close>

fun free_pages :: "nat \<Rightarrow> u64 \<Rightarrow> u64 \<Rightarrow> 'a kstate_scheme \<Rightarrow> 'a kstate_scheme res" where
  "free_pages 0 p pa_end s = Inl Diverges"
| "free_pages (Suc n) p pa_end s =
     (if p + PGSZ \<le> pa_end then rbind (kfree p s) (free_pages n (p + PGSZ) pa_end) else Inr s)"

definition freerange :: "u64 \<Rightarrow> u64 \<Rightarrow> 'a kstate_scheme \<Rightarrow> 'a kstate_scheme res" where
  "freerange pa_start pa_end s = free_pages (Suc (unat (pa_end - pa_start) div PGSIZE)) (PGROUNDUP pa_start) pa_end s"

definition kinit :: "'a kstate_scheme \<Rightarrow> 'a kstate_scheme res" where
  "kinit s =
     freerange (kend s) (kend s + of_nat (NFRAME * PGSIZE))
       (s\<lparr>frames := map (\<lambda>f. f\<lparr>fr_in_use := False, fr_p := None, fr_reference_bit := False\<rparr>) (frames s),
          swap_space := map (\<lambda>_. False) (swap_space s)\<rparr>)"

definition track_frame :: "nat option \<Rightarrow> u64 \<Rightarrow> u64 \<Rightarrow> 'a kstate_scheme \<Rightarrow> 'a kstate_scheme" where
  "track_frame p va pa s =
     (if pa < KERNBASE \<or> pa \<ge> PHYSTOP then s
      else let i = frame_index pa in
        if i \<ge> NFRAME then s
        else let s = (case p of
                        Some q \<Rightarrow> if \<not> fr_in_use (frames s ! i)
                                  then upd_proc q (\<lambda>u. u\<lparr>resident_pages := resident_pages u + 1\<rparr>) s else s
                      | None \<Rightarrow> s)
             in s\<lparr>frames := (frames s)[i := \<lparr>fr_in_use = True, fr_p = p, fr_reference_bit = True, fr_va = va\<rparr>]\<rparr>)"

text \<open>The priority that a swap passes to the disk scheduler.\<close>

definition swap_priority :: "'a pstate_scheme \<Rightarrow> int" where
  "swap_priority s = (case myproc s of Some p \<Rightarrow> int (cur_q_level (procs s ! p)) | None \<Rightarrow> 3)"

text \<open>\<open>swap_out\<close> returns the slot, -1 if there is none.\<close>

definition swap_out :: "u64 \<Rightarrow> 'a kstate_scheme \<Rightarrow> (int \<times> 'a kstate_scheme) res" where
  "swap_out pa s =
     (case find (\<lambda>i. \<not> swap_space s ! i) [0..<NSWAPSPACE] of
        None \<Rightarrow> Inr (-1, s)
      | Some i \<Rightarrow>
          let priority = swap_priority s in
          rbind (disk_swap_write i pa priority (s\<lparr>swap_space := (swap_space s)[i := True]\<rparr>)) (\<lambda>s.
            Inr (int i,
              case myproc s of
                Some p \<Rightarrow> upd_proc p (\<lambda>u. u\<lparr>pages_swapped_out := pages_swapped_out u + 1,
                                             disk_writes := disk_writes u + 1\<rparr>) s
              | None \<Rightarrow> s)))"

definition swap_in :: "u64 \<Rightarrow> int \<Rightarrow> 'a kstate_scheme \<Rightarrow> 'a kstate_scheme res" where
  "swap_in pa i s =
     (if i < 0 then Inl Undefined
      else rbind (disk_swap_read (nat i) pa (swap_priority s) s) (\<lambda>s.
        let s = (if i < int NSWAPSPACE then s\<lparr>swap_space := (swap_space s)[nat i := False]\<rparr> else s)
        in Inr (case myproc s of
                  Some p \<Rightarrow> upd_proc p (\<lambda>u. u\<lparr>disk_reads := disk_reads u + 1,
                                               pages_swapped_in := pages_swapped_in u + 1,
                                               resident_pages := resident_pages u + 1\<rparr>) s
                | None \<Rightarrow> s)))"

definition swap_free :: "int \<Rightarrow> 'a kstate_scheme \<Rightarrow> 'a kstate_scheme res" where
  "swap_free i s =
     (if i < 0 \<or> i \<ge> int NSWAPSPACE then Inl Undefined
      else Inr (s\<lparr>swap_space := (swap_space s)[nat i := False]\<rparr>))"

section \<open>Eviction\<close>

text \<open>The eviction of the page at \<open>pa\<close> of frame \<open>h\<close>, whose entry is at \<open>a\<close>.\<close>

definition evict_victim :: "nat \<Rightarrow> u64 \<Rightarrow> u64 \<Rightarrow> 'a kstate_scheme \<Rightarrow> 'a kstate_scheme res" where
  "evict_victim h a pa s =
     (let s = s\<lparr>mem := store64 (mem s) a ((load64 (mem s) a AND NOT PTE_V) OR PTE_SWAPPED)\<rparr> in
      rbind (swap_out pa s) (\<lambda>(swap_index, s).
        if swap_index = -1 then Inl (Panic ''evict_pages: swap full'')
        else let s = s\<lparr>mem := store64 (mem s) a
                    (push_bit 10 (of_int swap_index) OR PTE_FLAGS (load64 (mem s) a) OR PTE_SWAPPED)\<rparr>;
                 owner = fr_p (frames s ! h);
                 s = s\<lparr>frames := (frames s)[h := (frames s ! h)\<lparr>fr_in_use := False, fr_p := None, fr_va := 0\<rparr>]\<rparr>;
                 s = (case owner of
                        Some q \<Rightarrow> upd_proc q (\<lambda>u. u\<lparr>pages_evicted := pages_evicted u + 1,
                                                     resident_pages := resident_pages u - 1\<rparr>) s
                      | None \<Rightarrow> s)
             in kfree pa s))"

text \<open>
  One round of the loop of \<open>evict_pages\<close>: \<open>Some\<close> if it found a victim and freed its page, \<open>None\<close> if the
  loop goes on.
\<close>

definition evict_round :: "'a kstate_scheme \<Rightarrow> (bool \<times> 'a kstate_scheme) res" where
  "evict_round s =
     (let h = clock_hand s; f = frames s ! h; s = s\<lparr>clock_hand := (h + 1) mod NFRAME\<rparr> in
      case fr_p f of
        Some q \<Rightarrow>
          if fr_in_use f \<and> pagetable (procs s ! q) \<noteq> 0 then
            rbind (walk_lookup (mem s) (pagetable (procs s ! q)) (fr_va f)) (\<lambda>a.
              if a \<noteq> 0 \<and> load64 (mem s) a AND PTE_V \<noteq> 0 then
                let pa = PTE2PA (load64 (mem s) a); i = unat (drop_bit 12 (pa - KERNBASE)) in
                if i \<ge> NFRAME then Inl Undefined
                else if fr_reference_bit (frames s ! i)
                then Inr (False, s\<lparr>frames := (frames s)[i := (frames s ! i)\<lparr>fr_reference_bit := False\<rparr>]\<rparr>)
                else rbind (evict_victim h a pa s) (\<lambda>s. Inr (True, s))
              else Inr (False, s))
          else Inr (False, s)
      | None \<Rightarrow> Inr (False, s))"

text \<open>The loop itself, which has no bound in the code: \<open>n\<close> is the number of rounds it is given.\<close>

fun evict_loop :: "nat \<Rightarrow> 'a kstate_scheme \<Rightarrow> 'a kstate_scheme res" where
  "evict_loop 0 s = Inl Diverges"
| "evict_loop (Suc n) s = rbind (evict_round s) (\<lambda>(found, s). if found then Inr s else evict_loop n s)"

text \<open>
  The allocator. Two sweeps of the clock hand and one round more are enough if a page can be
  evicted at all; the call of \<open>kalloc\<close> at the end of \<open>evict_pages\<close> finds the page just freed.
\<close>

abbreviation (input) EVICTFUEL :: nat where "EVICTFUEL \<equiv> 1025"

definition take_page :: "'a kstate_scheme \<Rightarrow> u64 \<times> 'a kstate_scheme" where
  "take_page s =
     (let r = freelist s; s = s\<lparr>freelist := load64 (mem s) r\<rparr>
      in (r, s\<lparr>mem := memset (mem s) r 5 (of_nat PGSIZE)\<rparr>))"

definition evict_pages :: "'a kstate_scheme \<Rightarrow> (u64 \<times> 'a kstate_scheme) res" where
  "evict_pages s = rbind (evict_loop EVICTFUEL s) (\<lambda>s. if freelist s \<noteq> 0 then Inr (take_page s) else Inl Diverges)"

definition kalloc :: "'a kstate_scheme \<Rightarrow> (u64 \<times> 'a kstate_scheme) res" where
  "kalloc s = (if freelist s \<noteq> 0 then Inr (take_page s) else evict_pages s)"

end
