(* ===== verification/PageMem.thy ===== *)
theory PageMem
  imports Kalloc
begin

text \<open>
  Reasoning about words and pages in byte-addressed memory: aligned words and pages that differ do
  not overlap, and the address arithmetic of page table entries.
\<close>

section \<open>Words\<close>

lemma bit_byte_of:
  "k \<le> 56 \<Longrightarrow> n < 64 \<Longrightarrow> bit (push_bit k (ucast (ucast (drop_bit k v) :: byte)) :: u64) n \<longleftrightarrow> k \<le> n \<and> n < k + 8 \<and> bit (v :: u64) n"
  by (auto simp: bit_simps)

lemma join64:
  "ucast (ucast v :: byte) OR push_bit 8 (ucast (ucast (drop_bit 8 v) :: byte)) OR
   push_bit 16 (ucast (ucast (drop_bit 16 v) :: byte)) OR push_bit 24 (ucast (ucast (drop_bit 24 v) :: byte)) OR
   push_bit 32 (ucast (ucast (drop_bit 32 v) :: byte)) OR push_bit 40 (ucast (ucast (drop_bit 40 v) :: byte)) OR
   push_bit 48 (ucast (ucast (drop_bit 48 v) :: byte)) OR push_bit 56 (ucast (ucast (drop_bit 56 v) :: byte)) = (v :: u64)"
  (is "?l = v")
proof (rule bit_word_eqI)
  fix n :: nat
  assume "n < LENGTH(64)"
  then have n: "n < 64" by simp
  have 0: "bit (ucast (ucast v :: byte) :: u64) n \<longleftrightarrow> n < 8 \<and> bit v n" using bit_byte_of [of 0 n v] n by simp
  have "bit ?l n \<longleftrightarrow> (n < 8 \<or> 8 \<le> n \<and> n < 8 + 8 \<or> 16 \<le> n \<and> n < 16 + 8 \<or> 24 \<le> n \<and> n < 24 + 8 \<or> 32 \<le> n \<and> n < 32 + 8 \<or>
    40 \<le> n \<and> n < 40 + 8 \<or> 48 \<le> n \<and> n < 48 + 8 \<or> 56 \<le> n \<and> n < 56 + 8) \<and> bit v n"
    unfolding bit_or_iff 0
    by (subst bit_byte_of, simp, rule n)+ blast
  also have "\<dots> \<longleftrightarrow> bit v n" using n by auto
  finally show "bit ?l n = bit v n" .
qed

lemma mem_write_le64:
  "mem_write m a (le64 v) a = ucast v" "mem_write m a (le64 v) (a + 1) = ucast (drop_bit 8 v)"
  "mem_write m a (le64 v) (a + 2) = ucast (drop_bit 16 v)" "mem_write m a (le64 v) (a + 3) = ucast (drop_bit 24 v)"
  "mem_write m a (le64 v) (a + 4) = ucast (drop_bit 32 v)" "mem_write m a (le64 v) (a + 5) = ucast (drop_bit 40 v)"
  "mem_write m a (le64 v) (a + 6) = ucast (drop_bit 48 v)" "mem_write m a (le64 v) (a + 7) = ucast (drop_bit 56 v)"
  by (simp_all add: mem_write_def le64_def)

lemma load64_store64 [simp]: "load64 (store64 m a v) a = v"
  unfolding load64_def store64_def mem_write_le64 by (rule join64)

lemma length_le64 [simp]: "length (le64 v) = 8"
  by (simp add: le64_def)

lemma load64_cong: "\<forall>i < 8. m' (a + of_nat i) = m (a + of_nat i) \<Longrightarrow> load64 m' a = load64 m a"
proof -
  assume *: "\<forall>i < 8. m' (a + of_nat i) = m (a + of_nat i)"
  have "m' (a + 0) = m (a + 0)" "m' (a + 1) = m (a + 1)" "m' (a + 2) = m (a + 2)" "m' (a + 3) = m (a + 3)"
    "m' (a + 4) = m (a + 4)" "m' (a + 5) = m (a + 5)" "m' (a + 6) = m (a + 6)" "m' (a + 7) = m (a + 7)"
    using * [rule_format, of 0] * [rule_format, of 1] * [rule_format, of 2] * [rule_format, of 3]
      * [rule_format, of 4] * [rule_format, of 5] * [rule_format, of 6] * [rule_format, of 7] by simp_all
  then show ?thesis by (simp add: load64_def)
qed

text \<open>Two addresses that are far enough apart for words of eight bytes.\<close>

definition far :: "u64 \<Rightarrow> u64 \<Rightarrow> bool" where
  "far a b \<longleftrightarrow> unat a + 8 \<le> unat b \<and> unat b + 8 \<le> 2 ^ 64 \<or> unat b + 8 \<le> unat a \<and> unat a + 8 \<le> 2 ^ 64"

lemma unat_plus_small: "unat (a :: u64) + n < 2 ^ 64 \<Longrightarrow> unat (a + of_nat n) = unat a + n"
  by (simp add: unat_word_ariths unat_of_nat take_bit_nat_eq_self)

lemma unat_minus_le: "unat (b :: u64) \<le> unat a \<Longrightarrow> unat (a - b) = unat a - unat b"
  by (simp add: unat_sub word_le_nat_alt)

lemma unat_minus_gt: "unat (a :: u64) < unat b \<Longrightarrow> unat (a - b) = 2 ^ 64 + unat a - unat b"
  by (simp add: unat_sub_if')

lemma store64_other:
  assumes "far a b"
  shows "load64 (store64 m a v) b = load64 m b"
proof (rule load64_cong, intro allI impI)
  fix i :: nat assume i: "i < 8"
  have ub: "unat (b + of_nat i) = unat b + i"
    using assms i by (intro unat_plus_small) (auto simp: far_def)
  have "8 \<le> unat (b + of_nat i - a)"
  proof (cases "unat a \<le> unat b")
    case True
    then have "unat (b + of_nat i - a) = unat b + i - unat a" using ub by (subst unat_minus_le) simp_all
    then show ?thesis using assms True by (auto simp: far_def)
  next
    case False
    then have "unat b + 8 \<le> unat a" using assms by (auto simp: far_def)
    then have "unat (b + of_nat i - a) = 2 ^ 64 + (unat b + i) - unat a" using ub i by (subst unat_minus_gt) simp_all
    moreover have "unat a \<le> 2 ^ 64 - 8" using assms False by (auto simp: far_def)
    ultimately show ?thesis by simp
  qed
  then show "store64 m a v (b + of_nat i) = m (b + of_nat i)" by (simp add: store64_def mem_write_outside)
qed

section \<open>Pages\<close>

text \<open>A page of RAM that the kernel may hand out: aligned, below \<open>PHYSTOP\<close> and not at address 0.\<close>

definition page_ok :: "u64 \<Rightarrow> bool" where
  "page_ok p \<longleftrightarrow> 4096 dvd unat p \<and> 0 < unat p \<and> unat p + 4096 \<le> 2 ^ 56"

definition in_page :: "u64 \<Rightarrow> u64 \<Rightarrow> bool" where
  "in_page p a \<longleftrightarrow> unat p \<le> unat a \<and> unat a < unat p + 4096"

lemma page_order: "page_ok p \<Longrightarrow> page_ok q \<Longrightarrow> p \<noteq> q \<Longrightarrow> unat p + 4096 \<le> unat q \<or> unat q + 4096 \<le> unat p"
proof -
  assume a: "page_ok p" "page_ok q" "p \<noteq> q"
  then obtain i j where ij: "unat p = 4096 * i" "unat q = 4096 * j" by (auto simp: page_ok_def dvd_def)
  then have "i \<noteq> j" using a(3) by (auto simp: word_unat_eq_iff)
  then consider "i < j" | "j < i" by linarith
  then show ?thesis using ij by cases auto
qed

lemma in_page_unique: "page_ok p \<Longrightarrow> page_ok q \<Longrightarrow> in_page p a \<Longrightarrow> in_page q a \<Longrightarrow> p = q"
  using page_order [of p q] by (cases "p = q") (auto simp: in_page_def)

lemma mem_write_page_other:
  assumes "page_ok p" "length bs \<le> 4096" "\<not> in_page p a"
  shows "mem_write m p bs a = m a"
proof (rule mem_write_outside)
  have p: "unat p + 4096 \<le> 2 ^ 56" using assms(1) by (simp add: page_ok_def)
  show "length bs \<le> unat (a - p)"
  proof (cases "unat p \<le> unat a")
    case True
    then show ?thesis using assms(2,3) by (simp add: in_page_def unat_minus_le)
  next
    case False
    then show ?thesis using assms(2) p by (subst unat_minus_gt) simp_all
  qed
qed

text \<open>The addresses of aligned words: entry \<open>i\<close> of the page \<open>p\<close>.\<close>

definition entry :: "u64 \<Rightarrow> nat \<Rightarrow> u64" where
  "entry p i = p + of_nat (8 * i)"

lemma unat_entry: "page_ok p \<Longrightarrow> i < 512 \<Longrightarrow> unat (entry p i) = unat p + 8 * i"
  unfolding entry_def by (rule unat_plus_small) (simp add: page_ok_def)

lemma entry_in_page: "page_ok p \<Longrightarrow> i < 512 \<Longrightarrow> in_page p (entry p i)"
  by (simp add: in_page_def unat_entry)

lemma entry_far:
  assumes "page_ok p" "i < 512" "page_ok q" "j < 512" "(p, i) \<noteq> (q, j)"
  shows "far (entry p i) (entry q j)"
proof -
  have b: "unat p + 4096 \<le> 2 ^ 56" "unat q + 4096 \<le> 2 ^ 56" using assms(1,3) by (simp_all add: page_ok_def)
  show ?thesis
  proof (cases "p = q")
    case True
    then have "i < j \<or> j < i" using assms(5) by auto
    then show ?thesis using assms b True by (auto simp: far_def unat_entry)
  next
    case False
    then show ?thesis using page_order [OF assms(1,3)] assms b by (auto simp: far_def unat_entry)
  qed
qed

lemma entry_eq: "page_ok p \<Longrightarrow> page_ok q \<Longrightarrow> i < 512 \<Longrightarrow> j < 512 \<Longrightarrow> entry p i = entry q j \<longleftrightarrow> p = q \<and> i = j"
  using entry_far [of p i q j] by (cases "(p, i) = (q, j)") (auto simp: far_def)

lemma load64_page_other:
  assumes "page_ok p" "page_ok q" "p \<noteq> q" "i < 512" "length bs \<le> 4096"
  shows "load64 (mem_write m p bs) (entry q i) = load64 m (entry q i)"
proof (rule load64_cong, intro allI impI)
  fix k :: nat assume "k < 8"
  then have u: "unat (entry q i + of_nat k) = unat q + 8 * i + k"
    using assms(2,4) unat_entry [OF assms(2,4)] by (subst unat_plus_small) (auto simp: page_ok_def)
  then have "in_page q (entry q i + of_nat k)" using assms(4) \<open>k < 8\<close> by (simp add: in_page_def)
  then have "\<not> in_page p (entry q i + of_nat k)" using in_page_unique [OF assms(1,2)] assms(3) by blast
  then show "mem_write m p bs (entry q i + of_nat k) = m (entry q i + of_nat k)"
    by (rule mem_write_page_other [OF assms(1,5)])
qed

lemma memset_spec: "memset m p c (of_nat PGSIZE) = mem_write m p (replicate 4096 (of_int c))"
  by (simp add: memset_def set_up_spec)

lemma load64_memset_other:
  "page_ok p \<Longrightarrow> page_ok q \<Longrightarrow> p \<noteq> q \<Longrightarrow> i < 512 \<Longrightarrow> load64 (memset m p c (of_nat PGSIZE)) (entry q i) = load64 m (entry q i)"
  unfolding memset_spec by (rule load64_page_other) simp_all

lemma entry_0: "entry p 0 = p"
  by (simp add: entry_def)

lemma load64_zero_page:
  assumes "page_ok p" "i < 512"
  shows "load64 (memset m p 0 (of_nat PGSIZE)) (entry p i) = 0"
proof -
  have "memset m p 0 (of_nat PGSIZE) (entry p i + of_nat k) = 0" if "k < 8" for k
  proof -
    have "entry p i + of_nat k - p = of_nat (8 * i + k)" by (simp add: entry_def)
    then have "unat (entry p i + of_nat k - p) = 8 * i + k"
      using assms(2) that unat_of_nat_u64 [of "8 * i + k"] by (simp only:) simp
    then show ?thesis unfolding memset_spec using assms(2) that by (simp add: mem_write_def)
  qed
  then have "load64 (memset m p 0 (of_nat PGSIZE)) (entry p i) = load64 (\<lambda>_. 0) (entry p i)" by (intro load64_cong) simp
  then show ?thesis by (simp add: load64_def)
qed

end
