(* ===== verification/KallocSpec.thy ===== *)
theory KallocSpec
  imports PageMem LogCrash
begin

text \<open>
  The free list of the page allocator: a list of distinct pages in memory, which \<open>kfree\<close> extends, \<open>take_page\<close> shortens and
  \<open>kinit\<close> fills with the managed memory.
\<close>

section \<open>The free list\<close>

fun free_list :: "memory \<Rightarrow> u64 \<Rightarrow> u64 list \<Rightarrow> bool" where
  "free_list m p [] \<longleftrightarrow> p = 0"
| "free_list m p (x # xs) \<longleftrightarrow> p = x \<and> free_list m (load64 m x) xs"

text \<open>A page that \<open>kfree\<close> accepts.\<close>

definition kpage :: "'a kstate_scheme \<Rightarrow> u64 \<Rightarrow> bool" where
  "kpage s p \<longleftrightarrow> 4096 dvd unat p \<and> kend s \<le> p \<and> p < PHYSTOP"

definition alloc_inv :: "u64 list \<Rightarrow> 'a kstate_scheme \<Rightarrow> bool" where
  "alloc_inv xs s \<longleftrightarrow> KERNBASE \<le> kend s \<and> length (frames s) = NFRAME \<and> free_list (mem s) (freelist s) xs \<and>
     distinct xs \<and> (\<forall>x \<in> set xs. kpage s x)"

lemma kpage_page_ok: "KERNBASE \<le> kend s \<Longrightarrow> kpage s p \<Longrightarrow> page_ok p"
proof -
  assume a: "KERNBASE \<le> kend s" "kpage s p"
  then have "KERNBASE \<le> p" "p < PHYSTOP" by (auto simp: kpage_def)
  then have u: "unat KERNBASE \<le> unat p" "unat p < unat PHYSTOP" by (simp_all add: word_le_nat_alt word_less_nat_alt)
  show ?thesis using u a(2) unfolding page_ok_def kpage_def by simp
qed

lemma free_list_cong: "\<forall>x \<in> set xs. load64 m' x = load64 m x \<Longrightarrow> free_list m' p xs = free_list m p xs"
  by (induction xs arbitrary: p) auto

lemma load64_page_write:
  "page_ok p \<Longrightarrow> page_ok x \<Longrightarrow> p \<noteq> x \<Longrightarrow> length bs \<le> 4096 \<Longrightarrow> load64 (mem_write m p bs) x = load64 m x"
  using load64_page_other [of p x 0 bs m] by (simp add: entry_0)

lemma load64_store_page: "page_ok p \<Longrightarrow> page_ok x \<Longrightarrow> p \<noteq> x \<Longrightarrow> load64 (store64 m p v) x = load64 m x"
  unfolding store64_def by (rule load64_page_write) simp_all

lemma memset_4096: "memset m p c 4096 = mem_write m p (replicate 4096 (of_int c))"
  using memset_spec [of m p c] by simp

lemma mod_4096: "(p :: u64) mod PGSZ = 0 \<longleftrightarrow> 4096 dvd unat p"
  by (simp add: unat_mod_distrib word_unat_eq_iff dvd_eq_mod_eq_0)

lemma kfree_spec:
  assumes "alloc_inv xs s" "kpage s pa" "pa \<notin> set xs"
  shows "\<exists>s'. kfree pa s = Inr s' \<and> alloc_inv (pa # xs) s' \<and> kend s' = kend s \<and>
    (\<forall>a. \<not> in_page pa a \<longrightarrow> mem s' a = mem s a) \<and> s' = s\<lparr>mem := mem s', frames := frames s', freelist := freelist s'\<rparr>"
proof -
  have I: "KERNBASE \<le> kend s" "length (frames s) = NFRAME" "free_list (mem s) (freelist s) xs" "distinct xs"
    "\<forall>x \<in> set xs. kpage s x" using assms(1) by (auto simp: alloc_inv_def)
  have pg: "page_ok pa" by (rule kpage_page_ok [OF I(1) assms(2)])
  define fs where "fs = (let i = frame_index pa in if i < NFRAME
    then (frames s)[i := (frames s ! i)\<lparr>fr_in_use := False, fr_p := None, fr_va := 0\<rparr>] else frames s)"
  define m where "m = store64 (memset (mem s) pa 1 (of_nat PGSIZE)) pa (freelist s)"
  define s' where "s' = s\<lparr>mem := m, frames := fs, freelist := pa\<rparr>"
  have "kfree pa s = Inr s'"
    using assms(2) by (auto simp: kfree_def kpage_def mod_4096 s'_def m_def fs_def Let_def linorder_not_less)
  moreover have "load64 m x = load64 (mem s) x" if "x \<in> set xs" for x
  proof -
    have "page_ok x" "pa \<noteq> x" using kpage_page_ok [OF I(1)] I(5) that assms(3) by auto
    then show ?thesis
      unfolding m_def memset_spec by (simp add: load64_store_page [OF pg] load64_page_write [OF pg])
  qed
  then have "free_list m (freelist s) xs" using I(3) free_list_cong [of xs m "mem s"] by simp
  then have "alloc_inv (pa # xs) s'"
    using I assms(2,3) by (auto simp: alloc_inv_def s'_def fs_def kpage_def m_def Let_def)
  moreover have "mem s' a = mem s a" if "\<not> in_page pa a" for a
    using that mem_write_page_other [OF pg] by (simp add: s'_def m_def store64_def memset_4096)
  ultimately show ?thesis by (intro exI [of _ s']) (simp add: s'_def)
qed

lemma take_page_spec:
  assumes "alloc_inv (x # xs) s" "take_page s = (p, s')"
  shows "p = x" "alloc_inv xs s'" "kend s' = kend s" "\<forall>a. \<not> in_page x a \<longrightarrow> mem s' a = mem s a"
    "s' = s\<lparr>mem := mem s', freelist := freelist s'\<rparr>"
proof -
  have I: "KERNBASE \<le> kend s" "length (frames s) = NFRAME" "freelist s = x" "free_list (mem s) (load64 (mem s) x) xs"
    "distinct xs" "x \<notin> set xs" "kpage s x" "\<forall>y \<in> set xs. kpage s y" using assms(1) by (auto simp: alloc_inv_def)
  have pg: "page_ok x" by (rule kpage_page_ok [OF I(1,7)])
  define m where "m = memset (mem s) x 5 (of_nat PGSIZE)"
  have s': "p = x" "s' = s\<lparr>mem := m, freelist := load64 (mem s) x\<rparr>"
    using assms(2) I(3) by (auto simp: take_page_def Let_def m_def)
  show "p = x" "kend s' = kend s" using s' by simp_all
  have "load64 m y = load64 (mem s) y" if "y \<in> set xs" for y
  proof -
    have "page_ok y" "x \<noteq> y" using kpage_page_ok [OF I(1)] I(6,8) that by auto
    then show ?thesis unfolding m_def memset_spec by (simp add: load64_page_write [OF pg])
  qed
  then have "free_list m (load64 (mem s) x) xs" using I(4) free_list_cong [of xs m "mem s"] by simp
  then show "alloc_inv xs s'" using I s' by (auto simp: alloc_inv_def kpage_def)
  show "\<forall>a. \<not> in_page x a \<longrightarrow> mem s' a = mem s a"
    using mem_write_page_other [OF pg] s' by (simp add: m_def memset_4096)
  show "s' = s\<lparr>mem := mem s', freelist := freelist s'\<rparr>" using s' by simp
qed

lemma free_list_0: "free_list m 0 xs \<Longrightarrow> 0 \<notin> set xs \<Longrightarrow> xs = []"
  by (cases xs) auto

lemma alloc_inv_nonempty:
  assumes "alloc_inv xs s"
  shows "freelist s \<noteq> 0 \<longleftrightarrow> xs \<noteq> []"
proof -
  have "\<forall>x \<in> set xs. x \<noteq> 0"
    using assms kpage_page_ok [of s 0] by (auto simp: alloc_inv_def page_ok_def)
  then show ?thesis using assms by (cases xs) (auto simp: alloc_inv_def)
qed

section \<open>Initialisation\<close>

definition pages_between :: "u64 \<Rightarrow> u64 \<Rightarrow> u64 set" where
  "pages_between p e = {q. 4096 dvd unat q \<and> unat p \<le> unat q \<and> unat q + 4096 \<le> unat e}"

lemma pages_between_step:
  assumes "4096 dvd unat p" "unat p + 4096 \<le> unat e"
  shows "pages_between p e = insert p (pages_between (p + PGSZ) e)"
proof -
  have "unat e < 2 ^ 64" by (rule order_less_le_trans [OF unsigned_less]) simp
  then have u: "unat (p + PGSZ) = unat p + 4096" using unat_plus_small [of p 4096] assms(2) by simp
  show ?thesis
  proof (intro set_eqI iffI)
    fix q assume q: "q \<in> pages_between p e"
    show "q \<in> insert p (pages_between (p + PGSZ) e)"
    proof (cases "q = p")
      case False
      then have "unat p < unat q" using q by (auto simp: pages_between_def word_unat_eq_iff)
      moreover have "4096 dvd unat q - unat p" using q assms(1) by (auto simp: pages_between_def)
      ultimately have "unat p + 4096 \<le> unat q" by (auto dest: dvd_imp_le)
      then show ?thesis using q u by (simp add: pages_between_def)
    qed simp
  next
    fix q assume "q \<in> insert p (pages_between (p + PGSZ) e)"
    then show "q \<in> pages_between p e" using assms u by (auto simp: pages_between_def)
  qed
qed

lemma free_pages_spec:
  assumes "alloc_inv xs s" "4096 dvd unat p" "kend s \<le> p" "e \<le> PHYSTOP" "\<forall>x \<in> set xs. unat x < unat p"
    "(unat e - unat p) div 4096 < n" "unat p \<le> 2 ^ 32"
  shows "\<exists>s' ys. free_pages n p e s = Inr s' \<and> alloc_inv ys s' \<and> set ys = pages_between p e \<union> set xs \<and> kend s' = kend s"
  using assms
proof (induction n arbitrary: p s xs)
  case (Suc n)
  have ep: "unat e \<le> unat PHYSTOP" using assms(4) by (simp add: word_le_nat_alt)
  show ?case
  proof (cases "p + PGSZ \<le> e \<and> unat p + 4096 \<le> unat e")
    case True
    then have lt: "p < PHYSTOP" using ep by (simp add: word_less_nat_alt)
    have u: "unat (p + PGSZ) = unat p + 4096" using unat_plus_small [of p 4096] True ep by simp
    have kp: "kpage s p" using Suc.prems(2,3) lt by (simp add: kpage_def)
    have "p \<notin> set xs" using Suc.prems(5) by blast
    from kfree_spec [OF Suc.prems(1) kp this] obtain t where t: "kfree p s = Inr t" "alloc_inv (p # xs) t" "kend t = kend s" by auto
    have "kend t \<le> p + PGSZ" using Suc.prems(3) t(3) u by (simp add: word_le_nat_alt)
    moreover have "4096 dvd unat (p + PGSZ)" "\<forall>x \<in> set (p # xs). unat x < unat (p + PGSZ)"
      using u Suc.prems(2,5) by auto
    moreover have "(unat e - unat (p + PGSZ)) div 4096 < n"
    proof -
      obtain k where "unat e = unat p + 4096 + k" using True by (metis le_iff_add)
      then show ?thesis using Suc.prems(6) unfolding u by simp
    qed
    moreover have "unat (p + PGSZ) \<le> 2 ^ 32" using True ep u by simp
    ultimately obtain s' ys where "free_pages n (p + PGSZ) e t = Inr s'" "alloc_inv ys s'"
      "set ys = pages_between (p + PGSZ) e \<union> set (p # xs)" "kend s' = kend t"
      using Suc.IH [OF t(2) _ _ Suc.prems(4)] by metis
    then show ?thesis
      using True t(1,3) pages_between_step [OF Suc.prems(2)] by (intro exI [of _ s'] exI [of _ ys]) auto
  next
    case False
    have u: "unat (p + PGSZ) = unat p + 4096" using unat_plus_small [of p 4096] Suc.prems(7) by simp
    then have "\<not> p + PGSZ \<le> e" "\<not> unat p + 4096 \<le> unat e" using False by (auto simp: word_le_nat_alt)
    moreover from this have "pages_between p e = {}" by (auto simp: pages_between_def)
    ultimately show ?thesis using Suc.prems(1) by (intro exI [of _ s] exI [of _ xs]) simp
  qed
qed simp

lemma PGROUNDDOWN_bits: "PGROUNDDOWN a = push_bit 12 (drop_bit 12 a)"
proof (rule bit_word_eqI)
  fix n :: nat assume "n < LENGTH(64)"
  have m: "(PGSZ - 1 :: u64) = mask 12" by (simp add: mask_eq_exp_minus_1)
  show "bit (PGROUNDDOWN a) n = bit (push_bit 12 (drop_bit 12 a)) n"
    using \<open>n < LENGTH(64)\<close> unfolding PGROUNDDOWN_def m by (auto simp: bit_simps)
qed

lemma unat_PGROUNDDOWN: "unat (PGROUNDDOWN a) = unat a div 4096 * 4096"
proof -
  have l: "unat a div 4096 * 4096 \<le> unat a" by simp
  have "unat a < 2 ^ 64" by (rule order_less_le_trans [OF unsigned_less]) simp
  then have "unat a div 4096 * 4096 < 2 ^ 64" using l by linarith
  then show ?thesis
    unfolding PGROUNDDOWN_bits unsigned_push_bit_eq unsigned_drop_bit_eq
    by (simp add: drop_bit_eq_div push_bit_eq_mult take_bit_nat_eq_self)
qed

lemma PGROUNDUP_down: "PGROUNDUP a = PGROUNDDOWN (a + 4095)"
  by (simp add: PGROUNDUP_def PGROUNDDOWN_def add.commute)

lemma unat_PGROUNDUP:
  assumes "unat a + 4095 < 2 ^ 64"
  shows "4096 dvd unat (PGROUNDUP a)" "unat a \<le> unat (PGROUNDUP a)" "unat (PGROUNDUP a) \<le> unat a + 4095"
proof -
  have u: "unat (a + 4095) = unat a + 4095" using unat_plus_small [of a 4095] assms by simp
  show "4096 dvd unat (PGROUNDUP a)" by (simp add: PGROUNDUP_down unat_PGROUNDDOWN)
  show "unat a \<le> unat (PGROUNDUP a)" "unat (PGROUNDUP a) \<le> unat a + 4095"
    using div_mult_mod_eq [of "unat a + 4095" 4096] mod_less_divisor [of 4096 "unat a + 4095"]
    by (simp_all add: PGROUNDUP_down unat_PGROUNDDOWN u)
qed

text \<open>The state in which \<open>main\<close> calls \<open>kinit\<close>: zero-filled variables, the kernel loaded below \<open>PHYSTOP\<close>.\<close>

definition kmem_boot :: "'a kstate_scheme \<Rightarrow> bool" where
  "kmem_boot s \<longleftrightarrow> freelist s = 0 \<and> length (frames s) = NFRAME \<and> KERNBASE \<le> kend s \<and> unat (kend s) + NFRAME * PGSIZE \<le> unat PHYSTOP"

definition managed :: "u64 \<Rightarrow> u64 set" where
  "managed e = pages_between (PGROUNDUP e) (e + of_nat (NFRAME * PGSIZE))"

lemma kinit_spec:
  assumes "kmem_boot s"
  shows "\<exists>s' xs. kinit s = Inr s' \<and> alloc_inv xs s' \<and> set xs = managed (kend s) \<and> kend s' = kend s"
proof -
  have B: "freelist s = 0" "length (frames s) = NFRAME" "KERNBASE \<le> kend s" "unat (kend s) + 2097152 \<le> 2281701376"
    using assms by (simp_all add: kmem_boot_def)
  define t where "t = s\<lparr>frames := map (\<lambda>f. f\<lparr>fr_in_use := False, fr_p := None, fr_reference_bit := False\<rparr>) (frames s),
    swap_space := map (\<lambda>_. False) (swap_space s)\<rparr>"
  let ?e = "kend s + of_nat (NFRAME * PGSIZE)" and ?p = "PGROUNDUP (kend s)"
  have ue: "unat ?e = unat (kend s) + 2097152" using unat_plus_small [of "kend s" 2097152] B(4) by simp
  have r: "4096 dvd unat ?p" "unat (kend s) \<le> unat ?p" "unat ?p \<le> unat (kend s) + 4095"
    using unat_PGROUNDUP [of "kend s"] B(4) by simp_all
  have a: "alloc_inv [] t" using B by (simp add: alloc_inv_def t_def)
  have p2: "kend t \<le> ?p" "?e \<le> PHYSTOP" using r(2) ue B(4) by (simp_all add: word_le_nat_alt t_def)
  have "unat (?e - kend s) = 2097152" by simp
  then have fuel: "(unat ?e - unat ?p) div 4096 < Suc (unat (?e - kend s) div PGSIZE)"
    using ue r(2) by (simp add: div_le_mono less_Suc_eq_le)
  have p3: "unat ?p \<le> 2 ^ 32" using r(3) B(4) by simp
  have none: "\<forall>x \<in> set ([] :: u64 list). unat x < unat ?p" by simp
  from free_pages_spec [OF a r(1) p2 none fuel p3] obtain s' ys where
    R: "free_pages (Suc (unat (?e - kend s) div PGSIZE)) ?p ?e t = Inr s'" "alloc_inv ys s'"
    "set ys = pages_between ?p ?e \<union> set []" "kend s' = kend t" by (elim exE conjE)
  have "kinit s = Inr s'" unfolding kinit_def freerange_def t_def [symmetric] by (rule R(1))
  moreover have "set ys = managed (kend s)" using R(3) by (simp only: managed_def list.set Un_empty_right)
  moreover have "kend s' = kend s" unfolding R(4) by (simp add: t_def)
  ultimately show ?thesis using R(2) by blast
qed

section \<open>A state at boot\<close>

definition boot_kstate :: kstate where
  "boot_kstate = lstate.extend boot_lstate
     \<lparr>kend = 0x80024cf8, freelist = 0,
      frames = replicate NFRAME \<lparr>fr_in_use = False, fr_p = None, fr_reference_bit = False, fr_va = 0\<rparr>,
      swap_space = replicate NSWAPSPACE False, clock_hand = 0\<rparr>"

lemma boot_kstate_ok: "kmem_boot boot_kstate"
  by (simp add: kmem_boot_def boot_kstate_def lstate.extend_def)

end
