(* ===== verification/Evict.thy ===== *)
theory Evict
  imports KallocSpec
begin

text \<open>
  The clock algorithm of \<open>evict_pages\<close>: which page it evicts, how many rounds it takes, and when it
  never returns.
\<close>

section \<open>Candidates\<close>

text \<open>The entry through which the page of frame \<open>i\<close> is mapped, if it can be evicted.\<close>

definition cand :: "'a kstate_scheme \<Rightarrow> nat \<Rightarrow> u64 option" where
  "cand s i =
     (let f = frames s ! i in
      case fr_p f of
        None \<Rightarrow> None
      | Some q \<Rightarrow>
          let a = walk_from (mem s) 2 (pagetable (procs s ! q)) (fr_va f)
          in if fr_in_use f \<and> pagetable (procs s ! q) \<noteq> 0 \<and> a \<noteq> 0 \<and> load64 (mem s) a AND PTE_V \<noteq> 0 then Some a else None)"

abbreviation (input) frame_pa :: "nat \<Rightarrow> u64" where
  "frame_pa i \<equiv> KERNBASE + of_nat (4096 * i)"

text \<open>
  The frame table agrees with the page tables: an entry names a user address, and if the
  owner maps it, then to this very frame.
\<close>

definition frames_ok :: "'a kstate_scheme \<Rightarrow> bool" where
  "frames_ok s \<longleftrightarrow> length (frames s) = NFRAME \<and> clock_hand s < NFRAME \<and>
     (\<forall>i < NFRAME. fr_in_use (frames s ! i) \<longrightarrow> fr_va (frames s ! i) < MAXVA) \<and>
     (\<forall>i < NFRAME. \<forall>a. cand s i = Some a \<longrightarrow> PTE2PA (load64 (mem s) a) = frame_pa i)"

definition advance :: "'a kstate_scheme \<Rightarrow> 'a kstate_scheme" where
  "advance s = s\<lparr>clock_hand := (clock_hand s + 1) mod NFRAME\<rparr>"

definition clear_ref :: "nat \<Rightarrow> 'a kstate_scheme \<Rightarrow> 'a kstate_scheme" where
  "clear_ref i s = s\<lparr>frames := (frames s)[i := (frames s ! i)\<lparr>fr_reference_bit := False\<rparr>]\<rparr>"

lemma frame_pa_index: "i < NFRAME \<Longrightarrow> unat (drop_bit 12 (frame_pa i - KERNBASE)) = i"
proof -
  assume i: "i < NFRAME"
  then have u: "unat (of_nat (4096 * i) :: u64) = 4096 * i" by (intro unat_of_nat_u64) simp
  have e: "frame_pa i - KERNBASE = of_nat (4096 * i)" by simp
  show ?thesis unfolding e unsigned_drop_bit_eq u using i by (simp add: drop_bit_eq_div take_bit_nat_eq_self)
qed

lemma cand_cong:
  assumes "mem s' = mem s" "procs s' = procs s" "fr_p (frames s' ! i) = fr_p (frames s ! i)"
    "fr_in_use (frames s' ! i) = fr_in_use (frames s ! i)" "fr_va (frames s' ! i) = fr_va (frames s ! i)"
  shows "cand s' i = cand s i"
  unfolding cand_def Let_def assms ..

lemma cand_advance [simp]: "cand (advance s) = cand s" "frames (advance s) = frames s" "mem (advance s) = mem s"
  "procs (advance s) = procs s"
  by (rule ext, rule cand_cong) (simp_all add: advance_def)

lemma nth_clear_ref:
  "frames (clear_ref j s) ! i =
     (if i = j \<and> j < length (frames s) then (frames s ! i)\<lparr>fr_reference_bit := False\<rparr> else frames s ! i)"
  by (cases "j < length (frames s)") (auto simp: clear_ref_def list_update_beyond)

lemma cand_clear_ref: "cand (clear_ref j s) i = cand s i"
  by (rule cand_cong) (simp_all add: nth_clear_ref, simp_all add: clear_ref_def)

lemma frames_ok_advance: "frames_ok s \<Longrightarrow> frames_ok (advance s)"
  by (simp add: frames_ok_def) (simp add: advance_def)

lemma frames_ok_clear_ref: "frames_ok s \<Longrightarrow> frames_ok (clear_ref j s)"
  unfolding frames_ok_def cand_clear_ref nth_clear_ref by (auto simp: clear_ref_def)

lemma evict_round_cases:
  assumes "frames_ok s"
  defines "h \<equiv> clock_hand s"
  shows "cand s h = None \<Longrightarrow> evict_round s = Inr (False, advance s)"
    "cand s h = Some a \<Longrightarrow> fr_reference_bit (frames s ! h) \<Longrightarrow> evict_round s = Inr (False, clear_ref h (advance s))"
    "cand s h = Some a \<Longrightarrow> \<not> fr_reference_bit (frames s ! h) \<Longrightarrow>
       evict_round s = rbind (evict_victim h a (frame_pa h) (advance s)) (\<lambda>s. Inr (True, s))"
proof -
  have h: "h < NFRAME" "fr_in_use (frames s ! h) \<longrightarrow> fr_va (frames s ! h) < MAXVA"
    using assms(1) by (auto simp: frames_ok_def h_def)
  have wl: "fr_in_use (frames s ! h) \<Longrightarrow> walk_lookup (mem s) pt (fr_va (frames s ! h)) = Inr (walk_from (mem s) 2 pt (fr_va (frames s ! h)))" for pt
    using h(2) by (simp add: walk_lookup_def)
  show "evict_round s = Inr (False, advance s)" if c: "cand s h = None"
  proof (cases "fr_p (frames s ! h)")
    case None
    then show ?thesis by (simp add: evict_round_def Let_def h_def advance_def)
  next
    case (Some q)
    show ?thesis
    proof (cases "fr_in_use (frames s ! h) \<and> pagetable (procs s ! q) \<noteq> 0")
      case False
      then show ?thesis using Some unfolding evict_round_def Let_def h_def by (auto simp: advance_def)
    next
      case True
      let ?a = "walk_from (mem s) 2 (pagetable (procs s ! q)) (fr_va (frames s ! h))"
      have "\<not> (?a \<noteq> 0 \<and> load64 (mem s) ?a AND PTE_V \<noteq> 0)" using c True Some by (simp add: cand_def Let_def split: if_splits)
      then show ?thesis
        using True Some wl [of "pagetable (procs s ! q)"] unfolding evict_round_def Let_def h_def by (auto simp: advance_def)
    qed
  qed
  {
    assume c: "cand s h = Some a"
    then obtain q where q: "fr_p (frames s ! h) = Some q" "fr_in_use (frames s ! h)" "pagetable (procs s ! q) \<noteq> 0"
      "a = walk_from (mem s) 2 (pagetable (procs s ! q)) (fr_va (frames s ! h))" "a \<noteq> 0" "load64 (mem s) a AND PTE_V \<noteq> 0"
      by (auto simp: cand_def Let_def split: option.splits if_splits)
    have pa: "PTE2PA (load64 (mem s) a) = frame_pa h" using assms(1) h(1) c by (auto simp: frames_ok_def)
    have wa: "walk_lookup (mem s) (pagetable (procs s ! q)) (fr_va (frames s ! h)) = Inr a" using wl [OF q(2)] q(4) by simp
    have adv: "advance s = s\<lparr>clock_hand := (h + 1) mod NFRAME\<rparr>" by (simp add: advance_def h_def)
    have R: "evict_round s = (if fr_reference_bit (frames s ! h) then Inr (False, clear_ref h (advance s))
        else rbind (evict_victim h a (frame_pa h) (advance s)) (\<lambda>s. Inr (True, s)))"
      using frame_pa_index [OF h(1)] h(1)
      unfolding evict_round_def h_def [symmetric] Let_def q(1)
      by (simp add: q(2,3,5,6) wa pa adv clear_ref_def)
    show "fr_reference_bit (frames s ! h) \<Longrightarrow> evict_round s = Inr (False, clear_ref h (advance s))"
      unfolding R by (rule if_P)
    show "\<not> fr_reference_bit (frames s ! h) \<Longrightarrow> evict_round s = rbind (evict_victim h a (frame_pa h) (advance s)) (\<lambda>s. Inr (True, s))"
      unfolding R by (rule if_not_P)
  }
qed

section \<open>Sweeps of the clock hand\<close>

text \<open>The state after \<open>n\<close> rounds without a victim.\<close>

fun sweep :: "nat \<Rightarrow> 'a kstate_scheme \<Rightarrow> 'a kstate_scheme" where
  "sweep 0 s = s"
| "sweep (Suc n) s =
     (let t = sweep n s
      in if cand t (clock_hand t) = None then advance t else clear_ref (clock_hand t) (advance t))"

lemma cand_sweep [simp]: "cand (sweep n s) = cand s"
  by (induction n) (simp_all add: Let_def cand_clear_ref fun_eq_iff)

lemma frames_ok_sweep: "frames_ok s \<Longrightarrow> frames_ok (sweep n s)"
  by (induction n) (simp_all add: Let_def frames_ok_advance frames_ok_clear_ref)

lemma clock_hand_sweep: "clock_hand s < NFRAME \<Longrightarrow> clock_hand (sweep n s) = (clock_hand s + n) mod NFRAME"
  by (induction n) (simp_all add: Let_def advance_def clear_ref_def mod_Suc_eq)

definition clock_pos :: "'a kstate_scheme \<Rightarrow> nat \<Rightarrow> nat" where
  "clock_pos s k = (clock_hand s + k) mod NFRAME"

lemma sweep_ref:
  assumes "frames_ok s" "i < NFRAME"
  shows "fr_reference_bit (frames (sweep n s) ! i) \<longleftrightarrow>
    fr_reference_bit (frames s ! i) \<and> (\<forall>k < n. clock_pos s k \<noteq> i \<or> cand s i = None)"
proof (induction n)
  case (Suc n)
  have h: "clock_hand (sweep n s) = clock_pos s n" using clock_hand_sweep [of s n] assms(1) by (simp add: clock_pos_def frames_ok_def)
  have "length (frames (sweep n s)) = NFRAME" using frames_ok_sweep [OF assms(1), of n] by (simp add: frames_ok_def)
  then have "fr_reference_bit (frames (sweep (Suc n) s) ! i) \<longleftrightarrow> fr_reference_bit (frames (sweep n s) ! i) \<and> (clock_pos s n \<noteq> i \<or> cand s i = None)"
    using assms(2) h by (auto simp: Let_def nth_clear_ref)
  then show ?case using Suc by (auto simp: less_Suc_eq)
qed simp

text \<open>The loop goes on as long as the frame under the hand is no candidate or has its bit set.\<close>

lemma evict_loop_sweep:
  assumes "frames_ok s" "\<forall>k < n. cand s (clock_pos s k) = None \<or> fr_reference_bit (frames (sweep k s) ! clock_pos s k)"
  shows "evict_loop (n + m) s = evict_loop m (sweep n s)"
  using assms(2)
proof (induction n arbitrary: m)
  case (Suc n)
  let ?t = "sweep n s"
  have h: "clock_hand ?t = clock_pos s n" using clock_hand_sweep [of s n] assms(1) by (simp add: clock_pos_def frames_ok_def)
  note E = evict_round_cases [OF frames_ok_sweep [OF assms(1), of n]]
  have "evict_round ?t = Inr (False, sweep (Suc n) s)"
    using E(1,2) Suc.prems [rule_format, of n] h by (cases "cand s (clock_pos s n)") (auto simp: Let_def)
  then have "evict_loop (Suc m) ?t = evict_loop m (sweep (Suc n) s)" by simp
  then show ?case using Suc.IH [of "Suc m"] Suc.prems by simp
qed simp

lemma evict_loop_victim:
  assumes "frames_ok s" "cand s v = Some a" "v = clock_pos s n" "\<not> fr_reference_bit (frames (sweep n s) ! v)"
    "\<forall>k < n. cand s (clock_pos s k) = None \<or> fr_reference_bit (frames (sweep k s) ! clock_pos s k)"
  shows "evict_loop (Suc n + m) s = evict_victim v a (frame_pa v) (advance (sweep n s))"
proof -
  have h: "clock_hand (sweep n s) = v" using clock_hand_sweep [of s n] assms(1,3) by (simp add: clock_pos_def frames_ok_def)
  have "evict_round (sweep n s) = rbind (evict_victim v a (frame_pa v) (advance (sweep n s))) (\<lambda>s. Inr (True, s))"
    using evict_round_cases(3) [OF frames_ok_sweep [OF assms(1), of n]] assms(2,4) h by simp
  then have "evict_loop (Suc m) (sweep n s) = evict_victim v a (frame_pa v) (advance (sweep n s))"
    by (cases "evict_victim v a (frame_pa v) (advance (sweep n s))") auto
  then show ?thesis using evict_loop_sweep [OF assms(1,5), of "Suc m"] by simp
qed

section \<open>The victim\<close>

text \<open>
  The specification: the number of frames the hand passes before it evicts. The first candidate
  whose bit is clear is taken in the first sweep; if all candidates have their bits set, the first
  candidate is taken in the second sweep.
\<close>

definition second_chance :: "'a kstate_scheme \<Rightarrow> nat option" where
  "second_chance s =
     (case find (\<lambda>k. cand s (clock_pos s k) \<noteq> None \<and> \<not> fr_reference_bit (frames s ! clock_pos s k)) [0..<NFRAME] of
        Some k \<Rightarrow> Some k
      | None \<Rightarrow> map_option (\<lambda>k. NFRAME + k) (find (\<lambda>k. cand s (clock_pos s k) \<noteq> None) [0..<NFRAME]))"

lemma find_upt_Some: "find P [0..<n] = Some k \<longleftrightarrow> k < n \<and> P k \<and> (\<forall>j < k. \<not> P j)"
  by (auto simp: find_Some_nth)

lemma find_upt_None: "find P [0..<n] = None \<longleftrightarrow> (\<forall>k < n. \<not> P k)"
  by (auto simp: find_None_iff)

lemma clock_pos_less: "clock_pos s k < NFRAME"
  by (simp add: clock_pos_def)

lemma clock_pos_neq:
  assumes "j < k" "k < NFRAME"
  shows "clock_pos s j \<noteq> clock_pos s k"
proof
  assume "clock_pos s j = clock_pos s k"
  then have "(clock_hand s + k) mod NFRAME = (clock_hand s + j) mod NFRAME" by (simp add: clock_pos_def)
  then have "NFRAME dvd (clock_hand s + k) - (clock_hand s + j)"
    using assms by (intro mod_eq_dvd_iff_nat [THEN iffD1]) auto
  with assms show False by (auto dest: dvd_imp_le)
qed

lemma clock_pos_wrap: "clock_pos s (NFRAME + k) = clock_pos s k"
proof -
  have "clock_hand s + (NFRAME + k) = clock_hand s + k + NFRAME" by simp
  then show ?thesis by (simp only: clock_pos_def mod_add_self2)
qed

lemma first_sweep_ref:
  assumes "frames_ok s" "j < NFRAME" "fr_reference_bit (frames s ! clock_pos s j)"
  shows "fr_reference_bit (frames (sweep j s) ! clock_pos s j)"
  using sweep_ref [OF assms(1) clock_pos_less] clock_pos_neq [of _ j s] assms(2,3) by blast

text \<open>
  Property (C11). Eviction is the second-chance algorithm. If the frame table agrees with the page
  tables, \<open>evict_pages\<close> passes over \<open>second_chance\<close> frames, fewer than two sweeps, clearing the reference bits
  of the candidates it passes, and evicts the frame under the hand; if no tracked page is mapped it
  never returns, however many rounds it is given, so \<open>kalloc\<close> does not report the lack of memory.
\<close>

theorem evict_second_chance:
  assumes "frames_ok s"
  shows "case second_chance s of
      Some n \<Rightarrow> n < 2 * NFRAME \<and> (\<exists>a. cand s (clock_pos s n) = Some a \<and>
        (\<forall>m. evict_loop (Suc n + m) s =
           evict_victim (clock_pos s n) a (KERNBASE + of_nat (4096 * clock_pos s n)) (advance (sweep n s))))
    | None \<Rightarrow> (\<forall>m. evict_loop m s = Inl Diverges)"
proof (cases "second_chance s")
  case None
  then have "\<forall>k < NFRAME. cand s (clock_pos s k) = None"
    unfolding second_chance_def by (auto simp: find_upt_None split: option.splits)
  moreover have "clock_pos s k = clock_pos s (k mod NFRAME)" for k by (simp add: clock_pos_def mod_add_right_eq)
  ultimately have "cand s (clock_pos s k) = None" for k by (metis mod_less_divisor zero_less_numeral)
  then have "evict_loop (m + 0) s = evict_loop 0 (sweep m s)" for m by (intro evict_loop_sweep [OF assms]) simp
  then show ?thesis using None by simp
next
  case (Some n)
  have go: "n < 2 * NFRAME \<and> cand s (clock_pos s n) \<noteq> None \<and> \<not> fr_reference_bit (frames (sweep n s) ! clock_pos s n) \<and>
    (\<forall>k < n. cand s (clock_pos s k) = None \<or> fr_reference_bit (frames (sweep k s) ! clock_pos s k))"
  proof (cases "find (\<lambda>k. cand s (clock_pos s k) \<noteq> None \<and> \<not> fr_reference_bit (frames s ! clock_pos s k)) [0..<NFRAME]")
    case (Some k)
    have "second_chance s = Some k" unfolding second_chance_def Some by simp
    then have k: "n = k" "k < NFRAME" "cand s (clock_pos s k) \<noteq> None" "\<not> fr_reference_bit (frames s ! clock_pos s k)"
      "\<forall>j < k. cand s (clock_pos s j) = None \<or> fr_reference_bit (frames s ! clock_pos s j)"
      using \<open>second_chance s = Some n\<close> Some unfolding find_upt_Some by auto
    then show ?thesis
      using first_sweep_ref [OF assms] sweep_ref [OF assms clock_pos_less [of s k], of k] by auto
  next
    case no: None
    then have all: "\<forall>k < NFRAME. cand s (clock_pos s k) = None \<or> fr_reference_bit (frames s ! clock_pos s k)"
      by (auto simp: find_upt_None)
    obtain k where k: "n = NFRAME + k" "k < NFRAME" "cand s (clock_pos s k) \<noteq> None" "\<forall>j < k. cand s (clock_pos s j) = None"
      using Some unfolding second_chance_def no by (auto simp: find_upt_Some)
    have "\<not> fr_reference_bit (frames (sweep n s) ! clock_pos s n)"
      unfolding k(1) clock_pos_wrap
    proof
      assume "fr_reference_bit (frames (sweep (NFRAME + k) s) ! clock_pos s k)"
      from conjunct2 [OF iffD1 [OF sweep_ref [OF assms clock_pos_less] this], rule_format, of k] show False using k(3) by simp
    qed
    moreover have "cand s (clock_pos s j) = None \<or> fr_reference_bit (frames (sweep j s) ! clock_pos s j)" if "j < n" for j
    proof (cases "j < NFRAME")
      case True
      then show ?thesis using all first_sweep_ref [OF assms True] by blast
    next
      case False
      then have "j = NFRAME + (j - NFRAME)" "j - NFRAME < k" using that k(1) by auto
      then show ?thesis using k(4) clock_pos_wrap [of s "j - NFRAME"] by metis
    qed
    ultimately show ?thesis using k(2,3) clock_pos_wrap [of s k] unfolding k(1) by auto
  qed
  then obtain a where a: "cand s (clock_pos s n) = Some a" by blast
  show ?thesis
    using go a evict_loop_victim [OF assms a refl] Some by auto
qed

text \<open>Process 0 with one page at address 0, in frame 5, reached through two page table pages.\<close>

definition example_mem :: memory where
  "example_mem =
     store64 (store64 (store64 (\<lambda>_. 0) 0x80100000 (PA2PTE 0x80101000 OR PTE_V))
       0x80101000 (PA2PTE 0x80102000 OR PTE_V)) 0x80102000 (PA2PTE 0x80005000 OR (PTE_R OR PTE_W OR PTE_U) OR PTE_V)"

definition example_kstate :: kstate where
  "example_kstate = boot_kstate\<lparr>mem := example_mem,
     procs := (procs boot_kstate)[0 := (procs boot_kstate ! 0)\<lparr>pagetable := 0x80100000\<rparr>],
     frames := (frames boot_kstate)[5 := \<lparr>fr_in_use = True, fr_p = Some 0, fr_reference_bit = True, fr_va = 0\<rparr>]\<rparr>"

lemma example_mem_loads:
  "load64 example_mem 0x80100000 = PA2PTE 0x80101000 OR PTE_V" "load64 example_mem 0x80101000 = PA2PTE 0x80102000 OR PTE_V"
  "load64 example_mem 0x80102000 = PA2PTE 0x80005000 OR (PTE_R OR PTE_W OR PTE_U) OR PTE_V"
proof -
  have f: "far 0x80102000 0x80100000" "far 0x80101000 0x80100000" "far 0x80102000 0x80101000" by (simp_all add: far_def)
  show "load64 example_mem 0x80100000 = PA2PTE 0x80101000 OR PTE_V" "load64 example_mem 0x80101000 = PA2PTE 0x80102000 OR PTE_V"
    "load64 example_mem 0x80102000 = PA2PTE 0x80005000 OR (PTE_R OR PTE_W OR PTE_U) OR PTE_V"
    unfolding example_mem_def by (simp_all only: store64_other [OF f(1)] store64_other [OF f(2)] store64_other [OF f(3)] load64_store64)
qed

lemma example_walk: "walk_from example_mem 2 0x80100000 0 = 0x80102000"
proof -
  have a: "pte_addr p l 0 = p" for p l by (simp add: pte_addr_def PX_def)
  have v: "(PA2PTE 0x80101000 OR PTE_V) AND PTE_V \<noteq> 0" "PTE2PA (PA2PTE 0x80101000 OR PTE_V) = 0x80101000"
    "(PA2PTE 0x80102000 OR PTE_V) AND PTE_V \<noteq> 0" "PTE2PA (PA2PTE 0x80102000 OR PTE_V) = 0x80102000"
    by (simp_all add: PA2PTE_def PTE2PA_def)
  show ?thesis
    by (simp only: numeral_2_eq_2 walk_from.simps Let_def a example_mem_loads v simp_thms if_True)
qed

lemma example_cand: "cand example_kstate i = (if i = 5 then Some 0x80102000 else None)" if "i < NFRAME"
proof -
  have f: "frames example_kstate ! i = (if i = 5 then \<lparr>fr_in_use = True, fr_p = Some 0, fr_reference_bit = True, fr_va = 0\<rparr>
      else \<lparr>fr_in_use = False, fr_p = None, fr_reference_bit = False, fr_va = 0\<rparr>)"
    using that by (simp add: example_kstate_def boot_kstate_def lstate.extend_def nth_list_update)
  have p: "pagetable (procs example_kstate ! 0) = 0x80100000" "mem example_kstate = example_mem"
    by (simp_all add: example_kstate_def boot_kstate_def lstate.extend_def boot_lstate_def)
  have v: "load64 example_mem 0x80102000 AND PTE_V \<noteq> 0" unfolding example_mem_loads by (simp add: PA2PTE_def)
  show ?thesis
  proof (cases "i = 5")
    case True
    then show ?thesis unfolding cand_def f p(2) Let_def using v by (simp add: p(1) example_walk)
  qed (simp add: cand_def f)
qed

lemma example_frames_ok: "frames_ok example_kstate"
proof -
  have l: "length (frames example_kstate) = NFRAME" "clock_hand example_kstate < NFRAME" "mem example_kstate = example_mem"
    by (simp_all add: example_kstate_def boot_kstate_def lstate.extend_def)
  have va: "fr_va (frames example_kstate ! i) < MAXVA" if "i < NFRAME" for i
    using that by (simp add: example_kstate_def boot_kstate_def lstate.extend_def nth_list_update)
  have "PTE2PA (load64 example_mem 0x80102000) = frame_pa 5" unfolding example_mem_loads by (simp add: PA2PTE_def PTE2PA_def)
  then show ?thesis using l va example_cand by (auto simp: frames_ok_def split: if_splits)
qed

theorem evict_second_chance_witness:
  "frames_ok example_kstate \<and> second_chance example_kstate = Some (NFRAME + 5) \<and>
    (\<forall>m. evict_loop (Suc (NFRAME + 5) + m) example_kstate =
       evict_victim 5 0x80102000 0x80005000 (advance (sweep (NFRAME + 5) example_kstate)))"
proof -
  have h: "clock_hand example_kstate = 0" by (simp add: example_kstate_def boot_kstate_def lstate.extend_def)
  then have pos: "clock_pos example_kstate k = k mod NFRAME" for k by (simp add: clock_pos_def)
  have r: "fr_reference_bit (frames example_kstate ! 5)"
    by (simp add: example_kstate_def boot_kstate_def lstate.extend_def)
  have c: "cand example_kstate (clock_pos example_kstate k) \<noteq> None \<longleftrightarrow> k = 5" if "k < NFRAME" for k
    using that example_cand [of k] by (simp add: pos)
  have f1: "find (\<lambda>k. cand example_kstate (clock_pos example_kstate k) \<noteq> None \<and>
      \<not> fr_reference_bit (frames example_kstate ! clock_pos example_kstate k)) [0..<NFRAME] = None"
    unfolding find_upt_None using c r pos by fastforce
  have f2: "find (\<lambda>k. cand example_kstate (clock_pos example_kstate k) \<noteq> None) [0..<NFRAME] = Some 5"
    unfolding find_upt_Some using c by auto
  have sc: "second_chance example_kstate = Some (NFRAME + 5)" unfolding second_chance_def f1 f2 by simp
  have "clock_pos example_kstate (NFRAME + 5) = 5" by (simp add: pos)
  then show ?thesis
    using evict_second_chance [OF example_frames_ok] example_frames_ok sc example_cand [of 5] by simp
qed

end
