(* ===== verification/Vm.thy ===== *)
theory Vm
  imports KallocSpec
begin

text \<open>
  Virtual memory (\<^verbatim>\<open>kernel/vm.c\<close>). Page tables live in \<open>mem\<close>; a pointer to an entry is its address,
  the null pointer is 0. The TLB is not modelled: \<^verbatim>\<open>sfence_vma\<close> has no effect here. The permission
  bits that the code passes as \<^verbatim>\<open>int\<close> are not negative and are words here.

  A loop over virtual addresses gets as many rounds as the range has pages, and one more.
\<close>

record vstate = kstate +
  kernel_pagetable :: u64

section \<open>Walking the page table\<close>

fun walk_alloc :: "nat \<Rightarrow> u64 \<Rightarrow> u64 \<Rightarrow> 'a kstate_scheme \<Rightarrow> (u64 \<times> 'a kstate_scheme) res" where
  "walk_alloc 0 pt va s = Inr (pte_addr pt 0 va, s)"
| "walk_alloc (Suc level) pt va s =
     (let pte = pte_addr pt (Suc level) va in
      if load64 (mem s) pte AND PTE_V \<noteq> 0 then walk_alloc level (PTE2PA (load64 (mem s) pte)) va s
      else rbind (kalloc s) (\<lambda>(pt', s).
        if pt' = 0 then Inr (0, s)
        else let s = s\<lparr>mem := memset (mem s) pt' 0 (of_nat PGSIZE)\<rparr>;
                 s = s\<lparr>mem := store64 (mem s) pte (PA2PTE pt' OR PTE_V)\<rparr>
             in walk_alloc level pt' va s))"

definition walk :: "u64 \<Rightarrow> u64 \<Rightarrow> bool \<Rightarrow> 'a kstate_scheme \<Rightarrow> (u64 \<times> 'a kstate_scheme) res" where
  "walk pt va alloc s =
     (if va \<ge> MAXVA then Inl (Panic ''walk'')
      else if alloc then walk_alloc 2 pt va s else Inr (walk_from (mem s) 2 pt va, s))"

text \<open>The slot number that the entry of a swapped page holds, cut down to an \<^verbatim>\<open>int\<close>.\<close>

definition swap_slot :: "u64 \<Rightarrow> int" where
  "swap_slot pte = sint (ucast (drop_bit 10 pte) :: u32)"

definition set_pte :: "u64 \<Rightarrow> u64 \<Rightarrow> 'a pstate_scheme \<Rightarrow> 'a pstate_scheme" where
  "set_pte pte v s = s\<lparr>mem := store64 (mem s) pte v\<rparr>"

definition walkaddr :: "u64 \<Rightarrow> u64 \<Rightarrow> 'a kstate_scheme \<Rightarrow> (u64 \<times> 'a kstate_scheme) res" where
  "walkaddr pt va s =
     (if va \<ge> MAXVA then Inr (0, s)
      else rbind (walk pt va False s) (\<lambda>(pte, s).
        if pte = 0 then Inr (0, s)
        else let user = (\<lambda>s. if load64 (mem s) pte AND PTE_U = 0 then Inr (0, s)
                             else Inr (PTE2PA (load64 (mem s) pte), s))
          in if load64 (mem s) pte AND PTE_V = 0 then
               if load64 (mem s) pte AND PTE_SWAPPED \<noteq> 0 then
                 rbind (kalloc s) (\<lambda>(p, s).
                   if p = 0 then Inr (0, s)
                   else rbind (swap_in p (swap_slot (load64 (mem s) pte)) s) (\<lambda>s.
                     let s = set_pte pte (PA2PTE p OR PTE_V OR (load64 (mem s) pte AND 0x3FF)) s;
                         s = set_pte pte (load64 (mem s) pte AND NOT PTE_SWAPPED) s
                     in user s))
               else Inr (0, s)
             else user s))"

definition ismapped :: "u64 \<Rightarrow> u64 \<Rightarrow> 'a kstate_scheme \<Rightarrow> bool res" where
  "ismapped pt va s =
     rbind (walk pt va False s) (\<lambda>(pte, s).
       if pte = 0 then Inr False else Inr (load64 (mem s) pte AND PTE_V \<noteq> 0))"

section \<open>Mapping and unmapping\<close>

fun map_loop :: "nat \<Rightarrow> u64 \<Rightarrow> u64 \<Rightarrow> u64 \<Rightarrow> u64 \<Rightarrow> u64 \<Rightarrow> 'a kstate_scheme \<Rightarrow> (int \<times> 'a kstate_scheme) res" where
  "map_loop 0 pt a lst pa perm s = Inl Diverges"
| "map_loop (Suc n) pt a lst pa perm s =
     rbind (walk pt a True s) (\<lambda>(pte, s).
       if pte = 0 then Inr (-1, s)
       else if load64 (mem s) pte AND PTE_V \<noteq> 0 then Inl (Panic ''mappages: remap'')
       else let s = set_pte pte (PA2PTE pa OR perm OR PTE_V) s
            in if a = lst then Inr (0, s) else map_loop n pt (a + PGSZ) lst (pa + PGSZ) perm s)"

definition mappages :: "u64 \<Rightarrow> u64 \<Rightarrow> u64 \<Rightarrow> u64 \<Rightarrow> u64 \<Rightarrow> 'a kstate_scheme \<Rightarrow> (int \<times> 'a kstate_scheme) res" where
  "mappages pt va siz pa perm s =
     (if va mod PGSZ \<noteq> 0 then Inl (Panic ''mappages: va not aligned'')
      else if siz mod PGSZ \<noteq> 0 then Inl (Panic ''mappages: size not aligned'')
      else if siz = 0 then Inl (Panic ''mappages: size'')
      else map_loop (unat siz div PGSIZE) pt va (va + siz - PGSZ) pa perm s)"

definition kvmmap :: "u64 \<Rightarrow> u64 \<Rightarrow> u64 \<Rightarrow> u64 \<Rightarrow> u64 \<Rightarrow> 'a kstate_scheme \<Rightarrow> 'a kstate_scheme res" where
  "kvmmap kpgtbl va pa siz perm s =
     rbind (mappages kpgtbl va siz pa perm s) (\<lambda>(r, s). if r \<noteq> 0 then Inl (Panic ''kvmmap'') else Inr s)"

definition proc_mapstacks :: "u64 \<Rightarrow> 'a kstate_scheme \<Rightarrow> 'a kstate_scheme res" where
  "proc_mapstacks kpgtbl s =
     rfold (\<lambda>i s. rbind (kalloc s) (\<lambda>(pa, s).
         if pa = 0 then Inl (Panic ''kalloc'')
         else kvmmap kpgtbl (KSTACK i) pa PGSZ (PTE_R OR PTE_W) s)) [0..<NPROC] s"

text \<open>\<open>etext\<close> and \<open>trampoline\<close> are addresses that the linker defines.\<close>

abbreviation (input) UART0 :: u64 where "UART0 \<equiv> 0x10000000"
abbreviation (input) VIRTIO0 :: u64 where "VIRTIO0 \<equiv> 0x10001000"
abbreviation (input) PLIC :: u64 where "PLIC \<equiv> 0x0c000000"

definition kvmmake :: "u64 \<Rightarrow> u64 \<Rightarrow> 'a kstate_scheme \<Rightarrow> (u64 \<times> 'a kstate_scheme) res" where
  "kvmmake etext trampoline s =
     rbind (kalloc s) (\<lambda>(kpgtbl, s).
     rbind (kvmmap kpgtbl UART0 UART0 PGSZ (PTE_R OR PTE_W) (s\<lparr>mem := memset (mem s) kpgtbl 0 (of_nat PGSIZE)\<rparr>)) (\<lambda>s.
     rbind (kvmmap kpgtbl VIRTIO0 VIRTIO0 PGSZ (PTE_R OR PTE_W) s) (\<lambda>s.
     rbind (kvmmap kpgtbl PLIC PLIC 0x4000000 (PTE_R OR PTE_W) s) (\<lambda>s.
     rbind (kvmmap kpgtbl KERNBASE KERNBASE (etext - KERNBASE) (PTE_R OR PTE_X) s) (\<lambda>s.
     rbind (kvmmap kpgtbl etext etext (PHYSTOP - etext) (PTE_R OR PTE_W) s) (\<lambda>s.
     rbind (kvmmap kpgtbl TRAMPOLINE trampoline PGSZ (PTE_R OR PTE_X) s) (\<lambda>s.
     rbind (proc_mapstacks kpgtbl s) (\<lambda>s. Inr (kpgtbl, s)))))))))"

definition kvminit :: "u64 \<Rightarrow> u64 \<Rightarrow> 'a vstate_scheme \<Rightarrow> 'a vstate_scheme res" where
  "kvminit etext trampoline s =
     rbind (kvmmake etext trampoline s) (\<lambda>(pt, s). Inr (s\<lparr>kernel_pagetable := pt\<rparr>))"

definition uvmcreate :: "'a kstate_scheme \<Rightarrow> (u64 \<times> 'a kstate_scheme) res" where
  "uvmcreate s =
     rbind (kalloc s) (\<lambda>(pt, s).
       if pt = 0 then Inr (0, s) else Inr (pt, s\<lparr>mem := memset (mem s) pt 0 (of_nat PGSIZE)\<rparr>))"

text \<open>The body of the loop of \<open>uvmunmap\<close>.\<close>

definition unmap_page :: "u64 \<Rightarrow> bool \<Rightarrow> u64 \<Rightarrow> 'a kstate_scheme \<Rightarrow> 'a kstate_scheme res" where
  "unmap_page pt do_free a s =
     rbind (walk pt a False s) (\<lambda>(pte, s).
       if pte = 0 then Inr s
       else if load64 (mem s) pte AND PTE_V = 0 then
         if load64 (mem s) pte AND PTE_SWAPPED \<noteq> 0 then
           rbind (swap_free (swap_slot (load64 (mem s) pte)) s) (\<lambda>s. Inr (set_pte pte 0 s))
         else Inr s
       else rbind (if do_free then kfree (PTE2PA (load64 (mem s) pte)) s else Inr s) (\<lambda>s. Inr (set_pte pte 0 s)))"

fun unmap_loop :: "nat \<Rightarrow> u64 \<Rightarrow> u64 \<Rightarrow> u64 \<Rightarrow> bool \<Rightarrow> 'a kstate_scheme \<Rightarrow> 'a kstate_scheme res" where
  "unmap_loop 0 pt a e do_free s = Inl Diverges"
| "unmap_loop (Suc n) pt a e do_free s =
     (if a < e then rbind (unmap_page pt do_free a s) (unmap_loop n pt (a + PGSZ) e do_free) else Inr s)"

definition uvmunmap :: "u64 \<Rightarrow> u64 \<Rightarrow> u64 \<Rightarrow> bool \<Rightarrow> 'a kstate_scheme \<Rightarrow> 'a kstate_scheme res" where
  "uvmunmap pt va npages do_free s =
     (if va mod PGSZ \<noteq> 0 then Inl (Panic ''uvmunmap: not aligned'')
      else unmap_loop (Suc (unat npages)) pt va (va + npages * PGSZ) do_free s)"

section \<open>Growing and shrinking\<close>

definition uvmdealloc :: "u64 \<Rightarrow> u64 \<Rightarrow> u64 \<Rightarrow> 'a kstate_scheme \<Rightarrow> (u64 \<times> 'a kstate_scheme) res" where
  "uvmdealloc pt oldsz newsz s =
     (if newsz \<ge> oldsz then Inr (oldsz, s)
      else if PGROUNDUP newsz < PGROUNDUP oldsz then
        let npages = scast (ucast ((PGROUNDUP oldsz - PGROUNDUP newsz) div PGSZ) :: u32)
        in rbind (uvmunmap pt (PGROUNDUP newsz) npages True s) (\<lambda>s. Inr (newsz, s))
      else Inr (newsz, s))"

fun alloc_loop :: "nat \<Rightarrow> u64 \<Rightarrow> u64 \<Rightarrow> u64 \<Rightarrow> u64 \<Rightarrow> u64 \<Rightarrow> 'a kstate_scheme \<Rightarrow> (u64 \<times> 'a kstate_scheme) res" where
  "alloc_loop 0 pt a oldsz newsz xperm s = Inl Diverges"
| "alloc_loop (Suc n) pt a oldsz newsz xperm s =
     (if a < newsz then
        rbind (kalloc s) (\<lambda>(p, s).
          if p = 0 then rbind (uvmdealloc pt a oldsz s) (\<lambda>(_, s). Inr (0, s))
          else let s = s\<lparr>mem := memset (mem s) p 0 (of_nat PGSIZE)\<rparr> in
            rbind (mappages pt a PGSZ p (PTE_R OR PTE_U OR xperm) s) (\<lambda>(r, s).
              if r \<noteq> 0 then rbind (kfree p s) (\<lambda>s. rbind (uvmdealloc pt a oldsz s) (\<lambda>(_, s). Inr (0, s)))
              else alloc_loop n pt (a + PGSZ) oldsz newsz xperm (track_frame (myproc s) a p s)))
      else Inr (newsz, s))"

definition uvmalloc :: "u64 \<Rightarrow> u64 \<Rightarrow> u64 \<Rightarrow> u64 \<Rightarrow> 'a kstate_scheme \<Rightarrow> (u64 \<times> 'a kstate_scheme) res" where
  "uvmalloc pt oldsz newsz xperm s =
     (if newsz < oldsz then Inr (oldsz, s)
      else let oldsz = PGROUNDUP oldsz
           in alloc_loop (Suc (Suc (unat newsz div PGSIZE))) pt oldsz oldsz newsz xperm s)"

text \<open>
  \<open>freewalk\<close> follows the entries that are valid and not leaves. The first argument bounds the depth
  of the recursion, which is three for a page table.
\<close>

primrec freewalk_from :: "nat \<Rightarrow> u64 \<Rightarrow> 'a kstate_scheme \<Rightarrow> 'a kstate_scheme res" where
  "freewalk_from 0 pt s = Inl Diverges"
| "freewalk_from (Suc depth) pt s =
     rbind (rfold (\<lambda>i s. let a = pt + 8 * of_nat i; pte = load64 (mem s) a in
         if pte AND PTE_V \<noteq> 0 \<and> pte AND (PTE_R OR PTE_W OR PTE_X) = 0
         then rbind (freewalk_from depth (PTE2PA pte) s) (\<lambda>s. Inr (set_pte a 0 s))
         else if pte AND PTE_V \<noteq> 0 then Inl (Panic ''freewalk: leaf'')
         else Inr s) [0..<512] s) (kfree pt)"

definition freewalk :: "u64 \<Rightarrow> 'a kstate_scheme \<Rightarrow> 'a kstate_scheme res" where
  "freewalk pt s = freewalk_from 3 pt s"

definition uvmfree :: "u64 \<Rightarrow> u64 \<Rightarrow> 'a kstate_scheme \<Rightarrow> 'a kstate_scheme res" where
  "uvmfree pt siz s =
     rbind (if siz > 0 then uvmunmap pt 0 (PGROUNDUP siz div PGSZ) True s else Inr s) (freewalk pt)"

section \<open>Copying an address space\<close>

text \<open>
  \<open>copy_page\<close> is the body of the loop of \<open>uvmcopy\<close> for the page at \<open>i\<close>; its result is \<open>False\<close> where the
  code jumps to \<^verbatim>\<open>err\<close>.
\<close>

definition copy_page :: "u64 \<Rightarrow> u64 \<Rightarrow> nat \<Rightarrow> u64 \<Rightarrow> 'a kstate_scheme \<Rightarrow> (bool \<times> 'a kstate_scheme) res" where
  "copy_page old new np i s =
     rbind (walk old i False s) (\<lambda>(pte, s).
       let install = (\<lambda>p flags s. rbind (mappages new i PGSZ p flags s) (\<lambda>(r, s).
             if r \<noteq> 0 then rbind (kfree p s) (\<lambda>s. Inr (False, s)) else Inr (True, track_frame (Some np) i p s)))
       in if pte = 0 then Inr (True, s)
          else if load64 (mem s) pte AND PTE_V = 0 then
            if load64 (mem s) pte AND PTE_SWAPPED \<noteq> 0 then
              let swap_idx = swap_slot (load64 (mem s) pte); flags = PTE_FLAGS (load64 (mem s) pte) in
              rbind (kalloc s) (\<lambda>(p, s).
                if p = 0 then Inr (False, s)
                else rbind (swap_in p swap_idx s) (install p ((flags OR PTE_V) AND NOT PTE_SWAPPED)))
            else Inr (True, s)
          else
            let pa = PTE2PA (load64 (mem s) pte); flags = PTE_FLAGS (load64 (mem s) pte) in
            rbind (kalloc s) (\<lambda>(p, s).
              if p = 0 then Inr (False, s)
              else install p flags (s\<lparr>mem := memmove (mem s) p pa (of_nat PGSIZE)\<rparr>)))"

fun copy_loop :: "nat \<Rightarrow> u64 \<Rightarrow> u64 \<Rightarrow> nat \<Rightarrow> u64 \<Rightarrow> u64 \<Rightarrow> 'a kstate_scheme \<Rightarrow> (int \<times> 'a kstate_scheme) res" where
  "copy_loop 0 old new np i siz s = Inl Diverges"
| "copy_loop (Suc n) old new np i siz s =
     (if i < siz then
        rbind (copy_page old new np i s) (\<lambda>(ok, s).
          if ok then copy_loop n old new np (i + PGSZ) siz s
          else rbind (uvmunmap new 0 (i div PGSZ) True s) (\<lambda>s. Inr (-1, s)))
      else Inr (0, s))"

definition uvmcopy :: "u64 \<Rightarrow> u64 \<Rightarrow> u64 \<Rightarrow> nat \<Rightarrow> 'a kstate_scheme \<Rightarrow> (int \<times> 'a kstate_scheme) res" where
  "uvmcopy old new siz np s = copy_loop (Suc (Suc (unat siz div PGSIZE))) old new np 0 siz s"

definition uvmclear :: "u64 \<Rightarrow> u64 \<Rightarrow> 'a kstate_scheme \<Rightarrow> 'a kstate_scheme res" where
  "uvmclear pt va s =
     rbind (walk pt va False s) (\<lambda>(pte, s).
       if pte = 0 then Inl (Panic ''uvmclear'')
       else Inr (set_pte pte (load64 (mem s) pte AND NOT PTE_U) s))"

section \<open>Page faults\<close>

definition vmfault :: "u64 \<Rightarrow> u64 \<Rightarrow> bool \<Rightarrow> 'a kstate_scheme \<Rightarrow> (u64 \<times> 'a kstate_scheme) res" where
  "vmfault pt va read s =
     rbind (curproc s) (\<lambda>p.
       if va \<ge> sz (procs s ! p) then Inr (0, s)
       else let va = PGROUNDDOWN va in
         rbind (ismapped pt va s) (\<lambda>mapped.
           if mapped then Inr (0, s)
           else rbind (kalloc s) (\<lambda>(m, s).
             rbind (if m = 0 then evict_pages s else Inr (m, s)) (\<lambda>(m, s).
               if m = 0 then Inr (0, s)
               else let s = s\<lparr>mem := memset (mem s) m 0 (of_nat PGSIZE)\<rparr> in
                 rbind (mappages pt va PGSZ m (PTE_W OR PTE_U OR PTE_R) s) (\<lambda>(r, s).
                   if r \<noteq> 0 then rbind (kfree m s) (\<lambda>s. Inr (0, s))
                   else Inr (m, track_frame (Some p) va m s))))))"

section \<open>Copying between kernel and user\<close>

text \<open>The physical address of the user page at \<open>va0\<close>, faulted in if need be.\<close>

definition user_page :: "u64 \<Rightarrow> u64 \<Rightarrow> 'a kstate_scheme \<Rightarrow> (u64 \<times> 'a kstate_scheme) res" where
  "user_page pt va0 s =
     rbind (walkaddr pt va0 s) (\<lambda>(pa0, s). if pa0 = 0 then vmfault pt va0 False s else Inr (pa0, s))"

text \<open>How many bytes of a copy of \<open>len\<close> bytes at \<open>va\<close> are in the page of \<open>va\<close>.\<close>

definition chunk :: "u64 \<Rightarrow> u64 \<Rightarrow> u64" where
  "chunk va len = (let n = PGSZ - (va - PGROUNDDOWN va) in if n > len then len else n)"

fun copyout_loop :: "nat \<Rightarrow> u64 \<Rightarrow> u64 \<Rightarrow> u64 \<Rightarrow> u64 \<Rightarrow> 'a kstate_scheme \<Rightarrow> (int \<times> 'a kstate_scheme) res" where
  "copyout_loop 0 pt dstva src len s = Inl Diverges"
| "copyout_loop (Suc k) pt dstva src len s =
     (if len > 0 then
        let va0 = PGROUNDDOWN dstva in
        if va0 \<ge> MAXVA then Inr (-1, s)
        else rbind (user_page pt va0 s) (\<lambda>(pa0, s).
          if pa0 = 0 then Inr (-1, s)
          else rbind (walk pt va0 False s) (\<lambda>(pte, s).
            if pte = 0 then Inl Undefined
            else if load64 (mem s) pte AND PTE_W = 0 then Inr (-1, s)
            else let n = chunk dstva len;
                     s = s\<lparr>mem := memmove (mem s) (pa0 + (dstva - va0)) src (ucast n)\<rparr>
                 in copyout_loop k pt (va0 + PGSZ) (src + n) (len - n) s))
      else Inr (0, s))"

definition copyout :: "u64 \<Rightarrow> u64 \<Rightarrow> u64 \<Rightarrow> u64 \<Rightarrow> 'a kstate_scheme \<Rightarrow> (int \<times> 'a kstate_scheme) res" where
  "copyout pt dstva src len s = copyout_loop (Suc (unat len)) pt dstva src len s"

fun copyin_loop :: "nat \<Rightarrow> u64 \<Rightarrow> u64 \<Rightarrow> u64 \<Rightarrow> u64 \<Rightarrow> 'a kstate_scheme \<Rightarrow> (int \<times> 'a kstate_scheme) res" where
  "copyin_loop 0 pt dst srcva len s = Inl Diverges"
| "copyin_loop (Suc k) pt dst srcva len s =
     (if len > 0 then
        let va0 = PGROUNDDOWN srcva in
        rbind (user_page pt va0 s) (\<lambda>(pa0, s).
          if pa0 = 0 then Inr (-1, s)
          else let n = chunk srcva len;
                   s = s\<lparr>mem := memmove (mem s) dst (pa0 + (srcva - va0)) (ucast n)\<rparr>
               in copyin_loop k pt (dst + n) (va0 + PGSZ) (len - n) s)
      else Inr (0, s))"

definition copyin :: "u64 \<Rightarrow> u64 \<Rightarrow> u64 \<Rightarrow> u64 \<Rightarrow> 'a kstate_scheme \<Rightarrow> (int \<times> 'a kstate_scheme) res" where
  "copyin pt dst srcva len s = copyin_loop (Suc (unat len)) pt dst srcva len s"

text \<open>The inner loop of \<open>copyinstr\<close>: \<open>n\<close> bytes at most, or up to the null byte.\<close>

fun copystr :: "nat \<Rightarrow> u64 \<Rightarrow> u64 \<Rightarrow> u64 \<Rightarrow> memory \<Rightarrow> bool \<times> u64 \<times> u64 \<times> memory" where
  "copystr 0 p dst mx m = (False, dst, mx, m)"
| "copystr (Suc n) p dst mx m =
     (if m p = 0 then (True, dst, mx, m(dst := 0)) else copystr n (p + 1) (dst + 1) (mx - 1) (m(dst := m p)))"

fun copyinstr_loop :: "nat \<Rightarrow> u64 \<Rightarrow> u64 \<Rightarrow> u64 \<Rightarrow> u64 \<Rightarrow> 'a kstate_scheme \<Rightarrow> (int \<times> 'a kstate_scheme) res" where
  "copyinstr_loop 0 pt dst srcva mx s = Inl Diverges"
| "copyinstr_loop (Suc k) pt dst srcva mx s =
     (if mx > 0 then
        let va0 = PGROUNDDOWN srcva in
        rbind (walkaddr pt va0 s) (\<lambda>(pa0, s).
          if pa0 = 0 then Inr (-1, s)
          else let n = chunk srcva mx;
                   (got_null, dst, mx, m) = copystr (unat n) (pa0 + (srcva - va0)) dst mx (mem s);
                   s = s\<lparr>mem := m\<rparr>
               in if got_null then Inr (0, s) else copyinstr_loop k pt dst (va0 + PGSZ) mx s)
      else Inr (-1, s))"

definition copyinstr :: "u64 \<Rightarrow> u64 \<Rightarrow> u64 \<Rightarrow> u64 \<Rightarrow> 'a kstate_scheme \<Rightarrow> (int \<times> 'a kstate_scheme) res" where
  "copyinstr pt dst srcva mx s = copyinstr_loop (Suc (unat mx)) pt dst srcva mx s"

end
