(* ===== verification/PageTable.thy ===== *)
theory PageTable
  imports Vm "HOL-Library.Sublist"
begin

text \<open>
  The three-level page table as a radix tree, and the map from virtual pages to entries that it
  implements. A table page is found by the path of indices that leads to it.
\<close>

section \<open>Entries\<close>

lemma load64_page:
  assumes "\<forall>a. in_page q a \<longrightarrow> m' a = m a" "page_ok q" "i < 512"
  shows "load64 m' (entry q i) = load64 m (entry q i)"
proof (rule load64_cong, intro allI impI)
  fix k :: nat assume "k < 8"
  then have "unat (entry q i + of_nat k) = unat q + 8 * i + k"
    using assms(2,3) unat_entry [OF assms(2,3)] by (subst unat_plus_small) (auto simp: page_ok_def)
  then have "in_page q (entry q i + of_nat k)" using assms(3) \<open>k < 8\<close> by (simp add: in_page_def)
  then show "m' (entry q i + of_nat k) = m (entry q i + of_nat k)" using assms(1) by blast
qed

lemma store64_page:
  assumes "page_ok q" "i < 512" "\<not> in_page q a"
  shows "store64 m (entry q i) v a = m a"
proof -
  have u: "unat (entry q i) = unat q + 8 * i" by (rule unat_entry [OF assms(1,2)])
  have "8 \<le> unat (a - entry q i)"
  proof (cases "unat (entry q i) \<le> unat a")
    case True
    then show ?thesis using assms(2,3) u by (simp add: in_page_def unat_minus_le)
  next
    case False
    then have "unat (a - entry q i) = 2 ^ 64 + unat a - unat (entry q i)" by (intro unat_minus_gt) simp
    moreover have "unat (entry q i) \<le> 2 ^ 56" using assms(1,2) u by (simp add: page_ok_def)
    ultimately show ?thesis by simp
  qed
  then show ?thesis by (simp add: store64_def mem_write_outside)
qed

lemma bit_aligned: "4096 dvd unat (p :: u64) \<Longrightarrow> n < 12 \<Longrightarrow> \<not> bit p n"
proof -
  assume a: "4096 dvd unat p" "n < 12"
  then obtain k where k: "unat p = 4096 * k" by (auto simp: dvd_def)
  have "(4096 :: nat) = 2 ^ n * 2 ^ (12 - n)" using a(2) by (simp flip: power_add)
  then have "unat p = 2 ^ n * (2 ^ (12 - n) * k)" unfolding k by (simp only: mult.assoc)
  then have "unat p div 2 ^ n = 2 ^ (12 - n) * k" by simp
  then have "even (unat p div 2 ^ n)" using a(2) by simp
  then have "\<not> bit (unat p) n" by (simp add: bit_iff_odd)
  then show "\<not> bit p n" by (simp add: bit_unsigned_iff)
qed

lemma bit_flags: "f AND NOT 0x3FF = (0 :: u64) \<Longrightarrow> 10 \<le> n \<Longrightarrow> \<not> bit f n"
proof
  assume a: "f AND NOT 0x3FF = 0" "10 \<le> n" "bit f n"
  then have n: "n < 64" using bit_imp_le_length [of f n] by simp
  have "\<not> bit (0x3FF :: u64) n"
  proof -
    have "\<not> bit (mask 10 :: u64) n" using a(2) by (simp add: bit_mask_iff)
    then show ?thesis by (simp add: mask_eq_exp_minus_1)
  qed
  then have "bit (f AND NOT 0x3FF) n" unfolding bit_and_iff bit_not_iff possible_bit_word using a(3) n by simp
  then show False using a(1) by simp
qed

lemma PTE2PA_PA2PTE:
  assumes "4096 dvd unat p" "f AND NOT 0x3FF = 0"
  shows "PTE2PA (PA2PTE p OR f) = p"
proof (rule bit_word_eqI)
  fix n assume n: "n < LENGTH(64)"
  show "bit (PTE2PA (PA2PTE p OR f)) n = bit p n"
  proof (cases "n < 12")
    case False
    then obtain k where k: "n = 12 + k" using le_Suc_ex linorder_not_less by blast
    have "\<not> bit f (10 + k)" by (intro bit_flags [OF assms(2)]) simp
    then show ?thesis using n unfolding k by (simp add: PTE2PA_def PA2PTE_def bit_simps)
  qed (use bit_aligned [OF assms(1)] in \<open>simp add: PTE2PA_def bit_simps\<close>)
qed

lemma PTE_FLAGS_PA2PTE:
  assumes "f AND NOT 0x3FF = 0"
  shows "PTE_FLAGS (PA2PTE p OR f) = f"
proof (rule bit_word_eqI)
  fix n assume "n < LENGTH(64)"
  moreover have "PTE_FLAGS (PA2PTE p OR f) = take_bit 10 (PA2PTE p OR f)"
    by (simp add: PTE_FLAGS_def take_bit_eq_mask mask_eq_exp_minus_1)
  ultimately show "bit (PTE_FLAGS (PA2PTE p OR f)) n = bit f n"
    using bit_flags [OF assms, of n] by (auto simp: PA2PTE_def bit_simps)
qed

lemma or_and_nonzero: "f AND b = b \<Longrightarrow> b \<noteq> 0 \<Longrightarrow> (y OR f) AND b \<noteq> (0 :: u64)"
proof
  assume a: "f AND b = b" "b \<noteq> 0" "(y OR f) AND b = 0"
  then obtain n where "bit b n" by (auto simp: bit_eq_iff)
  moreover have "bit f n" using a(1) calculation by (metis bit_and_iff)
  ultimately have "bit ((y OR f) AND b) n" by (simp add: bit_and_iff bit_or_iff)
  then show False using a(3) by simp
qed

section \<open>Paths\<close>

definition idx :: "nat \<Rightarrow> u64 \<Rightarrow> nat" where
  "idx level va = unat (PX level va)"

lemma idx_less: "idx level va < 512"
proof -
  have "PX level va \<le> 0x1FF" unfolding PX_def by (rule word_and_le1)
  then show ?thesis unfolding idx_def word_le_nat_alt by simp
qed

lemma pte_addr_entry: "pte_addr pt level va = entry pt (idx level va)"
  by (simp add: pte_addr_def entry_def idx_def)

lemma idx_div: "idx level va = unat va div 2 ^ (12 + 9 * level) mod 512"
proof -
  have "PX level va = take_bit 9 (drop_bit (12 + 9 * level) va)"
    by (simp add: PX_def take_bit_eq_mask mask_eq_exp_minus_1)
  then have "idx level va = take_bit 9 (drop_bit (12 + 9 * level) (unat va))"
    by (simp only: idx_def unsigned_take_bit_eq unsigned_drop_bit_eq take_bit_nat_eq_self [OF unsigned_less])
  then show ?thesis by (simp add: take_bit_eq_mod drop_bit_eq_div)
qed

fun table :: "memory \<Rightarrow> u64 \<Rightarrow> nat list \<Rightarrow> u64 option" where
  "table m pt [] = Some pt"
| "table m pt (i # is) =
     (let pte = load64 m (entry pt i) in if pte AND PTE_V \<noteq> 0 then table m (PTE2PA pte) is else None)"

lemma table_append: "table m pt (is @ js) = Option.bind (table m pt is) (\<lambda>q. table m q js)"
  by (induction "is" arbitrary: pt) (auto simp: Let_def)

lemma table_cong:
  assumes "\<forall>js i q. prefix (js @ [i]) is \<longrightarrow> table m pt js = Some q \<longrightarrow> load64 m' (entry q i) = load64 m (entry q i)"
  shows "table m' pt is = table m pt is"
  using assms
proof (induction "is" rule: rev_induct)
  case (snoc i "is")
  have "table m' pt is = table m pt is" using snoc.prems by (intro snoc.IH) (simp add: prefix_snoc)
  moreover have "load64 m' (entry q i) = load64 m (entry q i)" if "table m pt is = Some q" for q
    using snoc.prems that by blast
  ultimately show ?case by (cases "table m pt is") (simp_all add: table_append Let_def)
qed simp

definition pt_path :: "nat list \<Rightarrow> bool" where
  "pt_path is \<longleftrightarrow> length is \<le> 2 \<and> (\<forall>i \<in> set is. i < 512)"

definition tables :: "memory \<Rightarrow> u64 \<Rightarrow> u64 set" where
  "tables m pt = {q. \<exists>is. pt_path is \<and> table m pt is = Some q}"

definition pt_wf :: "memory \<Rightarrow> u64 \<Rightarrow> bool" where
  "pt_wf m pt \<longleftrightarrow> (\<forall>q \<in> tables m pt. page_ok q) \<and>
     (\<forall>is js q. pt_path is \<longrightarrow> pt_path js \<longrightarrow> table m pt is = Some q \<longrightarrow> table m pt js = Some q \<longrightarrow> is = js)"

text \<open>The entry for a virtual address; 0 if it has no table of the lowest level.\<close>

definition leaf_table :: "memory \<Rightarrow> u64 \<Rightarrow> u64 \<Rightarrow> u64 option" where
  "leaf_table m pt va = table m pt [idx 2 va, idx 1 va]"

definition pte_of :: "memory \<Rightarrow> u64 \<Rightarrow> u64 \<Rightarrow> u64" where
  "pte_of m pt va = (case leaf_table m pt va of None \<Rightarrow> 0 | Some q \<Rightarrow> load64 m (entry q (idx 0 va)))"

lemma leaf_path: "pt_path [idx 2 va, idx 1 va]"
  by (simp add: pt_path_def idx_less)

lemma walk_from_spec:
  "walk_from m 2 pt va = (case leaf_table m pt va of None \<Rightarrow> 0 | Some q \<Rightarrow> entry q (idx 0 va))"
  by (simp add: numeral_2_eq_2 leaf_table_def pte_addr_entry Let_def)

lemma pt_path_prefix: "pt_path is \<Longrightarrow> prefix js is \<Longrightarrow> pt_path js"
  by (auto simp: pt_path_def prefix_def)

lemma tables_ok: "pt_wf m pt \<Longrightarrow> q \<in> tables m pt \<Longrightarrow> page_ok q"
  by (simp add: pt_wf_def)

lemma tablesI: "pt_path is \<Longrightarrow> table m pt is = Some q \<Longrightarrow> q \<in> tables m pt"
  by (auto simp: tables_def)

text \<open>Memory outside the table pages does not matter.\<close>

lemma table_frame:
  assumes "pt_wf m pt" "\<forall>q \<in> tables m pt. \<forall>a. in_page q a \<longrightarrow> m' a = m a" "pt_path is"
  shows "table m' pt is = table m pt is"
proof (rule table_cong, intro allI impI)
  fix js i q assume *: "prefix (js @ [i]) is" "table m pt js = Some q"
  then have "pt_path (js @ [i])" using pt_path_prefix assms(3) by blast
  then have "pt_path js" "i < 512" by (auto simp: pt_path_def)
  then show "load64 m' (entry q i) = load64 m (entry q i)"
    using load64_page [of q m' m i] assms(1,2) * tablesI tables_ok by blast
qed

lemma space_frame:
  assumes "pt_wf m pt" "\<forall>q \<in> tables m pt. \<forall>a. in_page q a \<longrightarrow> m' a = m a"
  shows "tables m' pt = tables m pt" "pt_wf m' pt" "leaf_table m' pt va = leaf_table m pt va" "pte_of m' pt va = pte_of m pt va"
proof -
  note T = table_frame [OF assms]
  show t: "tables m' pt = tables m pt" using T by (auto simp: tables_def)
  show "pt_wf m' pt" using assms(1) T unfolding pt_wf_def t by auto
  show l: "leaf_table m' pt va = leaf_table m pt va" using T [OF leaf_path] by (simp add: leaf_table_def)
  show "pte_of m' pt va = pte_of m pt va"
  proof (cases "leaf_table m pt va")
    case (Some q)
    then have "q \<in> tables m pt" using tablesI [OF leaf_path] by (simp add: leaf_table_def)
    then have "load64 m' (entry q (idx 0 va)) = load64 m (entry q (idx 0 va))"
      using load64_page [of q m' m] assms tables_ok idx_less by blast
    then show ?thesis using Some l by (simp add: pte_of_def)
  qed (use l in \<open>simp add: pte_of_def\<close>)
qed


section \<open>Updates\<close>

lemma leaf_in_tables: "leaf_table m pt va = Some q \<Longrightarrow> q \<in> tables m pt"
  unfolding leaf_table_def by (rule tablesI [OF leaf_path])

lemma leaf_ok: "pt_wf m pt \<Longrightarrow> leaf_table m pt va = Some q \<Longrightarrow> page_ok q"
  using tables_ok leaf_in_tables by blast

lemma load_store_entry:
  assumes "page_ok p" "i < 512" "page_ok q" "j < 512"
  shows "load64 (store64 m (entry p i) v) (entry q j) = (if p = q \<and> i = j then v else load64 m (entry q j))"
  using entry_far [OF assms] store64_other by (auto simp: load64_store64)

text \<open>Writing an entry of the lowest level changes no path.\<close>

lemma set_leaf_table:
  assumes "pt_wf m pt" "leaf_table m pt va = Some q" "pt_path is" "i < 512"
  shows "table (store64 m (entry q i) v) pt is = table m pt is"
proof (rule table_cong, intro allI impI)
  fix js j r assume *: "prefix (js @ [j]) is" "table m pt js = Some r"
  then have p: "pt_path (js @ [j])" using pt_path_prefix assms(3) by blast
  then have js: "pt_path js" "j < 512" "length js < 2" by (auto simp: pt_path_def)
  have "r \<noteq> q"
  proof
    assume "r = q"
    then have "js = [idx 2 va, idx 1 va]"
      using assms(1,2) * js(1) leaf_path [of va] unfolding pt_wf_def leaf_table_def by blast
    then show False using js(3) by simp
  qed
  moreover have "page_ok r" "page_ok q"
    using tables_ok [OF assms(1)] tablesI [OF js(1) *(2)] leaf_ok [OF assms(1,2)] by blast+
  ultimately show "load64 (store64 m (entry q i) v) (entry r j) = load64 m (entry r j)"
    using load_store_entry [of q i r j] assms(4) js(2) by simp
qed

lemma idx_digits:
  "idx 0 v = unat v div 4096 mod 512" "idx 1 v = unat v div 4096 div 512 mod 512"
  "idx 2 v = unat v div 4096 div 262144 mod 512"
  by (simp_all add: idx_div flip: div_mult2_eq)

lemma page_digits:
  assumes "v < MAXVA"
  shows "unat v div 4096 = idx 0 v + 512 * idx 1 v + 262144 * idx 2 v"
proof -
  define p where "p = unat v div 4096"
  have "unat v < 2 ^ 38" using assms unfolding word_less_nat_alt by simp
  then have "p < 2 ^ 27" by (simp add: p_def)
  then have "p div 262144 mod 512 = p div 262144" by simp
  moreover have "p = p mod 512 + 512 * (p div 512 mod 512) + 262144 * (p div 262144)"
    using mod_mult2_eq [of p 512 512] div_mult_mod_eq [of p 262144] by simp
  ultimately show ?thesis unfolding idx_digits p_def [symmetric] by simp
qed

lemma idx_page:
  assumes "va < MAXVA" "vb < MAXVA"
  shows "idx 0 va = idx 0 vb \<and> idx 1 va = idx 1 vb \<and> idx 2 va = idx 2 vb \<longleftrightarrow> unat va div 4096 = unat vb div 4096"
proof
  assume "idx 0 va = idx 0 vb \<and> idx 1 va = idx 1 vb \<and> idx 2 va = idx 2 vb"
  then show "unat va div 4096 = unat vb div 4096" unfolding page_digits [OF assms(1)] page_digits [OF assms(2)] by simp
qed (simp only: idx_digits)

lemma leaf_cong: "idx 1 va = idx 1 vb \<Longrightarrow> idx 2 va = idx 2 vb \<Longrightarrow> leaf_table m pt va = leaf_table m pt vb"
  by (simp only: leaf_table_def)

lemma set_leaf:
  fixes m :: memory and v :: u64
  assumes "pt_wf m pt" "leaf_table m pt va = Some q" "va < MAXVA"
  defines "m' \<equiv> store64 m (entry q (idx 0 va)) v"
  shows "tables m' pt = tables m pt" "pt_wf m' pt" "leaf_table m' pt vb = leaf_table m pt vb"
    "vb < MAXVA \<Longrightarrow> pte_of m' pt vb = (if unat vb div 4096 = unat va div 4096 then v else pte_of m pt vb)"
proof -
  note T = set_leaf_table [OF assms(1,2) _ idx_less [of 0 va], of _ v, folded m'_def]
  show t: "tables m' pt = tables m pt" using T by (auto simp: tables_def)
  show "pt_wf m' pt" using assms(1) T unfolding pt_wf_def t by auto
  show l: "leaf_table m' pt vb = leaf_table m pt vb" for vb using T [OF leaf_path] by (simp add: leaf_table_def)
  have q: "page_ok q" by (rule leaf_ok [OF assms(1,2)])
  show "pte_of m' pt vb = (if unat vb div 4096 = unat va div 4096 then v else pte_of m pt vb)" if vb: "vb < MAXVA"
  proof (cases "leaf_table m pt vb")
    case None
    then have "idx 1 va \<noteq> idx 1 vb \<or> idx 2 va \<noteq> idx 2 vb" using assms(2) leaf_cong [of va vb m pt] by auto
    then show ?thesis using idx_page [OF assms(3) vb] None l by (auto simp: pte_of_def)
  next
    case (Some r)
    have r: "page_ok r" by (rule leaf_ok [OF assms(1) Some])
    have "q = r \<longleftrightarrow> idx 1 va = idx 1 vb \<and> idx 2 va = idx 2 vb"
    proof
      assume "q = r"
      then have "[idx 2 va, idx 1 va] = [idx 2 vb, idx 1 vb]"
        using assms(1,2) Some leaf_path [of va] leaf_path [of vb] unfolding pt_wf_def leaf_table_def by metis
      then show "idx 1 va = idx 1 vb \<and> idx 2 va = idx 2 vb" by simp
    qed (use assms(2) Some leaf_cong [of va vb m pt] in simp)
    then have "q = r \<and> idx 0 va = idx 0 vb \<longleftrightarrow> unat vb div 4096 = unat va div 4096" using idx_page [OF assms(3) vb] by auto
    then show ?thesis using Some l load_store_entry [OF q idx_less r idx_less, of m 0 va v 0 vb]
      by (simp add: pte_of_def m'_def)
  qed
qed

text \<open>Linking a new, empty table page.\<close>

lemma link_table:
  assumes "pt_wf m pt" "table m pt ps = Some q" "length ps < 2" "pt_path (ps @ [i])"
    "load64 m (entry q i) AND PTE_V = 0" "page_ok n" "n \<notin> tables m pt" "\<forall>j < 512. load64 m (entry n j) = 0"
    "pt_path is"
  shows "table (store64 m (entry q i) (PA2PTE n OR PTE_V)) pt is = (if is = ps @ [i] then Some n else table m pt is)"
proof -
  let ?m = "store64 m (entry q i) (PA2PTE n OR PTE_V)"
  have i: "i < 512" "pt_path ps" using assms(4) by (auto simp: pt_path_def)
  have q: "page_ok q" using tables_ok [OF assms(1) tablesI [OF i(2) assms(2)]] .
  have nq: "n \<noteq> q" using tablesI [OF i(2) assms(2)] assms(7) by blast
  have keep: "table ?m pt js = table m pt js" if js: "pt_path js" "\<not> prefix (ps @ [i]) js" for js
  proof (rule table_cong, intro allI impI)
    fix ks j r assume *: "prefix (ks @ [j]) js" "table m pt ks = Some r"
    then have p: "pt_path (ks @ [j])" using pt_path_prefix js(1) by blast
    then have ks: "pt_path ks" "j < 512" by (auto simp: pt_path_def)
    have "r \<noteq> q \<or> j \<noteq> i"
    proof (rule ccontr)
      assume "\<not> (r \<noteq> q \<or> j \<noteq> i)"
      then have "ks = ps" "j = i" using assms(1,2) *(2) ks(1) i(2) unfolding pt_wf_def by blast+
      then show False using js(2) *(1) by simp
    qed
    moreover have "page_ok r" using tables_ok [OF assms(1) tablesI [OF ks(1) *(2)]] .
    ultimately show "load64 ?m (entry r j) = load64 m (entry r j)" using load_store_entry [OF q i(1) _ ks(2)] by auto
  qed
  have np: "\<not> prefix (ps @ [i]) ps" by (auto simp: prefix_def)
  have vn: "(PA2PTE n OR PTE_V) AND PTE_V \<noteq> 0" by (rule or_and_nonzero) simp_all
  have n4: "4096 dvd unat n" using assms(6) by (simp add: page_ok_def)
  have at: "table ?m pt (ps @ [i]) = Some n"
    using keep [OF i(2) np] assms(2) load_store_entry [OF q i(1) q i(1), of m "PA2PTE n OR PTE_V"] vn PTE2PA_PA2PTE [OF n4, of PTE_V]
    by (simp add: table_append Let_def)
  have old: "table m pt (ps @ [i]) = None" using assms(2,5) by (simp add: table_append Let_def)
  show ?thesis
  proof (cases "prefix (ps @ [i]) is")
    case False
    then have "is \<noteq> ps @ [i]" by auto
    then show ?thesis using keep [OF assms(9) False] by simp
  next
    case True
    then obtain ks where ks: "is = (ps @ [i]) @ ks" by (auto simp: prefix_def)
    show ?thesis
    proof (cases ks)
      case Nil
      then show ?thesis using at ks by simp
    next
      case (Cons j js)
      then have j: "j < 512" using assms(9) ks by (auto simp: pt_path_def)
      have "load64 ?m (entry n j) = 0" using load_store_entry [OF q i(1) assms(6) j] nq assms(8) j by auto
      then have "table ?m n ks = None" using Cons by simp
      then show ?thesis using at old ks Cons by (simp only: table_append) simp
    qed
  qed
qed


section \<open>Growing a page table\<close>

lemma alloc_inv_frame:
  assumes "alloc_inv xs s" "\<forall>x \<in> set xs. \<forall>a. in_page x a \<longrightarrow> m a = mem s a"
  shows "alloc_inv xs (s\<lparr>mem := m\<rparr>)"
proof -
  have I: "KERNBASE \<le> kend s" "\<forall>x \<in> set xs. kpage s x" using assms(1) by (auto simp: alloc_inv_def)
  have "load64 m x = load64 (mem s) x" if "x \<in> set xs" for x
    using load64_page [of x m "mem s" 0] assms(2) kpage_page_ok [OF I(1)] I(2) that by (simp add: entry_0)
  then have "free_list m (freelist s) xs"
    using assms(1) free_list_cong [of xs m "mem s"] by (simp add: alloc_inv_def)
  then show ?thesis using assms(1) by (simp add: alloc_inv_def kpage_def)
qed

lemma alloc_inv_pages: "alloc_inv xs s \<Longrightarrow> x \<in> set xs \<Longrightarrow> page_ok x"
  using kpage_page_ok by (auto simp: alloc_inv_def)

definition vm_ok :: "u64 \<Rightarrow> u64 list \<Rightarrow> 'a kstate_scheme \<Rightarrow> bool" where
  "vm_ok pt xs s \<longleftrightarrow> alloc_inv xs s \<and> pt_wf (mem s) pt \<and> tables (mem s) pt \<inter> set xs = {}"

text \<open>\<open>s'\<close> comes from \<open>s\<close> by moving the free pages \<open>zs\<close> into the page table and writing in table pages only.\<close>

definition grows :: "u64 \<Rightarrow> u64 list \<Rightarrow> 'a kstate_scheme \<Rightarrow> u64 list \<Rightarrow> 'a kstate_scheme \<Rightarrow> bool" where
  "grows pt zs s ys s' \<longleftrightarrow> vm_ok pt (zs @ ys) s \<and> vm_ok pt ys s' \<and>
     tables (mem s') pt = tables (mem s) pt \<union> set zs \<and>
     (\<forall>a. (\<forall>q \<in> tables (mem s') pt. \<not> in_page q a) \<longrightarrow> mem s' a = mem s a) \<and>
     (\<exists>m f. s' = s\<lparr>mem := m, freelist := f\<rparr>)"

lemma grows_refl: "vm_ok pt ys s \<Longrightarrow> grows pt [] s ys s"
  by (auto simp: grows_def intro!: exI [of _ "mem s"] exI [of _ "freelist s"])

lemma grows_trans:
  assumes "grows pt zs s (zs' @ ys) s'" "grows pt zs' s' ys s''"
  shows "grows pt (zs @ zs') s ys s''"
proof -
  obtain m f m' f' where "s' = s\<lparr>mem := m, freelist := f\<rparr>" "s'' = s'\<lparr>mem := m', freelist := f'\<rparr>"
    using assms by (auto simp: grows_def)
  then have "\<exists>m f. s'' = s\<lparr>mem := m, freelist := f\<rparr>" by auto
  moreover have "mem s'' a = mem s a" if "\<forall>q \<in> tables (mem s'') pt. \<not> in_page q a" for a
    using assms that by (simp add: grows_def)
  ultimately show ?thesis using assms by (simp add: grows_def Un_assoc)
qed

lemma outside_page: "page_ok p \<Longrightarrow> page_ok q \<Longrightarrow> p \<noteq> q \<Longrightarrow> in_page q a \<Longrightarrow> \<not> in_page p a"
  using in_page_unique by blast

lemma new_table:
  fixes s :: "'a kstate_scheme"
  assumes "vm_ok pt (x # xs) s" "table (mem s) pt ps = Some q" "length ps < 2" "pt_path (ps @ [i])"
    "load64 (mem s) (entry q i) AND PTE_V = 0" "take_page s = (x', s1)"
  defines "s2 \<equiv> s1\<lparr>mem := memset (mem s1) x' 0 (of_nat PGSIZE)\<rparr>"
  defines "s3 \<equiv> s2\<lparr>mem := store64 (mem s2) (entry q i) (PA2PTE x' OR PTE_V)\<rparr>"
  shows "x' = x" "x' \<noteq> 0" "grows pt [x] s xs s3" "table (mem s3) pt (ps @ [i]) = Some x" "pte_of (mem s3) pt v = pte_of (mem s) pt v"
proof -
  have V: "alloc_inv (x # xs) s" "pt_wf (mem s) pt" "tables (mem s) pt \<inter> set (x # xs) = {}"
    using assms(1) by (auto simp: vm_ok_def)
  note T = take_page_spec [OF V(1) assms(6)]
  show x': "x' = x" by (rule T(1))
  have x: "page_ok x" by (rule alloc_inv_pages [OF V(1)]) simp
  then show "x' \<noteq> 0" using x' by (auto simp: page_ok_def)
  have i: "i < 512" "pt_path ps" using assms(4) by (auto simp: pt_path_def)
  have qt: "q \<in> tables (mem s) pt" by (rule tablesI [OF i(2) assms(2)])
  have q: "page_ok q" "q \<noteq> x" using tables_ok [OF V(2) qt] qt V(3) by auto
  have m2: "mem s2 a = mem s a" if "\<not> in_page x a" for a
    using that mem_write_page_other [OF x] T(4) x' by (simp add: s2_def memset_4096)
  have f: "\<forall>r \<in> tables (mem s) pt. \<forall>a. in_page r a \<longrightarrow> mem s2 a = mem s a"
    using m2 outside_page [OF x tables_ok [OF V(2)]] V(3) by auto
  note F = space_frame [OF V(2) f] and TF = table_frame [OF V(2) f]
  have lq: "load64 (mem s2) (entry q i) = load64 (mem s) (entry q i)"
    using load64_page [of q "mem s2" "mem s"] f qt q(1) i(1) by blast
  have z: "\<forall>j < 512. load64 (mem s2) (entry x j) = 0" using load64_zero_page [OF x] x' by (simp add: s2_def)
  have xt: "x \<notin> tables (mem s2) pt" using V(3) F(1) by auto
  have s3: "mem s3 = store64 (mem s2) (entry q i) (PA2PTE x OR PTE_V)" by (simp add: s3_def x')
  have L: "table (mem s3) pt is = (if is = ps @ [i] then Some x else table (mem s) pt is)" if "pt_path is" for "is"
    unfolding s3 using link_table [OF F(2) _ assms(3,4) _ x xt z that, of q] TF [OF i(2)] TF [OF that] assms(2,5) lq by simp
  show "table (mem s3) pt (ps @ [i]) = Some x" using L [OF assms(4)] by simp
  have old: "table (mem s) pt (ps @ [i]) = None" using assms(2,5) by (simp add: table_append Let_def)
  have t3: "tables (mem s3) pt = insert x (tables (mem s) pt)"
  proof (intro set_eqI iffI)
    fix r assume "r \<in> tables (mem s3) pt"
    then obtain "is" where "pt_path is" "table (mem s3) pt is = Some r" by (auto simp: tables_def)
    then show "r \<in> insert x (tables (mem s) pt)" using L [of "is"] tablesI by (auto split: if_splits)
  next
    fix r assume "r \<in> insert x (tables (mem s) pt)"
    then show "r \<in> tables (mem s3) pt"
    proof
      assume "r = x"
      then show ?thesis using L [OF assms(4)] tablesI [OF assms(4)] by simp
    next
      assume "r \<in> tables (mem s) pt"
      then obtain "is" where "pt_path is" "table (mem s) pt is = Some r" by (auto simp: tables_def)
      moreover then have "is \<noteq> ps @ [i]" using old by auto
      ultimately show ?thesis using L [of "is"] tablesI [of "is" "mem s3"] by simp
    qed
  qed
  have "pt_wf (mem s3) pt"
    unfolding pt_wf_def t3
  proof (intro conjI allI impI)
    show "\<forall>r \<in> insert x (tables (mem s) pt). page_ok r" using x tables_ok [OF V(2)] by auto
  next
    fix "is" js r assume p: "pt_path is" "pt_path js" "table (mem s3) pt is = Some r" "table (mem s3) pt js = Some r"
    have new: "ks = ps @ [i] \<longleftrightarrow> r = x" if "pt_path ks" "table (mem s3) pt ks = Some r" for ks
      using L [OF that(1)] that tablesI [OF that(1), of "mem s" pt x] V(3) by (auto split: if_splits)
    show "is = js"
    proof (cases "r = x")
      case False
      then have "table (mem s) pt is = Some r" "table (mem s) pt js = Some r"
        using new [OF p(1,3)] new [OF p(2,4)] p(3,4) L [OF p(1)] L [OF p(2)] by simp_all
      then show ?thesis using V(2) p(1,2) unfolding pt_wf_def by blast
    qed (use new [OF p(1,3)] new [OF p(2,4)] in simp)
  qed
  moreover have out: "mem s3 a = mem s2 a" if "\<not> in_page q a" for a
    unfolding s3 by (rule store64_page [OF q(1) i(1) that])
  have "alloc_inv xs s3"
  proof -
    have dx: "x \<notin> set xs" using V(1) by (simp add: alloc_inv_def)
    have "\<forall>y \<in> set xs. \<forall>a. in_page y a \<longrightarrow> mem s3 a = mem s1 a"
    proof (intro ballI allI impI)
      fix y a assume y: "y \<in> set xs" "in_page y a"
      have "page_ok y" using alloc_inv_pages [OF V(1)] y(1) by simp
      moreover have "y \<noteq> x" "y \<noteq> q" using dx y(1) qt V(3) by auto
      ultimately have "\<not> in_page x a" "\<not> in_page q a" using outside_page x q(1) y(2) by blast+
      then show "mem s3 a = mem s1 a" using out m2 T(4) by simp
    qed
    then have "alloc_inv xs (s1\<lparr>mem := mem s3\<rparr>)" by (rule alloc_inv_frame [OF T(2)])
    then show ?thesis by (simp add: s3_def s2_def)
  qed
  moreover have "tables (mem s3) pt \<inter> set xs = {}" using t3 V(1,3) by (auto simp: alloc_inv_def)
  moreover have "s3 = s\<lparr>mem := mem s3, freelist := freelist s3\<rparr>"
    unfolding s3_def s2_def by (subst T(5)) simp
  then have "\<exists>m f. s3 = s\<lparr>mem := m, freelist := f\<rparr>" by blast
  moreover have "mem s3 a = mem s a" if "\<forall>r \<in> tables (mem s3) pt. \<not> in_page r a" for a
    using that out m2 t3 qt by simp
  ultimately show "grows pt [x] s xs s3" using assms(1) t3 by (simp add: grows_def vm_ok_def)
  show "pte_of (mem s3) pt v = pte_of (mem s) pt v"
  proof (cases "[idx 2 v, idx 1 v] = ps @ [i]")
    case True
    have "load64 (mem s3) (entry x (idx 0 v)) = 0"
      unfolding s3 using load_store_entry [OF q(1) i(1) x idx_less] q(2) z idx_less by auto
    moreover have "leaf_table (mem s3) pt v = Some x" "leaf_table (mem s) pt v = None"
      unfolding leaf_table_def True using L [OF assms(4)] old by simp_all
    ultimately show ?thesis by (simp add: pte_of_def)
  next
    case False
    then have l: "leaf_table (mem s3) pt v = leaf_table (mem s) pt v" using L [OF leaf_path, of v] by (simp only: leaf_table_def if_False)
    show ?thesis
    proof (cases "leaf_table (mem s) pt v")
      case (Some r)
      have r: "page_ok r" "r \<in> tables (mem s) pt" by (rule leaf_ok [OF V(2) Some], rule leaf_in_tables [OF Some])
      have "r \<noteq> q"
      proof
        assume "r = q"
        then have "ps = [idx 2 v, idx 1 v]"
          using V(2) Some assms(2) i(2) leaf_path [of v] unfolding pt_wf_def leaf_table_def by metis
        then show False using assms(3) by simp
      qed
      then have "load64 (mem s3) (entry r (idx 0 v)) = load64 (mem s2) (entry r (idx 0 v))"
        unfolding s3 using load_store_entry [OF q(1) i(1) r(1) idx_less] by auto
      also have "\<dots> = load64 (mem s) (entry r (idx 0 v))"
        using load64_page [of r "mem s2" "mem s"] f r idx_less by blast
      finally show ?thesis using Some l by (simp add: pte_of_def)
    qed (use l in \<open>simp add: pte_of_def\<close>)
  qed
qed


lemma walk_level:
  fixes s :: "'a kstate_scheme"
  assumes "vm_ok pt xs s" "xs \<noteq> []" "table (mem s) pt ps = Some q" "length ps < 2" "pt_path ps"
  shows "\<exists>zs ys q' s'. walk_alloc (Suc l) q va s = walk_alloc l q' va s' \<and> xs = zs @ ys \<and> length zs \<le> 1 \<and>
    grows pt zs s ys s' \<and> table (mem s') pt (ps @ [idx (Suc l) va]) = Some q' \<and>
    (\<forall>v. pte_of (mem s') pt v = pte_of (mem s) pt v)"
proof (cases "load64 (mem s) (entry q (idx (Suc l) va)) AND PTE_V = 0")
  case False
  then have "walk_alloc (Suc l) q va s = walk_alloc l (PTE2PA (load64 (mem s) (entry q (idx (Suc l) va)))) va s"
    by (simp add: pte_addr_entry)
  moreover have "table (mem s) pt (ps @ [idx (Suc l) va]) = Some (PTE2PA (load64 (mem s) (entry q (idx (Suc l) va))))"
    using False assms(3) by (simp add: table_append Let_def)
  ultimately show ?thesis using grows_refl [OF assms(1)]
    by (intro exI [of _ "[]"] exI [of _ xs] exI [of _ "PTE2PA (load64 (mem s) (entry q (idx (Suc l) va)))"] exI [of _ s]) simp
next
  case True
  obtain x ys where x: "xs = x # ys" using assms(2) by (cases xs) auto
  obtain x' s1 where t: "take_page s = (x', s1)" by fastforce
  have p: "pt_path (ps @ [idx (Suc l) va])" using assms(4,5) idx_less by (auto simp: pt_path_def)
  have fl: "freelist s \<noteq> 0" using alloc_inv_nonempty [of xs s] assms(1,2) by (simp add: vm_ok_def)
  note N = new_table [OF assms(1) [unfolded x] assms(3,4) p True t]
  define s3 where "s3 = s1\<lparr>mem := store64 (memset (mem s1) x 0 (of_nat PGSIZE)) (entry q (idx (Suc l) va)) (PA2PTE x OR PTE_V)\<rparr>"
  have "walk_alloc (Suc l) q va s = walk_alloc l x va s3"
    using True fl t N(1,2) by (simp add: pte_addr_entry kalloc_def s3_def)
  moreover have "grows pt [x] s ys s3" "table (mem s3) pt (ps @ [idx (Suc l) va]) = Some x" "pte_of (mem s3) pt v = pte_of (mem s) pt v" for v
    using N(3-5) unfolding N(1) by (simp_all add: s3_def)
  ultimately show ?thesis using x by (intro exI [of _ "[x]"] exI [of _ ys] exI [of _ x] exI [of _ s3]) simp
qed

lemma walk_alloc_spec:
  fixes s :: "'a kstate_scheme"
  assumes "vm_ok pt xs s" "2 \<le> length xs"
  shows "\<exists>zs ys q s'. walk_alloc 2 pt va s = Inr (entry q (idx 0 va), s') \<and> xs = zs @ ys \<and> length zs \<le> 2 \<and>
    grows pt zs s ys s' \<and> leaf_table (mem s') pt va = Some q \<and> (\<forall>v. pte_of (mem s') pt v = pte_of (mem s) pt v)"
proof -
  have "xs \<noteq> []" using assms(2) by auto
  from walk_level [OF assms(1) this, of "[]" pt 1 va] obtain zs ys q1 s1 where
    1: "walk_alloc 2 pt va s = walk_alloc 1 q1 va s1" "xs = zs @ ys" "length zs \<le> 1" "grows pt zs s ys s1"
      "table (mem s1) pt [idx 2 va] = Some q1" "\<forall>v. pte_of (mem s1) pt v = pte_of (mem s) pt v"
    by (auto simp: pt_path_def numeral_2_eq_2)
  have p: "pt_path [idx 2 va]" by (simp add: pt_path_def idx_less)
  have v1: "vm_ok pt ys s1" "ys \<noteq> []" using 1(2,3,4) assms(2) by (auto simp: grows_def)
  from walk_level [OF v1 1(5) _ p, of 0 va] obtain zs' ys' q2 s2 where
    2: "walk_alloc 1 q1 va s1 = walk_alloc 0 q2 va s2" "ys = zs' @ ys'" "length zs' \<le> 1" "grows pt zs' s1 ys' s2"
      "table (mem s2) pt [idx 2 va, idx 1 va] = Some q2" "\<forall>v. pte_of (mem s2) pt v = pte_of (mem s1) pt v"
    by auto
  have "grows pt (zs @ zs') s ys' s2" using grows_trans 1(4) 2(2,4) by blast
  moreover have "walk_alloc 2 pt va s = Inr (entry q2 (idx 0 va), s2)" using 1(1) 2(1) by (simp add: pte_addr_entry)
  moreover have "leaf_table (mem s2) pt va = Some q2" using 2(5) by (simp only: leaf_table_def)
  ultimately show ?thesis using 1(2,3,6) 2(2,3,6)
    by (intro exI [of _ "zs @ zs'"] exI [of _ ys'] exI [of _ q2] exI [of _ s2]) simp
qed

end
