(* ===== verification/VmSpec.thy ===== *)
theory VmSpec
  imports PageTable
begin

text \<open>
  The page table as a map: \<open>mappages\<close> refines the update of a map from virtual pages to entries.
\<close>

section \<open>Mapping\<close>

lemma grows_leaf:
  fixes s :: "'a kstate_scheme"
  assumes "vm_ok pt ys s" "leaf_table (mem s) pt va = Some q" "va < MAXVA"
  shows "grows pt [] s ys (set_pte (entry q (idx 0 va)) v s)"
proof -
  let ?s = "set_pte (entry q (idx 0 va)) v s"
  have V: "alloc_inv ys s" "pt_wf (mem s) pt" "tables (mem s) pt \<inter> set ys = {}" using assms(1) by (auto simp: vm_ok_def)
  note L = set_leaf [OF V(2) assms(2,3), of v]
  have q: "page_ok q" "q \<in> tables (mem s) pt" using leaf_ok [OF V(2) assms(2)] leaf_in_tables [OF assms(2)] .
  have out: "store64 (mem s) (entry q (idx 0 va)) v a = mem s a" if "\<not> in_page q a" for a
    by (rule store64_page [OF q(1) idx_less that])
  have "alloc_inv ys (s\<lparr>mem := store64 (mem s) (entry q (idx 0 va)) v\<rparr>)"
  proof (rule alloc_inv_frame [OF V(1)], intro ballI allI impI)
    fix x a assume x: "x \<in> set ys" "in_page x a"
    then have "page_ok x" "q \<noteq> x" using alloc_inv_pages [OF V(1)] q(2) V(3) by auto
    then show "store64 (mem s) (entry q (idx 0 va)) v a = mem s a" using out outside_page [OF q(1)] x(2) by blast
  qed
  then show ?thesis using assms(1) V(3) L out q(2)
    by (auto simp: grows_def vm_ok_def set_pte_def intro!: exI [of _ "store64 (mem s) (entry q (idx 0 va)) v"] exI [of _ "freelist s"])
qed

lemma walk_entry_nonzero: "page_ok q \<Longrightarrow> entry q (idx 0 va) \<noteq> 0"
  using unat_entry [OF _ idx_less [of 0 va], of q] by (auto simp: page_ok_def)

lemma pte_of_page: "unat vb div 4096 = unat va div 4096 \<Longrightarrow> pte_of m pt vb = pte_of m pt va"
  by (simp only: pte_of_def leaf_table_def idx_digits)

lemma map_one:
  fixes s :: "'a kstate_scheme"
  assumes "vm_ok pt xs s" "2 \<le> length xs" "va < MAXVA" "pte_of (mem s) pt va AND PTE_V = 0"
  shows "\<exists>zs ys s'. map_loop (Suc n) pt va lst pa perm s =
      (if va = lst then Inr (0, s') else map_loop n pt (va + PGSZ) lst (pa + PGSZ) perm s') \<and>
    xs = zs @ ys \<and> length zs \<le> 2 \<and> grows pt zs s ys s' \<and>
    (\<forall>vb < MAXVA. pte_of (mem s') pt vb =
       (if unat vb div 4096 = unat va div 4096 then PA2PTE pa OR perm OR PTE_V else pte_of (mem s) pt vb))"
proof -
  obtain zs ys q s1 where w: "walk_alloc 2 pt va s = Inr (entry q (idx 0 va), s1)" "xs = zs @ ys" "length zs \<le> 2"
    "grows pt zs s ys s1" "leaf_table (mem s1) pt va = Some q" "\<forall>v. pte_of (mem s1) pt v = pte_of (mem s) pt v"
    using walk_alloc_spec [OF assms(1,2), of va] by (elim exE conjE)
  have v1: "vm_ok pt ys s1" "pt_wf (mem s1) pt" using w(4) by (auto simp: grows_def vm_ok_def)
  have nz: "entry q (idx 0 va) \<noteq> 0" by (rule walk_entry_nonzero [OF leaf_ok [OF v1(2) w(5)]])
  have ld: "load64 (mem s1) (entry q (idx 0 va)) = pte_of (mem s) pt va" using w(5,6) by (metis option.simps(5) pte_of_def)
  define s' where "s' = set_pte (entry q (idx 0 va)) (PA2PTE pa OR perm OR PTE_V) s1"
  have "walk pt va True s = Inr (entry q (idx 0 va), s1)" using assms(3) w(1) by (simp add: walk_def not_le)
  then have "map_loop (Suc n) pt va lst pa perm s =
      (if va = lst then Inr (0, s') else map_loop n pt (va + PGSZ) lst (pa + PGSZ) perm s')"
    using nz ld assms(4) by (simp add: s'_def Let_def)
  moreover have "grows pt zs s ys s'"
    using grows_trans [of pt zs s "[]" ys s1 s'] w(4) grows_leaf [OF v1(1) w(5) assms(3)] by (simp add: s'_def)
  moreover have "pte_of (mem s') pt vb =
      (if unat vb div 4096 = unat va div 4096 then PA2PTE pa OR perm OR PTE_V else pte_of (mem s) pt vb)" if "vb < MAXVA" for vb
    using set_leaf(4) [OF v1(2) w(5) assms(3) that, of "PA2PTE pa OR perm OR PTE_V"] w(6) by (simp add: s'_def set_pte_def)
  ultimately show ?thesis using w(2,3) by blast
qed

declare map_loop.simps [simp del]

text \<open>The map that \<open>mappages\<close> should produce: \<open>n\<close> pages from \<open>va\<close> on go to the frames from \<open>pa\<close> on.\<close>

definition map_range :: "u64 \<Rightarrow> nat \<Rightarrow> u64 \<Rightarrow> u64 \<Rightarrow> (u64 \<Rightarrow> u64) \<Rightarrow> u64 \<Rightarrow> u64" where
  "map_range va n pa perm A v =
     (if unat va \<le> unat v \<and> unat v < unat va + 4096 * n
      then PA2PTE (pa + of_nat (4096 * ((unat v - unat va) div 4096))) OR perm OR PTE_V else A v)"

lemma same_page: "4096 dvd unat (va :: u64) \<Longrightarrow> unat (vb :: u64) div 4096 = unat va div 4096 \<longleftrightarrow> unat va \<le> unat vb \<and> unat vb < unat va + 4096"
  by (auto simp: dvd_def)

lemma map_range_cong: "A v = B v \<Longrightarrow> map_range va n pa perm A v = map_range va n pa perm B v"
  by (simp add: map_range_def)

lemma map_range_step:
  assumes "4096 dvd unat va" "unat (va + PGSZ) = unat va + 4096"
  shows "map_range (va + PGSZ) n (pa + PGSZ) perm (\<lambda>v. if unat v div 4096 = unat va div 4096 then PA2PTE pa OR perm OR PTE_V else A v) v =
    map_range va (Suc n) pa perm A v"
proof (cases "unat va + 4096 \<le> unat v \<and> unat v < unat va + 4096 * Suc n")
  case True
  then have "(unat v - unat va) div 4096 = Suc ((unat v - (unat va + 4096)) div 4096)"
    using le_div_geq [of 4096 "unat v - unat va"] True by simp
  then show ?thesis using True assms by (simp add: map_range_def algebra_simps)
next
  case False
  then show ?thesis using same_page [OF assms(1), of v] assms(2) by (auto simp: map_range_def)
qed

lemma map_loop_spec:
  fixes s :: "'a kstate_scheme"
  assumes "0 < n" "4096 dvd unat va" "unat va + 4096 * n \<le> 2 ^ 38" "lst = va + of_nat (4096 * (n - 1))"
    "vm_ok pt xs s" "2 * n \<le> length xs"
    "\<forall>vb. unat va \<le> unat vb \<and> unat vb < unat va + 4096 * n \<longrightarrow> pte_of (mem s) pt vb AND PTE_V = 0"
  shows "\<exists>zs ys s'. map_loop n pt va lst pa perm s = Inr (0, s') \<and> xs = zs @ ys \<and> length zs \<le> 2 * n \<and>
    grows pt zs s ys s' \<and> (\<forall>v < MAXVA. pte_of (mem s') pt v = map_range va n pa perm (pte_of (mem s) pt) v)"
  using assms
proof (induction n arbitrary: va pa xs s)
  case (Suc n)
  have va: "va < MAXVA" using Suc.prems(3) by (simp add: word_less_nat_alt)
  have two: "2 \<le> length xs" and free: "pte_of (mem s) pt va AND PTE_V = 0" using Suc.prems(6,7) by simp_all
  obtain zs ys s1 where 1: "map_loop (Suc n) pt va lst pa perm s =
      (if va = lst then Inr (0, s1) else map_loop n pt (va + PGSZ) lst (pa + PGSZ) perm s1)"
    "xs = zs @ ys" "length zs \<le> 2" "grows pt zs s ys s1"
    "\<forall>vb < MAXVA. pte_of (mem s1) pt vb =
       (if unat vb div 4096 = unat va div 4096 then PA2PTE pa OR perm OR PTE_V else pte_of (mem s) pt vb)"
    using map_one [OF Suc.prems(5) two va free, of n lst pa perm] by (elim exE conjE)
  show ?case
  proof (cases n)
    case 0
    then have "map_loop (Suc n) pt va lst pa perm s = Inr (0, s1)" using 1(1) Suc.prems(4) by simp
    moreover have "pte_of (mem s1) pt v = map_range va (Suc n) pa perm (pte_of (mem s) pt) v" if "v < MAXVA" for v
      using 1(5) that same_page [OF Suc.prems(2), of v] 0 by (auto simp: map_range_def)
    ultimately show ?thesis using 1(2-4) 0 by auto
  next
    case (Suc k)
    have up: "unat (va + PGSZ) = unat va + 4096" using unat_plus_small [of va 4096] Suc.prems(3) by simp
    have ne: "va \<noteq> lst"
    proof
      assume "va = lst"
      then have "unat (of_nat (4096 * n) :: u64) = 0" using Suc.prems(4) by simp
      then show False using unat_of_nat_u64 [of "4096 * n"] Suc.prems(3) \<open>n = Suc k\<close> by simp
    qed
    have l: "lst = va + PGSZ + of_nat (4096 * (n - 1))" using Suc.prems(4) \<open>n = Suc k\<close> by (simp add: algebra_simps)
    have v1: "vm_ok pt ys s1" using 1(4) by (simp add: grows_def)
    have fr: "\<forall>vb. unat (va + PGSZ) \<le> unat vb \<and> unat vb < unat (va + PGSZ) + 4096 * n \<longrightarrow> pte_of (mem s1) pt vb AND PTE_V = 0"
    proof (intro allI impI)
      fix vb :: u64 assume vb: "unat (va + PGSZ) \<le> unat vb \<and> unat vb < unat (va + PGSZ) + 4096 * n"
      then have "vb < MAXVA" using up Suc.prems(3) by (simp add: word_less_nat_alt)
      then show "pte_of (mem s1) pt vb AND PTE_V = 0"
        using 1(5) vb up same_page [OF Suc.prems(2), of vb] Suc.prems(7) by auto
    qed
    have c: "0 < n" "4096 dvd unat (va + PGSZ)" "unat (va + PGSZ) + 4096 * n \<le> 2 ^ 38" "2 * n \<le> length ys"
      using \<open>n = Suc k\<close> Suc.prems(2,3,6) up 1(2,3) by auto
    obtain zs' ys' s2 where 2: "map_loop n pt (va + PGSZ) lst (pa + PGSZ) perm s1 = Inr (0, s2)" "ys = zs' @ ys'"
      "length zs' \<le> 2 * n" "grows pt zs' s1 ys' s2"
      "\<forall>v < MAXVA. pte_of (mem s2) pt v = map_range (va + PGSZ) n (pa + PGSZ) perm (pte_of (mem s1) pt) v"
      using Suc.IH [OF c(1-3) l v1 c(4) fr, of "pa + PGSZ"] by (elim exE conjE)
    have "grows pt (zs @ zs') s ys' s2" using grows_trans 1(4) 2(2,4) by blast
    moreover have "pte_of (mem s2) pt v = map_range va (Suc n) pa perm (pte_of (mem s) pt) v" if "v < MAXVA" for v
      using 2(5) that map_range_step [OF Suc.prems(2) up, of n pa perm "pte_of (mem s) pt" v]
        map_range_cong [of "pte_of (mem s1) pt" v "\<lambda>v. if unat v div 4096 = unat va div 4096 then PA2PTE pa OR perm OR PTE_V
          else pte_of (mem s) pt v" "va + PGSZ" n "pa + PGSZ" perm, OF 1(5) [rule_format, OF that]] by (simp only:)
    ultimately show ?thesis using 1(1-3) 2(1-3) ne
      by (intro exI [of _ "zs @ zs'"] exI [of _ ys'] exI [of _ s2]) simp
  qed
qed simp


text \<open>A page of the range that is mapped already stops the loop.\<close>

lemma map_mapped:
  fixes s :: "'a kstate_scheme"
  assumes "vm_ok pt xs s" "2 \<le> length xs" "va < MAXVA" "pte_of (mem s) pt va AND PTE_V \<noteq> 0"
  shows "map_loop (Suc n) pt va lst pa perm s = Inl (Panic ''mappages: remap'')"
proof -
  obtain zs ys q s1 where w: "walk_alloc 2 pt va s = Inr (entry q (idx 0 va), s1)"
    "grows pt zs s ys s1" "leaf_table (mem s1) pt va = Some q" "\<forall>v. pte_of (mem s1) pt v = pte_of (mem s) pt v"
    using walk_alloc_spec [OF assms(1,2), of va] by (elim exE conjE)
  have wf: "pt_wf (mem s1) pt" using w(2) by (simp add: grows_def vm_ok_def)
  have "entry q (idx 0 va) \<noteq> 0" by (rule walk_entry_nonzero [OF leaf_ok [OF wf w(3)]])
  moreover have "load64 (mem s1) (entry q (idx 0 va)) = pte_of (mem s) pt va" using w(3,4) by (metis option.simps(5) pte_of_def)
  moreover have "walk pt va True s = Inr (entry q (idx 0 va), s1)" using assms(3) w(1) by (simp add: walk_def not_le)
  ultimately show ?thesis using assms(4) by (simp add: map_loop.simps)
qed

lemma map_loop_remap:
  fixes s :: "'a kstate_scheme"
  assumes "0 < n" "4096 dvd unat va" "unat va + 4096 * n \<le> 2 ^ 38" "lst = va + of_nat (4096 * (n - 1))"
    "vm_ok pt xs s" "2 * n \<le> length xs"
    "unat va \<le> unat vb" "unat vb < unat va + 4096 * n" "pte_of (mem s) pt vb AND PTE_V \<noteq> 0"
  shows "map_loop n pt va lst pa perm s = Inl (Panic ''mappages: remap'')"
  using assms
proof (induction n arbitrary: va pa xs s)
  case (Suc n)
  have va: "va < MAXVA" and vb: "vb < MAXVA" using Suc.prems(3,7,8) by (simp_all add: word_less_nat_alt)
  have two: "2 \<le> length xs" using Suc.prems(6) by simp
  show ?case
  proof (cases "pte_of (mem s) pt va AND PTE_V = 0")
    case False
    then show ?thesis by (rule map_mapped [OF Suc.prems(5) two va])
  next
    case True
    obtain zs ys s1 where 1: "map_loop (Suc n) pt va lst pa perm s =
        (if va = lst then Inr (0, s1) else map_loop n pt (va + PGSZ) lst (pa + PGSZ) perm s1)"
      "xs = zs @ ys" "length zs \<le> 2" "grows pt zs s ys s1"
      "\<forall>vb < MAXVA. pte_of (mem s1) pt vb =
         (if unat vb div 4096 = unat va div 4096 then PA2PTE pa OR perm OR PTE_V else pte_of (mem s) pt vb)"
      using map_one [OF Suc.prems(5) two va True, of n lst pa perm] by (elim exE conjE)
    have far: "unat vb div 4096 \<noteq> unat va div 4096"
    proof
      assume "unat vb div 4096 = unat va div 4096"
      then show False using pte_of_page [of vb va "mem s" pt] True Suc.prems(9) by simp
    qed
    then have far': "unat va + 4096 \<le> unat vb" using same_page [OF Suc.prems(2), of vb] Suc.prems(7) by simp
    have up: "unat (va + PGSZ) = unat va + 4096" using unat_plus_small [of va 4096] Suc.prems(3) by simp
    have n: "0 < n" using far' Suc.prems(8) by (cases n) simp_all
    have ne: "va \<noteq> lst"
    proof
      assume "va = lst"
      then have "unat (of_nat (4096 * n) :: u64) = 0" using Suc.prems(4) by simp
      then show False using unat_of_nat_u64 [of "4096 * n"] Suc.prems(3) n by simp
    qed
    have l: "lst = va + PGSZ + of_nat (4096 * (n - 1))" using Suc.prems(4) n by (cases n) (simp_all add: algebra_simps)
    have c: "4096 dvd unat (va + PGSZ)" "unat (va + PGSZ) + 4096 * n \<le> 2 ^ 38" "vm_ok pt ys s1" "2 * n \<le> length ys"
      "unat (va + PGSZ) \<le> unat vb" "unat vb < unat (va + PGSZ) + 4096 * n" "pte_of (mem s1) pt vb AND PTE_V \<noteq> 0"
      using Suc.prems(2,3,6,8,9) up 1(2-5) far far' vb by (auto simp: grows_def)
    show ?thesis using Suc.IH [OF n c(1,2) l c(3-7)] 1(1) ne by simp
  qed
qed simp

text \<open>
  Property (C6). \<open>mappages\<close> refines the update of a map. Let the page table at \<open>pt\<close> be well formed
  (a tree of distinct pages) and separate from the free list, let the range be page aligned, not
  empty and below \<open>MAXVA\<close>, and let there be two free pages for every page of the
  range. If no page of the range is mapped, then \<open>mappages\<close> returns 0; the entries of the range, and only these,
  have changed, each to the next frame with the permissions and the valid bit; the page table is
  still well formed and has taken some free pages as table pages; and no memory outside the table
  pages has changed. If a page of the range is mapped already, \<open>mappages\<close> panics.
\<close>

theorem mappages_refines_map:
  fixes s :: "'a kstate_scheme"
  assumes "vm_ok pt xs s" "va mod PGSZ = 0" "siz mod PGSZ = 0" "siz \<noteq> 0" "unat va + unat siz \<le> unat MAXVA"
    "2 * (unat siz div PGSIZE) \<le> length xs"
  shows "if \<forall>v. unat va \<le> unat v \<and> unat v < unat va + unat siz \<longrightarrow> pte_of (mem s) pt v AND PTE_V = 0
    then \<exists>zs ys s'. mappages pt va siz pa perm s = Inr (0, s') \<and> xs = zs @ ys \<and> vm_ok pt ys s' \<and>
        tables (mem s') pt = tables (mem s) pt \<union> set zs \<and>
        (\<forall>v < MAXVA. pte_of (mem s') pt v = map_range va (unat siz div PGSIZE) pa perm (pte_of (mem s) pt) v) \<and>
        (\<forall>a. (\<forall>q \<in> tables (mem s') pt. \<not> in_page q a) \<longrightarrow> mem s' a = mem s a)
    else mappages pt va siz pa perm s = Inl (Panic ''mappages: remap'')"
proof -
  let ?n = "unat siz div 4096"
  have d: "4096 dvd unat va" "4096 dvd unat siz" by (rule iffD1 [OF mod_4096 assms(2)], rule iffD1 [OF mod_4096 assms(3)])
  have us: "unat siz = 4096 * ?n" using d(2) by simp
  have "unat siz \<noteq> 0" using assms(4) by (simp add: word_unat_eq_iff)
  then have n: "0 < ?n" using us by (intro Nat.gr0I) simp
  have b: "unat va + 4096 * ?n \<le> 2 ^ 38" using assms(5) us by simp
  have l: "va + siz - PGSZ = va + of_nat (4096 * (?n - 1))"
  proof -
    have "unat siz = 4096 * (?n - 1) + 4096" using us n by (metis Suc_diff_1 add.commute mult_Suc_right)
    then have "of_nat (unat siz) = (of_nat (4096 * (?n - 1) + 4096) :: u64)" by (rule arg_cong)
    moreover define d where "d = (of_nat (4096 * (?n - 1)) :: u64)"
    ultimately have "siz = d + PGSZ" by (simp only: of_nat_unat ucast_id of_nat_add of_nat_numeral)
    then have "va + siz - PGSZ = va + d" by simp
    then show ?thesis unfolding d_def .
  qed
  have mp: "mappages pt va siz pa perm s = map_loop ?n pt va (va + siz - PGSZ) pa perm s"
    using assms(2-4) by (simp add: mappages_def)
  have x: "2 * ?n \<le> length xs" using assms(6) .
  show ?thesis
  proof (cases "\<forall>v. unat va \<le> unat v \<and> unat v < unat va + unat siz \<longrightarrow> pte_of (mem s) pt v AND PTE_V = 0")
    case True
    have f: "\<forall>v. unat va \<le> unat v \<and> unat v < unat va + 4096 * ?n \<longrightarrow> pte_of (mem s) pt v AND PTE_V = 0"
      using True us by simp
    obtain zs ys s' where R: "map_loop ?n pt va (va + siz - PGSZ) pa perm s = Inr (0, s')" "xs = zs @ ys" "grows pt zs s ys s'"
      "\<forall>v < MAXVA. pte_of (mem s') pt v = map_range va ?n pa perm (pte_of (mem s) pt) v"
      using map_loop_spec [OF n d(1) b l assms(1) x f, of pa perm] by (elim exE conjE)
    then show ?thesis unfolding if_P [OF True] mp grows_def by blast
  next
    case False
    then obtain v where v: "unat va \<le> unat v" "unat v < unat va + 4096 * ?n" "pte_of (mem s) pt v AND PTE_V \<noteq> 0"
      using us by auto
    show ?thesis unfolding if_not_P [OF False] mp by (rule map_loop_remap [OF n d(1) b l assms(1) x v])
  qed
qed


section \<open>A page table of a running kernel\<close>

lemma table_zero:
  "\<forall>i < 512. load64 m (entry p i) = 0 \<Longrightarrow> pt_path is \<Longrightarrow> table m p is = (if is = [] then Some p else None)"
  by (cases "is") (auto simp: pt_path_def Let_def)

lemma uvmcreate_spec:
  fixes s :: "'a kstate_scheme"
  assumes "alloc_inv (x # xs) s"
  shows "\<exists>s'. uvmcreate s = Inr (x, s') \<and> vm_ok x xs s' \<and> tables (mem s') x = {x} \<and> (\<forall>v. pte_of (mem s') x v = 0) \<and>
    (\<exists>m f. s' = s\<lparr>mem := m, freelist := f\<rparr>)"
proof -
  obtain p s1 where t: "take_page s = (p, s1)" by fastforce
  note T = take_page_spec [OF assms t]
  have x: "page_ok x" by (rule alloc_inv_pages [OF assms]) simp
  define s' where "s' = s1\<lparr>mem := memset (mem s1) x 0 (of_nat PGSIZE)\<rparr>"
  have "freelist s \<noteq> 0" using alloc_inv_nonempty [OF assms] by simp
  then have "uvmcreate s = Inr (x, s')" using t T(1) x by (auto simp: uvmcreate_def kalloc_def s'_def page_ok_def)
  moreover have z: "\<forall>i < 512. load64 (mem s') (entry x i) = 0" using load64_zero_page [OF x] by (simp add: s'_def)
  have tb: "table (mem s') x is = (if is = [] then Some x else None)" if "pt_path is" for "is"
    by (rule table_zero [OF z that])
  have "x \<in> tables (mem s') x" by (rule tablesI [of "[]"]) (simp_all add: pt_path_def)
  then have ts: "tables (mem s') x = {x}" using tb by (auto simp: tables_def split: if_splits)
  moreover have "pt_wf (mem s') x" using x ts tb by (auto simp: pt_wf_def split: if_splits)
  moreover have "pte_of (mem s') x v = 0" for v
    using tb [OF leaf_path, of v] by (simp only: pte_of_def leaf_table_def) simp
  moreover have "alloc_inv xs s'"
    unfolding s'_def
  proof (rule alloc_inv_frame [OF T(2)], intro ballI allI impI)
    fix y a assume y: "y \<in> set xs" "in_page y a"
    have "page_ok y" "x \<noteq> y" using alloc_inv_pages [OF assms, of y] y(1) assms by (auto simp: alloc_inv_def)
    then show "memset (mem s1) x 0 (of_nat PGSIZE) a = mem s1 a"
      unfolding memset_spec using outside_page [OF x _ _ y(2)] mem_write_page_other [OF x] by simp
  qed
  moreover have "x \<notin> set xs" using assms by (simp add: alloc_inv_def)
  moreover obtain m f where "s1 = s\<lparr>mem := m, freelist := f\<rparr>" using T(5) by blast
  then have "s' = s\<lparr>mem := memset m x 0 (of_nat PGSIZE), freelist := f\<rparr>" by (simp add: s'_def)
  then have "\<exists>m f. s' = s\<lparr>mem := m, freelist := f\<rparr>" by blast
  ultimately show ?thesis by (auto simp: vm_ok_def)
qed

text \<open>Taking a page for data.\<close>

lemma kalloc_data:
  fixes s :: "'a kstate_scheme"
  assumes "vm_ok pt (x # xs) s"
  shows "\<exists>s'. kalloc s = Inr (x, s') \<and> vm_ok pt xs s' \<and> tables (mem s') pt = tables (mem s) pt \<and>
    (\<forall>v. pte_of (mem s') pt v = pte_of (mem s) pt v) \<and> (\<forall>a. \<not> in_page x a \<longrightarrow> mem s' a = mem s a) \<and>
    (\<exists>m f. s' = s\<lparr>mem := m, freelist := f\<rparr>) \<and> page_ok x \<and> kpage s x \<and> x \<notin> tables (mem s) pt \<and> x \<notin> set xs"
proof -
  have V: "alloc_inv (x # xs) s" "pt_wf (mem s) pt" "tables (mem s) pt \<inter> set (x # xs) = {}" using assms by (auto simp: vm_ok_def)
  obtain p s' where t: "take_page s = (p, s')" by fastforce
  note T = take_page_spec [OF V(1) t]
  have x: "page_ok x" by (rule alloc_inv_pages [OF V(1)]) simp
  have "kalloc s = Inr (x, s')" using alloc_inv_nonempty [OF V(1)] t T(1) by (simp add: kalloc_def)
  moreover have f: "\<forall>r \<in> tables (mem s) pt. \<forall>a. in_page r a \<longrightarrow> mem s' a = mem s a"
    using T(4) outside_page [OF x tables_ok [OF V(2)]] V(3) by auto
  note F = space_frame [OF V(2) f]
  have "vm_ok pt xs s'" using T(2) F(1,2) V(3) by (simp add: vm_ok_def)
  moreover have "\<exists>m f. s' = s\<lparr>mem := m, freelist := f\<rparr>" using T(5) by blast
  ultimately show ?thesis using F(1,4) T(4) x V by (intro exI [of _ s']) (simp add: alloc_inv_def)
qed

lemma kfree_frame: "kfree p s = Inr s' \<Longrightarrow> s' = s\<lparr>mem := mem s', frames := frames s', freelist := freelist s'\<rparr>"
  by (auto simp: kfree_def Let_def split: if_splits)

lemma free_pages_frame: "free_pages n p e s = Inr s' \<Longrightarrow> s' = s\<lparr>mem := mem s', frames := frames s', freelist := freelist s'\<rparr>"
proof (induction n arbitrary: p s)
  case (Suc n)
  show ?case
  proof (cases "p + PGSZ \<le> e")
    case True
    then obtain t where t: "kfree p s = Inr t" "free_pages n (p + PGSZ) e t = Inr s'" using Suc.prems by auto
    obtain m f l where "t = s\<lparr>mem := m, frames := f, freelist := l\<rparr>" using kfree_frame [OF t(1)] by blast
    moreover obtain m f l where "s' = t\<lparr>mem := m, frames := f, freelist := l\<rparr>" using Suc.IH [OF t(2)] by blast
    ultimately show ?thesis by simp
  qed (use Suc.prems in simp)
qed simp

lemma kinit_frame:
  assumes "kinit s = Inr s'"
  shows "s' = s\<lparr>mem := mem s', frames := frames s', freelist := freelist s', swap_space := map (\<lambda>_. False) (swap_space s)\<rparr>"
proof -
  obtain m f l where "s' = s\<lparr>frames := map (\<lambda>f. f\<lparr>fr_in_use := False, fr_p := None, fr_reference_bit := False\<rparr>) (frames s),
          swap_space := map (\<lambda>_. False) (swap_space s), mem := m, frames := f, freelist := l\<rparr>"
    using assms free_pages_frame unfolding kinit_def freerange_def by blast
  then show ?thesis by simp
qed

lemma boot_free_pages:
  assumes "kmem_boot b" "kend b = 0x80024cf8" "kinit b = Inr s"
  shows "\<exists>xs. alloc_inv xs s \<and> 100 \<le> length xs"
proof -
  obtain xs where xs: "alloc_inv xs s" "set xs = managed (kend b)"
    using kinit_spec [OF assms(1)] assms(3) by auto
  define f where "f i = (of_nat (0x80025000 + 4096 * i) :: u64)" for i :: nat
  have u: "unat (f i) = 0x80025000 + 4096 * i" if "i < 100" for i
    unfolding f_def by (rule unat_of_nat_u64) (use that in simp)
  have "inj_on f {..<100}"
  proof (rule inj_onI)
    fix i j assume ij: "i \<in> {..<100 :: nat}" "j \<in> {..<100 :: nat}" "f i = f j"
    have "0x80025000 + 4096 * i = unat (f j)" unfolding ij(3) [symmetric] by (rule u [symmetric]) (use ij(1) in blast)
    also have "\<dots> = 0x80025000 + 4096 * j" by (rule u) (use ij(2) in blast)
    finally show "i = j" by linarith
  qed
  then have c: "card (f ` {..<100}) = 100" by (simp add: card_image)
  have e: "managed (kend b) = pages_between (PGROUNDUP 0x80024cf8) (0x80024cf8 + of_nat (NFRAME * PGSIZE))"
    by (simp only: managed_def assms(2))
  have r: "unat (PGROUNDUP 0x80024cf8) = 0x80025000" "unat (0x80024cf8 + of_nat (NFRAME * PGSIZE) :: u64) = 0x80224cf8"
    by (simp_all add: PGROUNDUP_def)
  have "f ` {..<100} \<subseteq> set xs"
  proof (intro image_subsetI)
    fix i :: nat assume "i \<in> {..<100}"
    then have i: "i < 100" by simp
    have "(4096 :: nat) dvd 0x80025000 + 4096 * i" by (intro dvd_add) simp_all
    then show "f i \<in> set xs" unfolding xs(2) e pages_between_def mem_Collect_eq u [OF i] r using i by simp
  qed
  then have "100 \<le> card (set xs)" using c card_mono [of "set xs" "f ` {..<100}"] by simp
  then show ?thesis using xs(1) card_length [of xs] by (intro exI [of _ xs]) simp
qed

lemma boot_vm:
  "\<exists>(s :: kstate) pt xs. vm_ok pt xs s \<and> 90 \<le> length xs \<and> (\<forall>v. pte_of (mem s) pt v = 0) \<and>
     (\<forall>q \<in> tables (mem s) pt \<union> set xs. KERNBASE \<le> q \<and> q < PHYSTOP)"
proof -
  obtain s where s: "kinit boot_kstate = Inr s" using kinit_spec [OF boot_kstate_ok] by blast
  have "kend boot_kstate = 0x80024cf8" by (simp only: boot_kstate_def lstate.extend_def kstate.simps)
  then obtain xs where xs: "alloc_inv xs s" "100 \<le> length xs" using boot_free_pages [OF boot_kstate_ok _ s] by blast
  then obtain y ys where y: "xs = y # ys" by (cases xs) auto
  obtain t :: kstate where t: "vm_ok y ys t" "tables (mem t) y = {y}" "\<forall>v. pte_of (mem t) y v = 0"
    using uvmcreate_spec [OF xs(1) [unfolded y]] by blast
  have "KERNBASE \<le> q \<and> q < PHYSTOP" if "q \<in> set xs" for q
    using xs(1) that unfolding alloc_inv_def kpage_def by (meson order_trans)
  then show ?thesis using t xs(2) y by (intro exI [of _ t] exI [of _ y] exI [of _ ys]) auto
qed

theorem mappages_refines_map_witness:
  "\<exists>(s :: kstate) s' pt. mappages pt 0x1000 0x2000 0x80030000 (PTE_R OR PTE_W) s = Inr (0, s') \<and>
     pte_of (mem s') pt 0x2abc = PA2PTE 0x80031000 OR PTE_R OR PTE_W OR PTE_V \<and> pte_of (mem s') pt 0x3000 = 0"
proof -
  obtain s :: kstate and pt xs where s: "vm_ok pt xs s" "90 \<le> length xs" "\<forall>v. pte_of (mem s) pt v = 0"
    using boot_vm by blast
  have "2 * (unat (0x2000 :: u64) div PGSIZE) \<le> length xs" using s(2) by simp
  from mappages_refines_map [where va = "0x1000" and pa = "0x80030000" and perm = "PTE_R OR PTE_W", OF s(1) _ _ _ _ this] s(3)
  obtain s' where "mappages pt 0x1000 0x2000 0x80030000 (PTE_R OR PTE_W) s = Inr (0, s')"
    "\<forall>v < MAXVA. pte_of (mem s') pt v = map_range 0x1000 (unat (0x2000 :: u64) div PGSIZE) 0x80030000 (PTE_R OR PTE_W) (pte_of (mem s) pt) v"
    by auto
  moreover from this(2) [rule_format, of "0x2abc"] this(2) [rule_format, of "0x3000"] s(3)
  have "pte_of (mem s') pt 0x2abc = PA2PTE 0x80031000 OR PTE_R OR PTE_W OR PTE_V" "pte_of (mem s') pt 0x3000 = 0"
    by (simp_all add: map_range_def)
  ultimately show ?thesis by blast
qed

end
