(* ===== verification/UserCopy.thy ===== *)
theory UserCopy
  imports VmSpec
begin

text \<open>
  User memory as the kernel sees it, and the copies between kernel and user: \<open>copyout\<close> and \<open>copyin\<close>
  implement writing and reading a run of user bytes, whatever pages these are spread over.
\<close>

section \<open>User memory\<close>

definition mapped :: "memory \<Rightarrow> u64 \<Rightarrow> u64 \<Rightarrow> bool" where
  "mapped m pt v \<longleftrightarrow> v < MAXVA \<and> pte_of m pt v AND PTE_V \<noteq> 0 \<and> pte_of m pt v AND PTE_U \<noteq> 0"

definition page_of :: "memory \<Rightarrow> u64 \<Rightarrow> u64 \<Rightarrow> u64" where
  "page_of m pt v = PTE2PA (pte_of m pt v)"

text \<open>The byte that the user program sees at \<open>v\<close>.\<close>

definition ubyte :: "memory \<Rightarrow> u64 \<Rightarrow> u64 \<Rightarrow> byte" where
  "ubyte m pt v = m (page_of m pt v + of_nat (unat v mod 4096))"

definition uspace_ok :: "memory \<Rightarrow> u64 \<Rightarrow> bool" where
  "uspace_ok m pt \<longleftrightarrow> pt_wf m pt \<and>
     (\<forall>v. mapped m pt v \<longrightarrow> page_ok (page_of m pt v) \<and> page_of m pt v \<notin> tables m pt) \<and>
     (\<forall>v w. mapped m pt v \<longrightarrow> mapped m pt w \<longrightarrow> page_of m pt v = page_of m pt w \<longrightarrow> unat v div 4096 = unat w div 4096)"

text \<open>An address that belongs to no user page and to no table page.\<close>

definition kernel_addr :: "memory \<Rightarrow> u64 \<Rightarrow> u64 \<Rightarrow> bool" where
  "kernel_addr m pt a \<longleftrightarrow> (\<forall>v. mapped m pt v \<longrightarrow> \<not> in_page (page_of m pt v) a) \<and> (\<forall>q \<in> tables m pt. \<not> in_page q a)"

text \<open>Two memories with the same page table.\<close>

definition same_space :: "u64 \<Rightarrow> memory \<Rightarrow> memory \<Rightarrow> bool" where
  "same_space pt m m' \<longleftrightarrow> tables m' pt = tables m pt \<and> pte_of m' pt = pte_of m pt \<and>
     (\<forall>v. leaf_table m' pt v = leaf_table m pt v) \<and> (uspace_ok m pt \<longrightarrow> uspace_ok m' pt)"

lemma same_spaceD:
  assumes "same_space pt m m'"
  shows "mapped m' pt = mapped m pt" "page_of m' pt = page_of m pt" "kernel_addr m' pt = kernel_addr m pt"
    "tables m' pt = tables m pt" "pte_of m' pt = pte_of m pt"
proof -
  show p: "tables m' pt = tables m pt" "pte_of m' pt = pte_of m pt" using assms by (simp_all add: same_space_def)
  show mp: "mapped m' pt = mapped m pt" "page_of m' pt = page_of m pt"
    by (rule ext, simp only: mapped_def p, rule ext, simp only: page_of_def p)
  show "kernel_addr m' pt = kernel_addr m pt" by (rule ext) (simp only: kernel_addr_def p mp)
qed

lemma same_space_trans: "same_space pt m m' \<Longrightarrow> same_space pt m' m'' \<Longrightarrow> same_space pt m m''"
  by (simp add: same_space_def)

lemma same_space_refl: "same_space pt m m"
  by (simp add: same_space_def)

lemma same_spaceI:
  assumes "pt_wf m pt" "\<forall>q \<in> tables m pt. \<forall>a. in_page q a \<longrightarrow> m' a = m a"
  shows "same_space pt m m'"
proof -
  note F = space_frame [OF assms]
  have p: "pte_of m' pt = pte_of m pt" by (rule ext) (rule F(4))
  have mp: "mapped m' pt = mapped m pt" "page_of m' pt = page_of m pt"
    by (rule ext, simp only: mapped_def p, rule ext, simp only: page_of_def p)
  have "uspace_ok m' pt = uspace_ok m pt" unfolding uspace_ok_def mp F(1) using F(2) assms(1) by (simp only:)
  then show ?thesis unfolding same_space_def p F(1,3) by simp
qed

lemma off_unat: "unat (v - PGROUNDDOWN v) = unat v mod 4096"
proof -
  have "unat v div 4096 * 4096 \<le> unat v" by simp
  then show ?thesis
    using unat_minus_le [of "PGROUNDDOWN v" v] by (simp add: unat_PGROUNDDOWN minus_div_mult_eq_mod)
qed

lemma off_word: "v - PGROUNDDOWN v = of_nat (unat v mod 4096)"
  using off_unat [of v] by (metis of_nat_unat ucast_id)

lemma round_page: "unat (PGROUNDDOWN v) div 4096 = unat v div 4096"
  by (simp add: unat_PGROUNDDOWN)

lemma unat_chunk: "unat (chunk v len) = min (4096 - unat v mod 4096) (unat len)"
proof -
  have "unat v mod 4096 < 4096" by simp
  then have "unat (PGSZ - (v - PGROUNDDOWN v)) = 4096 - unat v mod 4096"
    using unat_minus_le [of "v - PGROUNDDOWN v" PGSZ] off_unat [of v] by simp
  then show ?thesis by (auto simp: chunk_def Let_def word_less_nat_alt min_def)
qed

lemma mapped_page:
  assumes "mapped m pt v" "unat w div 4096 = unat v div 4096"
  shows "mapped m pt w" "page_of m pt w = page_of m pt v"
proof -
  have p: "pte_of m pt w = pte_of m pt v" by (rule pte_of_page [OF assms(2)])
  have "unat v < 2 ^ 38" using assms(1) unfolding mapped_def word_less_nat_alt by simp
  then have "unat w div 4096 < 2 ^ 26" unfolding assms(2) by (simp add: less_mult_imp_div_less)
  then have "unat w < 2 ^ 38" by (simp add: div_less_iff_less_mult)
  then have "w < MAXVA" unfolding word_less_nat_alt by simp
  then show "mapped m pt w" using assms(1) p by (simp add: mapped_def)
  show "page_of m pt w = page_of m pt v" using p by (simp add: page_of_def)
qed

lemma walk_mapped:
  assumes "mapped m pt v"
  shows "\<exists>a. walk_from m 2 pt v = a \<and> load64 m a = pte_of m pt v \<and> (pt_wf m pt \<longrightarrow> a \<noteq> 0)"
proof -
  have "pte_of m pt v \<noteq> 0" using assms by (auto simp: mapped_def)
  then obtain q where q: "leaf_table m pt v = Some q" by (auto simp: pte_of_def split: option.splits)
  then show ?thesis using walk_entry_nonzero leaf_ok by (simp add: walk_from_spec pte_of_def)
qed

lemma user_page_mapped:
  assumes "mapped (mem s) pt v" "uspace_ok (mem s) pt"
  shows "user_page pt v s = Inr (page_of (mem s) pt v, s)" "page_of (mem s) pt v \<noteq> 0"
proof -
  obtain a where a: "walk_from (mem s) 2 pt v = a" "load64 (mem s) a = pte_of (mem s) pt v" "a \<noteq> 0"
    using walk_mapped [OF assms(1)] assms(2) by (auto simp: uspace_ok_def)
  show nz: "page_of (mem s) pt v \<noteq> 0" using assms by (auto simp: uspace_ok_def page_ok_def)
  have "walkaddr pt v s = Inr (page_of (mem s) pt v, s)"
    using assms(1) a by (auto simp: walkaddr_def walk_def mapped_def page_of_def not_le)
  then show "user_page pt v s = Inr (page_of (mem s) pt v, s)" using nz by (simp add: user_page_def)
qed

section \<open>Writing one page\<close>

lemma page_offset: "page_ok p \<Longrightarrow> j < 4096 \<Longrightarrow> unat (p + of_nat j) = unat p + j"
  by (rule unat_plus_small) (simp add: page_ok_def)

lemma write_in_page:
  assumes "page_ok p" "i + length bs \<le> 4096"
  shows "mem_write m (p + of_nat i) bs a =
    (if unat p + i \<le> unat a \<and> unat a < unat p + i + length bs then bs ! (unat a - (unat p + i)) else m a)"
proof -
  have u: "unat (p + of_nat i) = unat p + i" using assms by (intro unat_plus_small) (simp add: page_ok_def)
  show ?thesis
  proof (cases "unat p + i \<le> unat a")
    case True
    then have "unat (a - (p + of_nat i)) = unat a - (unat p + i)" using u by (subst unat_minus_le) simp_all
    then show ?thesis using True by (auto simp: mem_write_def)
  next
    case False
    then have "unat (a - (p + of_nat i)) = 2 ^ 64 + unat a - (unat p + i)" using u by (subst unat_minus_gt) simp_all
    moreover have "unat p + i \<le> 2 ^ 56" "length bs \<le> 2 ^ 56" using assms by (simp_all add: page_ok_def)
    ultimately have "\<not> unat (a - (p + of_nat i)) < length bs" by simp
    then show ?thesis using False by (simp add: mem_write_def)
  qed
qed

lemma write_user_page:
  assumes "uspace_ok m pt" "mapped m pt v" "unat v mod 4096 + length bs \<le> 4096"
  defines "m' \<equiv> mem_write m (page_of m pt v + of_nat (unat v mod 4096)) bs"
  shows "same_space pt m m'"
    "\<forall>w. mapped m pt w \<longrightarrow> ubyte m' pt w =
       (if unat v \<le> unat w \<and> unat w < unat v + length bs then bs ! (unat w - unat v) else ubyte m pt w)"
    "\<forall>a. \<not> in_page (page_of m pt v) a \<longrightarrow> m' a = m a"
proof -
  let ?p = "page_of m pt v" and ?i = "unat v mod 4096"
  have U: "pt_wf m pt" "page_ok ?p" "?p \<notin> tables m pt" using assms(1,2) by (auto simp: uspace_ok_def)
  note W = write_in_page [OF U(2) assms(3), of m, folded m'_def]
  show out: "\<forall>a. \<not> in_page ?p a \<longrightarrow> m' a = m a" using W assms(3) by (auto simp: in_page_def)
  show sp: "same_space pt m m'"
  proof (rule same_spaceI [OF U(1)], intro ballI allI impI)
    fix q a assume "q \<in> tables m pt" "in_page q a"
    then show "m' a = m a" using out outside_page [OF U(2) tables_ok [OF U(1)]] U(3) by blast
  qed
  show "\<forall>w. mapped m pt w \<longrightarrow> ubyte m' pt w =
       (if unat v \<le> unat w \<and> unat w < unat v + length bs then bs ! (unat w - unat v) else ubyte m pt w)"
  proof (intro allI impI)
    fix w assume w: "mapped m pt w"
    have pw: "page_ok (page_of m pt w)" using assms(1) w by (auto simp: uspace_ok_def)
    let ?j = "unat w mod 4096"
    have uw: "unat (page_of m pt w + of_nat ?j) = unat (page_of m pt w) + ?j"
      by (rule page_offset [OF pw]) simp
    have dw: "unat w = unat w div 4096 * 4096 + ?j" "unat v = unat v div 4096 * 4096 + ?i" by simp_all
    show "ubyte m' pt w = (if unat v \<le> unat w \<and> unat w < unat v + length bs then bs ! (unat w - unat v) else ubyte m pt w)"
    proof (cases "unat w div 4096 = unat v div 4096")
      case True
      have e: "page_of m pt w = ?p" by (rule mapped_page(2) [OF assms(2) True])
      have "?i \<le> ?j \<longleftrightarrow> unat v \<le> unat w" "?j < ?i + length bs \<longleftrightarrow> unat w < unat v + length bs" "?i \<le> ?j \<longrightarrow> ?j - ?i = unat w - unat v"
        using dw True by linarith+
      then show ?thesis using W [of "page_of m pt w + of_nat ?j"] uw same_spaceD(2) [OF sp] e by (simp add: ubyte_def)
    next
      case False
      then have "page_of m pt w \<noteq> ?p" using assms(1,2) w unfolding uspace_ok_def by blast
      moreover have "in_page (page_of m pt w) (page_of m pt w + of_nat ?j)" using uw by (simp add: in_page_def)
      ultimately have "m' (page_of m pt w + of_nat ?j) = m (page_of m pt w + of_nat ?j)"
        using out outside_page [OF U(2) pw] by metis
      moreover have "\<not> (unat v \<le> unat w \<and> unat w < unat v + length bs)" using False dw assms(3) by linarith
      ultimately show ?thesis using same_spaceD(2) [OF sp] by (auto simp: ubyte_def)
    qed
  qed
qed


section \<open>The copying loops\<close>

lemma region_add: "region a n \<Longrightarrow> k \<le> n \<Longrightarrow> region (a + of_nat k) (n - k)"
  by (simp add: region_def unat_region)

text \<open>What one round of a copy at the user address \<open>v\<close> does: the next address, and the bytes left.\<close>

lemma chunk_facts:
  assumes "0 < unat len" "unat v + unat len \<le> 2 ^ 38"
  defines "n \<equiv> unat (chunk v len)"
  shows "0 < n" "n \<le> unat len" "unat v mod 4096 + n \<le> 4096" "unat (ucast (chunk v len) :: u32) = n"
    "chunk v len = of_nat n" "unat (len - chunk v len) = unat len - n"
    "n < unat len \<longrightarrow> PGROUNDDOWN v + PGSZ = v + of_nat n" "unat (PGROUNDDOWN v + PGSZ) \<le> 2 ^ 38"
    "unat (PGROUNDDOWN v + PGSZ) + (unat len - n) \<le> 2 ^ 38"
proof -
  let ?o = "unat v mod 4096"
  have o: "?o < 4096" by simp
  have n: "n = min (4096 - ?o) (unat len)" unfolding n_def by (rule unat_chunk)
  show "0 < n" "n \<le> unat len" using n o assms(1) by simp_all
  show le: "?o + n \<le> 4096" using n o by linarith
  have "n < 2 ^ 32" using le by simp
  then show "unat (ucast (chunk v len) :: u32) = n" by (simp add: n_def unsigned_ucast_eq take_bit_nat_eq_self)
  show c: "chunk v len = of_nat n" by (simp add: n_def)
  show "unat (len - chunk v len) = unat len - n"
    using unat_minus_le [of "chunk v len" len] n by (simp add: n_def)
  have d: "unat v div 4096 * 4096 + ?o = unat v" by simp
  have "unat v div 4096 * 4096 + 4096 \<le> 2 ^ 38"
  proof -
    have "unat v < 2 ^ 26 * 4096" using assms(1,2) by simp
    then have "unat v div 4096 < 2 ^ 26" by (rule less_mult_imp_div_less)
    then have "Suc (unat v div 4096) * 4096 \<le> 2 ^ 26 * 4096" by (intro mult_le_mono1) simp
    then show ?thesis by simp
  qed
  moreover have u: "unat (PGROUNDDOWN v + PGSZ) = unat v div 4096 * 4096 + 4096"
    using unat_plus_small [of "PGROUNDDOWN v" 4096] calculation by (simp add: unat_PGROUNDDOWN)
  ultimately show b: "unat (PGROUNDDOWN v + PGSZ) \<le> 2 ^ 38" by simp
  have nv: "n < unat len \<longrightarrow> unat v + n = unat v div 4096 * 4096 + 4096" using n d o by linarith
  show "n < unat len \<longrightarrow> PGROUNDDOWN v + PGSZ = v + of_nat n"
  proof
    assume "n < unat len"
    then have "unat v + n = unat (PGROUNDDOWN v + PGSZ)" using nv u by simp
    moreover have "unat (v + of_nat n) = unat v + n" using calculation b by (intro unat_plus_small) simp
    ultimately show "PGROUNDDOWN v + PGSZ = v + of_nat n" by (simp add: word_unat_eq_iff)
  qed
  show "unat (PGROUNDDOWN v + PGSZ) + (unat len - n) \<le> 2 ^ 38"
    using nv u b assms(2) \<open>n \<le> unat len\<close> by (cases "n < unat len") simp_all
qed


text \<open>The run of \<open>len\<close> user bytes at \<open>v\<close>.\<close>

definition in_run :: "u64 \<Rightarrow> nat \<Rightarrow> u64 \<Rightarrow> bool" where
  "in_run v len w \<longleftrightarrow> unat v \<le> unat w \<and> unat w < unat v + len"

lemma run_first: "0 < len \<Longrightarrow> in_run v len v"
  by (simp add: in_run_def)

lemma run_rest:
  assumes "0 < unat len" "unat v + unat len \<le> 2 ^ 38" "in_run (PGROUNDDOWN v + PGSZ) (unat len - unat (chunk v len)) w"
  shows "in_run v (unat len) w" "unat v + unat (chunk v len) \<le> unat w"
    "unat w - unat v = unat (chunk v len) + (unat w - unat (PGROUNDDOWN v + PGSZ))"
proof -
  note C = chunk_facts [OF assms(1,2)]
  have lt: "unat (chunk v len) < unat len" using assms(3) unfolding in_run_def by linarith
  then have "unat (PGROUNDDOWN v + PGSZ) = unat v + unat (chunk v len)"
    using C(7) assms(2) unat_plus_small [of v "unat (chunk v len)"] by simp
  then show "in_run v (unat len) w" "unat v + unat (chunk v len) \<le> unat w"
    "unat w - unat v = unat (chunk v len) + (unat w - unat (PGROUNDDOWN v + PGSZ))"
    using assms(3) lt by (simp_all add: in_run_def)
qed

lemma run_split:
  assumes "0 < unat len" "unat v + unat len \<le> 2 ^ 38"
  shows "in_run v (unat len) w \<longleftrightarrow>
    in_run v (unat (chunk v len)) w \<or> in_run (PGROUNDDOWN v + PGSZ) (unat len - unat (chunk v len)) w"
proof (cases "unat (chunk v len) < unat len")
  case True
  note C = chunk_facts [OF assms]
  have "unat (PGROUNDDOWN v + PGSZ) = unat v + unat (chunk v len)"
    using C(7) True assms(2) unat_plus_small [of v "unat (chunk v len)"] by simp
  then show ?thesis using True by (auto simp: in_run_def)
next
  case False
  then have "unat (chunk v len) = unat len" using chunk_facts(2) [OF assms] by simp
  then show ?thesis by (auto simp: in_run_def)
qed

lemma copyout_loop_spec:
  fixes s :: "'a kstate_scheme"
  assumes "unat len < k" "uspace_ok (mem s) pt" "unat dst + unat len \<le> 2 ^ 38" "region src (unat len)"
    "\<forall>i < unat len. kernel_addr (mem s) pt (src + of_nat i)"
    "\<forall>v. in_run dst (unat len) v \<longrightarrow> mapped (mem s) pt v \<and> pte_of (mem s) pt v AND PTE_W \<noteq> 0"
  shows "\<exists>m. copyout_loop k pt dst src len s = Inr (0, s\<lparr>mem := m\<rparr>) \<and> same_space pt (mem s) m \<and>
    (\<forall>v. mapped (mem s) pt v \<longrightarrow> ubyte m pt v =
       (if in_run dst (unat len) v then mem s (src + of_nat (unat v - unat dst)) else ubyte (mem s) pt v)) \<and>
    (\<forall>a. kernel_addr (mem s) pt a \<longrightarrow> m a = mem s a)"
  using assms
proof (induction k arbitrary: dst src len s)
  case (Suc k)
  show ?case
  proof (cases "len = 0")
    case True
    then show ?thesis by (intro exI [of _ "mem s"]) (auto simp: same_space_refl in_run_def)
  next
    case False
    then have l: "0 < unat len" "0 < len" by (simp_all add: unat_gt_0 word_neq_0_conv)
    let ?c = "chunk dst len" and ?v = "PGROUNDDOWN dst" and ?bs = "mem_read (mem s) src (unat (chunk dst len))"
    note C = chunk_facts [OF l(1) Suc.prems(3)]
    have md: "mapped (mem s) pt dst" "pte_of (mem s) pt dst AND PTE_W \<noteq> 0" using Suc.prems(6) run_first [OF l(1)] by blast+
    have mv: "mapped (mem s) pt ?v" "page_of (mem s) pt ?v = page_of (mem s) pt dst" using mapped_page [OF md(1) round_page] .
    note P = user_page_mapped [OF mv(1) Suc.prems(2)]
    obtain a where a: "walk_from (mem s) 2 pt ?v = a" "load64 (mem s) a = pte_of (mem s) pt ?v" "a \<noteq> 0"
      using walk_mapped [OF mv(1)] Suc.prems(2) by (auto simp: uspace_ok_def)
    have W: "load64 (mem s) a AND PTE_W \<noteq> 0" using a(2) md(2) pte_of_page [OF round_page] by simp
    have vm: "?v < MAXVA" using mv(1) by (simp add: mapped_def)
    have pg: "page_ok (page_of (mem s) pt dst)" using Suc.prems(2) md(1) by (auto simp: uspace_ok_def)
    let ?pa = "page_of (mem s) pt dst + (dst - ?v)"
    define m1 where "m1 = mem_write (mem s) (page_of (mem s) pt dst + of_nat (unat dst mod 4096)) ?bs"
    have mm: "memmove (mem s) ?pa src (ucast ?c) = m1"
    proof -
      have "region ?pa (unat ?c)"
        using page_offset [OF pg, of "unat dst mod 4096"] C(3) pg by (simp add: region_def off_word page_ok_def)
      moreover have "region src (unat ?c)" using Suc.prems(4) C(2) by (simp add: region_def)
      ultimately show ?thesis using memmove_spec [of ?pa "ucast ?c" src "mem s"] C(4) by (simp add: m1_def off_word)
    qed
    have bs: "unat dst mod 4096 + length ?bs \<le> 4096" using C(3) by simp
    note U = write_user_page [OF Suc.prems(2) md(1) bs, folded m1_def]
    note S = same_spaceD [OF U(1)]
    have ka: "m1 x = mem s x" if "kernel_addr (mem s) pt x" for x
      using U(3) that md(1) by (simp add: kernel_addr_def)
    have step: "copyout_loop (Suc k) pt dst src len s = copyout_loop k pt (?v + PGSZ) (src + ?c) (len - ?c) (s\<lparr>mem := m1\<rparr>)"
      using l(2) vm P a W mm mv(2) by (simp add: walk_def linorder_not_le [symmetric] Let_def)
    have c0: "unat (len - ?c) < k" using Suc.prems(1) C(1,2) unfolding C(6) by linarith
    have c1: "unat (?v + PGSZ) + unat (len - ?c) \<le> 2 ^ 38" "region (src + ?c) (unat (len - ?c))"
      using C(6,9) region_add [OF Suc.prems(4) C(2)] C(5) by simp_all
    have c2: "uspace_ok m1 pt" using U(1) Suc.prems(2) by (simp add: same_space_def)
    have c3: "\<forall>i < unat (len - ?c). kernel_addr m1 pt (src + ?c + of_nat i)"
    proof (intro allI impI)
      fix i assume "i < unat (len - ?c)"
      then have "unat ?c + i < unat len" using C(2,6) by simp
      then have "kernel_addr (mem s) pt (src + of_nat (unat ?c + i))" using Suc.prems(5) by blast
      then show "kernel_addr m1 pt (src + ?c + of_nat i)" using S(3) by (simp add: add.assoc)
    qed
    have c4: "\<forall>v. in_run (?v + PGSZ) (unat (len - ?c)) v \<longrightarrow> mapped m1 pt v \<and> pte_of m1 pt v AND PTE_W \<noteq> 0"
      using Suc.prems(6) run_rest(1) [OF l(1) Suc.prems(3)] C(6) S(1,5) by simp
    obtain m where m: "copyout_loop k pt (?v + PGSZ) (src + ?c) (len - ?c) (s\<lparr>mem := m1\<rparr>) = Inr (0, s\<lparr>mem := m\<rparr>)"
      "same_space pt m1 m"
      "\<forall>v. mapped m1 pt v \<longrightarrow> ubyte m pt v = (if in_run (?v + PGSZ) (unat (len - ?c)) v
          then m1 (src + ?c + of_nat (unat v - unat (?v + PGSZ))) else ubyte m1 pt v)"
      "\<forall>a. kernel_addr m1 pt a \<longrightarrow> m a = m1 a"
      using Suc.IH [of "len - ?c" "s\<lparr>mem := m1\<rparr>" "?v + PGSZ" "src + ?c"] c0 c1 c2 c3 c4 by auto
    have "ubyte m pt v = (if in_run dst (unat len) v then mem s (src + of_nat (unat v - unat dst)) else ubyte (mem s) pt v)"
      if v: "mapped (mem s) pt v" for v
    proof (cases "in_run (?v + PGSZ) (unat (len - ?c)) v")
      case True
      note R = run_rest [OF l(1) Suc.prems(3) True [unfolded C(6)]]
      have "src + ?c + of_nat (unat v - unat (?v + PGSZ)) = src + of_nat (unat v - unat dst)"
        unfolding R(3) by (simp add: add.assoc)
      moreover have "unat v - unat dst < unat len" using R(1) by (auto simp: in_run_def)
      then have "kernel_addr (mem s) pt (src + of_nat (unat v - unat dst))" using Suc.prems(5) by blast
      ultimately have "m1 (src + ?c + of_nat (unat v - unat (?v + PGSZ))) = mem s (src + of_nat (unat v - unat dst))"
        using ka by (simp only:)
      then show ?thesis using m(3) v S(1) True R(1) by simp
    next
      case False
      then have "in_run dst (unat len) v \<longleftrightarrow> in_run dst (unat ?c) v" using run_split [OF l(1) Suc.prems(3), of v] C(6) by simp
      then show ?thesis using m(3) v S(1) False U(2) by (auto simp: in_run_def)
    qed
    moreover have "same_space pt (mem s) m" by (rule same_space_trans [OF U(1) m(2)])
    moreover have "\<forall>a. kernel_addr (mem s) pt a \<longrightarrow> m a = mem s a" using m(4) ka S(3) by simp
    ultimately show ?thesis using step m(1) by (intro exI [of _ m]) simp
  qed
qed simp


lemma page_add: "(x :: nat) mod 4096 + i < 4096 \<Longrightarrow> (x + i) div 4096 = x div 4096 \<and> (x + i) mod 4096 = x mod 4096 + i"
proof -
  assume a: "x mod 4096 + i < 4096"
  obtain q r where x: "x = 4096 * q + r" "r < 4096" by (metis mult_div_mod_eq mod_less_divisor zero_less_numeral)
  have e: "x + i = 4096 * q + (r + i)" using x by simp
  have "r + i < 4096" using a x by simp
  then have "(x + i) div 4096 = q \<and> (x + i) mod 4096 = r + i" unfolding e by simp
  moreover have "x div 4096 = q" "x mod 4096 = r" using x by simp_all
  ultimately show ?thesis by simp
qed

lemma mem_write_append:
  assumes "length xs + length ys < 2 ^ 64"
  shows "mem_write (mem_write m a xs) (a + of_nat (length xs)) ys = mem_write m a (xs @ ys)"
proof
  fix x
  let ?d = "unat (x - a)" and ?n = "length xs"
  have n: "unat (of_nat ?n :: u64) = ?n" using assms by (intro unat_of_nat_u64) simp
  have e: "x - (a + of_nat ?n) = x - a - of_nat ?n" by simp
  show "mem_write (mem_write m a xs) (a + of_nat ?n) ys x = mem_write m a (xs @ ys) x"
  proof (cases "?n \<le> ?d")
    case True
    then have "unat (x - (a + of_nat ?n)) = ?d - ?n" unfolding e using n by (subst unat_minus_le) simp_all
    then show ?thesis using True by (auto simp: mem_write_def nth_append)
  next
    case False
    then have "unat (x - (a + of_nat ?n)) = 2 ^ 64 + ?d - ?n" unfolding e using n by (subst unat_minus_gt) simp_all
    then have "\<not> unat (x - (a + of_nat ?n)) < length ys" using assms by simp
    then show ?thesis using False by (simp add: mem_write_def nth_append)
  qed
qed

lemma copyin_loop_spec:
  fixes s :: "'a kstate_scheme"
  assumes "unat len < k" "uspace_ok (mem s) pt" "unat src + unat len \<le> 2 ^ 38" "region dst (unat len)"
    "\<forall>i < unat len. kernel_addr (mem s) pt (dst + of_nat i)"
    "\<forall>v. in_run src (unat len) v \<longrightarrow> mapped (mem s) pt v"
  shows "copyin_loop k pt dst src len s =
    Inr (0, s\<lparr>mem := mem_write (mem s) dst (map (\<lambda>i. ubyte (mem s) pt (src + of_nat i)) [0..<unat len])\<rparr>)"
  using assms
proof (induction k arbitrary: dst src len s)
  case (Suc k)
  show ?case
  proof (cases "len = 0")
    case True
    then show ?thesis by simp
  next
    case False
    then have l: "0 < unat len" "0 < len" by (simp_all add: unat_gt_0 word_neq_0_conv)
    let ?c = "chunk src len" and ?v = "PGROUNDDOWN src" and ?u = "\<lambda>m i. ubyte m pt (src + of_nat i)"
    note C = chunk_facts [OF l(1) Suc.prems(3)]
    have md: "mapped (mem s) pt src" using Suc.prems(6) run_first [OF l(1)] by blast
    have mv: "mapped (mem s) pt ?v" "page_of (mem s) pt ?v = page_of (mem s) pt src" using mapped_page [OF md round_page] .
    note P = user_page_mapped [OF mv(1) Suc.prems(2)]
    have pg: "page_ok (page_of (mem s) pt src)" using Suc.prems(2) md by (auto simp: uspace_ok_def)
    let ?pa = "page_of (mem s) pt src + (src - ?v)"
    define m1 where "m1 = mem_write (mem s) dst (map (?u (mem s)) [0..<unat ?c])"
    have mm: "memmove (mem s) dst ?pa (ucast ?c) = m1"
    proof -
      have "region ?pa (unat ?c)"
        using page_offset [OF pg, of "unat src mod 4096"] C(3) pg by (simp add: region_def off_word page_ok_def)
      moreover have "region dst (unat ?c)" using Suc.prems(4) C(2) by (simp add: region_def)
      moreover have "mem_read (mem s) ?pa (unat ?c) = map (?u (mem s)) [0..<unat ?c]"
      proof (rule nth_equalityI)
        fix i assume "i < length (mem_read (mem s) ?pa (unat ?c))"
        then have i: "i < unat ?c" by simp
        have us: "unat (src + of_nat i) = unat src + i" using i C(2) Suc.prems(3) by (intro unat_plus_small) simp
        have "(unat src + i) div 4096 = unat src div 4096 \<and> (unat src + i) mod 4096 = unat src mod 4096 + i"
          using i C(3) by (intro page_add) simp
        then have "page_of (mem s) pt (src + of_nat i) = page_of (mem s) pt src" "unat (src + of_nat i) mod 4096 = unat src mod 4096 + i"
          using mapped_page(2) [OF md, of "src + of_nat i"] us by simp_all
        then show "mem_read (mem s) ?pa (unat ?c) ! i = map (?u (mem s)) [0..<unat ?c] ! i"
          using i by (simp add: ubyte_def off_word add.assoc)
      qed simp
      ultimately show ?thesis using memmove_spec [of dst "ucast ?c" ?pa "mem s"] C(4) by (simp add: m1_def)
    qed
    have out: "m1 a = mem s a" if "\<not> kernel_addr (mem s) pt a" for a
    proof -
      have "a = dst + of_nat (unat (a - dst))" by simp
      then have "\<not> unat (a - dst) < unat len" using Suc.prems(5) that by metis
      then show ?thesis unfolding m1_def using C(2) by (intro mem_write_outside) simp
    qed
    have sp: "same_space pt (mem s) m1"
      using out Suc.prems(2) by (intro same_spaceI) (auto simp: uspace_ok_def kernel_addr_def)
    note S = same_spaceD [OF sp]
    have ub: "ubyte m1 pt v = ubyte (mem s) pt v" if v: "mapped (mem s) pt v" for v
    proof -
      have "page_ok (page_of (mem s) pt v)" using Suc.prems(2) v by (auto simp: uspace_ok_def)
      then have "in_page (page_of (mem s) pt v) (page_of (mem s) pt v + of_nat (unat v mod 4096))"
        by (simp add: in_page_def page_offset)
      then have "\<not> kernel_addr (mem s) pt (page_of (mem s) pt v + of_nat (unat v mod 4096))" using v by (auto simp: kernel_addr_def)
      then show ?thesis using out S(2) by (simp add: ubyte_def)
    qed
    have step: "copyin_loop (Suc k) pt dst src len s = copyin_loop k pt (dst + ?c) (?v + PGSZ) (len - ?c) (s\<lparr>mem := m1\<rparr>)"
      using l(2) P mm mv(2) by (simp add: Let_def)
    have c0: "unat (len - ?c) < k" using Suc.prems(1) C(1,2) unfolding C(6) by linarith
    have c1: "unat (?v + PGSZ) + unat (len - ?c) \<le> 2 ^ 38" "region (dst + ?c) (unat (len - ?c))"
      using C(6,9) region_add [OF Suc.prems(4) C(2)] C(5) by simp_all
    have c2: "uspace_ok m1 pt" using sp Suc.prems(2) by (simp add: same_space_def)
    have c3: "\<forall>i < unat (len - ?c). kernel_addr m1 pt (dst + ?c + of_nat i)"
    proof (intro allI impI)
      fix i assume "i < unat (len - ?c)"
      then have "unat ?c + i < unat len" using C(2,6) by simp
      then have "kernel_addr (mem s) pt (dst + of_nat (unat ?c + i))" using Suc.prems(5) by blast
      then show "kernel_addr m1 pt (dst + ?c + of_nat i)" using S(3) by (simp add: add.assoc)
    qed
    have c4: "\<forall>v. in_run (?v + PGSZ) (unat (len - ?c)) v \<longrightarrow> mapped m1 pt v"
      using Suc.prems(6) run_rest(1) [OF l(1) Suc.prems(3)] C(6) S(1) by simp
    have "copyin_loop k pt (dst + ?c) (?v + PGSZ) (len - ?c) (s\<lparr>mem := m1\<rparr>) =
      Inr (0, s\<lparr>mem := mem_write m1 (dst + ?c) (map (\<lambda>i. ubyte m1 pt (?v + PGSZ + of_nat i)) [0..<unat (len - ?c)])\<rparr>)"
      using Suc.IH [of "len - ?c" "s\<lparr>mem := m1\<rparr>" "?v + PGSZ" "dst + ?c"] c0 c1 c2 c3 c4 by simp
    moreover have "map (\<lambda>i. ubyte m1 pt (?v + PGSZ + of_nat i)) [0..<unat (len - ?c)] = map (?u (mem s)) [unat ?c..<unat len]"
    proof (rule nth_equalityI)
      fix i assume "i < length (map (\<lambda>i. ubyte m1 pt (?v + PGSZ + of_nat i)) [0..<unat (len - ?c)])"
      then have i: "unat ?c + i < unat len" using C(6) by simp
      then have e: "?v + PGSZ + of_nat i = src + of_nat (unat ?c + i)" using C(7) by simp
      have "unat (src + of_nat (unat ?c + i)) = unat src + (unat ?c + i)"
        using i Suc.prems(3) by (intro unat_plus_small) simp
      then have "mapped (mem s) pt (src + of_nat (unat ?c + i))" using Suc.prems(6) i by (simp add: in_run_def)
      then show "map (\<lambda>i. ubyte m1 pt (?v + PGSZ + of_nat i)) [0..<unat (len - ?c)] ! i = map (?u (mem s)) [unat ?c..<unat len] ! i"
        using i less_diff_conv2 [of "unat ?c" "unat len" i] C(2,6) e ub by (simp add: less_diff_conv ac_simps)
    qed (use C(6) in simp)
    moreover have "mem_write m1 (dst + ?c) (map (?u (mem s)) [unat ?c..<unat len]) = mem_write (mem s) dst (map (?u (mem s)) [0..<unat len])"
    proof -
      have "[0..<unat len] = [0..<unat ?c] @ [unat ?c..<unat len]" using C(2) upt_add_eq_append [of 0 "unat ?c" "unat len - unat ?c"] by simp
      moreover have "unat len < 2 ^ 64" using Suc.prems(4) by (simp add: region_def)
      ultimately show ?thesis
        using mem_write_append [of "map (?u (mem s)) [0..<unat ?c]" "map (?u (mem s)) [unat ?c..<unat len]" "mem s" dst] C(2)
        by (simp add: m1_def)
    qed
    ultimately show ?thesis using step by simp
  qed
qed simp


text \<open>
  Property (C10). Copying out and in again. Let the page table be well formed, with distinct frames outside
  the table pages, and let the run of user addresses be mapped for the user and writable, on
  however many pages and wherever it starts. Then \<open>copyout\<close> of a kernel buffer returns 0, the user then sees
  exactly the bytes of the buffer in the run and its old bytes elsewhere, and no kernel memory has
  changed; and \<open>copyin\<close> of the run into a kernel buffer returns 0 and delivers the very same bytes.
\<close>

theorem copyout_copyin_round_trip:
  fixes s :: "'a kstate_scheme"
  assumes "uspace_ok (mem s) pt" "unat va + unat len \<le> unat MAXVA" "region src (unat len)" "region dst (unat len)"
    "\<forall>i < unat len. kernel_addr (mem s) pt (src + of_nat i) \<and> kernel_addr (mem s) pt (dst + of_nat i)"
    "\<forall>v. in_run va (unat len) v \<longrightarrow> mapped (mem s) pt v \<and> pte_of (mem s) pt v AND PTE_W \<noteq> 0"
  shows "\<exists>s1 s2. copyout pt va src len s = Inr (0, s1) \<and> copyin pt dst va len s1 = Inr (0, s2) \<and>
    mem_read (mem s2) dst (unat len) = mem_read (mem s) src (unat len) \<and>
    (\<forall>v. mapped (mem s) pt v \<longrightarrow> ubyte (mem s1) pt v =
       (if in_run va (unat len) v then mem s (src + of_nat (unat v - unat va)) else ubyte (mem s) pt v)) \<and>
    (\<forall>a. kernel_addr (mem s) pt a \<longrightarrow> mem s1 a = mem s a)"
proof -
  have b: "unat va + unat len \<le> 2 ^ 38" using assms(2) by simp
  have k: "\<forall>i < unat len. kernel_addr (mem s) pt (src + of_nat i)" "\<forall>i < unat len. kernel_addr (mem s) pt (dst + of_nat i)"
    using assms(5) by blast+
  obtain m where m: "copyout pt va src len s = Inr (0, s\<lparr>mem := m\<rparr>)" "same_space pt (mem s) m"
    "\<forall>v. mapped (mem s) pt v \<longrightarrow> ubyte m pt v =
       (if in_run va (unat len) v then mem s (src + of_nat (unat v - unat va)) else ubyte (mem s) pt v)"
    "\<forall>a. kernel_addr (mem s) pt a \<longrightarrow> m a = mem s a"
    unfolding copyout_def using copyout_loop_spec [OF lessI assms(1) b assms(3) k(1) assms(6)] by (elim exE conjE)
  note S = same_spaceD [OF m(2)]
  let ?bs = "map (\<lambda>i. ubyte m pt (va + of_nat i)) [0..<unat len]"
  have u: "uspace_ok m pt" using m(2) assms(1) by (simp add: same_space_def)
  have "copyin pt dst va len (s\<lparr>mem := m\<rparr>) = Inr (0, s\<lparr>mem := mem_write m dst ?bs\<rparr>)"
    unfolding copyin_def using copyin_loop_spec [of len "Suc (unat len)" "s\<lparr>mem := m\<rparr>" pt va dst] u b assms(4,6) k(2) S(1,3) by simp
  moreover have "?bs = mem_read (mem s) src (unat len)"
  proof (rule nth_equalityI)
    fix i assume "i < length ?bs"
    then have i: "i < unat len" by simp
    have "unat (va + of_nat i) = unat va + i" using i b by (intro unat_plus_small) simp
    then have "in_run va (unat len) (va + of_nat i)" "unat (va + of_nat i) - unat va = i" using i by (simp_all add: in_run_def)
    then show "?bs ! i = mem_read (mem s) src (unat len) ! i" using m(3) assms(6) i by simp
  qed simp
  moreover have "unat len \<le> 2 ^ 64" using assms(4) by (simp add: region_def)
  ultimately show ?thesis using m by (intro exI [of _ "s\<lparr>mem := m\<rparr>"] exI [of _ "s\<lparr>mem := mem_write m dst ?bs\<rparr>"])
      (simp add: mem_read_write_same)
qed


text \<open>A kernel with one page table, two user pages at \<open>0x1000\<close> and nothing else mapped.\<close>

lemma user_example:
  "\<exists>(s :: kstate) pt. uspace_ok (mem s) pt \<and> (\<forall>v. mapped (mem s) pt v \<longleftrightarrow> in_run 0x1000 0x2000 v) \<and>
     (\<forall>v. mapped (mem s) pt v \<longrightarrow> pte_of (mem s) pt v AND PTE_W \<noteq> 0) \<and>
     (\<forall>a. unat a < unat KERNBASE \<longrightarrow> kernel_addr (mem s) pt a)"
proof -
  obtain t :: kstate and pt xs where t: "vm_ok pt xs t" "90 \<le> length xs" "\<forall>v. pte_of (mem t) pt v = 0"
    "\<forall>q \<in> tables (mem t) pt \<union> set xs. KERNBASE \<le> q \<and> q < PHYSTOP"
    using boot_vm by blast
  have f: "\<forall>v. unat (0x1000 :: u64) \<le> unat v \<and> unat v < unat (0x1000 :: u64) + 4096 * 2 \<longrightarrow> pte_of (mem t) pt v AND PTE_V = 0"
    using t(3) by simp
  obtain zs ys s where s: "xs = zs @ ys" "grows pt zs t ys s"
    "\<forall>v < MAXVA. pte_of (mem s) pt v = map_range 0x1000 2 0x90000000 22 (pte_of (mem t) pt) v"
    using map_loop_spec [where n = 2 and va = "0x1000" and pa = "0x90000000" and perm = 22, OF _ _ _ refl t(1) _ f] t(2) by auto
  have tb: "\<forall>q \<in> tables (mem s) pt. KERNBASE \<le> q \<and> q < PHYSTOP" using t(4) s(1,2) by (auto simp: grows_def)
  have wf: "pt_wf (mem s) pt" using s(2) by (simp add: grows_def vm_ok_def)
  have run: "v < MAXVA" if "in_run 0x1000 0x2000 v" for v using that unfolding in_run_def word_less_nat_alt by simp
  define k where "k v = (unat v - 0x1000) div 4096" for v :: u64
  have pv: "pte_of (mem s) pt v = PA2PTE (0x90000000 + of_nat (4096 * k v)) OR 23" if "in_run 0x1000 0x2000 v" for v
    using s(3) run [OF that] that by (simp add: map_range_def in_run_def k_def)
  have k: "k v < 2" if "in_run 0x1000 0x2000 v" for v
    using that unfolding k_def in_run_def by (intro less_mult_imp_div_less) auto
  have uf: "unat (0x90000000 + of_nat (4096 * k v) :: u64) = 0x90000000 + 4096 * k v" if "in_run 0x1000 0x2000 v" for v
    using unat_plus_small [of "0x90000000" "4096 * k v"] k [OF that] by simp
  have pg: "page_of (mem s) pt v = 0x90000000 + of_nat (4096 * k v)" if v: "in_run 0x1000 0x2000 v" for v
  proof -
    have "4096 dvd unat (0x90000000 + of_nat (4096 * k v) :: u64)" unfolding uf [OF v] by (intro dvd_add) simp_all
    then show ?thesis unfolding page_of_def pv [OF v] by (rule PTE2PA_PA2PTE) simp
  qed
  have mp: "mapped (mem s) pt v \<longleftrightarrow> in_run 0x1000 0x2000 v" for v
  proof
    assume m: "mapped (mem s) pt v"
    then have "pte_of (mem s) pt v \<noteq> 0" "v < MAXVA" by (auto simp: mapped_def)
    then show "in_run 0x1000 0x2000 v" using s(3) t(3) by (auto simp: map_range_def in_run_def split: if_splits)
  next
    assume v: "in_run 0x1000 0x2000 v"
    show "mapped (mem s) pt v"
      unfolding mapped_def pv [OF v] using run [OF v] or_and_nonzero [of 23 PTE_V] or_and_nonzero [of 23 PTE_U] by simp
  qed
  have pok: "page_ok (page_of (mem s) pt v)" "unat (page_of (mem s) pt v) = 0x90000000 + 4096 * k v" if "in_run 0x1000 0x2000 v" for v
    using uf [OF that] k [OF that] unfolding pg [OF that] page_ok_def by (auto intro: dvd_add)
  have "uspace_ok (mem s) pt"
    unfolding uspace_ok_def mp
  proof (intro conjI allI impI wf)
    fix v assume v: "in_run 0x1000 0x2000 v"
    show "page_ok (page_of (mem s) pt v)" by (rule pok(1) [OF v])
    show "page_of (mem s) pt v \<notin> tables (mem s) pt" using tb pok(2) [OF v] by (auto simp: word_less_nat_alt)
  next
    fix v w assume vw: "in_run 0x1000 0x2000 v" "in_run 0x1000 0x2000 w" "page_of (mem s) pt v = page_of (mem s) pt w"
    then have "k v = k w" using pok(2) [OF vw(1)] pok(2) [OF vw(2)] by simp
    moreover have "unat x div 4096 = Suc (k x)" if "in_run 0x1000 0x2000 x" for x
      using that le_div_geq [of 4096 "unat x"] unfolding k_def in_run_def by simp
    ultimately show "unat v div 4096 = unat w div 4096" using vw(1,2) by simp
  qed
  moreover have "pte_of (mem s) pt v AND PTE_W \<noteq> 0" if "mapped (mem s) pt v" for v
    using or_and_nonzero [of 23 PTE_W] unfolding pv [OF that [unfolded mp]] by simp
  moreover have "kernel_addr (mem s) pt a" if a: "unat a < unat KERNBASE" for a
    unfolding kernel_addr_def mp
  proof (intro conjI allI impI ballI)
    fix v assume "in_run 0x1000 0x2000 v"
    then show "\<not> in_page (page_of (mem s) pt v) a" using pok(2) a by (simp add: in_page_def)
  next
    fix q assume "q \<in> tables (mem s) pt"
    then show "\<not> in_page q a" using tb a unfolding in_page_def word_le_nat_alt by fastforce
  qed
  ultimately show ?thesis using mp by blast
qed

theorem copyout_copyin_round_trip_witness:
  "\<exists>(s :: kstate) pt s1 s2. copyout pt 0x1ffe 0x5000 4 s = Inr (0, s1) \<and> copyin pt 0x6000 0x1ffe 4 s1 = Inr (0, s2) \<and>
     mem_read (mem s2) 0x6000 4 = mem_read (mem s) 0x5000 4 \<and> ubyte (mem s1) pt 0x2001 = mem s 0x5003"
proof -
  obtain s :: kstate and pt where s: "uspace_ok (mem s) pt" "\<forall>v. mapped (mem s) pt v \<longleftrightarrow> in_run 0x1000 0x2000 v"
    "\<forall>v. mapped (mem s) pt v \<longrightarrow> pte_of (mem s) pt v AND PTE_W \<noteq> 0" "\<forall>a. unat a < unat KERNBASE \<longrightarrow> kernel_addr (mem s) pt a"
    using user_example by blast
  have k: "kernel_addr (mem s) pt (a + of_nat i)" if "unat a < 0x10000" "i < 4" for a i
    using that s(4) unat_plus_small [of a i] by simp
  have m: "\<forall>v. in_run 0x1ffe (unat (4 :: u64)) v \<longrightarrow> mapped (mem s) pt v \<and> pte_of (mem s) pt v AND PTE_W \<noteq> 0"
    using s(2,3) by (auto simp: in_run_def)
  have r: "mapped (mem s) pt 0x2001" using s(2) by (simp add: in_run_def)
  obtain s1 s2 where "copyout pt 0x1ffe 0x5000 4 s = Inr (0, s1)" "copyin pt 0x6000 0x1ffe 4 s1 = Inr (0, s2)"
    "mem_read (mem s2) 0x6000 (unat (4 :: u64)) = mem_read (mem s) 0x5000 (unat (4 :: u64))"
    "\<forall>v. mapped (mem s) pt v \<longrightarrow> ubyte (mem s1) pt v = (if in_run 0x1ffe (unat (4 :: u64)) v
       then mem s (0x5000 + of_nat (unat v - unat (0x1ffe :: u64))) else ubyte (mem s) pt v)"
    using copyout_copyin_round_trip [where va = "0x1ffe" and src = "0x5000" and dst = "0x6000" and len = 4, OF s(1) _ _ _ _ m] k
    by (auto simp: region_def)
  moreover from this(4) [rule_format, OF r] have "ubyte (mem s1) pt 0x2001 = mem s 0x5003" by (simp add: in_run_def)
  ultimately show ?thesis by (intro exI [of _ s] exI [of _ pt] exI [of _ s1] exI [of _ s2]) simp
qed

end
