(* ===== verification/Paging.thy ===== *)
theory Paging
  imports UserCopy Raid
begin

text \<open>
  Paging end to end: eviction writes a user page to the swap disks and marks its entry, and the
  next access of the kernel brings the page back through the entry. This composes the page table, the allocator,
  the swap slots, the disk scheduler and the buffer cache.
\<close>

section \<open>What the disk operations leave alone\<close>

lemma link_more [simp]:
  "dstate.more (link_front b s) = dstate.more s" "dstate.more (unlink b s) = dstate.more s"
  "dstate.more (disk_rw b w s) = dstate.more s" "dstate.more (wakeup ch s) = dstate.more s"
  by (simp_all add: link_front_def unlink_def disk_rw_def wakeup_def Let_def)

lemma lock_buf_more: "lock_buf c s = Inr (b, s') \<Longrightarrow> dstate.more s' = dstate.more s"
  by (auto simp: lock_buf_def)

lemma bget_more: "bget d n s = Inr (b, s') \<Longrightarrow> dstate.more s' = dstate.more s"
  by (auto simp: bget_def simp del: bscan.simps dest!: lock_buf_more split: option.splits)

lemma bread_more: "bread d n s = Inr (b, s') \<Longrightarrow> dstate.more s' = dstate.more s"
  by (auto simp: bread_def dest!: bget_more split: if_splits)

lemma bwrite_more: "bwrite b s = Inr s' \<Longrightarrow> dstate.more s' = dstate.more s"
  by (auto simp: bwrite_def)

lemma brelse_more: "brelse b s = Inr s' \<Longrightarrow> dstate.more s' = dstate.more s"
  by (auto simp: brelse_def releasesleep_def Let_def split: if_splits)

lemma more_dstate: "dstate.more s' = dstate.more s \<Longrightarrow> qstate.more s' = qstate.more s"
  by (cases s; cases s') simp

lemma store_block_more: "qstate.more (store_block p d s) = qstate.more s"
  by (simp add: store_block_def split: dptr.split)

lemma do_disk_more:
  "do_disk_read n p s = Inr s' \<Longrightarrow> qstate.more s' = qstate.more s"
  "do_disk_write n p s = Inr s' \<Longrightarrow> qstate.more s' = qstate.more s"
proof -
  assume "do_disk_read n p s = Inr s'"
  then obtain b t where "bread (of_nat ROOTDEV) (of_nat n) s = Inr (b, t)" "brelse b (store_block p (b_data (bufs t ! b)) t) = Inr s'"
    by (auto simp: do_disk_read_def)
  then show "qstate.more s' = qstate.more s"
    using more_dstate [OF bread_more] more_dstate [OF brelse_more] store_block_more by metis
next
  assume "do_disk_write n p s = Inr s'"
  then obtain b t u where "bread (of_nat ROOTDEV) (of_nat n) s = Inr (b, t)" "bwrite b (set_data b (load_block p t) t) = Inr u" "brelse b u = Inr s'"
    by (auto simp: do_disk_write_def)
  moreover have "dstate.more (set_data b (load_block p t) t) = dstate.more t" by (simp add: set_data_def)
  ultimately show "qstate.more s' = qstate.more s"
    using more_dstate [OF bread_more] more_dstate [OF bwrite_more] more_dstate [OF brelse_more] more_dstate by metis
qed

lemma take_req_more: "qstate.more (take_req i s) = qstate.more s"
  by (simp add: take_req_def Let_def upd_proc_def split: option.split)

lemma run_queue_more: "run_queue k s = Inr s' \<Longrightarrow> qstate.more s' = qstate.more s"
proof (induction k arbitrary: s)
  case (Suc k)
  show ?case
  proof (cases "pick_req s")
    case None
    then show ?thesis using Suc.prems by simp
  next
    case (Some i)
    then obtain t where "(if rq_write (req_queue s ! i) then do_disk_write (rq_blockno (req_queue s ! i)) (rq_data (req_queue s ! i)) (take_req i s)
        else do_disk_read (rq_blockno (req_queue s ! i)) (rq_data (req_queue s ! i)) (take_req i s)) = Inr t" "run_queue k t = Inr s'"
      using Suc.prems by (auto simp: Let_def)
    then show ?thesis using Suc.IH do_disk_more take_req_more by (metis (full_types))
  qed
qed simp

lemma enqueue_more: "qstate.more (enqueue_disk_req n w d p s) = qstate.more s"
  by (simp add: enqueue_disk_req_def)

lemma raid0_page_more: "qstate.more (raid0_page w slot page p s) = qstate.more s"
  by (simp add: raid0_page_def enqueue_more upt_rec Let_def)

lemma disk_swap_more:
  "raid_mode s \<noteq> 1 \<Longrightarrow> raid_mode s \<noteq> 2 \<Longrightarrow> disk_swap_write slot page p s = Inr s' \<Longrightarrow> qstate.more s' = qstate.more s"
  "slot < 4096 \<Longrightarrow> slot_raid_mode s ! slot \<noteq> 1 \<Longrightarrow> slot_raid_mode s ! slot \<noteq> 2 \<Longrightarrow>
    disk_swap_read slot page p s = Inr s' \<Longrightarrow> qstate.more s' = qstate.more s"
  by (auto simp: disk_swap_write_def disk_swap_read_def raid0_write_page_def raid0_read_page_def Let_def run_disk_queue_def
      raid0_page_more dest!: run_queue_more split: if_splits)

lemma more_kstate:
  assumes "qstate.more s' = qstate.more (s :: 'a kstate_scheme)"
  shows "kend s' = kend s" "freelist s' = freelist s" "frames s' = frames s" "swap_space s' = swap_space s"
    "clock_hand s' = clock_hand s"
  using assms by (cases s; cases s'; simp)+


text \<open>The swap layer does not look at the memory, the allocator or the statistics of processes.\<close>

lemma swap_ready_cong:
  assumes "bufs s' = bufs s" "medium s' = medium s" "cpus s' = cpus s" "hartid s' = hartid s"
    "length (procs s') = length (procs s)" "req_queue s' = req_queue s" "disk_head_pos s' = disk_head_pos s" "parity_buf s' = parity_buf s"
  shows "swap_ready slot s' = swap_ready slot s" "view s' = view s" "refs s' = refs s"
proof -
  note C = cache_cong [OF assms(1,2)]
  show "view s' = view s" "refs s' = refs s" by (rule C)+
  have "pending s' = pending s" "myproc s' = myproc s" using assms by (simp_all add: pending_def myproc_def mycpu_def)
  then show "swap_ready slot s' = swap_ready slot s"
    unfolding swap_ready_def queue_ok_def io_ready_def C assms by simp
qed

section \<open>Swapping out\<close>

text \<open>The blocks of the slot hold the page.\<close>

definition slot_holds :: "nat \<Rightarrow> memory \<Rightarrow> u64 \<Rightarrow> 'a qstate_scheme \<Rightarrow> bool" where
  "slot_holds slot m page s \<longleftrightarrow> slot_raid_mode s ! slot \<noteq> 1 \<and> slot_raid_mode s ! slot \<noteq> 2 \<and>
     (\<forall>b < 4. view s (of_nat (raid0_block slot b)) = mem_read m (page + of_nat (b * BSIZE)) BSIZE)"

text \<open>The swap layer is quiet, works under RAID 0, and has a free slot; a process runs.\<close>

definition can_swap :: "'a kstate_scheme \<Rightarrow> bool" where
  "can_swap s \<longleftrightarrow> (\<forall>i < NSWAPSPACE. swap_ready i s) \<and> raid_mode s \<noteq> 1 \<and> raid_mode s \<noteq> 2 \<and>
     length (slot_raid_mode s) = NSWAPSPACE \<and> length (swap_space s) = NSWAPSPACE \<and>
     (\<exists>i < NSWAPSPACE. \<not> swap_space s ! i) \<and> swap_priority s < 4"

lemma swap_priority_nonneg: "0 \<le> swap_priority s"
  by (simp add: swap_priority_def split: option.split)

lemma swap_out_spec:
  fixes s :: "'a kstate_scheme"
  assumes "can_swap s"
  shows "\<exists>i s'. swap_out pa s = Inr (int i, s') \<and> i < NSWAPSPACE \<and> \<not> swap_space s ! i \<and>
    swap_space s' = (swap_space s)[i := True] \<and> mem s' = mem s \<and> kend s' = kend s \<and> freelist s' = freelist s \<and>
    frames s' = frames s \<and> swap_ready i s' \<and> slot_holds i (mem s) pa s'"
proof -
  obtain i where f: "find (\<lambda>i. \<not> swap_space s ! i) [0..<NSWAPSPACE] = Some i"
    using assms find_None_iff [of "\<lambda>i. \<not> swap_space s ! i" "[0..<NSWAPSPACE]"]
    by (cases "find (\<lambda>i. \<not> swap_space s ! i) [0..<NSWAPSPACE]") (auto simp: can_swap_def)
  then have i: "i < NSWAPSPACE" "\<not> swap_space s ! i" by (auto simp: find_Some_iff)
  define t where "t = s\<lparr>swap_space := (swap_space s)[i := True]\<rparr>"
  have A: "swap_ready i s" "raid_mode s \<noteq> 1" "raid_mode s \<noteq> 2" "length (slot_raid_mode s) = NSWAPSPACE" "swap_priority s < 4"
    using assms i(1) by (simp_all add: can_swap_def)
  have t: "swap_ready i t" "raid_mode t \<noteq> 1" "raid_mode t \<noteq> 2" "length (slot_raid_mode t) = NSWAPSPACE"
    using A swap_ready_cong(1) [of t s i] by (simp_all add: t_def)
  obtain s1 where s1: "disk_swap_write i pa (swap_priority s) t = Inr s1" "swap_ready i s1" "mem s1 = mem t"
    "slot_raid_mode s1 = (slot_raid_mode t)[i := raid_mode t]"
    "\<forall>b < 4. view s1 (of_nat (raid0_block i b)) = mem_read (mem t) (pa + of_nat (b * BSIZE)) BSIZE"
    using disk_swap_write_raid0 [OF t(1) i(1) swap_priority_nonneg A(5) t(2-4), of pa] by blast
  note M = more_kstate [OF disk_swap_more(1) [OF t(2,3) s1(1)]]
  define s' where "s' = (case myproc s1 of
      Some p \<Rightarrow> upd_proc p (\<lambda>u. u\<lparr>pages_swapped_out := pages_swapped_out u + 1, disk_writes := disk_writes u + 1\<rparr>) s1
    | None \<Rightarrow> s1)"
  have s': "mem s' = mem s" "kend s' = kend s" "freelist s' = freelist s" "frames s' = frames s" "swap_space s' = (swap_space s)[i := True]"
    "slot_raid_mode s' = slot_raid_mode s1" "swap_ready i s' = swap_ready i s1" "view s' = view s1"
    using s1(3) M swap_ready_cong [of s' s1] by (auto simp: s'_def t_def upd_proc_def split: option.split)
  have "swap_out pa s = Inr (int i, s')"
    using f s1(1) by (simp add: swap_out_def t_def s'_def)
  moreover have "slot_holds i (mem s) pa s'" using s1(4,5) s'(6,8) t(2-4) i(1) by (simp add: slot_holds_def t_def)
  ultimately show ?thesis using i s' s1(2) by blast
qed


section \<open>The entry of a page in the swap area\<close>

lemma bit_256: "bit (256 :: u64) n \<longleftrightarrow> n = 8"
proof -
  have e: "(256 :: u64) = push_bit 8 1" by simp
  show ?thesis unfolding e bit_push_bit_iff bit_1_iff by auto
qed

lemma bit_3FF: "bit (0x3FF :: u64) n \<longleftrightarrow> n < 10"
proof -
  have e: "(0x3FF :: u64) = mask 10" by (simp add: mask_eq_exp_minus_1)
  show ?thesis unfolding e bit_mask_iff by auto
qed

lemma bit_1: "bit (1 :: u64) n \<longleftrightarrow> n = 0"
  by (simp add: bit_1_iff)

lemma and_single: "\<forall>n. bit b n \<longleftrightarrow> n = k \<Longrightarrow> (x :: u64) AND b = 0 \<longleftrightarrow> \<not> bit x k"
  using bit_imp_le_length [of x k] by (auto simp: bit_eq_iff [of "x AND b" 0] bit_and_iff)

lemma and_1: "(x :: u64) AND PTE_V = 0 \<longleftrightarrow> \<not> bit x 0"
  by (rule and_single) (simp add: bit_1)

lemma and_256: "(x :: u64) AND PTE_SWAPPED = 0 \<longleftrightarrow> \<not> bit x 8"
  by (rule and_single) (unfold bit_256, simp)

definition swapped_pte :: "nat \<Rightarrow> u64 \<Rightarrow> u64" where
  "swapped_pte i pte = push_bit 10 (of_nat i) OR PTE_FLAGS ((pte AND NOT PTE_V) OR PTE_SWAPPED) OR PTE_SWAPPED"

lemma bit_swapped_pte:
  "bit (swapped_pte i pte) n \<longleftrightarrow> 10 \<le> n \<and> n < 64 \<and> bit (of_nat i :: u64) (n - 10) \<or> n < 10 \<and> n \<noteq> 0 \<and> (bit pte n \<or> n = 8)"
proof -
  have "bit (swapped_pte i pte) n \<longleftrightarrow> 10 \<le> n \<and> n < 64 \<and> bit (of_nat i :: u64) (n - 10) \<or>
      (bit pte n \<and> n < 64 \<and> n \<noteq> 0 \<or> n = 8) \<and> n < 10 \<or> n = 8"
    unfolding swapped_pte_def PTE_FLAGS_def bit_or_iff bit_and_iff bit_not_iff bit_push_bit_iff bit_256 bit_3FF bit_1 possible_bit_word
    by simp
  then show ?thesis by auto
qed

lemma swapped_pte_bits: "swapped_pte i pte AND PTE_V = 0" "swapped_pte i pte AND PTE_SWAPPED \<noteq> 0"
  by (simp_all add: and_1 and_256 bit_swapped_pte)

lemma swap_slot_swapped: "i < NSWAPSPACE \<Longrightarrow> swap_slot (swapped_pte i pte) = int i"
proof -
  assume i: "i < NSWAPSPACE"
  have b: "\<not> bit (of_nat i :: u64) n" if "12 \<le> n" for n
  proof -
    have "i < 2 ^ n" using i power_increasing [OF that, of "2 :: nat"] by simp
    then have "\<not> bit i n" by (simp add: bit_iff_odd)
    moreover have "unat (of_nat i :: u64) = i" using i by (intro unat_of_nat_u64) simp
    ultimately have "\<not> bit (unat (of_nat i :: u64)) n" by simp
    then show ?thesis unfolding bit_unsigned_iff by simp
  qed
  have "drop_bit 10 (swapped_pte i pte) = of_nat i"
  proof (rule bit_word_eqI)
    fix n assume "n < LENGTH(64)"
    then show "bit (drop_bit 10 (swapped_pte i pte)) n = bit (of_nat i :: u64) n"
      using b [of n] by (cases "n < 12") (auto simp: bit_drop_bit_eq bit_swapped_pte)
  qed
  moreover have "(ucast (of_nat i :: u64) :: u32) = of_nat i"
    using i unat_of_nat_u64 [of i] unat_of_nat_u32 [of i] by (simp add: word_unat_eq_iff unsigned_ucast_eq take_bit_nat_eq_self)
  ultimately have "swap_slot (swapped_pte i pte) = sint (of_nat i :: u32)" by (simp add: swap_slot_def)
  also have "\<dots> = int i" using i by (simp add: sint_small unat_of_nat_u32)
  finally show ?thesis .
qed

lemma restored_pte:
  assumes "pte AND PTE_V \<noteq> 0" "pte AND PTE_SWAPPED = 0"
  shows "(PA2PTE y OR PTE_V OR (swapped_pte i pte AND 0x3FF)) AND NOT PTE_SWAPPED = PA2PTE y OR PTE_FLAGS pte"
proof (rule bit_word_eqI)
  fix n assume n: "n < LENGTH(64)"
  have p: "bit pte 0" "\<not> bit pte 8" using assms and_1 and_256 by blast+
  have "bit (PA2PTE y) n \<longrightarrow> 10 \<le> n" by (simp add: PA2PTE_def bit_push_bit_iff)
  then show "bit ((PA2PTE y OR PTE_V OR (swapped_pte i pte AND 0x3FF)) AND NOT PTE_SWAPPED) n = bit (PA2PTE y OR PTE_FLAGS pte) n"
    unfolding PTE_FLAGS_def bit_or_iff bit_and_iff bit_not_iff bit_256 bit_3FF bit_1 possible_bit_word bit_swapped_pte
    using n p by auto
qed


section \<open>Eviction\<close>

lemma vm_ok_cong:
  assumes "vm_ok pt xs s" "mem s' = mem s" "kend s' = kend s" "freelist s' = freelist s" "length (frames s') = length (frames s)"
  shows "vm_ok pt xs s'"
  using assms by (simp add: vm_ok_def alloc_inv_def kpage_def)

lemma page_read_cong:
  assumes "page_ok p" "\<forall>x. in_page p x \<longrightarrow> m' x = m x" "i + n \<le> 4096"
  shows "mem_read m' (p + of_nat i) n = mem_read m (p + of_nat i) n"
proof (rule mem_read_cong)
  fix j assume "j < n"
  then have "in_page p (p + of_nat (i + j))" using page_offset [OF assms(1), of "i + j"] assms(3) by (simp add: in_page_def)
  then show "m' (p + of_nat i + of_nat j) = m (p + of_nat i + of_nat j)" using assms(2) by (simp add: add.assoc)
qed

lemma slot_holds_cong:
  assumes "page_ok p" "\<forall>x. in_page p x \<longrightarrow> m' x = m x"
  shows "slot_holds i m' p s = slot_holds i m p s"
  using page_read_cong [OF assms, of "b * BSIZE" BSIZE for b] by (auto simp: slot_holds_def)

lemma evict_victim_spec:
  fixes s :: "'a kstate_scheme"
  assumes "vm_ok pt xs s" "can_swap s" "mapped (mem s) pt va" "walk_from (mem s) 2 pt va = a"
    "kpage s (page_of (mem s) pt va)" "page_of (mem s) pt va \<notin> set xs" "page_of (mem s) pt va \<notin> tables (mem s) pt"
  defines "pa \<equiv> page_of (mem s) pt va"
  shows "\<exists>i s'. evict_victim h a pa s = Inr s' \<and> i < NSWAPSPACE \<and> \<not> swap_space s ! i \<and> swap_space s' = (swap_space s)[i := True] \<and>
    vm_ok pt (pa # xs) s' \<and> tables (mem s') pt = tables (mem s) pt \<and>
    (\<forall>v < MAXVA. pte_of (mem s') pt v =
       (if unat v div 4096 = unat va div 4096 then swapped_pte i (pte_of (mem s) pt va) else pte_of (mem s) pt v)) \<and>
    swap_ready i s' \<and> slot_holds i (mem s) pa s'"
proof -
  have V: "alloc_inv xs s" "pt_wf (mem s) pt" "tables (mem s) pt \<inter> set xs = {}" using assms(1) by (auto simp: vm_ok_def)
  have va: "va < MAXVA" using assms(3) by (simp add: mapped_def)
  have "pte_of (mem s) pt va \<noteq> 0" using assms(3) by (auto simp: mapped_def)
  then obtain q where q: "leaf_table (mem s) pt va = Some q" by (auto simp: pte_of_def split: option.splits)
  let ?pte = "pte_of (mem s) pt va"
  have a: "a = entry q (idx 0 va)" "load64 (mem s) a = ?pte" using assms(4) q by (simp_all add: walk_from_spec pte_of_def)
  have qp: "page_ok q" "q \<in> tables (mem s) pt" using leaf_ok [OF V(2) q] leaf_in_tables [OF q] .
  have pp: "page_ok pa" using kpage_page_ok assms(5) V(1) by (auto simp: pa_def alloc_inv_def)
  have qn: "q \<noteq> pa" using qp(2) assms(7) by (auto simp: pa_def)
  let ?v0 = "(?pte AND NOT PTE_V) OR PTE_SWAPPED"
  define s0 where "s0 = set_pte a ?v0 s"
  have g0: "grows pt [] s xs s0" unfolding s0_def a(1) by (rule grows_leaf [OF assms(1) q va])
  have l0: "leaf_table (mem s0) pt va = Some q" "load64 (mem s0) a = ?v0"
    using set_leaf(3) [OF V(2) q va, of ?v0 va] q load_store_entry [OF qp(1) idx_less qp(1) idx_less, of "mem s" 0 va ?v0]
    by (simp_all add: s0_def set_pte_def a(1))
  have m0: "mem s0 x = mem s x" if "\<not> in_page q x" for x
    unfolding s0_def set_pte_def a(1) using store64_page [OF qp(1) idx_less that] by simp
  have cs: "can_swap s0"
    using assms(2) swap_ready_cong(1) [of s0 s] by (simp add: can_swap_def s0_def set_pte_def swap_priority_def myproc_def mycpu_def split: option.splits)
  obtain i s1 where s1: "swap_out pa s0 = Inr (int i, s1)" "i < NSWAPSPACE" "\<not> swap_space s0 ! i"
    "swap_space s1 = (swap_space s0)[i := True]" "mem s1 = mem s0" "kend s1 = kend s0" "freelist s1 = freelist s0"
    "frames s1 = frames s0" "swap_ready i s1" "slot_holds i (mem s0) pa s1"
    using swap_out_spec [OF cs] by blast
  have v1: "vm_ok pt xs s1" using vm_ok_cong [of pt xs s0 s1] g0 s1(5-8) by (simp add: grows_def)
  define s2 where "s2 = set_pte a (swapped_pte i ?pte) s1"
  have V1: "pt_wf (mem s1) pt" using v1 by (simp add: vm_ok_def)
  have l1: "leaf_table (mem s1) pt va = Some q" using l0(1) s1(5) by simp
  have g2: "grows pt [] s1 xs s2" unfolding s2_def a(1) by (rule grows_leaf [OF v1 l1 va])
  have e2: "s2 = s1\<lparr>mem := store64 (mem s1) a (push_bit 10 (of_int (int i)) OR PTE_FLAGS (load64 (mem s1) a) OR PTE_SWAPPED)\<rparr>"
    using l0(2) s1(5) by (simp add: s2_def set_pte_def swapped_pte_def)
  have p2: "pte_of (mem s2) pt v =
      (if unat v div 4096 = unat va div 4096 then swapped_pte i ?pte else pte_of (mem s) pt v)" if "v < MAXVA" for v
    using set_leaf(4) [OF V1 l1 va that, of "swapped_pte i ?pte"] set_leaf(4) [OF V(2) q va that, of ?v0] s1(5)
    by (simp add: s2_def s0_def set_pte_def a(1))
  define s3 where "s3 = (case fr_p (frames s2 ! h) of
      Some k \<Rightarrow> upd_proc k (\<lambda>u. u\<lparr>pages_evicted := pages_evicted u + 1, resident_pages := resident_pages u - 1\<rparr>)
        (s2\<lparr>frames := (frames s2)[h := (frames s2 ! h)\<lparr>fr_in_use := False, fr_p := None, fr_va := 0\<rparr>]\<rparr>)
    | None \<Rightarrow> s2\<lparr>frames := (frames s2)[h := (frames s2 ! h)\<lparr>fr_in_use := False, fr_p := None, fr_va := 0\<rparr>]\<rparr>)"
  have s3: "mem s3 = mem s2" "kend s3 = kend s2" "freelist s3 = freelist s2" "length (frames s3) = length (frames s2)"
    "swap_space s3 = swap_space s2" "slot_raid_mode s3 = slot_raid_mode s2" "swap_ready i s3 = swap_ready i s2" "view s3 = view s2"
    using swap_ready_cong [of s3 s2] by (auto simp: s3_def upd_proc_def split: option.split)
  have v3: "vm_ok pt xs s3" using vm_ok_cong [of pt xs s2 s3] g2 s3 by (simp add: grows_def)
  have k3: "kpage s3 pa" "pa \<notin> set xs" using assms(5,6) s3(2) g2 s1(6) by (auto simp: pa_def kpage_def s2_def set_pte_def s0_def)
  have "alloc_inv xs s3" using v3 by (simp add: vm_ok_def)
  from kfree_spec [OF this k3] obtain s4 where s4: "kfree pa s3 = Inr s4" "alloc_inv (pa # xs) s4"
    "\<forall>x. \<not> in_page pa x \<longrightarrow> mem s4 x = mem s3 x" "s4 = s3\<lparr>mem := mem s4, frames := frames s4, freelist := freelist s4\<rparr>" by blast
  have e0: "s\<lparr>mem := store64 (mem s) a ((load64 (mem s) a AND NOT PTE_V) OR PTE_SWAPPED)\<rparr> = s0"
    by (simp only: s0_def set_pte_def a(2))
  have ev: "evict_victim h a pa s = Inr s4"
    unfolding evict_victim_def Let_def e0 s1(1) rbind_simps prod.case e2 [symmetric]
    using s4(1) by (simp add: s3_def split: option.splits)
  have t2: "tables (mem s2) pt = tables (mem s) pt" using g0 g2 s1(5) by (simp add: grows_def)
  have wf2: "pt_wf (mem s3) pt" using v3 by (simp add: vm_ok_def)
  have f4: "\<forall>r \<in> tables (mem s3) pt. \<forall>x. in_page r x \<longrightarrow> mem s4 x = mem s3 x"
    using s4(3) outside_page [OF pp tables_ok [OF wf2]] assms(7) t2 s3(1) by (auto simp: pa_def)
  note F = space_frame [OF wf2 f4]
  have "vm_ok pt (pa # xs) s4" using s4(2) F(1,2) t2 s3(1) V(3) assms(7) by (simp add: vm_ok_def pa_def)
  moreover obtain m4 f4 l4 where e4: "s4 = s3\<lparr>mem := m4, frames := f4, freelist := l4\<rparr>" using s4(4) by blast
  have "swap_ready i s4 = swap_ready i s3" "view s4 = view s3" "slot_raid_mode s4 = slot_raid_mode s3" "swap_space s4 = swap_space s3"
    unfolding e4 by (rule swap_ready_cong; simp)+ simp_all
  moreover have "swap_ready i s2 = swap_ready i s1" "view s2 = view s1" "slot_raid_mode s2 = slot_raid_mode s1" "swap_space s2 = swap_space s1"
    using swap_ready_cong [of s2 s1] by (simp_all add: s2_def set_pte_def)
  moreover have "slot_holds i (mem s) pa s1"
    using slot_holds_cong [OF pp, of "mem s0" "mem s"] m0 outside_page [OF qp(1) pp qn] s1(10) by blast
  moreover have "swap_space s0 = swap_space s" by (simp add: s0_def set_pte_def)
  ultimately show ?thesis using ev s1(2-4,9) s3 F(1,4) t2 p2
    by (intro exI [of _ i] exI [of _ s4]) (simp add: slot_holds_def)
qed


section \<open>Swapping in\<close>

lemma PTE_FLAGS_bits: "PTE_FLAGS pte AND NOT 0x3FF = 0"
  by (rule bit_word_eqI) (unfold PTE_FLAGS_def bit_and_iff bit_not_iff, simp)

lemma PTE_FLAGS_U: "pte AND PTE_U \<noteq> 0 \<Longrightarrow> (x OR PTE_FLAGS pte) AND PTE_U \<noteq> 0"
proof
  assume a: "pte AND PTE_U \<noteq> 0" "(x OR PTE_FLAGS pte) AND PTE_U = 0"
  then obtain n where n: "bit (pte AND PTE_U) n" by (auto simp: bit_eq_iff [of "pte AND 16" 0])
  have u: "bit PTE_U k \<longrightarrow> k < 10" for k
  proof -
    have e: "(16 :: u64) = push_bit 4 1" by simp
    show ?thesis unfolding e bit_push_bit_iff bit_1_iff by auto
  qed
  have "bit ((x OR PTE_FLAGS pte) AND PTE_U) n"
    using n u unfolding bit_and_iff bit_or_iff PTE_FLAGS_def bit_3FF by blast
  then show False using a(2) by simp
qed

text \<open>Reading a slot back into page \<open>y\<close>.\<close>

lemma swap_in_spec:
  fixes t :: "'a kstate_scheme"
  assumes "swap_ready i t" "i < NSWAPSPACE" "swap_priority t < 4" "slot_holds i m page t" "page_ok y"
  obtains t' where "swap_in y (int i) t = Inr t'" "mem_read (mem t') y PGSIZE = mem_read m page PGSIZE" "\<And>x. \<not> in_page y x \<Longrightarrow> mem t' x = mem t x"
    "kend t' = kend t" "freelist t' = freelist t" "frames t' = frames t" "swap_space t' = (swap_space t)[i := False]"
proof -
  have h: "slot_raid_mode t ! i \<noteq> 1" "slot_raid_mode t ! i \<noteq> 2"
    "\<forall>b < 4. view t (of_nat (raid0_block i b)) = mem_read m (page + of_nat (b * BSIZE)) BSIZE"
    using assms(4) by (simp_all add: slot_holds_def)
  obtain t2 where t2: "disk_swap_read i y (swap_priority t) t = Inr t2"
    "mem_read (mem t2) y PGSIZE = mem_read m page PGSIZE" "\<forall>x. PGSIZE \<le> unat (x - y) \<longrightarrow> mem t2 x = mem t x"
    using disk_swap_read_raid0 [OF assms(1,2) swap_priority_nonneg assms(3) h, of y] by blast
  note M = more_kstate [OF disk_swap_more(2) [OF assms(2) h(1,2) t2(1)]]
  have o2: "mem t2 x = mem t x" if "\<not> in_page y x" for x
  proof -
    have "PGSIZE \<le> unat (x - y)"
    proof (cases "unat y \<le> unat x")
      case True
      then show ?thesis using that by (simp add: unat_minus_le in_page_def)
    next
      case False
      then have "unat (x - y) = 2 ^ 64 + unat x - unat y" by (intro unat_minus_gt) simp
      moreover have "unat y \<le> 2 ^ 56" using assms(5) by (simp add: page_ok_def)
      ultimately show ?thesis by simp
    qed
    then show ?thesis using t2(3) by blast
  qed
  define t3 where "t3 = (case myproc t2 of
      Some p \<Rightarrow> upd_proc p (\<lambda>u. u\<lparr>disk_reads := disk_reads u + 1, pages_swapped_in := pages_swapped_in u + 1,
        resident_pages := resident_pages u + 1\<rparr>) (t2\<lparr>swap_space := (swap_space t2)[i := False]\<rparr>)
    | None \<Rightarrow> t2\<lparr>swap_space := (swap_space t2)[i := False]\<rparr>)"
  have t3: "mem t3 = mem t2" "kend t3 = kend t2" "freelist t3 = freelist t2" "frames t3 = frames t2"
    "swap_space t3 = (swap_space t2)[i := False]"
    by (auto simp: t3_def upd_proc_def split: option.split)
  have "swap_in y (int i) t = Inr t3"
    using t2(1) assms(2) by (simp add: swap_in_def t3_def myproc_def mycpu_def Let_def)
  then show thesis using that [of t3] t2(2) o2 t3 M by simp
qed

text \<open>
  A free page is taken and the slot read into it: the common part of all the ways in which a page comes back. \<open>q\<close> is the leaf
  table that holds the entry.
\<close>

lemma fetch_swapped:
  fixes t :: "'a kstate_scheme"
  assumes "vm_ok pt (y # ys) t" "va < MAXVA" "pte_of (mem t) pt va = swapped_pte i pte" "i < NSWAPSPACE"
    "swap_ready i t" "slot_holds i m page t" "swap_priority t < 4"
  obtains q t1 t3 where "walk pt va False t = Inr (entry q (idx 0 va), t)" "entry q (idx 0 va) \<noteq> 0" "load64 (mem t) (entry q (idx 0 va)) = swapped_pte i pte"
    "kalloc t = Inr (y, t1)" "y \<noteq> 0" "load64 (mem t1) (entry q (idx 0 va)) = swapped_pte i pte" "swap_in y (int i) t1 = Inr t3"
    "load64 (mem t3) (entry q (idx 0 va)) = swapped_pte i pte" "leaf_table (mem t3) pt va = Some q" "vm_ok pt ys t3" "tables (mem t3) pt = tables (mem t) pt"
    "\<And>v. pte_of (mem t3) pt v = pte_of (mem t) pt v" "mem_read (mem t3) y PGSIZE = mem_read m page PGSIZE" "page_ok q" "page_ok y" "y \<noteq> q"
    "swap_space t3 = (swap_space t)[i := False]" "kend t3 = kend t"
proof -
  have V: "alloc_inv (y # ys) t" "pt_wf (mem t) pt" "tables (mem t) pt \<inter> set (y # ys) = {}" using assms(1) by (auto simp: vm_ok_def)
  have "swapped_pte i pte \<noteq> 0" using swapped_pte_bits(2) [of i pte] by auto
  then obtain q where q: "leaf_table (mem t) pt va = Some q" using assms(3) by (auto simp: pte_of_def split: option.splits)
  define a where "a = entry q (idx 0 va)"
  have w: "walk_from (mem t) 2 pt va = a" "load64 (mem t) a = swapped_pte i pte"
    using q assms(3) by (simp_all add: walk_from_spec pte_of_def a_def)
  have qp: "page_ok q" "q \<in> tables (mem t) pt" using leaf_ok [OF V(2) q] leaf_in_tables [OF q] .
  have yp: "page_ok y" by (rule alloc_inv_pages [OF V(1)]) simp
  have qy: "y \<noteq> q" using qp(2) V(3) by auto
  have a0: "a \<noteq> 0" "y \<noteq> 0" using walk_entry_nonzero [OF qp(1)] yp by (auto simp: a_def page_ok_def)
  obtain y' t1 where t1: "take_page t = (y', t1)" by fastforce
  note T = take_page_spec [OF V(1) t1]
  have ka: "kalloc t = Inr (y, t1)" using alloc_inv_nonempty [OF V(1)] t1 T(1) by (simp add: kalloc_def)
  obtain m1 f1 where e1: "t1 = t\<lparr>mem := m1, freelist := f1\<rparr>" using T(5) by blast
  have c1: "swap_ready i t1 = swap_ready i t" "view t1 = view t" "slot_raid_mode t1 = slot_raid_mode t" "swap_space t1 = swap_space t"
    "swap_priority t1 = swap_priority t"
    unfolding e1 by (rule swap_ready_cong; simp)+ (simp_all add: swap_priority_def myproc_def mycpu_def split: option.split)
  have f1: "\<forall>r \<in> tables (mem t) pt. \<forall>x. in_page r x \<longrightarrow> mem t1 x = mem t x"
    using T(4) outside_page [OF yp tables_ok [OF V(2)]] V(3) by auto
  note F1 = space_frame [OF V(2) f1]
  have pr: "swap_priority t1 < 4" "swap_ready i t1" "slot_holds i m page t1" using assms(5-7) c1 by (simp_all add: slot_holds_def)
  obtain t3 where t3: "swap_in y (int i) t1 = Inr t3" "mem_read (mem t3) y PGSIZE = mem_read m page PGSIZE"
    "\<And>x. \<not> in_page y x \<Longrightarrow> mem t3 x = mem t1 x" "kend t3 = kend t1" "freelist t3 = freelist t1" "frames t3 = frames t1"
    "swap_space t3 = (swap_space t1)[i := False]"
    by (rule swap_in_spec [OF pr(2) assms(4) pr(1,3) yp]) blast
  have f3: "\<forall>r \<in> tables (mem t1) pt. \<forall>x. in_page r x \<longrightarrow> mem t3 x = mem t1 x"
    using t3(3) outside_page [OF yp tables_ok [OF V(2)]] V(3) F1(1) by auto
  note F3 = space_frame [OF F1(2) f3]
  have d: "\<forall>x \<in> set ys. \<forall>b. in_page x b \<longrightarrow> mem t3 b = mem t1 b"
    using t3(3) outside_page [OF yp] alloc_inv_pages [OF V(1)] V(1) by (auto simp: alloc_inv_def)
  have "alloc_inv ys (t1\<lparr>mem := mem t3\<rparr>)" by (rule alloc_inv_frame [OF T(2) d])
  then have v3: "vm_ok pt ys t3" using F3(1,2) F1(1) V(3) t3(4-6) by (auto simp: vm_ok_def alloc_inv_def kpage_def)
  have q3: "leaf_table (mem t3) pt va = Some q" using F3(3) F1(3) q by simp
  have l3: "load64 (mem t3) a = swapped_pte i pte" "load64 (mem t1) a = swapped_pte i pte"
    using F3(4) [of va] F1(4) [of va] assms(3) q3 F1(3) [of va] q by (simp_all add: pte_of_def a_def)
  have wk: "walk pt va False t = Inr (a, t)" using assms(2) w(1) by (simp add: walk_def linorder_not_le [symmetric])
  have fin: "tables (mem t3) pt = tables (mem t) pt" "\<And>v. pte_of (mem t3) pt v = pte_of (mem t) pt v" "swap_space t3 = (swap_space t)[i := False]"
    "kend t3 = kend t" using F3(1,4) F1(1,4) t3(4,7) c1(4) e1 by simp_all
  show thesis by (rule that [of q t1 t3, folded a_def, OF wk a0(1) w(2) ka a0(2) l3(2) t3(1) l3(1) q3 v3 fin(1,2) t3(2) qp(1) yp qy fin(3,4)])
qed

text \<open>Writing the entry: it changes in the map of the address space, the contents of the page do not.\<close>

lemma set_entry:
  fixes t :: "'a kstate_scheme" and v :: u64
  assumes "vm_ok pt ys t" "leaf_table (mem t) pt va = Some q" "va < MAXVA" "page_ok y" "y \<noteq> q"
  defines "t' \<equiv> set_pte (entry q (idx 0 va)) v t"
  shows "vm_ok pt ys t'" "leaf_table (mem t') pt va = Some q" "load64 (mem t') (entry q (idx 0 va)) = v" "tables (mem t') pt = tables (mem t) pt"
    "u < MAXVA \<Longrightarrow> pte_of (mem t') pt u = (if unat u div 4096 = unat va div 4096 then v else pte_of (mem t) pt u)"
    "mem_read (mem t') y PGSIZE = mem_read (mem t) y PGSIZE"
proof -
  have wf: "pt_wf (mem t) pt" using assms(1) by (simp add: vm_ok_def)
  have qp: "page_ok q" by (rule leaf_ok [OF wf assms(2)])
  have g: "grows pt [] t ys t'" unfolding t'_def by (rule grows_leaf [OF assms(1-3)])
  then show "vm_ok pt ys t'" "tables (mem t') pt = tables (mem t) pt" by (auto simp: grows_def)
  show "leaf_table (mem t') pt va = Some q" using set_leaf(3) [OF wf assms(2,3)] assms(2) by (simp add: t'_def set_pte_def)
  show "load64 (mem t') (entry q (idx 0 va)) = v"
    unfolding t'_def set_pte_def using load_store_entry [OF qp idx_less qp idx_less] by simp
  show "u < MAXVA \<Longrightarrow> pte_of (mem t') pt u = (if unat u div 4096 = unat va div 4096 then v else pte_of (mem t) pt u)"
    using set_leaf(4) [OF wf assms(2,3), of u v] by (simp add: t'_def set_pte_def)
  have "mem t' x = mem t x" if "in_page y x" for x
  proof -
    have "\<not> in_page q x" using outside_page [OF qp assms(4) _ that] assms(5) by auto
    then show ?thesis using store64_page [OF qp idx_less] by (simp add: t'_def set_pte_def)
  qed
  then show "mem_read (mem t') y PGSIZE = mem_read (mem t) y PGSIZE" using page_read_cong [OF assms(4), of "mem t'" "mem t" 0 PGSIZE] by simp
qed

lemma walkaddr_swapped:
  fixes t :: "'a kstate_scheme"
  assumes "vm_ok pt (y # ys) t" "va < MAXVA" "pte_of (mem t) pt va = swapped_pte i pte" "i < NSWAPSPACE"
    "pte AND PTE_V \<noteq> 0" "pte AND PTE_SWAPPED = 0" "pte AND PTE_U \<noteq> 0"
    "swap_ready i t" "slot_holds i m page t" "swap_priority t < 4"
  shows "\<exists>t'. walkaddr pt va t = Inr (y, t') \<and> mem_read (mem t') y PGSIZE = mem_read m page PGSIZE \<and> vm_ok pt ys t' \<and>
    tables (mem t') pt = tables (mem t) pt \<and> swap_space t' = (swap_space t)[i := False] \<and>
    (\<forall>v < MAXVA. pte_of (mem t') pt v =
       (if unat v div 4096 = unat va div 4096 then PA2PTE y OR PTE_FLAGS pte else pte_of (mem t) pt v))"
proof -
  obtain q t1 t3 where W: "walk pt va False t = Inr (entry q (idx 0 va), t)" "entry q (idx 0 va) \<noteq> 0" "load64 (mem t) (entry q (idx 0 va)) = swapped_pte i pte"
    "kalloc t = Inr (y, t1)" "y \<noteq> 0" "load64 (mem t1) (entry q (idx 0 va)) = swapped_pte i pte" "swap_in y (int i) t1 = Inr t3"
    "load64 (mem t3) (entry q (idx 0 va)) = swapped_pte i pte" and L: "leaf_table (mem t3) pt va = Some q" "vm_ok pt ys t3" "tables (mem t3) pt = tables (mem t) pt"
    "\<And>v. pte_of (mem t3) pt v = pte_of (mem t) pt v" "mem_read (mem t3) y PGSIZE = mem_read m page PGSIZE" "page_ok q" "page_ok y" "y \<noteq> q"
    "swap_space t3 = (swap_space t)[i := False]"
    by (rule fetch_swapped [OF assms(1-4,8-10)]) blast
  define v1 where "v1 = PA2PTE y OR PTE_V OR (swapped_pte i pte AND 0x3FF)"
  define t4 where "t4 = set_pte (entry q (idx 0 va)) v1 t3"
  define t5 where "t5 = set_pte (entry q (idx 0 va)) (v1 AND NOT PTE_SWAPPED) t4"
  note E4 = set_entry [OF L(2,1) assms(2) L(7,8), where v = v1, folded t4_def]
  note E5 = set_entry [OF E4(1,2) assms(2) L(7,8), where v = "v1 AND NOT PTE_SWAPPED", folded t5_def]
  have fin: "v1 AND NOT PTE_SWAPPED = PA2PTE y OR PTE_FLAGS pte" unfolding v1_def by (rule restored_pte [OF assms(5,6)])
  have "4096 dvd unat y" using L(7) by (simp add: page_ok_def)
  then have pa: "PTE2PA (PA2PTE y OR PTE_FLAGS pte) = y" by (rule PTE2PA_PA2PTE) (rule PTE_FLAGS_bits)
  have u: "(PA2PTE y OR PTE_FLAGS pte) AND PTE_U \<noteq> 0" by (rule PTE_FLAGS_U [OF assms(7)])
  have e4: "set_pte (entry q (idx 0 va)) (PA2PTE y OR PTE_V OR (load64 (mem t3) (entry q (idx 0 va)) AND 0x3FF)) t3 = t4" by (simp only: t4_def v1_def W(8))
  have e5: "set_pte (entry q (idx 0 va)) (load64 (mem t4) (entry q (idx 0 va)) AND NOT PTE_SWAPPED) t4 = t5" by (simp only: t5_def E4(3))
  have nva: "\<not> MAXVA \<le> va" using assms(2) by simp
  have si: "swap_in y (swap_slot (load64 (mem t1) (entry q (idx 0 va)))) t1 = Inr t3" unfolding W(6) swap_slot_swapped [OF assms(4)] by (rule W(7))
  have "walkaddr pt va t = Inr (y, t5)"
    unfolding walkaddr_def if_not_P [OF nva] W(1) rbind_simps prod.case if_not_P [OF W(2)] Let_def W(3) if_P [OF swapped_pte_bits(1)]
      if_P [OF swapped_pte_bits(2)] W(4) if_not_P [OF W(5)] si e4 e5 E5(3) fin pa if_not_P [OF u] ..
  moreover have "pte_of (mem t5) pt v = (if unat v div 4096 = unat va div 4096 then PA2PTE y OR PTE_FLAGS pte else pte_of (mem t) pt v)"
    if "v < MAXVA" for v using E5(5) [OF that] E4(5) [OF that] L(4) fin by simp
  moreover have "swap_space t5 = (swap_space t)[i := False]" using L(9) by (simp add: t5_def t4_def set_pte_def)
  ultimately show ?thesis using E5(1,4,6) E4(4,6) L(3,5) by (intro exI [of _ t5]) simp
qed

text \<open>
  Property (C2). Paging is transparent. Let the page table be well formed, let \<open>va\<close> be mapped for the user to a
  page of its own, and let the swap layer be quiet under RAID 0 (or any mode treated like it) with a free slot. Then evicting the page succeeds: it
  takes a free slot, puts the page on the free list, and marks the entry of \<open>va\<close>, and of no other page, as swapped. In
  every later state with a free page in which that entry and the blocks of the slot are still what they were -- whatever else
  has happened to the memory, the cache and the processes meanwhile -- \<open>walkaddr\<close> returns a
  page that holds the 4096 bytes of the evicted one, maps it with the old permissions, and gives the slot back.
\<close>

theorem evicted_page_comes_back:
  fixes s :: "'a kstate_scheme"
  assumes "vm_ok pt xs s" "can_swap s" "mapped (mem s) pt va" "pte_of (mem s) pt va AND PTE_SWAPPED = 0"
    "kpage s (page_of (mem s) pt va)" "page_of (mem s) pt va \<notin> set xs" "page_of (mem s) pt va \<notin> tables (mem s) pt"
  defines "pa \<equiv> page_of (mem s) pt va" and "pte \<equiv> pte_of (mem s) pt va"
  shows "\<exists>i s1. evict_victim h (walk_from (mem s) 2 pt va) pa s = Inr s1 \<and> i < NSWAPSPACE \<and> \<not> swap_space s ! i \<and>
    swap_space s1 = (swap_space s)[i := True] \<and> vm_ok pt (pa # xs) s1 \<and> swap_ready i s1 \<and>
    (\<forall>v < MAXVA. pte_of (mem s1) pt v =
       (if unat v div 4096 = unat va div 4096 then swapped_pte i pte else pte_of (mem s) pt v)) \<and>
    (\<forall>(t :: 'a kstate_scheme) y ys. vm_ok pt (y # ys) t \<longrightarrow> pte_of (mem t) pt va = pte_of (mem s1) pt va \<longrightarrow>
       swap_ready i t \<longrightarrow> swap_priority t < 4 \<longrightarrow> slot_raid_mode t ! i = slot_raid_mode s1 ! i \<longrightarrow>
       (\<forall>b < 4. view t (of_nat (raid0_block i b)) = view s1 (of_nat (raid0_block i b))) \<longrightarrow>
       (\<exists>t'. walkaddr pt va t = Inr (y, t') \<and> mem_read (mem t') y PGSIZE = mem_read (mem s) pa PGSIZE \<and>
          swap_space t' = (swap_space t)[i := False] \<and> vm_ok pt ys t' \<and>
          (\<forall>v < MAXVA. pte_of (mem t') pt v =
             (if unat v div 4096 = unat va div 4096 then PA2PTE y OR PTE_FLAGS pte else pte_of (mem t) pt v))))"
proof -
  have va: "va < MAXVA" and V: "pte AND PTE_V \<noteq> 0" and U: "pte AND PTE_U \<noteq> 0" using assms(3) by (simp_all add: mapped_def pte_def)
  have S: "pte AND PTE_SWAPPED = 0" using assms(4) by (simp add: pte_def)
  obtain i s1 where E: "evict_victim h (walk_from (mem s) 2 pt va) pa s = Inr s1" "i < NSWAPSPACE" "\<not> swap_space s ! i"
    "swap_space s1 = (swap_space s)[i := True]" "vm_ok pt (pa # xs) s1"
    "\<forall>v < MAXVA. pte_of (mem s1) pt v = (if unat v div 4096 = unat va div 4096 then swapped_pte i pte else pte_of (mem s) pt v)"
    "slot_holds i (mem s) pa s1" "swap_ready i s1"
    unfolding pa_def pte_def using evict_victim_spec [OF assms(1-3) refl assms(5-7), of h] by blast
  have "\<exists>t'. walkaddr pt va t = Inr (y, t') \<and> mem_read (mem t') y PGSIZE = mem_read (mem s) pa PGSIZE \<and>
      swap_space t' = (swap_space t)[i := False] \<and> vm_ok pt ys t' \<and>
      (\<forall>v < MAXVA. pte_of (mem t') pt v =
         (if unat v div 4096 = unat va div 4096 then PA2PTE y OR PTE_FLAGS pte else pte_of (mem t) pt v))"
    if t: "vm_ok pt (y # ys) t" "pte_of (mem t) pt va = pte_of (mem s1) pt va" "swap_ready i t" "swap_priority t < 4"
      "slot_raid_mode t ! i = slot_raid_mode s1 ! i" "\<forall>b < 4. view t (of_nat (raid0_block i b)) = view s1 (of_nat (raid0_block i b))"
    for t :: "'a kstate_scheme" and y ys
  proof -
    have "pte_of (mem t) pt va = swapped_pte i pte" using t(2) E(6) va by simp
    moreover have "slot_holds i (mem s) pa t" using E(7) t(5,6) by (simp add: slot_holds_def)
    ultimately show ?thesis using walkaddr_swapped [OF t(1) va _ E(2) V S U t(3) _ t(4)] by blast
  qed
  then show ?thesis using E(1-6,8) by (intro exI [of _ i] exI [of _ s1]) blast
qed


section \<open>A running kernel with one user page\<close>

lemma can_swap_cong:
  assumes "bufs s' = bufs s" "medium s' = medium s" "cpus s' = cpus s" "hartid s' = hartid s" "procs s' = procs s"
    "req_queue s' = req_queue s" "disk_head_pos s' = disk_head_pos s" "parity_buf s' = parity_buf s" "raid_mode s' = raid_mode s"
    "slot_raid_mode s' = slot_raid_mode s" "swap_space s' = swap_space s"
  shows "can_swap s' = can_swap s"
proof -
  have "swap_ready i s' = swap_ready i s" for i by (rule swap_ready_cong; simp add: assms)
  then show ?thesis by (simp add: can_swap_def assms swap_priority_def myproc_def mycpu_def split: option.split)
qed

lemma boot_kstate_sel:
  "bufs boot_kstate = replicate 31 zero_buf" "length (medium boot_kstate n) = BSIZE" "hartid boot_kstate = 0"
  "cpus boot_kstate = replicate NCPU (zero_cpu\<lparr>c_proc := Some 0\<rparr>)" "procs boot_kstate = replicate NPROC zero_proc"
  "length (req_queue boot_kstate) = NDISKREQS" "filter rq_valid (req_queue boot_kstate) = []" "disk_head_pos boot_kstate = 0"
  "length (parity_buf boot_kstate) = BSIZE" "raid_mode boot_kstate = 0" "slot_raid_mode boot_kstate = replicate 4096 0"
  "swap_space boot_kstate = replicate NSWAPSPACE False" "kend boot_kstate = 0x80024cf8"
  by (simp_all add: boot_kstate_def lstate.extend_def boot_lstate_def)

lemma boot_can_swap: "can_swap (binit boot_kstate)"
proof -
  note B = binit_spec [OF boot_kstate_sel(1,2)]
  obtain bs where e: "binit boot_kstate = boot_kstate\<lparr>bufs := bs\<rparr>" using B(5) by blast
  have my: "myproc (binit boot_kstate) = Some 0" "procs (binit boot_kstate) = replicate NPROC zero_proc"
    unfolding e by (simp_all add: myproc_def mycpu_def boot_kstate_sel)
  have "io_ready (binit boot_kstate)" unfolding io_ready_def busy_def using B(1,3) my by simp
  moreover have "queue_ok (binit boot_kstate)" "pending (binit boot_kstate) = []"
    unfolding e queue_ok_def pending_def by (simp_all add: boot_kstate_sel)
  ultimately have "swap_ready i (binit boot_kstate)" for i using B(3) by (simp add: swap_ready_def)
  moreover have "swap_priority (binit boot_kstate) = 0" using my by (simp add: swap_priority_def zero_proc_def)
  moreover have "raid_mode (binit boot_kstate) = 0" "slot_raid_mode (binit boot_kstate) = replicate 4096 0"
    "swap_space (binit boot_kstate) = replicate NSWAPSPACE False"
    unfolding e by (simp_all add: boot_kstate_sel)
  moreover have "\<exists>i < NSWAPSPACE. \<not> replicate NSWAPSPACE False ! i" by (intro exI [of _ 0]) simp
  ultimately show ?thesis by (simp add: can_swap_def)
qed

lemma paging_example:
  "\<exists>(s :: kstate) pt x xs. vm_ok pt xs s \<and> can_swap s \<and> pte_of (mem s) pt 0x1000 = PA2PTE x OR 23 \<and>
     kpage s x \<and> x \<notin> set xs \<and> x \<notin> tables (mem s) pt"
proof -
  let ?b = "binit boot_kstate"
  obtain bs where eb: "?b = boot_kstate\<lparr>bufs := bs\<rparr>" using binit_spec(5) [OF boot_kstate_sel(1,2)] by blast
  have kb: "kmem_boot ?b" "kend ?b = 0x80024cf8"
    using boot_kstate_ok unfolding eb kmem_boot_def by (simp_all add: boot_kstate_sel)
  obtain s0 where s0: "kinit ?b = Inr s0" using kinit_spec [OF kb(1)] by blast
  obtain xs where xs: "alloc_inv xs s0" "100 \<le> length xs" using boot_free_pages [OF kb s0] by blast
  obtain y x zs where z: "xs = y # x # zs" using xs(2) by (cases xs; cases "tl xs") auto
  obtain s1 m1 l1 where s1: "vm_ok y (x # zs) s1" "\<forall>v. pte_of (mem s1) y v = 0" "s1 = s0\<lparr>mem := m1, freelist := l1\<rparr>"
    using uvmcreate_spec [OF xs(1) [unfolded z]] by blast
  obtain s2 m2 l2 where s2: "vm_ok y zs s2" "tables (mem s2) y = tables (mem s1) y" "\<forall>v. pte_of (mem s2) y v = pte_of (mem s1) y v"
    "s2 = s1\<lparr>mem := m2, freelist := l2\<rparr>" "kpage s1 x" "x \<notin> tables (mem s1) y" "x \<notin> set zs"
    using kalloc_data [OF s1(1)] by blast
  have f: "\<forall>v. unat (0x1000 :: u64) \<le> unat v \<and> unat v < unat (0x1000 :: u64) + 4096 * 1 \<longrightarrow> pte_of (mem s2) y v AND PTE_V = 0"
    using s1(2) s2(3) by simp
  have lz: "2 * 1 \<le> length zs" using xs(2) z by simp
  obtain ws ys s3 where s3: "zs = ws @ ys" "grows y ws s2 ys s3" "pte_of (mem s3) y 0x1000 = map_range 0x1000 1 x 22 (pte_of (mem s2) y) 0x1000"
    using map_loop_spec [where n = 1 and va = "0x1000" and pa = x and perm = 22, OF _ _ _ refl s2(1) lz f] by auto
  obtain m3 l3 where e3: "s3 = s2\<lparr>mem := m3, freelist := l3\<rparr>" using s3(2) by (auto simp: grows_def)
  have "pte_of (mem s3) y 0x1000 = PA2PTE x OR 23" using s3(3) by (simp add: map_range_def)
  moreover have "vm_ok y ys s3" "x \<notin> tables (mem s3) y" "x \<notin> set ys" using s3(1,2) s2(2,6,7) by (auto simp: grows_def)
  moreover have "kpage s3 x" using s2(5) unfolding e3 s2(4) by (simp add: kpage_def)
  moreover have "can_swap s3"
  proof -
    obtain m f l where e0: "s0 = ?b\<lparr>mem := m, frames := f, freelist := l, swap_space := map (\<lambda>_. False) (swap_space ?b)\<rparr>"
      using kinit_frame [OF s0] by blast
    have "swap_space ?b = replicate NSWAPSPACE False" unfolding eb by (simp add: boot_kstate_sel)
    then have "can_swap s3 = can_swap ?b" unfolding e3 s2(4) s1(3) e0 by (intro can_swap_cong) simp_all
    then show ?thesis using boot_can_swap by simp
  qed
  ultimately show ?thesis by (intro exI [of _ s3] exI [of _ y] exI [of _ x] exI [of _ ys]) blast
qed

lemma example_mapped:
  assumes "pte_of (mem s) pt 0x1000 = PA2PTE x OR 23" "kpage s x"
  shows "page_of (mem s) pt 0x1000 = x" "mapped (mem s) pt 0x1000" "pte_of (mem s) pt 0x1000 AND PTE_SWAPPED = 0"
proof -
  show "page_of (mem s) pt 0x1000 = x"
    unfolding page_of_def assms(1) using assms(2) by (intro PTE2PA_PA2PTE) (simp_all add: kpage_def)
  show "mapped (mem s) pt 0x1000"
    unfolding mapped_def assms(1) using or_and_nonzero [of 23 PTE_V] or_and_nonzero [of 23 PTE_U] by simp
  show "pte_of (mem s) pt 0x1000 AND PTE_SWAPPED = 0"
    unfolding assms(1) and_256 bit_or_iff PA2PTE_def bit_push_bit_iff by simp
qed

theorem evicted_page_comes_back_witness:
  "\<exists>(s :: kstate) s1 pt va x t'. page_of (mem s) pt va = x \<and> evict_victim 0 (walk_from (mem s) 2 pt va) x s = Inr s1 \<and>
     pte_of (mem s1) pt va AND PTE_V = 0 \<and> walkaddr pt va (s1\<lparr>procs := map (\<lambda>_. zero_proc) (procs s1)\<rparr>) = Inr (x, t') \<and>
     mem_read (mem t') x PGSIZE = mem_read (mem s) x PGSIZE"
proof -
  obtain s :: kstate and pt x xs where s: "vm_ok pt xs s" "can_swap s" "pte_of (mem s) pt 0x1000 = PA2PTE x OR 23" "kpage s x"
    "x \<notin> set xs" "x \<notin> tables (mem s) pt"
    using paging_example by blast
  note pg = example_mapped(1) [OF s(3,4)] and mp = example_mapped(2) [OF s(3,4)] and ns = example_mapped(3) [OF s(3,4)]
  from evicted_page_comes_back [OF s(1,2) mp ns, of 0, unfolded pg, OF s(4-6)]
  obtain i s1 where E: "evict_victim 0 (walk_from (mem s) 2 pt 0x1000) x s = Inr s1" "vm_ok pt (x # xs) s1" "swap_ready i s1"
    "\<forall>v < MAXVA. pte_of (mem s1) pt v =
       (if unat v div 4096 = unat (0x1000 :: u64) div 4096 then swapped_pte i (pte_of (mem s) pt 0x1000) else pte_of (mem s) pt v)"
    and T: "\<forall>(t :: kstate) y ys. vm_ok pt (y # ys) t \<longrightarrow> pte_of (mem t) pt 0x1000 = pte_of (mem s1) pt 0x1000 \<longrightarrow>
       swap_ready i t \<longrightarrow> swap_priority t < 4 \<longrightarrow> slot_raid_mode t ! i = slot_raid_mode s1 ! i \<longrightarrow>
       (\<forall>b < 4. view t (of_nat (raid0_block i b)) = view s1 (of_nat (raid0_block i b))) \<longrightarrow>
       (\<exists>t'. walkaddr pt 0x1000 t = Inr (y, t') \<and> mem_read (mem t') y PGSIZE = mem_read (mem s) x PGSIZE \<and>
          swap_space t' = (swap_space t)[i := False] \<and> vm_ok pt ys t' \<and>
          (\<forall>v < MAXVA. pte_of (mem t') pt v =
             (if unat v div 4096 = unat (0x1000 :: u64) div 4096 then PA2PTE y OR PTE_FLAGS (pte_of (mem s) pt 0x1000) else pte_of (mem t) pt v)))"
    by (elim exE conjE) (rule that)
  define t where "t = s1\<lparr>procs := map (\<lambda>_. zero_proc) (procs s1)\<rparr>"
  have t: "mem t = mem s1" "kend t = kend s1" "freelist t = freelist s1" "frames t = frames s1" "slot_raid_mode t = slot_raid_mode s1"
    by (simp_all add: t_def)
  have "vm_ok pt (x # xs) t" using vm_ok_cong [OF E(2), of t] t by simp
  moreover have c: "swap_ready i t = swap_ready i s1" "view t = view s1" unfolding t_def by (rule swap_ready_cong; simp)+
  moreover have "swap_priority t < 4"
    using E(3) by (auto simp: swap_ready_def io_ready_def swap_priority_def t_def myproc_def mycpu_def zero_proc_def)
  ultimately obtain t' where t': "walkaddr pt 0x1000 t = Inr (x, t')" "mem_read (mem t') x PGSIZE = mem_read (mem s) x PGSIZE"
    using T [rule_format, of x xs t] E(3) t(1,5) by auto
  moreover have "pte_of (mem s1) pt 0x1000 AND PTE_V = 0" using E(4) [rule_format, of "0x1000"] swapped_pte_bits(1) by simp
  ultimately show ?thesis using pg E(1) unfolding t_def by blast
qed

end
