(* ===== verification/Frames.thy ===== *)
theory Frames
  imports Proc
begin

text \<open>
  Frame reasoning for the state-passing operations. \<open>pres g v m\<close> says that if \<open>m\<close> returns, the observation
  \<open>g\<close> of its final state is \<open>v\<close> (\<open>pres0\<close> the same for an operation without a result). The rules follow the structure of
  the definitions, so that a frame lemma is its definition unfolded and the rules applied.
\<close>

definition pres :: "('s \<Rightarrow> 'g) \<Rightarrow> 'g \<Rightarrow> ('x \<times> 's) res \<Rightarrow> bool" where
  "pres g v m \<longleftrightarrow> (\<forall>x s. m = Inr (x, s) \<longrightarrow> g s = v)"

definition pres0 :: "('s \<Rightarrow> 'g) \<Rightarrow> 'g \<Rightarrow> 's res \<Rightarrow> bool" where
  "pres0 g v m \<longleftrightarrow> (\<forall>s. m = Inr s \<longrightarrow> g s = v)"

named_theorems pres_rules \<open>structural rules for frames\<close>

lemma presD: "pres g v m \<Longrightarrow> m = Inr (x, s) \<Longrightarrow> g s = v"
  by (simp add: pres_def)

lemma pres0D: "pres0 g v m \<Longrightarrow> m = Inr s \<Longrightarrow> g s = v"
  by (simp add: pres0_def)

lemma presI: "(\<And>x s. m = Inr (x, s) \<Longrightarrow> g s = v) \<Longrightarrow> pres g v m"
  by (simp add: pres_def)

lemma pres0I: "(\<And>s. m = Inr s \<Longrightarrow> g s = v) \<Longrightarrow> pres0 g v m"
  by (simp add: pres0_def)

lemma pres_structure [pres_rules]:
  "pres g v (Inl e)" "pres0 g v (Inl e)"
  "g s = v \<Longrightarrow> pres g v (Inr (x, s))" "g s = v \<Longrightarrow> pres0 g v (Inr s)"
  "(c \<Longrightarrow> pres g v m) \<Longrightarrow> (\<not> c \<Longrightarrow> pres g v m') \<Longrightarrow> pres g v (if c then m else m')"
  "(c \<Longrightarrow> pres0 g v m0) \<Longrightarrow> (\<not> c \<Longrightarrow> pres0 g v m0') \<Longrightarrow> pres0 g v (if c then m0 else m0')"
  "pres g v (f a) \<Longrightarrow> pres g v (Let a f)" "pres0 g v (f0 a) \<Longrightarrow> pres0 g v (Let a f0)"
  by (simp_all add: pres_def pres0_def)

lemma pres_bind [pres_rules]:
  "pres g v m \<Longrightarrow> (\<And>x s. g s = v \<Longrightarrow> pres g v (f (x, s))) \<Longrightarrow> pres g v (rbind m f)"
  "pres g v m \<Longrightarrow> (\<And>x s. g s = v \<Longrightarrow> pres0 g v (f0 (x, s))) \<Longrightarrow> pres0 g v (rbind m f0)"
  "pres0 g v m0 \<Longrightarrow> (\<And>s. g s = v \<Longrightarrow> pres g v (h s)) \<Longrightarrow> pres g v (rbind m0 h)"
  "pres0 g v m0 \<Longrightarrow> (\<And>s. g s = v \<Longrightarrow> pres0 g v (h0 s)) \<Longrightarrow> pres0 g v (rbind m0 h0)"
  by (cases m; cases m0; auto simp: pres_def pres0_def)+

lemma pres_case_prod [pres_rules]:
  "pres g v (f x y) \<Longrightarrow> pres g v (case_prod f (x, y))" "pres0 g v (f0 x y) \<Longrightarrow> pres0 g v (case_prod f0 (x, y))"
  by simp_all

lemma pres_case_option [pres_rules]:
  "(z = None \<Longrightarrow> pres g v m) \<Longrightarrow> (\<And>x. z = Some x \<Longrightarrow> pres g v (f x)) \<Longrightarrow> pres g v (case_option m f z)"
  "(z = None \<Longrightarrow> pres0 g v m0) \<Longrightarrow> (\<And>x. z = Some x \<Longrightarrow> pres0 g v (f0 x)) \<Longrightarrow> pres0 g v (case_option m0 f0 z)"
  by (cases z; simp)+

text \<open>Steps that look at the state only.\<close>

lemma pres_pure:
  "(\<And>x. pres g v (f x)) \<Longrightarrow> pres g v (rbind m f)" "(\<And>x. pres0 g v (f0 x)) \<Longrightarrow> pres0 g v (rbind m f0)"
  by (cases m; simp add: pres_def pres0_def)+

lemma pres_panic_if [pres_rules]:
  "(\<And>x. pres g v (f x)) \<Longrightarrow> pres g v (rbind (panic_if c msg) f)"
  "(\<And>x. pres0 g v (f0 x)) \<Longrightarrow> pres0 g v (rbind (panic_if c msg) f0)"
  by (rule pres_pure; blast)+

lemma pres_curproc [pres_rules]:
  "(\<And>x. pres g v (f x)) \<Longrightarrow> pres g v (rbind (curproc s) f)" "(\<And>x. pres0 g v (f0 x)) \<Longrightarrow> pres0 g v (rbind (curproc s) f0)"
  by (rule pres_pure; blast)+

lemma pres_rfold:
  assumes "\<And>x s. g s = v \<Longrightarrow> pres0 g v (f x s)" "g s = v"
  shows "pres0 g v (rfold f xs s)"
  using assms(2)
proof (induction xs arbitrary: s)
  case Nil
  then show ?case by (simp add: pres0_def)
next
  case (Cons x xs)
  then show ?case using assms(1) by (auto intro!: pres_bind)
qed

end
