(* ===== verification/VmFrame.thy ===== *)
theory VmFrame
  imports Paging Frames
begin

text \<open>
  Frame of the memory management: whatever the allocator, the swap layer (in every RAID mode) and the
  virtual memory code do, the state of the layers above (\<open>kstate.more\<close>) stays as it is.
\<close>

lemma fold_more: "(\<And>x s. g (f x s) = g s) \<Longrightarrow> g (fold f xs s) = g s"
  by (induction xs arbitrary: s) auto

lemma raid_pages_more:
  "qstate.more (raid1_write_page slot page p s) = qstate.more s" "qstate.more (raid1_read_page slot page p s) = qstate.more s"
  "qstate.more (raid5_write_page slot page p s) = qstate.more s" "qstate.more (raid5_read_page slot page p s) = qstate.more s"
  unfolding raid1_write_page_def raid1_read_page_def raid5_write_page_def raid5_read_page_def
  by (rule fold_more; simp add: Let_def enqueue_more raid5_write_row_def raid5_read_row_def fold_more)+

lemma swap_more:
  "disk_swap_write slot page p s = Inr s' \<Longrightarrow> qstate.more s' = qstate.more s"
  "disk_swap_read slot page p s = Inr s' \<Longrightarrow> qstate.more s' = qstate.more s"
  by (auto simp: disk_swap_write_def disk_swap_read_def raid0_write_page_def raid0_read_page_def Let_def run_disk_queue_def
      raid0_page_more raid_pages_more dest!: run_queue_more split: if_splits)

lemma more_above: "qstate.more s' = qstate.more (s :: 'a kstate_scheme) \<Longrightarrow> kstate.more s' = kstate.more s"
  by (cases s; cases s') simp

section \<open>The allocator\<close>

lemma upd_proc_more [simp]: "kstate.more (upd_proc p f s) = kstate.more s"
  by (simp add: upd_proc_def)

lemma track_frame_more [simp]: "kstate.more (track_frame p va pa s) = kstate.more s"
  by (simp add: track_frame_def Let_def split: option.split)

lemma case_upd_proc_more [simp]: "kstate.more (case z of None \<Rightarrow> s | Some q \<Rightarrow> upd_proc q (f q) s) = kstate.more s"
  by (cases z) simp_all

lemma take_page_more [simp]: "take_page s = (pa, s') \<Longrightarrow> kstate.more s' = kstate.more s"
  by (auto simp: take_page_def Let_def)

lemma kfree_pres [pres_rules]: "kstate.more s = v \<Longrightarrow> pres0 kstate.more v (kfree pa s)"
  unfolding kfree_def by (intro pres_rules; simp)

lemma disk_swap_pres [pres_rules]:
  "kstate.more s = v \<Longrightarrow> pres0 kstate.more v (disk_swap_write slot page p s)"
  "kstate.more s = v \<Longrightarrow> pres0 kstate.more v (disk_swap_read slot page p s)"
  using more_above [OF swap_more(1)] more_above [OF swap_more(2)] by (auto intro!: pres0I)

lemma swap_out_pres [pres_rules]: "kstate.more s = v \<Longrightarrow> pres kstate.more v (swap_out pa s)"
  unfolding swap_out_def by (intro pres_rules; simp)

lemma swap_in_pres [pres_rules]: "kstate.more s = v \<Longrightarrow> pres0 kstate.more v (swap_in pa i s)"
  unfolding swap_in_def by (intro pres_rules; simp)

lemma swap_free_pres [pres_rules]: "kstate.more s = v \<Longrightarrow> pres0 kstate.more v (swap_free i s)"
  unfolding swap_free_def by (intro pres_rules; simp)

lemma evict_victim_pres [pres_rules]: "kstate.more s = v \<Longrightarrow> pres0 kstate.more v (evict_victim h a pa s)"
  unfolding evict_victim_def by (intro pres_rules; simp)

lemma walk_lookup_pres [pres_rules]:
  "(\<And>x. pres g v (f x)) \<Longrightarrow> pres g v (rbind (walk_lookup m pt va) f)"
  by (rule pres_pure)

lemma evict_round_pres [pres_rules]: "kstate.more s = v \<Longrightarrow> pres kstate.more v (evict_round s)"
  unfolding evict_round_def by (intro pres_rules; simp)

lemma evict_loop_pres [pres_rules]: "kstate.more s = v \<Longrightarrow> pres0 kstate.more v (evict_loop n s)"
proof (induction n arbitrary: s)
  case (Suc n)
  show ?case unfolding evict_loop.simps by (intro pres_rules Suc; simp add: Suc)
qed (simp add: pres_rules)

lemma take_page_pres [pres_rules]: "kstate.more s = v \<Longrightarrow> pres kstate.more v (Inr (take_page s))"
  by (auto intro!: presI)

lemma evict_pages_pres [pres_rules]: "kstate.more s = v \<Longrightarrow> pres kstate.more v (evict_pages s)"
  unfolding evict_pages_def by (intro pres_rules; simp del: evict_loop.simps)

lemma kalloc_pres [pres_rules]: "kstate.more s = v \<Longrightarrow> pres kstate.more v (kalloc s)"
  unfolding kalloc_def by (intro pres_rules; simp)

section \<open>Virtual memory\<close>

lemma set_pte_more [simp]: "kstate.more (set_pte a w s) = kstate.more s"
  by (simp add: set_pte_def)

lemma walk_alloc_pres [pres_rules]: "kstate.more s = v \<Longrightarrow> pres kstate.more v (walk_alloc l pt va s)"
proof (induction l arbitrary: pt s)
  case (Suc l)
  show ?case unfolding walk_alloc.simps by (intro pres_rules Suc; simp add: Suc)
qed (simp add: pres_rules)

lemma walk_pres [pres_rules]: "kstate.more s = v \<Longrightarrow> pres kstate.more v (walk pt va al s)"
  unfolding walk_def by (intro pres_rules; simp)

lemma walkaddr_pres [pres_rules]: "kstate.more s = v \<Longrightarrow> pres kstate.more v (walkaddr pt va s)"
  unfolding walkaddr_def Let_def by (intro pres_rules; simp)

lemma ismapped_pres [pres_rules]: "(\<And>x. pres g v (f x)) \<Longrightarrow> pres g v (rbind (ismapped pt va s) f)"
  by (rule pres_pure)

lemma map_loop_pres [pres_rules]: "kstate.more s = v \<Longrightarrow> pres kstate.more v (map_loop n pt a lst pa perm s)"
proof (induction n arbitrary: a pa s)
  case (Suc n)
  show ?case unfolding map_loop.simps by (intro pres_rules Suc; simp add: Suc)
qed (simp add: map_loop.simps pres_rules)

lemma mappages_pres [pres_rules]: "kstate.more s = v \<Longrightarrow> pres kstate.more v (mappages pt va siz pa perm s)"
  unfolding mappages_def by (intro pres_rules; simp)

lemma vmfault_pres [pres_rules]: "kstate.more s = v \<Longrightarrow> pres kstate.more v (vmfault pt va rd s)"
  unfolding vmfault_def by (intro pres_rules; simp)

lemma user_page_pres [pres_rules]: "kstate.more s = v \<Longrightarrow> pres kstate.more v (user_page pt va s)"
  unfolding user_page_def by (intro pres_rules; simp)

lemma copyout_pres [pres_rules]: "kstate.more s = v \<Longrightarrow> pres kstate.more v (copyout pt dst src len s)"
proof -
  have "kstate.more s = v \<Longrightarrow> pres kstate.more v (copyout_loop k pt dst src len s)" for k
  proof (induction k arbitrary: dst src len s)
    case (Suc k)
    show ?case unfolding copyout_loop.simps by (intro pres_rules Suc; simp add: Suc)
  qed (simp add: pres_rules)
  then show "kstate.more s = v \<Longrightarrow> ?thesis" unfolding copyout_def by blast
qed

lemma copyin_pres [pres_rules]: "kstate.more s = v \<Longrightarrow> pres kstate.more v (copyin pt dst src len s)"
proof -
  have "kstate.more s = v \<Longrightarrow> pres kstate.more v (copyin_loop k pt dst src len s)" for k
  proof (induction k arbitrary: dst src len s)
    case (Suc k)
    show ?case unfolding copyin_loop.simps by (intro pres_rules Suc; simp add: Suc)
  qed (simp add: pres_rules)
  then show "kstate.more s = v \<Longrightarrow> ?thesis" unfolding copyin_def by blast
qed

end
