(* ===== verification/AllocSys.thy ===== *)
theory AllocSys
  imports VmFrame Evict
begin

text \<open>
  The page allocator as a system, from \<open>kinit\<close> on and through the shortage of memory: the pages on the free list and the pages handed
  out partition the managed memory, also when \<open>kalloc\<close> finds the list empty, evicts a page in use to the swap area and
  hands it out again.
\<close>

section \<open>What swapping out leaves alone\<close>

lemma link_mem [simp]:
  "mem (upd_buf b f s) = mem s" "mem (link_front b s) = mem s" "mem (unlink b s) = mem s" "mem (disk_rw b w s) = mem s"
  by (simp_all add: link_front_def unlink_def disk_rw_def upd_buf_def Let_def)

lemma lock_buf_mem: "lock_buf c s = Inr (b, s') \<Longrightarrow> mem s' = mem s"
  by (auto simp: lock_buf_def)

lemma bget_mem: "bget d n s = Inr (b, s') \<Longrightarrow> mem s' = mem s"
  by (auto simp: bget_def simp del: bscan.simps dest!: lock_buf_mem split: option.splits)

lemma bread_mem: "bread d n s = Inr (b, s') \<Longrightarrow> mem s' = mem s"
  by (auto simp: bread_def dest!: bget_mem split: if_splits)

lemma bwrite_mem: "bwrite b s = Inr s' \<Longrightarrow> mem s' = mem s"
  by (auto simp: bwrite_def)

lemma brelse_mem: "brelse b s = Inr s' \<Longrightarrow> mem s' = mem s"
  by (auto simp: brelse_def releasesleep_def Let_def split: if_splits)

text \<open>No request of the queue reads into memory; between two transfers the queue is empty.\<close>

definition only_writes :: "'a qstate_scheme \<Rightarrow> bool" where
  "only_writes s \<longleftrightarrow> length (req_queue s) = NDISKREQS \<and> (\<forall>r \<in> set (req_queue s). rq_valid r \<longrightarrow> rq_write r)"

lemma do_disk_write_mem:
  assumes "do_disk_write n p s = Inr s'"
  shows "mem s' = mem s" "req_queue s' = req_queue s"
proof -
  obtain b t u where s': "bread (of_nat ROOTDEV) (of_nat n) s = Inr (b, t)" "bwrite b (set_data b (load_block p t) t) = Inr u" "brelse b u = Inr s'"
    using assms by (auto simp: do_disk_write_def)
  have d: "mem (set_data b (load_block p t) t) = mem t" "dstate.more (set_data b (load_block p t) t) = dstate.more t"
    by (simp_all add: set_data_def)
  show "mem s' = mem s" using bread_mem [OF s'(1)] bwrite_mem [OF s'(2)] brelse_mem [OF s'(3)] d(1) by simp
  have "dstate.more s' = dstate.more s"
    using bread_more [OF s'(1)] bwrite_more [OF s'(2)] brelse_more [OF s'(3)] d(2) by simp
  then show "req_queue s' = req_queue s" by (cases s; cases s') simp
qed

lemma take_req_queue: "req_queue (take_req i s) = (req_queue s)[i := (req_queue s ! i)\<lparr>rq_valid := False\<rparr>]" "mem (take_req i s) = mem s"
  by (simp_all add: take_req_def Let_def upd_proc_def split: option.split)

lemma run_queue_mem:
  "run_queue k s = Inr s' \<Longrightarrow> only_writes s \<Longrightarrow> mem s' = mem s"
proof (induction k arbitrary: s)
  case (Suc k)
  show ?case
  proof (cases "pick_req s")
    case None
    then show ?thesis using Suc.prems by simp
  next
    case (Some i)
    let ?r = "req_queue s ! i" and ?t = "take_req i s"
    have i: "i < length (req_queue s)" "rq_valid ?r" using pick_req_Some(1,2) [OF Some] Suc.prems(2) by (simp_all add: only_writes_def)
    then have w: "rq_write ?r" using Suc.prems(2) by (simp add: only_writes_def)
    then obtain u where u: "do_disk_write (rq_blockno ?r) (rq_data ?r) ?t = Inr u" "run_queue k u = Inr s'"
      using Suc.prems(1) Some by (auto simp: Let_def)
    note U = do_disk_write_mem [OF u(1)]
    have "only_writes u" using Suc.prems(2) set_update_subset_insert [of "req_queue s" i] unfolding only_writes_def U(2) take_req_queue
      by fastforce
    then show ?thesis using Suc.IH [OF u(2)] U by (simp add: take_req_queue)
  qed
qed simp

lemma set_enqueue_in: "set (enqueue_in r q) \<subseteq> insert r (set q)" "length (enqueue_in r q) = length q"
  by (induction q) auto

lemma enqueue_writes: "only_writes s \<Longrightarrow> only_writes (enqueue_disk_req n True d p s)" "mem (enqueue_disk_req n w d p s) = mem s"
  using set_enqueue_in [of "\<lparr>rq_valid = True, rq_blockno = n, rq_write = True, rq_priority = p, rq_data = d\<rparr>" "req_queue s"]
  by (auto simp: only_writes_def enqueue_disk_req_def)

lemma fold_inv: "(\<And>x s. P s \<Longrightarrow> P (f x s)) \<Longrightarrow> P s \<Longrightarrow> P (fold f xs s)"
  by (induction xs arbitrary: s) auto

lemma raid_write_pages:
  assumes "only_writes s"
  shows "only_writes (raid0_page True slot page p s) \<and> mem (raid0_page True slot page p s) = mem s"
    "only_writes (raid1_write_page slot page p s) \<and> mem (raid1_write_page slot page p s) = mem s"
    "only_writes (raid5_write_page slot page p s) \<and> mem (raid5_write_page slot page p s) = mem s"
proof -
  let ?P = "\<lambda>t. only_writes t \<and> mem t = mem s"
  have e: "?P t \<Longrightarrow> ?P (enqueue_disk_req n True d p t)" for n d t using enqueue_writes by metis
  have b: "?P t \<Longrightarrow> ?P (t\<lparr>parity_buf := d\<rparr>)" for d t by (simp add: only_writes_def)
  show "?P (raid0_page True slot page p s)" "?P (raid1_write_page slot page p s)"
    unfolding raid0_page_def raid1_write_page_def by (rule fold_inv; simp add: assms Let_def e)+
  have row: "?P t \<Longrightarrow> ?P (raid5_write_row slot page p r t)" for r t
    unfolding raid5_write_row_def Let_def by (intro e fold_inv [of ?P]; simp add: b e)
  show "?P (raid5_write_page slot page p s)"
    unfolding raid5_write_page_def by (rule fold_inv [of ?P]) (use row assms in auto)
qed

lemma disk_swap_write_mem: "disk_swap_write slot page p s = Inr s' \<Longrightarrow> only_writes s \<Longrightarrow> mem s' = mem s"
proof -
  assume a: "disk_swap_write slot page p s = Inr s'" "only_writes s"
  define t where "t = (if slot < 4096 then s\<lparr>slot_raid_mode := (slot_raid_mode s)[slot := raid_mode s]\<rparr> else s)"
  have t: "only_writes t" "mem t = mem s" using a(2) by (simp_all add: t_def only_writes_def)
  obtain u where u: "only_writes u \<and> mem u = mem t" "run_disk_queue u = Inr s'"
    using a(1) raid_write_pages [OF t(1), of slot page p]
    unfolding disk_swap_write_def raid0_write_page_def Let_def t_def [symmetric] by (auto split: if_splits)
  then show ?thesis using run_queue_mem [of "Suc NDISKREQS" u s'] t(2) by (simp add: run_disk_queue_def)
qed

lemma swap_out_frame:
  fixes s :: "'a kstate_scheme"
  assumes "swap_out pa s = Inr (i, s')" "only_writes s"
  shows "mem s' = mem s" "kend s' = kend s" "freelist s' = freelist s" "frames s' = frames s" "i = -1 \<or> 0 \<le> i"
proof -
  have "mem s' = mem s \<and> kend s' = kend s \<and> freelist s' = freelist s \<and> frames s' = frames s \<and> (i = -1 \<or> 0 \<le> i)"
  proof (cases "find (\<lambda>i. \<not> swap_space s ! i) [0..<NSWAPSPACE]")
    case None
    then show ?thesis using assms(1) by (simp add: swap_out_def)
  next
    case (Some k)
    let ?t = "s\<lparr>swap_space := (swap_space s)[k := True]\<rparr>"
    obtain u where u: "disk_swap_write k pa (swap_priority s) ?t = Inr u" "i = int k"
      "s' = (case myproc u of Some p \<Rightarrow> upd_proc p (\<lambda>v. v\<lparr>pages_swapped_out := pages_swapped_out v + 1, disk_writes := disk_writes v + 1\<rparr>) u | None \<Rightarrow> u)"
      using assms(1) Some by (auto simp: swap_out_def Let_def)
    have "only_writes ?t" using assms(2) by (simp add: only_writes_def)
    then show ?thesis
      using disk_swap_write_mem [OF u(1)] more_kstate [OF swap_more(1) [OF u(1)]] u(2,3) by (simp add: upd_proc_def split: option.split)
  qed
  then show "mem s' = mem s" "kend s' = kend s" "freelist s' = freelist s" "frames s' = frames s" "i = -1 \<or> 0 \<le> i" by blast+
qed

section \<open>The partition of the managed memory\<close>

definition alloc_part :: "u64 set \<Rightarrow> u64 list \<Rightarrow> 'a kstate_scheme \<Rightarrow> bool" where
  "alloc_part A xs s \<longleftrightarrow> alloc_inv xs s \<and> set xs \<inter> A = {} \<and> set xs \<union> A = managed (kend s) \<and> (\<forall>p \<in> A. kpage s p)"

text \<open>The owners of the pages write into them; the free list does not notice.\<close>

lemma alloc_part_other:
  assumes xs: "alloc_part A xs s" and "freelist s' = freelist s" "kend s' = kend s" "length (frames s') = NFRAME"
    and m: "\<forall>a. (\<forall>p \<in> A. \<not> in_page p a) \<longrightarrow> mem s' a = mem s a"
  shows "alloc_part A xs s'"
proof -
  have I: "KERNBASE \<le> kend s" "\<forall>x \<in> set xs. kpage s x" "\<forall>p \<in> A. kpage s p" "set xs \<inter> A = {}"
    using xs by (auto simp: alloc_part_def alloc_inv_def)
  have "load64 (mem s') x = load64 (mem s) x" if "x \<in> set xs" for x
  proof (rule load64_cong, intro allI impI)
    fix i :: nat assume i: "i < 8"
    have px: "page_ok x" using kpage_page_ok I(1,2) that by blast
    then have "unat (x + of_nat i) = unat x + i" using i by (intro unat_plus_small) (simp add: page_ok_def)
    then have "in_page x (x + of_nat i)" using i by (simp add: in_page_def)
    then have "\<not> in_page p (x + of_nat i)" if "p \<in> A" for p
      using in_page_unique [OF px _ _ ] kpage_page_ok [OF I(1)] I(3,4) that \<open>x \<in> set xs\<close> by blast
    then show "mem s' (x + of_nat i) = mem s (x + of_nat i)" using m by blast
  qed
  then have "free_list (mem s') (freelist s) xs"
    using xs free_list_cong [of xs "mem s'" "mem s"] by (simp add: alloc_part_def alloc_inv_def)
  then show ?thesis using xs assms(2-4) by (simp add: alloc_part_def alloc_inv_def kpage_def)
qed

lemma alloc_part_kfree:
  assumes "alloc_part A xs s" "p \<in> A" "kfree p s = Inr s'"
  shows "alloc_part (A - {p}) (p # xs) s'" "\<forall>a. \<not> in_page p a \<longrightarrow> mem s' a = mem s a"
proof -
  have "kpage s p" "p \<notin> set xs" "alloc_inv xs s" using assms(1,2) by (auto simp: alloc_part_def)
  from kfree_spec [OF this(3,1,2)] assms(3) have T: "alloc_inv (p # xs) s'" "kend s' = kend s"
    "\<forall>a. \<not> in_page p a \<longrightarrow> mem s' a = mem s a" by auto
  then show "alloc_part (A - {p}) (p # xs) s'" using assms(1,2) by (auto simp: alloc_part_def kpage_def)
  show "\<forall>a. \<not> in_page p a \<longrightarrow> mem s' a = mem s a" by (rule T(3))
qed

lemma alloc_part_take:
  assumes "alloc_part A xs s" "freelist s \<noteq> 0" "take_page s = (p, s')"
  shows "\<exists>ys. xs = p # ys \<and> alloc_part (insert p A) ys s' \<and> p \<in> managed (kend s) \<and> p \<notin> A"
    "\<forall>a. \<not> in_page p a \<longrightarrow> mem s' a = mem s a" "frames s' = frames s"
proof -
  have I: "alloc_inv xs s" using assms(1) by (simp add: alloc_part_def)
  then obtain y ys where y: "xs = y # ys" using alloc_inv_nonempty [of xs s] assms(2) by (cases xs) auto
  note T = take_page_spec [OF I [unfolded y] assms(3)]
  have "kpage s y" "distinct (y # ys)" using I y by (auto simp: alloc_inv_def)
  then show "\<exists>ys. xs = p # ys \<and> alloc_part (insert p A) ys s' \<and> p \<in> managed (kend s) \<and> p \<notin> A"
    using assms(1) y T(1-3) by (intro exI [of _ ys]) (auto simp: alloc_part_def kpage_def)
  show "\<forall>a. \<not> in_page p a \<longrightarrow> mem s' a = mem s a" using T(1,4) by simp
  show "frames s' = frames s" by (subst T(5)) simp
qed

section \<open>Eviction\<close>

text \<open>
  What the rest of the kernel provides when memory runs out: the frame table agrees with the page tables, the page of
  every candidate for eviction is in use, and so is the page table page that holds its entry, which is another page.
\<close>

definition tracked :: "u64 set \<Rightarrow> 'a kstate_scheme \<Rightarrow> bool" where
  "tracked A s \<longleftrightarrow> frames_ok s \<and> only_writes s \<and>
     (\<forall>i < NFRAME. \<forall>a. cand s i = Some a \<longrightarrow>
        frame_pa i \<in> A \<and> (\<exists>q \<in> A. \<exists>j < 512. q \<noteq> frame_pa i \<and> a = entry q j))"

lemma kfree_unused:
  assumes "kfree pa s = Inr s'" "\<not> fr_in_use (frames s ! h)"
  shows "\<not> fr_in_use (frames s' ! h)"
proof -
  let ?i = "frame_index pa"
  have "frames s' = (if ?i < NFRAME then (frames s)[?i := (frames s ! ?i)\<lparr>fr_in_use := False, fr_p := None, fr_va := 0\<rparr>] else frames s)"
    using assms(1) by (auto simp: kfree_def Let_def split: if_splits)
  then show ?thesis
    using assms(2) by (cases "?i = h"; cases "h < length (frames s)") (auto simp: list_update_beyond)
qed

lemma evict_victim_part:
  fixes s :: "'a kstate_scheme"
  assumes part: "alloc_part A xs s" and "only_writes s" "pa \<in> A" "q \<in> A" "j < 512" "q \<noteq> pa" "h < NFRAME"
    and ev: "evict_victim h (entry q j) pa s = Inr s'"
  shows "alloc_part (A - {pa}) (pa # xs) s'" "load64 (mem s') (entry q j) AND PTE_V = 0"
    "load64 (mem s') (entry q j) AND PTE_SWAPPED \<noteq> 0" "\<not> fr_in_use (frames s' ! h)"
proof -
  let ?a = "entry q j"
  have I: "KERNBASE \<le> kend s" "\<forall>p \<in> A. kpage s p" "length (frames s) = NFRAME" using part by (auto simp: alloc_part_def alloc_inv_def)
  have pg: "page_ok pa" "page_ok q" using kpage_page_ok [OF I(1)] I(2) assms(3,4) by auto
  define v0 where "v0 = (load64 (mem s) ?a AND NOT PTE_V) OR PTE_SWAPPED"
  define s0 where "s0 = s\<lparr>mem := store64 (mem s) ?a v0\<rparr>"
  obtain i s1 where s1: "swap_out pa s0 = Inr (i, s1)" using ev by (auto simp: evict_victim_def s0_def v0_def Let_def)
  have "only_writes s0" using assms(2) by (simp add: s0_def only_writes_def)
  note S1 = swap_out_frame [OF s1 this]
  have i: "i \<noteq> -1" using ev s1 by (auto simp: evict_victim_def s0_def v0_def Let_def)
  define s2 where "s2 = s1\<lparr>mem := store64 (mem s1) ?a (push_bit 10 (of_int i) OR PTE_FLAGS (load64 (mem s1) ?a) OR PTE_SWAPPED)\<rparr>"
  define fs where "fs = (frames s2)[h := (frames s2 ! h)\<lparr>fr_in_use := False, fr_p := None, fr_va := 0\<rparr>]"
  define s3 where "s3 = (case fr_p (frames s2 ! h) of
      Some k \<Rightarrow> upd_proc k (\<lambda>u. u\<lparr>pages_evicted := pages_evicted u + 1, resident_pages := resident_pages u - 1\<rparr>) (s2\<lparr>frames := fs\<rparr>)
    | None \<Rightarrow> s2\<lparr>frames := fs\<rparr>)"
  have k: "kfree pa s3 = Inr s'"
    using ev s1 i unfolding evict_victim_def Let_def s0_def [symmetric] v0_def [symmetric] by (simp add: s2_def s3_def fs_def split: option.splits)
  have s3: "mem s3 = mem s2" "kend s3 = kend s2" "freelist s3 = freelist s2" "frames s3 = fs"
    by (auto simp: s3_def upd_proc_def split: option.split)
  have fr2: "frames s2 = frames s" "kend s2 = kend s" "freelist s2 = freelist s" using S1 by (simp_all add: s2_def s0_def)
  have m2: "mem s2 x = mem s x" if "\<not> in_page q x" for x
    using S1(1) store64_page [OF pg(2) assms(5) that] by (simp add: s2_def s0_def)
  have p3: "alloc_part A xs s3"
    by (rule alloc_part_other [OF part]) (use s3 fr2 m2 assms(4) I(3) in \<open>auto simp: fs_def\<close>)
  show "alloc_part (A - {pa}) (pa # xs) s'" by (rule alloc_part_kfree(1) [OF p3 assms(3) k])
  have "mem s' x = mem s2 x" if "in_page q x" for x
    using alloc_part_kfree(2) [OF p3 assms(3) k] outside_page [OF pg(1,2) _ that] assms(6) s3(1) by auto
  moreover have "in_page q (?a + of_nat n)" if "n < 8" for n
    using that page_offset [OF pg(2), of "8 * j + n"] assms(5) by (simp add: in_page_def entry_def add.assoc)
  ultimately have "load64 (mem s') ?a = load64 (mem s2) ?a" by (intro load64_cong) simp
  then have l: "load64 (mem s') ?a = push_bit 10 (of_int i) OR PTE_FLAGS v0 OR PTE_SWAPPED" by (simp add: s2_def S1(1) s0_def)
  show "load64 (mem s') ?a AND PTE_V = 0" "load64 (mem s') ?a AND PTE_SWAPPED \<noteq> 0"
    unfolding l v0_def and_1 and_256 PTE_FLAGS_def bit_or_iff bit_and_iff bit_not_iff bit_push_bit_iff bit_256 bit_3FF bit_1 by simp_all
  show "\<not> fr_in_use (frames s' ! h)"
    by (rule kfree_unused [OF k]) (use s3(4) fr2(1) I(3) assms(7) in \<open>simp add: fs_def\<close>)
qed

lemma evict_loop_cand:
  fixes s :: "'a kstate_scheme"
  assumes "frames_ok s" "evict_loop n s = Inr s'"
  shows "\<exists>h a c fs. h < NFRAME \<and> cand s h = Some a \<and> length fs = NFRAME \<and>
    evict_victim h a (frame_pa h) (s\<lparr>clock_hand := c, frames := fs\<rparr>) = Inr s'"
  using assms
proof (induction n arbitrary: s)
  case (Suc n)
  let ?h = "clock_hand s"
  note E = evict_round_cases [OF Suc.prems(1)]
  have len: "length (frames s) = NFRAME" "?h < NFRAME" using Suc.prems(1) by (simp_all add: frames_ok_def)
  have rec: ?case if r: "evict_round s = Inr (False, t)" "frames_ok t" "cand t = cand s" "t = s\<lparr>clock_hand := ch, frames := fr\<rparr>" for t ch fr
  proof -
    have "evict_loop n t = Inr s'" using Suc.prems(2) r(1) by simp
    from Suc.IH [OF r(2) this] obtain h a c fs where "h < NFRAME" "cand s h = Some a" "length fs = NFRAME"
      "evict_victim h a (frame_pa h) (t\<lparr>clock_hand := c, frames := fs\<rparr>) = Inr s'" unfolding r(3) by blast
    then show ?case using r(4) by (intro exI [of _ h] exI [of _ a] exI [of _ c] exI [of _ fs]) simp
  qed
  consider "cand s ?h = None" | a where "cand s ?h = Some a" "fr_reference_bit (frames s ! ?h)"
    | a where "cand s ?h = Some a" "\<not> fr_reference_bit (frames s ! ?h)" by (cases "cand s ?h") auto
  then show ?case
  proof cases
    case 1
    then show ?thesis
      by (intro rec [OF E(1) frames_ok_advance [OF Suc.prems(1)], where ch = "(?h + 1) mod NFRAME" and fr = "frames s"]) (simp_all, simp add: advance_def)
  next
    case (2 a)
    show ?thesis
      by (intro rec [OF E(2) [OF 2] frames_ok_clear_ref [OF frames_ok_advance [OF Suc.prems(1)]],
            where ch = "(?h + 1) mod NFRAME" and fr = "frames (clear_ref ?h (advance s))"])
        (simp_all add: fun_eq_iff cand_clear_ref, simp add: clear_ref_def advance_def)
  next
    case (3 a)
    then have "evict_victim ?h a (frame_pa ?h) (advance s) = Inr s'"
      using E(3) [OF 3] Suc.prems(2) by (cases "evict_victim ?h a (frame_pa ?h) (advance s)") auto
    moreover have "advance s = s\<lparr>clock_hand := (?h + 1) mod NFRAME, frames := frames s\<rparr>" by (simp add: advance_def)
    ultimately show ?thesis using 3(1) len by metis
  qed
qed simp

lemma kalloc_evicts:
  fixes s :: "'a kstate_scheme"
  assumes part: "alloc_part A xs s" and "freelist s = 0" and tr: "tracked A s" and k: "kalloc s = Inr (p, s')"
  shows "alloc_part A [] s' \<and> p \<in> A \<and>
    (\<exists>i a. i < NFRAME \<and> cand s i = Some a \<and> p = frame_pa i \<and> load64 (mem s') a AND PTE_V = 0 \<and>
       load64 (mem s') a AND PTE_SWAPPED \<noteq> 0 \<and> \<not> fr_in_use (frames s' ! i))"
proof -
  have nil: "xs = []" using alloc_inv_nonempty [of xs s] part assms(2) by (simp add: alloc_part_def)
  obtain s1 where s1: "evict_loop EVICTFUEL s = Inr s1" "freelist s1 \<noteq> 0" "take_page s1 = (p, s')"
    using k assms(2) by (auto simp: kalloc_def evict_pages_def simp del: evict_loop.simps split: if_splits)
  have fo: "frames_ok s" "only_writes s" using tr by (simp_all add: tracked_def)
  from evict_loop_cand [OF fo(1) s1(1)] obtain h a c fs where h: "h < NFRAME" "cand s h = Some a" "length fs = NFRAME"
    "evict_victim h a (frame_pa h) (s\<lparr>clock_hand := c, frames := fs\<rparr>) = Inr s1" by blast
  let ?t = "s\<lparr>clock_hand := c, frames := fs\<rparr>"
  obtain q j where q: "frame_pa h \<in> A" "q \<in> A" "j < 512" "q \<noteq> frame_pa h" "a = entry q j"
    using tr h(1,2) unfolding tracked_def by blast
  have pt: "alloc_part A [] ?t" "only_writes ?t"
    using alloc_part_other [OF part [unfolded nil], of ?t] h(3) fo(2) by (simp_all add: only_writes_def)
  note V = evict_victim_part [OF pt q(1-4) h(1) h(4) [unfolded q(5)]]
  obtain ys where ys: "[frame_pa h] = p # ys" "alloc_part (insert p (A - {frame_pa h})) ys s'"
    using alloc_part_take(1) [OF V(1) s1(2,3)] by blast
  have p: "p = frame_pa h" "ys = []" using ys(1) by simp_all
  have "KERNBASE \<le> kend s" "\<forall>r \<in> A. kpage s r" using part by (auto simp: alloc_part_def alloc_inv_def)
  then have pg: "page_ok p" "page_ok q" using kpage_page_ok q(1,2) p(1) by auto
  have "load64 (mem s') (entry q j) = load64 (mem s1) (entry q j)"
  proof (rule load64_cong, intro allI impI)
    fix n :: nat assume "n < 8"
    then have "in_page q (entry q j + of_nat n)"
      using page_offset [OF pg(2), of "8 * j + n"] q(3) by (simp add: in_page_def entry_def add.assoc)
    then have "\<not> in_page p (entry q j + of_nat n)" using outside_page [OF pg] q(4) p(1) by blast
    then show "mem s' (entry q j + of_nat n) = mem s1 (entry q j + of_nat n)" using alloc_part_take(2) [OF V(1) s1(2,3)] by blast
  qed
  moreover have "insert p (A - {frame_pa h}) = A" using q(1) p(1) by auto
  ultimately show ?thesis
    using ys(2) p q(1,5) h(1,2) V(2-4) alloc_part_take(3) [OF V(1) s1(2,3)] by auto
qed

section \<open>Every run\<close>

text \<open>
  \<open>alloc_sys A s\<close>: the kernel can reach \<open>s\<close> with the pages \<open>A\<close> handed out. The rest of the kernel may change everything but the variables of the
  allocator and the memory outside the pages in use; when it allocates a page while the free list is empty, the frame table is in order. A
  page is freed by its owner.
\<close>

inductive alloc_sys :: "u64 set \<Rightarrow> 'a kstate_scheme \<Rightarrow> bool" where
  boot: "kmem_boot s \<Longrightarrow> kinit s = Inr s' \<Longrightarrow> alloc_sys {} s'"
| alloc: "alloc_sys A s \<Longrightarrow> freelist s = 0 \<longrightarrow> tracked A s \<Longrightarrow> kalloc s = Inr (p, s') \<Longrightarrow> alloc_sys (insert p A) s'"
| free: "alloc_sys A s \<Longrightarrow> p \<in> A \<Longrightarrow> kfree p s = Inr s' \<Longrightarrow> alloc_sys (A - {p}) s'"
| other: "alloc_sys A s \<Longrightarrow> freelist s' = freelist s \<Longrightarrow> kend s' = kend s \<Longrightarrow> length (frames s') = NFRAME \<Longrightarrow>
    \<forall>a. (\<forall>p \<in> A. \<not> in_page p a) \<longrightarrow> mem s' a = mem s a \<Longrightarrow> alloc_sys A s'"

lemma alloc_part_sys: "alloc_sys A s \<Longrightarrow> \<exists>xs. alloc_part A xs s"
proof (induction rule: alloc_sys.induct)
  case (boot s s')
  then show ?case using kinit_spec [of s] by (auto simp: alloc_part_def)
next
  case (alloc A s p s')
  then obtain xs where xs: "alloc_part A xs s" by blast
  show ?case
  proof (cases "freelist s = 0")
    case True
    then have "alloc_part A [] s' \<and> p \<in> A" using kalloc_evicts [OF xs] alloc(2,3) by blast
    then show ?thesis by (auto simp: insert_absorb)
  next
    case False
    then show ?thesis using alloc_part_take(1) [OF xs] alloc(3) by (auto simp: kalloc_def)
  qed
next
  case (free A s p s')
  then show ?case using alloc_part_kfree(1) by blast
next
  case (other A s s')
  then show ?case using alloc_part_other by blast
qed

text \<open>
  Property (C7). No page is handed out twice. In every state that the kernel can reach from \<open>kinit\<close> by allocating (also
  after memory has run out), freeing and using pages, the free list links distinct pages, and these together with the
  pages in use are exactly the managed pages. While the list is not empty, \<open>kalloc\<close> returns a managed page that nobody has. When it is empty and the
  frame table is in order, the page that \<open>kalloc\<close> returns was evicted: it is the page of a tracked frame, the entry through
  which its owner mapped it is no longer valid and is marked as swapped, and the frame is not in use any more. \<open>kfree\<close> of a
  page in use never panics.
\<close>

theorem kalloc_no_double_allocation:
  fixes s :: "'a kstate_scheme"
  assumes "alloc_sys A s"
  shows "(\<exists>xs. free_list (mem s) (freelist s) xs \<and> distinct xs \<and> set xs \<inter> A = {} \<and> set xs \<union> A = managed (kend s)) \<and>
    (freelist s \<noteq> 0 \<longrightarrow> (\<exists>p s'. kalloc s = Inr (p, s') \<and> p \<in> managed (kend s) \<and> p \<notin> A)) \<and>
    (\<forall>p s'. freelist s = 0 \<longrightarrow> tracked A s \<longrightarrow> kalloc s = Inr (p, s') \<longrightarrow>
       p \<in> A \<and> (\<exists>i a. i < NFRAME \<and> cand s i = Some a \<and> p = KERNBASE + of_nat (4096 * i) \<and>
         load64 (mem s') a AND PTE_V = 0 \<and> load64 (mem s') a AND PTE_SWAPPED \<noteq> 0 \<and> \<not> fr_in_use (frames s' ! i))) \<and>
    (\<forall>p \<in> A. \<exists>s'. kfree p s = Inr s')"
proof -
  obtain xs where xs: "alloc_part A xs s" using alloc_part_sys [OF assms] by blast
  then have I: "alloc_inv xs s" "set xs \<inter> A = {}" "set xs \<union> A = managed (kend s)" "\<forall>p \<in> A. kpage s p"
    by (auto simp: alloc_part_def)
  have "\<exists>p s'. kalloc s = Inr (p, s') \<and> p \<in> managed (kend s) \<and> p \<notin> A" if "freelist s \<noteq> 0"
  proof -
    obtain p s' where t: "take_page s = (p, s')" by fastforce
    then show ?thesis using alloc_part_take(1) [OF xs that t] that by (auto simp: kalloc_def)
  qed
  moreover have "\<exists>s'. kfree p s = Inr s'" if "p \<in> A" for p
    using kfree_spec [OF I(1), of p] I(2,4) that by auto
  ultimately show ?thesis using I kalloc_evicts [OF xs] by (auto simp: alloc_inv_def)
qed

section \<open>A kernel that has run out of memory\<close>

lemma alloc_sys_drain:
  fixes s :: "'a kstate_scheme"
  assumes "alloc_part A xs s" "alloc_sys A s"
  shows "\<exists>m. alloc_sys (managed (kend s)) (s\<lparr>mem := m, freelist := 0\<rparr>)"
  using assms
proof (induction xs arbitrary: A s)
  case Nil
  then have "A = managed (kend s)" "freelist s = 0" by (auto simp: alloc_part_def alloc_inv_def)
  moreover have "s\<lparr>mem := mem s, freelist := freelist s\<rparr> = s" by simp
  ultimately show ?case using Nil.prems(2) by (intro exI [of _ "mem s"]) (simp only:)
next
  case (Cons x xs)
  have I: "alloc_inv (x # xs) s" using Cons.prems(1) by (simp add: alloc_part_def)
  then have nz: "freelist s \<noteq> 0" by (simp add: alloc_inv_nonempty)
  obtain p s' where t: "take_page s = (p, s')" by fastforce
  note T = take_page_spec [OF I t]
  obtain m f where e: "s' = s\<lparr>mem := m, freelist := f\<rparr>" using T(5) by blast
  have "alloc_sys (insert p A) s'" by (rule alloc_sys.alloc [OF Cons.prems(2)]) (use nz t in \<open>simp_all add: kalloc_def\<close>)
  moreover have "alloc_part (insert p A) xs s'" using alloc_part_take(1) [OF Cons.prems(1) nz t] by auto
  ultimately show ?case using Cons.IH [of "insert p A" s'] unfolding e by simp
qed

lemma evict_victim_returns:
  fixes s :: "'a kstate_scheme"
  assumes part: "alloc_part A xs s" and "can_swap s" "pa \<in> A" "q \<in> A" "j < 512"
  shows "\<exists>s'. evict_victim h (entry q j) pa s = Inr s'"
proof -
  let ?a = "entry q j"
  have I: "KERNBASE \<le> kend s" "\<forall>p \<in> A. kpage s p" "length (frames s) = NFRAME" using part by (auto simp: alloc_part_def alloc_inv_def)
  have pg: "page_ok q" using kpage_page_ok [OF I(1)] I(2) assms(4) by auto
  define s0 where "s0 = s\<lparr>mem := store64 (mem s) ?a ((load64 (mem s) ?a AND NOT PTE_V) OR PTE_SWAPPED)\<rparr>"
  have "can_swap s0 = can_swap s" by (rule can_swap_cong; simp add: s0_def)
  then obtain i s1 where s1: "swap_out pa s0 = Inr (int i, s1)" "mem s1 = mem s0" "kend s1 = kend s0" "freelist s1 = freelist s0" "frames s1 = frames s0"
    using swap_out_spec [of s0 pa] assms(2) by auto
  define s2 where "s2 = s1\<lparr>mem := store64 (mem s1) ?a (push_bit 10 (of_int (int i)) OR PTE_FLAGS (load64 (mem s1) ?a) OR PTE_SWAPPED)\<rparr>"
  define fs where "fs = (frames s2)[h := (frames s2 ! h)\<lparr>fr_in_use := False, fr_p := None, fr_va := 0\<rparr>]"
  define s3 where "s3 = (case fr_p (frames s2 ! h) of
      Some k \<Rightarrow> upd_proc k (\<lambda>u. u\<lparr>pages_evicted := pages_evicted u + 1, resident_pages := resident_pages u - 1\<rparr>) (s2\<lparr>frames := fs\<rparr>)
    | None \<Rightarrow> s2\<lparr>frames := fs\<rparr>)"
  have s3: "mem s3 = mem s2" "kend s3 = kend s" "freelist s3 = freelist s" "length (frames s3) = NFRAME"
    using s1(3-5) I(3) by (auto simp: s3_def s2_def s0_def fs_def upd_proc_def split: option.split)
  have "mem s2 x = mem s x" if "\<not> in_page q x" for x
    using s1(2) store64_page [OF pg assms(5) that] by (simp add: s2_def s0_def)
  then have "alloc_part A xs s3" using s3 assms(4) by (intro alloc_part_other [OF part]) auto
  then have "\<exists>s'. kfree pa s3 = Inr s'" using kfree_spec [of xs s3 pa] assms(3) by (auto simp: alloc_part_def)
  then show ?thesis
    using s1(1) unfolding evict_victim_def Let_def s0_def [symmetric] by (auto simp: s2_def s3_def fs_def split: option.splits)
qed

text \<open>Process 0 with one page at address 0, in frame 48, reached through two page table pages.\<close>

definition short_tables :: "memory \<Rightarrow> memory" where
  "short_tables m =
     store64 (store64 (store64 m 0x80100000 (PA2PTE 0x80101000 OR PTE_V))
       0x80101000 (PA2PTE 0x80102000 OR PTE_V)) 0x80102000 (PA2PTE 0x80030000 OR (PTE_R OR PTE_W OR PTE_U) OR PTE_V)"

definition short_state :: "memory \<Rightarrow> kstate \<Rightarrow> kstate" where
  "short_state m s = s\<lparr>mem := short_tables m,
     procs := (procs s)[0 := (procs s ! 0)\<lparr>pagetable := 0x80100000\<rparr>], clock_hand := 48,
     frames := (replicate NFRAME \<lparr>fr_in_use = False, fr_p = None, fr_reference_bit = False, fr_va = 0\<rparr>)
       [48 := \<lparr>fr_in_use = True, fr_p = Some 0, fr_reference_bit = False, fr_va = 0\<rparr>]\<rparr>"

lemma short_loads:
  "load64 (short_tables m) 0x80100000 = PA2PTE 0x80101000 OR PTE_V" "load64 (short_tables m) 0x80101000 = PA2PTE 0x80102000 OR PTE_V"
  "load64 (short_tables m) 0x80102000 = PA2PTE 0x80030000 OR (PTE_R OR PTE_W OR PTE_U) OR PTE_V"
proof -
  have f: "far 0x80102000 0x80100000" "far 0x80101000 0x80100000" "far 0x80102000 0x80101000" by (simp_all add: far_def)
  show "load64 (short_tables m) 0x80100000 = PA2PTE 0x80101000 OR PTE_V" "load64 (short_tables m) 0x80101000 = PA2PTE 0x80102000 OR PTE_V"
    "load64 (short_tables m) 0x80102000 = PA2PTE 0x80030000 OR (PTE_R OR PTE_W OR PTE_U) OR PTE_V"
    unfolding short_tables_def by (simp_all only: store64_other [OF f(1)] store64_other [OF f(2)] store64_other [OF f(3)] load64_store64)
qed

lemma short_walk: "walk_from (short_tables m) 2 0x80100000 0 = 0x80102000"
proof -
  have a: "pte_addr p l 0 = p" for p l by (simp add: pte_addr_def PX_def)
  have v: "(PA2PTE 0x80101000 OR PTE_V) AND PTE_V \<noteq> 0" "PTE2PA (PA2PTE 0x80101000 OR PTE_V) = 0x80101000"
    "(PA2PTE 0x80102000 OR PTE_V) AND PTE_V \<noteq> 0" "PTE2PA (PA2PTE 0x80102000 OR PTE_V) = 0x80102000"
    by (simp_all add: PA2PTE_def PTE2PA_def)
  show ?thesis
    by (simp only: numeral_2_eq_2 walk_from.simps Let_def a short_loads v simp_thms if_True)
qed

lemma short_cand:
  assumes "i < NFRAME" "0 < length (procs s)"
  shows "cand (short_state m s) i = (if i = 48 then Some 0x80102000 else None)"
proof -
  have f: "frames (short_state m s) ! i = (if i = 48 then \<lparr>fr_in_use = True, fr_p = Some 0, fr_reference_bit = False, fr_va = 0\<rparr>
      else \<lparr>fr_in_use = False, fr_p = None, fr_reference_bit = False, fr_va = 0\<rparr>)"
    using assms(1) by (simp add: short_state_def nth_list_update)
  have p: "pagetable (procs (short_state m s) ! 0) = 0x80100000" "mem (short_state m s) = short_tables m"
    using assms(2) by (simp_all add: short_state_def)
  have v: "load64 (short_tables m) 0x80102000 AND PTE_V \<noteq> 0" unfolding short_loads by (simp add: PA2PTE_def)
  show ?thesis
  proof (cases "i = 48")
    case True
    then show ?thesis unfolding cand_def f p(2) Let_def using v by (simp add: p(1) short_walk)
  qed (simp add: cand_def f)
qed

lemma short_frames_ok: "0 < length (procs s) \<Longrightarrow> frames_ok (short_state m s)"
proof -
  assume a: "0 < length (procs s)"
  have l: "length (frames (short_state m s)) = NFRAME" "clock_hand (short_state m s) < NFRAME" "mem (short_state m s) = short_tables m"
    by (simp_all add: short_state_def)
  have va: "fr_va (frames (short_state m s) ! i) < MAXVA" if "i < NFRAME" for i
    using that by (simp add: short_state_def nth_list_update)
  have "PTE2PA (load64 (short_tables m) 0x80102000) = frame_pa 48" unfolding short_loads by (simp add: PA2PTE_def PTE2PA_def)
  then show ?thesis using l va short_cand [OF _ a] by (auto simp: frames_ok_def split: if_splits)
qed

lemma short_managed:
  "0x80100000 \<in> managed 0x80024cf8" "0x80101000 \<in> managed 0x80024cf8" "0x80102000 \<in> managed 0x80024cf8" "0x80030000 \<in> managed 0x80024cf8"
proof -
  have "PGROUNDUP 0x80024cf8 = (0x80025000 :: u64)" by (simp add: PGROUNDUP_def)
  then show "0x80100000 \<in> managed 0x80024cf8" "0x80101000 \<in> managed 0x80024cf8" "0x80102000 \<in> managed 0x80024cf8" "0x80030000 \<in> managed 0x80024cf8"
    by (simp_all add: managed_def pages_between_def dvd_eq_mod_eq_0)
qed

lemma short_can_swap:
  assumes "can_swap s" "procs s = replicate NPROC zero_proc"
  shows "can_swap (short_state m s)"
proof -
  have "swap_ready i (short_state m s) = swap_ready i s" for i by (rule swap_ready_cong; simp add: short_state_def)
  moreover have "swap_priority (short_state m s) = swap_priority s"
    using assms(2) by (auto simp: swap_priority_def short_state_def myproc_def mycpu_def nth_list_update zero_proc_def split: option.splits)
  ultimately show ?thesis using assms(1) by (simp add: can_swap_def) (simp add: short_state_def)
qed

lemma short_example:
  "\<exists>s :: kstate. alloc_sys (managed (kend s)) s \<and> freelist s = 0 \<and> tracked (managed (kend s)) s \<and> (\<exists>p s'. kalloc s = Inr (p, s'))"
proof -
  let ?b = "binit boot_kstate" and ?A = "managed 0x80024cf8"
  obtain bs where eb: "?b = boot_kstate\<lparr>bufs := bs\<rparr>" using binit_spec(5) [OF boot_kstate_sel(1,2)] by blast
  have kb: "kmem_boot ?b" "kend ?b = 0x80024cf8"
    using boot_kstate_ok unfolding eb kmem_boot_def by (simp_all add: boot_kstate_sel)
  obtain s0 xs where s0: "kinit ?b = Inr s0" "alloc_inv xs s0" "set xs = managed (kend ?b)" "kend s0 = kend ?b" using kinit_spec [OF kb(1)] by blast
  obtain m0 f0 l0 where e0: "s0 = ?b\<lparr>mem := m0, frames := f0, freelist := l0, swap_space := map (\<lambda>_. False) (swap_space ?b)\<rparr>"
    using kinit_frame [OF s0(1)] by blast
  have "alloc_part {} xs s0" using s0 by (simp add: alloc_part_def)
  from alloc_sys_drain [OF this alloc_sys.boot [OF kb(1) s0(1)]] obtain m where
    m: "alloc_sys ?A (s0\<lparr>mem := m, freelist := 0\<rparr>)" using s0(4) kb(2) by auto
  define s where "s = short_state m (s0\<lparr>mem := m, freelist := 0\<rparr>)"
  have pr: "procs s0 = replicate NPROC zero_proc" unfolding e0 eb by (simp add: boot_kstate_sel)
  have sel: "freelist s = 0" "kend s = 0x80024cf8" "length (frames s) = NFRAME" "mem s = short_tables m"
    using s0(4) kb(2) by (simp_all add: s_def short_state_def)
  have "short_tables m x = m x" if "\<forall>p \<in> ?A. \<not> in_page p x" for x
    using that short_managed store64_page [where q = "0x80100000" and i = 0 and a = x] store64_page [where q = "0x80101000" and i = 0 and a = x]
      store64_page [where q = "0x80102000" and i = 0 and a = x]
    unfolding short_tables_def by (simp add: page_ok_def entry_0 dvd_eq_mod_eq_0)
  then have sys: "alloc_sys ?A s" by (intro alloc_sys.other [OF m]) (use sel s0(4) kb(2) in simp_all)
  have cand: "cand s i = (if i = 48 then Some 0x80102000 else None)" if "i < NFRAME" for i
    unfolding s_def by (rule short_cand [OF that]) (simp add: pr)
  have fo: "frames_ok s" unfolding s_def by (rule short_frames_ok) (simp add: pr)
  have ow: "only_writes s"
    unfolding s_def short_state_def e0 eb only_writes_def using boot_kstate_sel(6,7) by (auto simp: filter_empty_conv)
  have trk: "tracked ?A s"
    unfolding tracked_def using fo ow cand short_managed
    by (auto intro!: bexI [of _ "0x80102000"] exI [of _ 0] simp: entry_0 split: if_splits)
  have "can_swap s0 = can_swap ?b" unfolding e0 eb by (intro can_swap_cong) (simp_all add: boot_kstate_sel)
  then have "can_swap (s0\<lparr>mem := m, freelist := 0\<rparr>)"
    using boot_can_swap can_swap_cong [of "s0\<lparr>mem := m, freelist := 0\<rparr>" s0] by simp
  then have cs: "can_swap s" unfolding s_def by (rule short_can_swap) (simp add: pr)
  have h: "clock_hand s = 48" "\<not> fr_reference_bit (frames s ! 48)" by (simp_all add: s_def short_state_def)
  obtain ys where part: "alloc_part ?A ys s" using alloc_part_sys [OF sys] by blast
  then have adv: "alloc_part ?A ys (advance s)" by (rule alloc_part_other) (use sel(3) in \<open>simp_all add: advance_def\<close>)
  have "can_swap (advance s) = can_swap s" by (rule can_swap_cong) (simp_all add: advance_def)
  then obtain s1 where s1: "evict_victim 48 (entry 0x80102000 0) 0x80030000 (advance s) = Inr s1"
    using evict_victim_returns [OF adv _ short_managed(4,3), of 0 48] cs by auto
  have "evict_round s = Inr (True, s1)"
    using evict_round_cases(3) [OF fo, of "0x80102000"] cand [of 48] h s1 by (simp add: entry_0)
  then have "evict_loop EVICTFUEL s = Inr s1" using evict_loop.simps(2) [of 1024 s] by simp
  moreover have "only_writes (advance s)" using ow by (simp add: only_writes_def advance_def)
  then have "alloc_part (?A - {0x80030000}) (0x80030000 # ys) s1"
    using evict_victim_part(1) [OF adv _ short_managed(4,3) _ _ _ s1] by simp
  then have "freelist s1 \<noteq> 0" using alloc_inv_nonempty [of "0x80030000 # ys" s1] by (simp add: alloc_part_def)
  ultimately have "\<exists>p s'. kalloc s = Inr (p, s')"
    using sel(1) by (cases "take_page s1") (simp add: kalloc_def evict_pages_def del: evict_loop.simps)
  then show ?thesis using sys sel trk by (intro exI [of _ s]) simp
qed

theorem kalloc_no_double_allocation_witness:
  "\<exists>(s :: kstate) p s' i a. alloc_sys (managed (kend s)) s \<and> freelist s = 0 \<and> kalloc s = Inr (p, s') \<and> cand s i = Some a \<and>
     p = KERNBASE + of_nat (4096 * i) \<and> load64 (mem s') a AND PTE_V = 0 \<and> load64 (mem s') a AND PTE_SWAPPED \<noteq> 0"
proof -
  obtain s :: kstate and p s' where s: "alloc_sys (managed (kend s)) s" "freelist s = 0" "tracked (managed (kend s)) s" "kalloc s = Inr (p, s')"
    using short_example by blast
  then show ?thesis using kalloc_no_double_allocation [OF s(1)] by blast
qed

end
