(* ===== verification/Trap.thy ===== *)
theory Trap
  imports Paging
begin

text \<open>
  Page faults of user programs: the branch of \<^verbatim>\<open>usertrap\<close> (\<^verbatim>\<open>kernel/trap.c\<close>) for the trap causes 12, 13 and 15.
  A page that was swapped out is brought back, an address of the process that has no page yet gets one,
  and any other access kills the process.
\<close>

definition page_fault :: "nat \<Rightarrow> u64 \<Rightarrow> bool \<Rightarrow> 'a kstate_scheme \<Rightarrow> 'a kstate_scheme res" where
  "page_fault p stval read s =
     (let s = upd_proc p (\<lambda>u. u\<lparr>page_faults := page_faults u + 1\<rparr>) s;
          pt = pagetable (procs s ! p); fault_va = PGROUNDDOWN stval in
      rbind (walk pt fault_va False s) (\<lambda>(pte, s).
        if pte \<noteq> 0 \<and> load64 (mem s) pte AND PTE_SWAPPED \<noteq> 0 then
          rbind (kalloc s) (\<lambda>(m, s).
            if m = 0 then Inr (setkilled p s)
            else rbind (swap_in m (swap_slot (load64 (mem s) pte)) s) (\<lambda>s.
              let flags = PTE_FLAGS (load64 (mem s) pte) AND NOT PTE_SWAPPED;
                  s = set_pte pte (PA2PTE m OR flags OR PTE_V) s
              in Inr (track_frame (Some p) fault_va m s)))
        else rbind (vmfault pt stval read s) (\<lambda>(r, s).
          if r \<noteq> 0 then Inr s else Inr (setkilled p s))))"

section \<open>A page that was swapped out\<close>

lemma refreshed_pte:
  assumes "pte AND PTE_V \<noteq> 0" "pte AND PTE_SWAPPED = 0"
  shows "PA2PTE y OR (PTE_FLAGS (swapped_pte i pte) AND NOT PTE_SWAPPED) OR PTE_V = PA2PTE y OR PTE_FLAGS pte"
proof (rule bit_word_eqI)
  fix n assume n: "n < LENGTH(64)"
  have p: "bit pte 0" "\<not> bit pte 8" using assms and_1 and_256 by blast+
  show "bit (PA2PTE y OR (PTE_FLAGS (swapped_pte i pte) AND NOT PTE_SWAPPED) OR PTE_V) n = bit (PA2PTE y OR PTE_FLAGS pte) n"
    unfolding PTE_FLAGS_def bit_or_iff bit_and_iff bit_not_iff bit_256 bit_3FF bit_1 possible_bit_word bit_swapped_pte
    using n p by auto
qed

lemma track_frame_spec:
  fixes s :: "'a kstate_scheme"
  assumes "vm_ok pt ys s" "kpage s y"
  shows "vm_ok pt ys (track_frame (Some p) va y s)" "mem (track_frame (Some p) va y s) = mem s" "swap_space (track_frame (Some p) va y s) = swap_space s"
    "frame_index y < NFRAME \<Longrightarrow> frames (track_frame (Some p) va y s) ! frame_index y = \<lparr>fr_in_use = True, fr_p = Some p, fr_reference_bit = True, fr_va = va\<rparr>"
proof -
  have V: "alloc_inv ys s" using assms(1) by (simp add: vm_ok_def)
  have "KERNBASE \<le> kend s" using V by (simp add: alloc_inv_def)
  then have y: "\<not> y < KERNBASE" "\<not> PHYSTOP \<le> y" "length (frames s) = NFRAME" using assms(2) V order_trans by (auto simp: kpage_def alloc_inv_def not_less)
  define s' where "s' = track_frame (Some p) va y s"
  have e: "mem s' = mem s" "kend s' = kend s" "freelist s' = freelist s" "length (frames s') = length (frames s)" "swap_space s' = swap_space s"
    "frame_index y < NFRAME \<Longrightarrow> frames s' ! frame_index y = \<lparr>fr_in_use = True, fr_p = Some p, fr_reference_bit = True, fr_va = va\<rparr>"
    using y by (simp_all add: s'_def track_frame_def upd_proc_def Let_def)
  show "vm_ok pt ys (track_frame (Some p) va y s)" using vm_ok_cong [OF assms(1) e(1-4)] by (simp add: s'_def)
  show "mem (track_frame (Some p) va y s) = mem s" "swap_space (track_frame (Some p) va y s) = swap_space s"
    "frame_index y < NFRAME \<Longrightarrow> frames (track_frame (Some p) va y s) ! frame_index y = \<lparr>fr_in_use = True, fr_p = Some p, fr_reference_bit = True, fr_va = va\<rparr>"
    using e by (simp_all add: s'_def)
qed

lemma page_fault_swapped:
  fixes t :: "'a kstate_scheme"
  assumes "vm_ok pt (y # ys) t" "PGROUNDDOWN stval < MAXVA" "pte_of (mem t) pt (PGROUNDDOWN stval) = swapped_pte i pte" "i < NSWAPSPACE"
    "pte AND PTE_V \<noteq> 0" "pte AND PTE_SWAPPED = 0" "swap_ready i t" "slot_holds i m page t" "swap_priority t < 4"
    "p < length (procs t)" "pagetable (procs t ! p) = pt"
  defines "va \<equiv> PGROUNDDOWN stval"
  shows "\<exists>t'. page_fault p stval r t = Inr t' \<and> mem_read (mem t') y PGSIZE = mem_read m page PGSIZE \<and> vm_ok pt ys t' \<and>
    swap_space t' = (swap_space t)[i := False] \<and>
    (\<forall>v < MAXVA. pte_of (mem t') pt v = (if unat v div 4096 = unat va div 4096 then PA2PTE y OR PTE_FLAGS pte else pte_of (mem t) pt v)) \<and>
    (frame_index y < NFRAME \<longrightarrow> frames t' ! frame_index y = \<lparr>fr_in_use = True, fr_p = Some p, fr_reference_bit = True, fr_va = va\<rparr>)"
proof -
  define t0 where "t0 = upd_proc p (\<lambda>u. u\<lparr>page_faults := page_faults u + 1\<rparr>) t"
  have c: "mem t0 = mem t" "kend t0 = kend t" "freelist t0 = freelist t" "length (frames t0) = length (frames t)" "swap_space t0 = swap_space t"
    "slot_raid_mode t0 = slot_raid_mode t" "pagetable (procs t0 ! p) = pt"
    using assms(10,11) by (simp_all add: t0_def upd_proc_def)
  have sr: "swap_ready i t0" "view t0 = view t" using swap_ready_cong [of t0 t] assms(7) by (simp_all add: t0_def upd_proc_def)
  have pr: "swap_priority t0 < 4"
    using assms(9,10) by (auto simp: swap_priority_def t0_def upd_proc_def myproc_def mycpu_def nth_list_update split: option.splits if_splits)
  have v0: "vm_ok pt (y # ys) t0" by (rule vm_ok_cong [OF assms(1) c(1-4)])
  have p0: "pte_of (mem t0) pt va = swapped_pte i pte" "slot_holds i m page t0" "va < MAXVA"
    using assms(2,3,8) c sr by (simp_all add: slot_holds_def va_def)
  obtain q t1 t3 where W: "walk pt va False t0 = Inr (entry q (idx 0 va), t0)" "entry q (idx 0 va) \<noteq> 0" "load64 (mem t0) (entry q (idx 0 va)) = swapped_pte i pte"
    "kalloc t0 = Inr (y, t1)" "y \<noteq> 0" "load64 (mem t1) (entry q (idx 0 va)) = swapped_pte i pte" "swap_in y (int i) t1 = Inr t3"
    "load64 (mem t3) (entry q (idx 0 va)) = swapped_pte i pte" and L: "leaf_table (mem t3) pt va = Some q" "vm_ok pt ys t3" "tables (mem t3) pt = tables (mem t0) pt"
    "\<And>v. pte_of (mem t3) pt v = pte_of (mem t0) pt v" "mem_read (mem t3) y PGSIZE = mem_read m page PGSIZE" "page_ok q" "page_ok y" "y \<noteq> q"
    "swap_space t3 = (swap_space t0)[i := False]" "kend t3 = kend t0"
    by (rule fetch_swapped [OF v0 p0(3,1) assms(4) sr(1) p0(2) pr]) blast
  define t4 where "t4 = set_pte (entry q (idx 0 va)) (PA2PTE y OR PTE_FLAGS pte) t3"
  note E = set_entry [OF L(2,1) p0(3) L(7,8), where v = "PA2PTE y OR PTE_FLAGS pte", folded t4_def]
  have "kpage t y" using assms(1) by (simp add: vm_ok_def alloc_inv_def)
  then have ky: "kpage t4 y" using L(10) c(2) by (simp add: kpage_def t4_def set_pte_def)
  note T = track_frame_spec [OF E(1) ky, of p va]
  have si: "swap_in y (swap_slot (load64 (mem t1) (entry q (idx 0 va)))) t1 = Inr t3" unfolding W(6) swap_slot_swapped [OF assms(4)] by (rule W(7))
  have e4: "set_pte (entry q (idx 0 va)) (PA2PTE y OR (PTE_FLAGS (load64 (mem t3) (entry q (idx 0 va))) AND NOT PTE_SWAPPED) OR PTE_V) t3 = t4"
    by (simp only: t4_def W(8) refreshed_pte [OF assms(5,6)])
  have sw: "entry q (idx 0 va) \<noteq> 0 \<and> load64 (mem t0) (entry q (idx 0 va)) AND PTE_SWAPPED \<noteq> 0"
    using W(2) swapped_pte_bits(2) [of i pte] unfolding W(3) by blast
  have "page_fault p stval r t = Inr (track_frame (Some p) va y t4)"
    unfolding page_fault_def t0_def [symmetric] Let_def c(7) va_def [symmetric] W(1) rbind_simps prod.case if_P [OF sw] W(4) if_not_P [OF W(5)] si e4 ..
  moreover have "pte_of (mem t4) pt v = (if unat v div 4096 = unat va div 4096 then PA2PTE y OR PTE_FLAGS pte else pte_of (mem t) pt v)"
    if "v < MAXVA" for v using E(5) [OF that] L(4) c(1) by simp
  moreover have "swap_space t4 = (swap_space t)[i := False]" using L(9) c(5) by (simp add: t4_def set_pte_def)
  ultimately show ?thesis using T E(6) L(5) by (intro exI [of _ "track_frame (Some p) va y t4"]) simp
qed

section \<open>Properties\<close>

text \<open>
  (C4) Paging is transparent to the program itself. While the swap layer is quiet under RAID 0 (or any mode treated like it) and has a
  free slot, evicting a user page succeeds, and afterwards a page fault at any address of that page, in any later state with a free page in which its entry and its slot are intact, brings its 4096
  bytes back, maps them with the old permissions and no other change to the address space, frees the slot, and registers the
  frame, if it is one of the 512 that have an entry, with the clock algorithm under the faulting page, so that it can be evicted again.
\<close>

theorem page_fault_brings_page_back:
  fixes s :: "'a kstate_scheme"
  assumes "vm_ok pt xs s" "can_swap s" "mapped (mem s) pt va" "pte_of (mem s) pt va AND PTE_SWAPPED = 0" "va = PGROUNDDOWN stval"
    "kpage s (page_of (mem s) pt va)" "page_of (mem s) pt va \<notin> set xs" "page_of (mem s) pt va \<notin> tables (mem s) pt"
  defines "pa \<equiv> page_of (mem s) pt va" and "pte \<equiv> pte_of (mem s) pt va"
  shows "\<exists>i s1. evict_victim h (walk_from (mem s) 2 pt va) pa s = Inr s1 \<and> vm_ok pt (pa # xs) s1 \<and> swap_ready i s1 \<and>
    pte_of (mem s1) pt va = swapped_pte i pte \<and>
    (\<forall>(t :: 'a kstate_scheme) y ys p r. vm_ok pt (y # ys) t \<longrightarrow> pte_of (mem t) pt va = pte_of (mem s1) pt va \<longrightarrow>
       swap_ready i t \<longrightarrow> swap_priority t < 4 \<longrightarrow> slot_raid_mode t ! i = slot_raid_mode s1 ! i \<longrightarrow>
       (\<forall>b < 4. view t (of_nat (raid0_block i b)) = view s1 (of_nat (raid0_block i b))) \<longrightarrow>
       p < length (procs t) \<longrightarrow> pagetable (procs t ! p) = pt \<longrightarrow>
       (\<exists>t'. page_fault p stval r t = Inr t' \<and> mem_read (mem t') y PGSIZE = mem_read (mem s) pa PGSIZE \<and> vm_ok pt ys t' \<and>
          swap_space t' = (swap_space t)[i := False] \<and>
          (\<forall>v < MAXVA. pte_of (mem t') pt v =
             (if unat v div 4096 = unat va div 4096 then PA2PTE y OR PTE_FLAGS pte else pte_of (mem t) pt v)) \<and>
          (frame_index y < NFRAME \<longrightarrow> frames t' ! frame_index y = \<lparr>fr_in_use = True, fr_p = Some p, fr_reference_bit = True, fr_va = va\<rparr>)))"
proof -
  have va: "va < MAXVA" and V: "pte AND PTE_V \<noteq> 0" using assms(3) by (simp_all add: mapped_def pte_def)
  have S: "pte AND PTE_SWAPPED = 0" using assms(4) by (simp add: pte_def)
  obtain i s1 where E: "evict_victim h (walk_from (mem s) 2 pt va) pa s = Inr s1" "i < NSWAPSPACE" "vm_ok pt (pa # xs) s1"
    "\<forall>v < MAXVA. pte_of (mem s1) pt v = (if unat v div 4096 = unat va div 4096 then swapped_pte i pte else pte_of (mem s) pt v)"
    "slot_holds i (mem s) pa s1" "swap_ready i s1"
    unfolding pa_def pte_def using evict_victim_spec [OF assms(1-3) refl assms(6-8), of h] by blast
  have e: "pte_of (mem s1) pt va = swapped_pte i pte" using E(4) va by simp
  have "slot_holds i (mem s) pa t" if "slot_raid_mode t ! i = slot_raid_mode s1 ! i"
    "\<forall>b < 4. view t (of_nat (raid0_block i b)) = view s1 (of_nat (raid0_block i b))" for t :: "'a kstate_scheme"
    using E(5) that by (simp add: slot_holds_def)
  note P = this page_fault_swapped [OF _ va [unfolded assms(5)] _ E(2) V S, folded assms(5)]
  have "\<exists>t'. page_fault p stval r t = Inr t' \<and> mem_read (mem t') y PGSIZE = mem_read (mem s) pa PGSIZE \<and> vm_ok pt ys t' \<and>
      swap_space t' = (swap_space t)[i := False] \<and>
      (\<forall>v < MAXVA. pte_of (mem t') pt v =
         (if unat v div 4096 = unat va div 4096 then PA2PTE y OR PTE_FLAGS pte else pte_of (mem t) pt v)) \<and>
      (frame_index y < NFRAME \<longrightarrow> frames t' ! frame_index y = \<lparr>fr_in_use = True, fr_p = Some p, fr_reference_bit = True, fr_va = va\<rparr>)"
    if t: "vm_ok pt (y # ys) t" "pte_of (mem t) pt va = pte_of (mem s1) pt va" "swap_ready i t" "swap_priority t < 4"
      "slot_raid_mode t ! i = slot_raid_mode s1 ! i" "\<forall>b < 4. view t (of_nat (raid0_block i b)) = view s1 (of_nat (raid0_block i b))"
      "p < length (procs t)" "pagetable (procs t ! p) = pt" for t :: "'a kstate_scheme" and y ys p r
    by (rule P(2) [OF t(1) t(2) [unfolded e] t(3) P(1) [OF t(5,6)] t(4,7,8)])
  then show ?thesis using E(1,3,6) e by (intro exI [of _ i] exI [of _ s1]) blast
qed

theorem page_fault_brings_page_back_witness:
  "\<exists>(s :: kstate) s1 pt x p t'. page_of (mem s) pt 0x1000 = x \<and> evict_victim 0 (walk_from (mem s) 2 pt 0x1000) x s = Inr s1 \<and>
     pte_of (mem s1) pt 0x1000 AND PTE_V = 0 \<and>
     page_fault p 0x1234 True (s1\<lparr>procs := map (\<lambda>_. zero_proc\<lparr>pagetable := pt\<rparr>) (procs s1)\<rparr>) = Inr t' \<and>
     mem_read (mem t') x PGSIZE = mem_read (mem s) x PGSIZE"
proof -
  obtain s :: kstate and pt x xs where s: "vm_ok pt xs s" "can_swap s" "pte_of (mem s) pt 0x1000 = PA2PTE x OR 23" "kpage s x"
    "x \<notin> set xs" "x \<notin> tables (mem s) pt"
    using paging_example by blast
  note M = example_mapped [OF s(3,4)]
  have va: "0x1000 = PGROUNDDOWN 0x1234" by (simp add: PGROUNDDOWN_def)
  from page_fault_brings_page_back [OF s(1,2) M(2,3) va, of 0, unfolded M(1), OF s(4-6)]
  obtain i s1 where E: "evict_victim 0 (walk_from (mem s) 2 pt 0x1000) x s = Inr s1" "vm_ok pt (x # xs) s1" "swap_ready i s1"
    "pte_of (mem s1) pt 0x1000 = swapped_pte i (pte_of (mem s) pt 0x1000)"
    and T: "\<forall>(t :: kstate) y ys p r. vm_ok pt (y # ys) t \<longrightarrow> pte_of (mem t) pt 0x1000 = pte_of (mem s1) pt 0x1000 \<longrightarrow>
       swap_ready i t \<longrightarrow> swap_priority t < 4 \<longrightarrow> slot_raid_mode t ! i = slot_raid_mode s1 ! i \<longrightarrow>
       (\<forall>b < 4. view t (of_nat (raid0_block i b)) = view s1 (of_nat (raid0_block i b))) \<longrightarrow>
       p < length (procs t) \<longrightarrow> pagetable (procs t ! p) = pt \<longrightarrow>
       (\<exists>t'. page_fault p 0x1234 r t = Inr t' \<and> mem_read (mem t') y PGSIZE = mem_read (mem s) x PGSIZE \<and> vm_ok pt ys t' \<and>
          swap_space t' = (swap_space t)[i := False] \<and>
          (\<forall>v < MAXVA. pte_of (mem t') pt v = (if unat v div 4096 = unat (0x1000 :: u64) div 4096
             then PA2PTE y OR PTE_FLAGS (pte_of (mem s) pt 0x1000) else pte_of (mem t) pt v)) \<and>
          (frame_index y < NFRAME \<longrightarrow> frames t' ! frame_index y = \<lparr>fr_in_use = True, fr_p = Some p, fr_reference_bit = True, fr_va = 0x1000\<rparr>))"
    by (elim exE conjE) (rule that)
  define t where "t = s1\<lparr>procs := map (\<lambda>_. zero_proc\<lparr>pagetable := pt\<rparr>) (procs s1)\<rparr>"
  have t: "mem t = mem s1" "kend t = kend s1" "freelist t = freelist s1" "frames t = frames s1" "slot_raid_mode t = slot_raid_mode s1"
    by (simp_all add: t_def)
  have "vm_ok pt (x # xs) t" using vm_ok_cong [OF E(2), of t] t by simp
  moreover have "swap_ready i t = swap_ready i s1" "view t = view s1" unfolding t_def by (rule swap_ready_cong; simp)+
  moreover obtain p where "swap_priority t < 4" "p < length (procs t)"
    using E(3) by (auto simp: swap_ready_def io_ready_def swap_priority_def t_def myproc_def mycpu_def zero_proc_def)
  moreover from this have "pagetable (procs t ! p) = pt" by (simp add: t_def)
  ultimately obtain t' where "page_fault p 0x1234 True t = Inr t'" "mem_read (mem t') x PGSIZE = mem_read (mem s) x PGSIZE"
    using T [rule_format, of x xs t p True] E(3) t(1,5) by auto
  moreover have "pte_of (mem s1) pt 0x1000 AND PTE_V = 0" unfolding E(4) by (rule swapped_pte_bits(1))
  ultimately show ?thesis using M(1) E(1) unfolding t_def by blast
qed

text \<open>
  (C34) A user program can stop the kernel: a page fault at an address of \<open>MAXVA\<close> or above reaches \<open>walk\<close>, which panics,
  before anything has compared the address with the size of the process.
\<close>

theorem page_fault_above_MAXVA_panics: "MAXVA \<le> stval \<Longrightarrow> page_fault p stval r s = Inl (Panic ''walk'')"
proof -
  assume a: "MAXVA \<le> stval"
  have "2 ^ 38 div 4096 * 4096 \<le> unat stval div 4096 * 4096" using a by (intro mult_le_mono1 div_le_mono) (simp add: word_le_nat_alt)
  then have "MAXVA \<le> PGROUNDDOWN stval" by (simp add: word_le_nat_alt unat_PGROUNDDOWN)
  then show ?thesis by (simp add: page_fault_def walk_def Let_def)
qed

theorem page_fault_above_MAXVA_panics_witness: "page_fault 0 (2 * MAXVA) True boot_kstate = Inl (Panic ''walk'')"
  by (rule page_fault_above_MAXVA_panics) simp

end
