(* ===== verification/Fs.thy ===== *)
theory Fs
  imports Vm
begin

text \<open>
  The file system (\<^verbatim>\<open>kernel/fs.c\<close>, \<^verbatim>\<open>kernel/fs.h\<close>): block bitmap, inodes, file contents,
  directories and path names, on top of the log and the buffer cache.

  A \<^verbatim>\<open>struct inode *\<close> is the index of the entry in \<^verbatim>\<open>itable.inode\<close>; where the code can return the
  null pointer it is \<open>None\<close>. The fields of type \<^verbatim>\<open>short\<close> are 16-bit words. Path names and path
  elements are C strings: the list of the bytes before the terminating NUL. What the code prints
  on the console is not modelled here.

  The data of a buffer is \<open>b_data\<close>, not part of \<open>mem\<close>. The routines that copy between a buffer and
  user memory take the address of the buffer's data, \<open>bdata s b\<close>, which the linker fixes; the model
  lays the data out there before the copy, and takes it back after a copy into the buffer.
\<close>

section \<open>State\<close>

record superblock =
  sb_magic :: u32
  sb_size :: u32
  sb_nblocks :: u32
  sb_ninodes :: u32
  sb_nlog :: u32
  sb_logstart :: u32
  sb_inodestart :: u32
  sb_bmapstart :: u32

record inode =
  i_dev :: u32
  i_inum :: u32
  i_ref :: int
  i_lock :: sleeplock
  i_valid :: bool
  i_type :: u16
  i_major :: u16
  i_minor :: u16
  i_nlink :: u16
  i_size :: u32
  i_addrs :: "u32 list"

record stat =
  st_dev :: int
  st_ino :: u32
  st_type :: u16
  st_nlink :: u16
  st_size :: u64

record fstate = vstate +
  sb :: superblock
  itable :: "inode list"
  bdata :: "nat \<Rightarrow> u64"
  de_addr :: u64   \<comment> \<open>where the local variable \<^verbatim>\<open>struct dirent de\<close> is on the kernel stack\<close>

abbreviation (input) FSMAGIC :: u32 where "FSMAGIC \<equiv> 0x10203040"
abbreviation (input) ROOTINO :: u32 where "ROOTINO \<equiv> 1"
abbreviation (input) NDIRECT :: nat where "NDIRECT \<equiv> 12"
abbreviation (input) NINDIRECT :: nat where "NINDIRECT \<equiv> 256"
abbreviation (input) MAXFILE :: nat where "MAXFILE \<equiv> 268"
abbreviation (input) IPB :: nat where "IPB \<equiv> 16"
abbreviation (input) BPB :: nat where "BPB \<equiv> 8192"
abbreviation (input) DIRSIZ :: nat where "DIRSIZ \<equiv> 14"
abbreviation (input) DIRENT :: nat where "DIRENT \<equiv> 16"
abbreviation (input) T_DIR :: u16 where "T_DIR \<equiv> 1"
abbreviation (input) T_FILE :: u16 where "T_FILE \<equiv> 2"
abbreviation (input) T_DEVICE :: u16 where "T_DEVICE \<equiv> 3"

definition IBLOCK :: "u32 \<Rightarrow> superblock \<Rightarrow> u32" where
  "IBLOCK i sbl = i div 16 + sb_inodestart sbl"

definition BBLOCK :: "u32 \<Rightarrow> superblock \<Rightarrow> u32" where
  "BBLOCK b sbl = b div 8192 + sb_bmapstart sbl"

definition upd_inode :: "nat \<Rightarrow> (inode \<Rightarrow> inode) \<Rightarrow> 'a fstate_scheme \<Rightarrow> 'a fstate_scheme" where
  "upd_inode i f s = s\<lparr>itable := (itable s)[i := f (itable s ! i)]\<rparr>"

section \<open>The super block and the bitmap\<close>

definition get_superblock :: "block \<Rightarrow> superblock" where
  "get_superblock d =
     \<lparr>sb_magic = get32 d 0, sb_size = get32 d 4, sb_nblocks = get32 d 8, sb_ninodes = get32 d 12,
      sb_nlog = get32 d 16, sb_logstart = get32 d 20, sb_inodestart = get32 d 24, sb_bmapstart = get32 d 28\<rparr>"

definition readsb :: "u32 \<Rightarrow> 'a fstate_scheme \<Rightarrow> 'a fstate_scheme res" where
  "readsb dev s =
     rbind (bread dev 1 s) (\<lambda>(bp, s). brelse bp (s\<lparr>sb := get_superblock (b_data (bufs s ! bp))\<rparr>))"

definition bzero :: "u32 \<Rightarrow> u32 \<Rightarrow> 'a fstate_scheme \<Rightarrow> 'a fstate_scheme res" where
  "bzero dev bno s =
     rbind (bread dev bno s) (\<lambda>(bp, s).
     rbind (log_write bp (set_data bp (replicate BSIZE 0) s)) (\<lambda>s. brelse bp s))"

text \<open>The mask \<^verbatim>\<open>1 << (bi % 8)\<close> in the byte \<open>bi / 8\<close> of a bitmap block.\<close>

definition bit_mask :: "nat \<Rightarrow> byte" where
  "bit_mask bi = push_bit (bi mod 8) 1"

definition bit_free :: "block \<Rightarrow> nat \<Rightarrow> bool" where
  "bit_free d bi \<longleftrightarrow> d ! (bi div 8) AND bit_mask bi = 0"

text \<open>
  The outer loop of \<^verbatim>\<open>balloc\<close> over the first block number of every bitmap block (\<^verbatim>\<open>b\<close> is an \<^verbatim>\<open>int\<close>,
  so the size of the file system is taken to be below \<open>2 ^ 31\<close>), with its inner loop as \<open>find\<close>.
\<close>

fun balloc_loop :: "u32 \<Rightarrow> nat list \<Rightarrow> 'a fstate_scheme \<Rightarrow> (u32 \<times> 'a fstate_scheme) res" where
  "balloc_loop dev [] s = Inr (0, s)"
| "balloc_loop dev (b # bs) s =
     rbind (bread dev (BBLOCK (of_nat b) (sb s)) s) (\<lambda>(bp, s).
       let d = b_data (bufs s ! bp) in
       case find (bit_free d) [0..<min BPB (unat (sb_size (sb s)) - b)] of
         Some bi \<Rightarrow>
           rbind (log_write bp (set_data bp (d[bi div 8 := d ! (bi div 8) OR bit_mask bi]) s)) (\<lambda>s.
           rbind (brelse bp s) (\<lambda>s.
           rbind (bzero dev (of_nat (b + bi)) s) (\<lambda>s. Inr (of_nat (b + bi), s))))
       | None \<Rightarrow> rbind (brelse bp s) (balloc_loop dev bs))"

definition balloc :: "u32 \<Rightarrow> 'a fstate_scheme \<Rightarrow> (u32 \<times> 'a fstate_scheme) res" where
  "balloc dev s =
     balloc_loop dev (map (\<lambda>k. k * BPB) [0..<(unat (sb_size (sb s)) + (BPB - 1)) div BPB]) s"

definition bfree :: "u32 \<Rightarrow> u32 \<Rightarrow> 'a fstate_scheme \<Rightarrow> 'a fstate_scheme res" where
  "bfree dev b s =
     rbind (bread dev (BBLOCK b (sb s)) s) (\<lambda>(bp, s).
       let d = b_data (bufs s ! bp); bi = unat b mod BPB in
       rbind (panic_if (bit_free d bi) ''freeing free block'') (\<lambda>_.
       rbind (log_write bp (set_data bp (d[bi div 8 := d ! (bi div 8) AND NOT (bit_mask bi)]) s)) (\<lambda>s.
         brelse bp s)))"

section \<open>Inodes\<close>

definition iinit :: "'a fstate_scheme \<Rightarrow> 'a fstate_scheme" where
  "iinit s = s\<lparr>itable := map (\<lambda>ip. ip\<lparr>i_lock := initsleeplock\<rparr>) (itable s)\<rparr>"

text \<open>The search of \<^verbatim>\<open>iget\<close>: the entry that holds the inode, and the first empty entry before it.\<close>

fun iget_scan :: "u32 \<Rightarrow> u32 \<Rightarrow> inode list \<Rightarrow> nat \<Rightarrow> nat option \<Rightarrow> nat option \<times> nat option" where
  "iget_scan dev inum [] i emp = (None, emp)"
| "iget_scan dev inum (ip # ips) i emp =
     (if i_ref ip > 0 \<and> i_dev ip = dev \<and> i_inum ip = inum then (Some i, emp)
      else iget_scan dev inum ips (Suc i) (if emp = None \<and> i_ref ip = 0 then Some i else emp))"

definition iget :: "u32 \<Rightarrow> u32 \<Rightarrow> 'a fstate_scheme \<Rightarrow> (nat \<times> 'a fstate_scheme) res" where
  "iget dev inum s =
     (case iget_scan dev inum (itable s) 0 None of
        (Some i, _) \<Rightarrow> Inr (i, upd_inode i (\<lambda>ip. ip\<lparr>i_ref := i_ref ip + 1\<rparr>) s)
      | (None, None) \<Rightarrow> Inl (Panic ''iget: no inodes'')
      | (None, Some i) \<Rightarrow>
          Inr (i, upd_inode i (\<lambda>ip. ip\<lparr>i_dev := dev, i_inum := inum, i_ref := 1, i_valid := False\<rparr>) s))"

definition idup :: "nat \<Rightarrow> 'a fstate_scheme \<Rightarrow> nat \<times> 'a fstate_scheme" where
  "idup i s = (i, upd_inode i (\<lambda>ip. ip\<lparr>i_ref := i_ref ip + 1\<rparr>) s)"

text \<open>The byte offset of inode \<open>inum\<close> in its block (64 bytes each), and the fields there.\<close>

definition dinode_off :: "u32 \<Rightarrow> nat" where
  "dinode_off inum = 64 * (unat inum mod IPB)"

fun ialloc_loop :: "u32 \<Rightarrow> u16 \<Rightarrow> nat list \<Rightarrow> 'a fstate_scheme \<Rightarrow> (nat option \<times> 'a fstate_scheme) res" where
  "ialloc_loop dev type [] s = Inr (None, s)"
| "ialloc_loop dev type (inum # inums) s =
     rbind (bread dev (IBLOCK (of_nat inum) (sb s)) s) (\<lambda>(bp, s).
       let d = b_data (bufs s ! bp); dip = dinode_off (of_nat inum) in
       if get16 d dip = 0 then
         rbind (log_write bp (set_data bp (put16 (put_bytes d dip (replicate 64 0)) dip type) s)) (\<lambda>s.
         rbind (brelse bp s) (\<lambda>s.
         rbind (iget dev (of_nat inum) s) (\<lambda>(i, s). Inr (Some i, s))))
       else rbind (brelse bp s) (ialloc_loop dev type inums))"

definition ialloc :: "u32 \<Rightarrow> u16 \<Rightarrow> 'a fstate_scheme \<Rightarrow> (nat option \<times> 'a fstate_scheme) res" where
  "ialloc dev type s = ialloc_loop dev type [1..<unat (sb_ninodes (sb s))] s"

definition put_dinode :: "inode \<Rightarrow> block \<Rightarrow> block" where
  "put_dinode ip d =
     (let dip = dinode_off (i_inum ip);
          d = put16 d dip (i_type ip);
          d = put16 d (dip + 2) (i_major ip);
          d = put16 d (dip + 4) (i_minor ip);
          d = put16 d (dip + 6) (i_nlink ip);
          d = put32 d (dip + 8) (i_size ip)
      in fold (\<lambda>j d. put32 d (dip + 12 + 4 * j) (i_addrs ip ! j)) [0..<NDIRECT + 1] d)"

definition iupdate :: "nat \<Rightarrow> 'a fstate_scheme \<Rightarrow> 'a fstate_scheme res" where
  "iupdate i s =
     rbind (bread (i_dev (itable s ! i)) (IBLOCK (i_inum (itable s ! i)) (sb s)) s) (\<lambda>(bp, s).
     rbind (log_write bp (set_data bp (put_dinode (itable s ! i) (b_data (bufs s ! bp))) s)) (\<lambda>s. brelse bp s))"

definition get_dinode :: "block \<Rightarrow> inode \<Rightarrow> inode" where
  "get_dinode d ip =
     (let dip = dinode_off (i_inum ip)
      in ip\<lparr>i_type := get16 d dip, i_major := get16 d (dip + 2), i_minor := get16 d (dip + 4),
            i_nlink := get16 d (dip + 6), i_size := get32 d (dip + 8),
            i_addrs := map (\<lambda>j. get32 d (dip + 12 + 4 * j)) [0..<NDIRECT + 1]\<rparr>)"

definition ilock :: "nat \<Rightarrow> 'a fstate_scheme \<Rightarrow> 'a fstate_scheme res" where
  "ilock i s =
     rbind (panic_if (i_ref (itable s ! i) < 1) ''ilock'') (\<lambda>_.
     rbind (acquiresleep (ChInodeLock i) (i_lock (itable s ! i)) s) (\<lambda>l.
       let s = upd_inode i (\<lambda>ip. ip\<lparr>i_lock := l\<rparr>) s in
       if i_valid (itable s ! i) then Inr s
       else rbind (bread (i_dev (itable s ! i)) (IBLOCK (i_inum (itable s ! i)) (sb s)) s) (\<lambda>(bp, s).
         let s = upd_inode i (get_dinode (b_data (bufs s ! bp))) s in
         rbind (brelse bp s) (\<lambda>s.
           let s = upd_inode i (\<lambda>ip. ip\<lparr>i_valid := True\<rparr>) s in
           rbind (panic_if (i_type (itable s ! i) = 0) ''ilock: no type'') (\<lambda>_. Inr s)))))"

text \<open>\<^verbatim>\<open>releasesleep\<close> applied to the lock of an inode.\<close>

definition unlock_inode :: "nat \<Rightarrow> 'a fstate_scheme \<Rightarrow> 'a fstate_scheme" where
  "unlock_inode i s =
     (let (l, s) = releasesleep (ChInodeLock i) (i_lock (itable s ! i)) s
      in upd_inode i (\<lambda>ip. ip\<lparr>i_lock := l\<rparr>) s)"

definition iunlock :: "nat \<Rightarrow> 'a fstate_scheme \<Rightarrow> 'a fstate_scheme res" where
  "iunlock i s =
     rbind (holdingsleep (i_lock (itable s ! i)) s) (\<lambda>h.
     rbind (panic_if (\<not> h \<or> i_ref (itable s ! i) < 1) ''iunlock'') (\<lambda>_. Inr (unlock_inode i s)))"

text \<open>The two loops of \<^verbatim>\<open>itrunc\<close>: the direct blocks, and the blocks listed in the indirect block \<open>a\<close>.\<close>

definition trunc_direct :: "nat \<Rightarrow> nat \<Rightarrow> 'a fstate_scheme \<Rightarrow> 'a fstate_scheme res" where
  "trunc_direct i j s =
     (if i_addrs (itable s ! i) ! j \<noteq> 0 then
        rbind (bfree (i_dev (itable s ! i)) (i_addrs (itable s ! i) ! j) s) (\<lambda>s.
          Inr (upd_inode i (\<lambda>ip. ip\<lparr>i_addrs := (i_addrs ip)[j := 0]\<rparr>) s))
      else Inr s)"

definition trunc_indirect :: "u32 \<Rightarrow> nat \<Rightarrow> nat \<Rightarrow> 'a fstate_scheme \<Rightarrow> 'a fstate_scheme res" where
  "trunc_indirect dev bp j s =
     (let a = get32 (b_data (bufs s ! bp)) (4 * j) in if a \<noteq> 0 then bfree dev a s else Inr s)"

definition itrunc :: "nat \<Rightarrow> 'a fstate_scheme \<Rightarrow> 'a fstate_scheme res" where
  "itrunc i s =
     rbind (rfold (trunc_direct i) [0..<NDIRECT] s) (\<lambda>s.
     rbind (if i_addrs (itable s ! i) ! NDIRECT \<noteq> 0 then
              let dev = i_dev (itable s ! i) in
              rbind (bread dev (i_addrs (itable s ! i) ! NDIRECT) s) (\<lambda>(bp, s).
              rbind (rfold (trunc_indirect dev bp) [0..<NINDIRECT] s) (\<lambda>s.
              rbind (brelse bp s) (\<lambda>s.
              rbind (bfree dev (i_addrs (itable s ! i) ! NDIRECT) s) (\<lambda>s.
                Inr (upd_inode i (\<lambda>ip. ip\<lparr>i_addrs := (i_addrs ip)[NDIRECT := 0]\<rparr>) s)))))
            else Inr s) (\<lambda>s.
       iupdate i (upd_inode i (\<lambda>ip. ip\<lparr>i_size := 0\<rparr>) s)))"

definition iput :: "nat \<Rightarrow> 'a fstate_scheme \<Rightarrow> 'a fstate_scheme res" where
  "iput i s =
     (let ip = itable s ! i in
      rbind (if i_ref ip = 1 \<and> i_valid ip \<and> i_nlink ip = 0 then
               rbind (acquiresleep (ChInodeLock i) (i_lock ip) s) (\<lambda>l.
               rbind (itrunc i (upd_inode i (\<lambda>ip. ip\<lparr>i_lock := l\<rparr>) s)) (\<lambda>s.
               rbind (iupdate i (upd_inode i (\<lambda>ip. ip\<lparr>i_type := 0\<rparr>) s)) (\<lambda>s.
                 Inr (unlock_inode i (upd_inode i (\<lambda>ip. ip\<lparr>i_valid := False\<rparr>) s)))))
             else Inr s) (\<lambda>s.
        Inr (upd_inode i (\<lambda>ip. ip\<lparr>i_ref := i_ref ip - 1\<rparr>) s)))"

definition iunlockput :: "nat \<Rightarrow> 'a fstate_scheme \<Rightarrow> 'a fstate_scheme res" where
  "iunlockput i s = rbind (iunlock i s) (iput i)"

definition ireclaim_one :: "u32 \<Rightarrow> nat \<Rightarrow> 'a fstate_scheme \<Rightarrow> 'a fstate_scheme res" where
  "ireclaim_one dev inum s =
     rbind (bread dev (IBLOCK (of_nat inum) (sb s)) s) (\<lambda>(bp, s).
       let d = b_data (bufs s ! bp); dip = dinode_off (of_nat inum) in
       rbind (if get16 d dip \<noteq> 0 \<and> get16 d (dip + 6) = 0
              then rbind (iget dev (of_nat inum) s) (\<lambda>(i, s). Inr (Some i, s)) else Inr (None, s)) (\<lambda>(ip, s).
       rbind (brelse bp s) (\<lambda>s.
         case ip of
           None \<Rightarrow> Inr s
         | Some i \<Rightarrow>
             rbind (begin_op s) (\<lambda>s. rbind (ilock i s) (\<lambda>s. rbind (iunlock i s) (\<lambda>s.
             rbind (iput i s) (\<lambda>s. end_op s)))))))"

definition ireclaim :: "u32 \<Rightarrow> 'a fstate_scheme \<Rightarrow> 'a fstate_scheme res" where
  "ireclaim dev s = rfold (ireclaim_one dev) [1..<unat (sb_ninodes (sb s))] s"

definition fsinit :: "u32 \<Rightarrow> 'a fstate_scheme \<Rightarrow> 'a fstate_scheme res" where
  "fsinit dev s =
     rbind (readsb dev s) (\<lambda>s.
     rbind (panic_if (sb_magic (sb s) \<noteq> FSMAGIC) ''invalid file system'') (\<lambda>_.
     rbind (initlog dev (sint (sb_logstart (sb s))) s) (\<lambda>s. ireclaim dev s)))"

section \<open>File contents\<close>

definition bmap :: "nat \<Rightarrow> u32 \<Rightarrow> 'a fstate_scheme \<Rightarrow> (u32 \<times> 'a fstate_scheme) res" where
  "bmap i bn s =
     (let dev = i_dev (itable s ! i);
          ensure = (\<lambda>j s.
            if i_addrs (itable s ! i) ! j \<noteq> 0 then Inr (i_addrs (itable s ! i) ! j, s)
            else rbind (balloc dev s) (\<lambda>(addr, s).
              if addr = 0 then Inr (0, s)
              else Inr (addr, upd_inode i (\<lambda>ip. ip\<lparr>i_addrs := (i_addrs ip)[j := addr]\<rparr>) s)))
      in if bn < of_nat NDIRECT then ensure (unat bn) s
         else let bn = bn - of_nat NDIRECT in
           if bn < of_nat NINDIRECT then
             rbind (ensure NDIRECT s) (\<lambda>(addr, s).
               if addr = 0 then Inr (0, s)
               else rbind (bread dev addr s) (\<lambda>(bp, s).
                 let addr = get32 (b_data (bufs s ! bp)) (4 * unat bn) in
                 if addr \<noteq> 0 then rbind (brelse bp s) (\<lambda>s. Inr (addr, s))
                 else rbind (balloc dev s) (\<lambda>(addr, s).
                   rbind (if addr \<noteq> 0
                          then log_write bp (set_data bp (put32 (b_data (bufs s ! bp)) (4 * unat bn) addr) s)
                          else Inr s) (\<lambda>s.
                   rbind (brelse bp s) (\<lambda>s. Inr (addr, s))))))
           else Inl (Panic ''bmap: out of range''))"

definition stati :: "nat \<Rightarrow> 'a fstate_scheme \<Rightarrow> stat" where
  "stati i s =
     (let ip = itable s ! i
      in \<lparr>st_dev = sint (i_dev ip), st_ino = i_inum ip, st_type = i_type ip, st_nlink = i_nlink ip,
          st_size = ucast (i_size ip)\<rparr>)"

text \<open>
  \<^verbatim>\<open>either_copyout\<close> and \<^verbatim>\<open>either_copyin\<close> (\<^verbatim>\<open>kernel/proc.c\<close>) with \<open>len\<close> bytes at offset \<open>k\<close> of buffer \<open>bp\<close>.
  A failing copy into a buffer can have changed the first bytes of it.
\<close>

definition stage :: "nat \<Rightarrow> 'a fstate_scheme \<Rightarrow> 'a fstate_scheme" where
  "stage bp s = s\<lparr>mem := mem_write (mem s) (bdata s bp) (b_data (bufs s ! bp))\<rparr>"

definition either_copyout :: "bool \<Rightarrow> u64 \<Rightarrow> nat \<Rightarrow> nat \<Rightarrow> nat \<Rightarrow> 'a fstate_scheme \<Rightarrow> (int \<times> 'a fstate_scheme) res" where
  "either_copyout user_dst dst bp k len s =
     (if user_dst then
        rbind (curproc s) (\<lambda>p.
          copyout (pagetable (procs s ! p)) dst (bdata s bp + of_nat k) (of_nat len) (stage bp s))
      else Inr (0, s\<lparr>mem := mem_write (mem s) dst (get_bytes (b_data (bufs s ! bp)) k len)\<rparr>))"

definition either_copyin :: "nat \<Rightarrow> nat \<Rightarrow> bool \<Rightarrow> u64 \<Rightarrow> nat \<Rightarrow> 'a fstate_scheme \<Rightarrow> (int \<times> 'a fstate_scheme) res" where
  "either_copyin bp k user_src src len s =
     (if user_src then
        rbind (curproc s) (\<lambda>p.
        rbind (copyin (pagetable (procs s ! p)) (bdata s bp + of_nat k) src (of_nat len) (stage bp s)) (\<lambda>(r, s).
          Inr (r, set_data bp (mem_read (mem s) (bdata s bp) BSIZE) s)))
      else Inr (0, set_data bp (put_bytes (b_data (bufs s ! bp)) k (mem_read (mem s) src len)) s))"

text \<open>
  The loops of \<^verbatim>\<open>readi\<close> and \<^verbatim>\<open>writei\<close>; every round moves at least one byte, so \<open>n\<close> rounds and one more
  are enough. The result of the reading loop is \<^verbatim>\<open>tot\<close>, that of the writing loop \<^verbatim>\<open>tot\<close> and \<^verbatim>\<open>off\<close>.
\<close>

definition block_chunk :: "u32 \<Rightarrow> u32 \<Rightarrow> u32" where
  "block_chunk off left = (let k = of_nat BSIZE - off mod of_nat BSIZE in if left < k then left else k)"

fun readi_loop ::
  "nat \<Rightarrow> nat \<Rightarrow> bool \<Rightarrow> u64 \<Rightarrow> u32 \<Rightarrow> u32 \<Rightarrow> u32 \<Rightarrow> 'a fstate_scheme \<Rightarrow> (u32 \<times> 'a fstate_scheme) res" where
  "readi_loop 0 i user_dst dst off tot n s = Inl Diverges"
| "readi_loop (Suc fuel) i user_dst dst off tot n s =
     (if tot < n then
        rbind (bmap i (off div of_nat BSIZE) s) (\<lambda>(addr, s).
          if addr = 0 then Inr (tot, s)
          else rbind (bread (i_dev (itable s ! i)) addr s) (\<lambda>(bp, s).
            let m = block_chunk off (n - tot) in
            rbind (either_copyout user_dst dst bp (unat (off mod of_nat BSIZE)) (unat m) s) (\<lambda>(r, s).
            rbind (brelse bp s) (\<lambda>s.
              if r = -1 then Inr (-1, s)
              else readi_loop fuel i user_dst (dst + ucast m) (off + m) (tot + m) n s))))
      else Inr (tot, s))"

definition readi :: "nat \<Rightarrow> bool \<Rightarrow> u64 \<Rightarrow> u32 \<Rightarrow> u32 \<Rightarrow> 'a fstate_scheme \<Rightarrow> (int \<times> 'a fstate_scheme) res" where
  "readi i user_dst dst off n s =
     (let siz = i_size (itable s ! i) in
      if off > siz \<or> off + n < off then Inr (0, s)
      else let n = (if off + n > siz then siz - off else n) in
        rbind (readi_loop (Suc (unat n)) i user_dst dst off 0 n s) (\<lambda>(tot, s). Inr (sint tot, s)))"

fun writei_loop ::
  "nat \<Rightarrow> nat \<Rightarrow> bool \<Rightarrow> u64 \<Rightarrow> u32 \<Rightarrow> u32 \<Rightarrow> u32 \<Rightarrow> 'a fstate_scheme \<Rightarrow> ((u32 \<times> u32) \<times> 'a fstate_scheme) res" where
  "writei_loop 0 i user_src src off tot n s = Inl Diverges"
| "writei_loop (Suc fuel) i user_src src off tot n s =
     (if tot < n then
        rbind (bmap i (off div of_nat BSIZE) s) (\<lambda>(addr, s).
          if addr = 0 then Inr ((tot, off), s)
          else rbind (bread (i_dev (itable s ! i)) addr s) (\<lambda>(bp, s).
            let m = block_chunk off (n - tot) in
            rbind (either_copyin bp (unat (off mod of_nat BSIZE)) user_src src (unat m) s) (\<lambda>(r, s).
              if r = -1 then rbind (brelse bp s) (\<lambda>s. Inr ((tot, off), s))
              else rbind (log_write bp s) (\<lambda>s.
                rbind (brelse bp s) (\<lambda>s.
                  writei_loop fuel i user_src (src + ucast m) (off + m) (tot + m) n s)))))
      else Inr ((tot, off), s))"

definition writei :: "nat \<Rightarrow> bool \<Rightarrow> u64 \<Rightarrow> u32 \<Rightarrow> u32 \<Rightarrow> 'a fstate_scheme \<Rightarrow> (int \<times> 'a fstate_scheme) res" where
  "writei i user_src src off n s =
     (if off > i_size (itable s ! i) \<or> off + n < off then Inr (-1, s)
      else if off + n > of_nat (MAXFILE * BSIZE) then Inr (-1, s)
      else rbind (writei_loop (Suc (unat n)) i user_src src off 0 n s) (\<lambda>((tot, off), s).
        let s = (if off > i_size (itable s ! i) then upd_inode i (\<lambda>ip. ip\<lparr>i_size := off\<rparr>) s else s) in
        rbind (iupdate i s) (\<lambda>s. Inr (sint tot, s))))"

section \<open>Directories\<close>

text \<open>
  \<^verbatim>\<open>strncmp\<close> and \<^verbatim>\<open>strncpy\<close> between a path element (a C string) and the name field of an entry,
  which need not end in NUL; \<open>namecmp_strncmp\<close> relates \<open>namecmp\<close> to the routine on memory.
\<close>

fun namecmp :: "byte list \<Rightarrow> byte list \<Rightarrow> nat \<Rightarrow> int" where
  "namecmp p q 0 = 0"
| "namecmp p q (Suc n) =
     (let c = (case p of [] \<Rightarrow> 0 | x # _ \<Rightarrow> x); d = (case q of [] \<Rightarrow> 0 | y # _ \<Rightarrow> y)
      in if c \<noteq> 0 \<and> c = d then namecmp (tl p) (tl q) n else uint c - uint d)"

definition name_field :: "byte list \<Rightarrow> byte list" where
  "name_field name = take DIRSIZ (name @ replicate DIRSIZ 0)"

definition de_inum :: "'a fstate_scheme \<Rightarrow> u16" where
  "de_inum s = get16 (mem_read (mem s) (de_addr s) DIRENT) 0"

definition de_name :: "'a fstate_scheme \<Rightarrow> byte list" where
  "de_name s = mem_read (mem s) (de_addr s + 2) DIRSIZ"

text \<open>
  The loops over the entries. In \<^verbatim>\<open>dirlookup\<close> the offset is a \<^verbatim>\<open>uint\<close>; the size of a directory is at
  most \<open>MAXFILE * BSIZE\<close>, far from where \<^verbatim>\<open>off += sizeof(de)\<close> would wrap. The result of the lookup is
  the offset and the inode number of the entry.
\<close>

fun dirlookup_loop ::
  "nat list \<Rightarrow> nat \<Rightarrow> byte list \<Rightarrow> 'a fstate_scheme \<Rightarrow> ((nat \<times> u32) option \<times> 'a fstate_scheme) res" where
  "dirlookup_loop [] dp name s = Inr (None, s)"
| "dirlookup_loop (off # offs) dp name s =
     rbind (readi dp False (de_addr s) (of_nat off) (of_nat DIRENT) s) (\<lambda>(r, s).
     rbind (panic_if (r \<noteq> int DIRENT) ''dirlookup read'') (\<lambda>_.
       if de_inum s = 0 then dirlookup_loop offs dp name s
       else if namecmp name (de_name s) DIRSIZ = 0 then Inr (Some (off, ucast (de_inum s)), s)
       else dirlookup_loop offs dp name s))"

text \<open>The byte offsets \<^verbatim>\<open>0, 16, 32, ...\<close> below the size of the directory.\<close>

definition entry_offs :: "nat \<Rightarrow> nat list" where
  "entry_offs siz = map (\<lambda>k. k * DIRENT) [0..<(siz + (DIRENT - 1)) div DIRENT]"

definition dirlookup :: "nat \<Rightarrow> byte list \<Rightarrow> 'a fstate_scheme \<Rightarrow> ((nat \<times> nat) option \<times> 'a fstate_scheme) res" where
  "dirlookup dp name s =
     rbind (panic_if (i_type (itable s ! dp) \<noteq> T_DIR) ''dirlookup not DIR'') (\<lambda>_.
     rbind (dirlookup_loop (entry_offs (unat (i_size (itable s ! dp)))) dp name s) (\<lambda>(r, s).
       case r of
         None \<Rightarrow> Inr (None, s)
       | Some (off, inum) \<Rightarrow> rbind (iget (i_dev (itable s ! dp)) inum s) (\<lambda>(i, s). Inr (Some (i, off), s))))"

text \<open>The first empty entry, or the end of the directory.\<close>

fun dirlink_loop :: "nat list \<Rightarrow> nat \<Rightarrow> nat \<Rightarrow> 'a fstate_scheme \<Rightarrow> (nat \<times> 'a fstate_scheme) res" where
  "dirlink_loop [] e dp s = Inr (e, s)"
| "dirlink_loop (off # offs) e dp s =
     rbind (readi dp False (de_addr s) (of_nat off) (of_nat DIRENT) s) (\<lambda>(r, s).
     rbind (panic_if (r \<noteq> int DIRENT) ''dirlink read'') (\<lambda>_.
       if de_inum s = 0 then Inr (off, s) else dirlink_loop offs e dp s))"

definition dirlink :: "nat \<Rightarrow> byte list \<Rightarrow> u32 \<Rightarrow> 'a fstate_scheme \<Rightarrow> (int \<times> 'a fstate_scheme) res" where
  "dirlink dp name inum s =
     rbind (dirlookup dp name s) (\<lambda>(r, s).
       case r of
         Some (i, _) \<Rightarrow> rbind (iput i s) (\<lambda>s. Inr (-1, s))
       | None \<Rightarrow>
           let offs = entry_offs (unat (i_size (itable s ! dp))) in
           rbind (dirlink_loop offs (length offs * DIRENT) dp s) (\<lambda>(off, s).
             let s = s\<lparr>mem := mem_write (mem s) (de_addr s + 2) (name_field name)\<rparr>;
                 s = s\<lparr>mem := mem_write (mem s) (de_addr s) (le16 (ucast inum))\<rparr> in
             rbind (writei dp False (de_addr s) (of_nat off) (of_nat DIRENT) s) (\<lambda>(r, s).
               Inr (if r \<noteq> int DIRENT then -1 else 0, s))))"

section \<open>Path names\<close>

abbreviation (input) SLASH :: byte where "SLASH \<equiv> 47"

definition skipelem :: "byte list \<Rightarrow> (byte list \<times> byte list) option" where
  "skipelem pth =
     (let pth = dropWhile (\<lambda>c. c = SLASH) pth in
      if pth = [] then None
      else let name = takeWhile (\<lambda>c. c \<noteq> SLASH) pth;
               pth = dropWhile (\<lambda>c. c \<noteq> SLASH) pth
           in Some (dropWhile (\<lambda>c. c = SLASH) pth, take DIRSIZ name))"

lemma skipelem_shorter: "skipelem pth = Some (rest, name) \<Longrightarrow> length rest < length pth"
proof -
  assume a: "skipelem pth = Some (rest, name)"
  let ?p = "dropWhile (\<lambda>c. c = SLASH) pth"
  have ne: "?p \<noteq> []" and r: "rest = dropWhile (\<lambda>c. c = SLASH) (dropWhile (\<lambda>c. c \<noteq> SLASH) ?p)"
    using a by (auto simp: skipelem_def Let_def split: if_splits)
  have "hd ?p \<noteq> SLASH" using ne by (rule hd_dropWhile)
  then have "length (dropWhile (\<lambda>c. c \<noteq> SLASH) ?p) < length ?p"
    using ne by (cases ?p) (auto intro: le_imp_less_Suc length_dropWhile_le)
  then show ?thesis
    using r length_dropWhile_le [of "\<lambda>c. c = SLASH"] by (meson order.strict_trans1 order.strict_trans2)
qed

function namex_loop ::
  "byte list \<Rightarrow> bool \<Rightarrow> byte list \<Rightarrow> nat \<Rightarrow> 'a fstate_scheme \<Rightarrow> ((nat option \<times> byte list) \<times> 'a fstate_scheme) res" where
  "namex_loop pth par name ip s =
     (case skipelem pth of
        None \<Rightarrow>
          if par then rbind (iput ip s) (\<lambda>s. Inr ((None, name), s)) else Inr ((Some ip, name), s)
      | Some (pth', name) \<Rightarrow>
          rbind (ilock ip s) (\<lambda>s.
            if i_type (itable s ! ip) \<noteq> T_DIR then rbind (iunlockput ip s) (\<lambda>s. Inr ((None, name), s))
            else if par \<and> pth' = [] then rbind (iunlock ip s) (\<lambda>s. Inr ((Some ip, name), s))
            else rbind (dirlookup ip name s) (\<lambda>(nxt, s).
              rbind (iunlockput ip s) (\<lambda>s.
                case nxt of
                  None \<Rightarrow> Inr ((None, name), s)
                | Some (i, _) \<Rightarrow> namex_loop pth' par name i s))))"
  by pat_completeness auto
termination
  by (relation "measure (\<lambda>(pth, _). length pth)") (auto dest: skipelem_shorter)

declare namex_loop.simps [simp del]

text \<open>The second component of the result is what the buffer \<^verbatim>\<open>name\<close> holds at the end.\<close>

definition namex :: "byte list \<Rightarrow> bool \<Rightarrow> 'a fstate_scheme \<Rightarrow> ((nat option \<times> byte list) \<times> 'a fstate_scheme) res" where
  "namex pth par s =
     rbind (if pth \<noteq> [] \<and> hd pth = SLASH then iget (of_nat ROOTDEV) ROOTINO s
            else rbind (curproc s) (\<lambda>p.
              case cwd (procs s ! p) of
                None \<Rightarrow> Inl (Panic ''kerneltrap'')
              | Some i \<Rightarrow> Inr (idup i s))) (\<lambda>(ip, s).
       namex_loop pth par [] ip s)"

definition namei :: "byte list \<Rightarrow> 'a fstate_scheme \<Rightarrow> (nat option \<times> 'a fstate_scheme) res" where
  "namei pth s = rbind (namex pth False s) (\<lambda>((ip, _), s). Inr (ip, s))"

definition nameiparent :: "byte list \<Rightarrow> 'a fstate_scheme \<Rightarrow> ((nat option \<times> byte list) \<times> 'a fstate_scheme) res" where
  "nameiparent pth s = namex pth True s"

end
