(* ===== verification/FsTxn.thy ===== *)
theory FsTxn
  imports Fs LogCrash
begin

text \<open>
  How the file system uses the cache and the log. Between two calls of the cache, a file system
  call holds the buffers of a few blocks (the map \<open>H\<close> from block numbers to buffers); the blocks it has
  modified are in the log's list and stay in the cache until the commit. Every other buffer is free and
  agrees with the disk. Reading, storing into and releasing a block are shown to keep this invariant, so
  that the theories above need to look at the contents \<open>view\<close> of the blocks only.
\<close>

section \<open>The invariant\<close>

definition logged :: "'a lstate_scheme \<Rightarrow> u32 set" where
  "logged s = set (take (nat (lh_n s)) (lh_block s))"

definition fs_ok :: "(u32 \<Rightarrow> nat option) \<Rightarrow> 'a fstate_scheme \<Rightarrow> bool" where
  "fs_ok H s \<longleftrightarrow> running s \<and> length (lh_block s) = LOGBLOCKS \<and> 0 \<le> lh_n s \<and> lh_n s \<le> int LOGBLOCKS \<and>
     distinct (take (nat (lh_n s)) (lh_block s)) \<and>
     (\<forall>n. refs s n = (if n \<in> logged s then 1 else 0) + (if H n = None then 0 else 1)) \<and>
     (\<forall>n. blk_lock s n = (if H n = None then initsleeplock else mylock s)) \<and>
     (\<forall>n b. H n = Some b \<longrightarrow> held s n b) \<and>
     (\<forall>n. n \<notin> logged s \<longrightarrow> view s n = medium s (unat n))"

text \<open>Buffers in use; \<open>NBUF\<close> bounds their number.\<close>

definition in_use :: "(u32 \<Rightarrow> nat option) \<Rightarrow> 'a lstate_scheme \<Rightarrow> nat" where
  "in_use H s = card (logged s \<union> dom H)"

text \<open>The rest of the state, which the cache and the log leave alone.\<close>

definition fs_same :: "'a fstate_scheme \<Rightarrow> 'a fstate_scheme \<Rightarrow> bool" where
  "fs_same s s' \<longleftrightarrow> mem s' = mem s \<and> sb s' = sb s \<and> itable s' = itable s \<and> bdata s' = bdata s \<and>
     de_addr s' = de_addr s \<and> mylock s' = mylock s \<and> myproc s' = myproc s \<and>
     log_start s' = log_start s \<and> log_dev s' = log_dev s \<and> outstanding s' = outstanding s"

lemma fs_same_refl [simp]: "fs_same s s"
  by (simp add: fs_same_def)

lemma fs_same_trans [trans]: "fs_same s s' \<Longrightarrow> fs_same s' s'' \<Longrightarrow> fs_same s s''"
  by (simp add: fs_same_def)

definition fs_view :: "'a fstate_scheme \<Rightarrow> memory \<times> superblock \<times> inode list \<times> (nat \<Rightarrow> u64) \<times> u64" where
  "fs_view s = (mem s, sb s, itable s, bdata s, de_addr s)"

lemma upd_buf_fs [simp]: "fs_view (upd_buf b f s) = fs_view s"
  by (simp add: fs_view_def upd_buf_def)

lemma wakeup_fs [simp]: "fs_view (wakeup c s) = fs_view s"
  by (simp add: fs_view_def wakeup_def)

lemma disk_rw_fs [simp]: "fs_view (disk_rw b w s) = fs_view s"
  by (simp add: fs_view_def disk_rw_def upd_buf_def Let_def)

lemma link_fs [simp]: "fs_view (link_front b s) = fs_view s" "fs_view (unlink b s) = fs_view s"
  by (simp_all add: link_front_def unlink_def Let_def)

lemma lock_buf_fs: "lock_buf b s = Inr (c, s') \<Longrightarrow> fs_view s' = fs_view s"
  by (auto simp: lock_buf_def)

lemma bread_fs: "bread d n s = Inr (b, s') \<Longrightarrow> fs_view s' = fs_view s"
  by (auto simp: bread_def bget_def split: option.splits if_splits dest!: lock_buf_fs)

lemma brelse_fs: "brelse b s = Inr s' \<Longrightarrow> fs_view s' = fs_view s"
  by (auto simp: brelse_def releasesleep_def Let_def split: if_splits)

lemma set_data_fs [simp]: "fs_view (set_data b d s) = fs_view s"
  by (simp add: set_data_def)

lemma log_write_fs: "log_write b s = Inr s' \<Longrightarrow> fs_view s' = fs_view s"
  by (auto simp: log_write_def bpin_def Let_def fs_view_def upd_buf_def split: if_splits)

lemma fs_sameI: "fs_view s' = fs_view s \<Longrightarrow> same_env s s' \<Longrightarrow> fs_same s s'"
  by (simp add: fs_view_def fs_same_def same_env_def)

lemma card_logged: "fs_ok H s \<Longrightarrow> card (logged s) = nat (lh_n s)"
  by (auto simp: fs_ok_def logged_def distinct_card)

lemma lh_n_logged: "fs_ok H s \<Longrightarrow> lh_n s = int (card (logged s))"
  using card_logged [of H s] by (auto simp: fs_ok_def)

lemma fs_ok_busy: "fs_ok H s \<Longrightarrow> busy s = logged s \<union> dom H"
  by (auto simp: fs_ok_def busy_def dom_def split: if_splits)

lemma lh_n_in_use: "fs_ok H s \<Longrightarrow> lh_n s \<le> int (in_use H s)"
proof -
  assume a: "fs_ok H s"
  have "card (logged s) \<le> in_use H s" unfolding in_use_def by (intro card_mono finite) simp
  then show ?thesis using card_logged [OF a] a by (simp add: fs_ok_def)
qed

lemma logged_env: "same_env s s' \<Longrightarrow> logged s' = logged s"
  by (simp add: logged_def same_env_def)

section \<open>The operations\<close>

lemma fs_bread:
  assumes "fs_ok H s" "H n = None" "n \<in> logged s \<or> in_use H s < NBUF"
  obtains b s' where "bread (of_nat ROOTDEV) n s = Inr (b, s')" "fs_ok (H(n \<mapsto> b)) s'" "b_data (bufs s' ! b) = view s n"
    "view s' = view s" "logged s' = logged s" "fs_same s s'"
proof -
  have r: "running s" "\<not> slocked (blk_lock s n)" "refs s n + 1 < 2 ^ 32"
    using assms(1,2) by (auto simp: fs_ok_def initsleeplock_def)
  have u: "refs s n = 0 \<Longrightarrow> card (busy s) < NBUF"
    using assms fs_ok_busy [OF assms(1)] by (auto simp: fs_ok_def in_use_def split: if_splits)
  obtain b s' where s': "bread (of_nat ROOTDEV) n s = Inr (b, s')" "running s'" "held s' n b" "view s' = view s"
    "refs s' = (refs s)(n := refs s n + 1)" "blk_lock s' = (blk_lock s)(n := mylock s)"
    "medium s' = medium s" "dwrites s' = dwrites s" "same_env s s'" "\<forall>m c. m \<noteq> n \<longrightarrow> held s m c \<longrightarrow> held s' m c"
    by (rule log_bread [OF r u])
  note l = logged_env [OF s'(9)]
  have ok: "fs_ok (H(n \<mapsto> b)) s'"
    using assms(1,2) s'(2-7,9,10) l by (auto simp: fs_ok_def same_env_def)
  have "b_data (bufs s' ! b) = view s n" using held_data [OF _ s'(3)] s'(2,4) by (simp add: running_def)
  then show thesis using that [OF s'(1) ok _ s'(4) l] fs_sameI [OF bread_fs [OF s'(1)] s'(9)] by blast
qed

lemma fs_brelse:
  assumes "fs_ok H s" "H n = Some b"
  obtains s' where "brelse b s = Inr s'" "fs_ok (H(n := None)) s'" "view s' = view s" "logged s' = logged s" "fs_same s s'"
proof -
  have r: "running s" "held s n b" "refs s n = 1 \<Longrightarrow> view s n = medium s (unat n)"
    using assms by (auto simp: fs_ok_def split: if_splits)
  obtain s' where s': "brelse b s = Inr s'" "running s'" "view s' = view s" "refs s' = (refs s)(n := refs s n - 1)"
    "blk_lock s' = (blk_lock s)(n := initsleeplock)" "medium s' = medium s" "dwrites s' = dwrites s"
    "same_env s s'" "\<forall>m c. m \<noteq> n \<longrightarrow> held s m c \<longrightarrow> held s' m c"
    by (rule log_brelse [OF r])
  note l = logged_env [OF s'(8)]
  have "fs_ok (H(n := None)) s'"
    using assms s'(2-6,8,9) l by (auto simp: fs_ok_def same_env_def)
  then show thesis using that [OF s'(1) _ s'(3) l] fs_sameI [OF brelse_fs [OF s'(1)] s'(8)] by blast
qed

lemma nth_upd_same: "g (f (xs ! i)) = g (xs ! i) \<Longrightarrow> g (xs[i := f (xs ! i)] ! c) = g (xs ! c)"
  by (cases "c = i"; cases "i < length xs") (auto simp: list_update_beyond)

text \<open>\<^verbatim>\<open>log_write\<close> changes no buffer but for the reference count.\<close>

lemma log_write_env:
  assumes "log_write b s = Inr s'"
  shows "mylock s' = mylock s" "myproc s' = myproc s" "outstanding s' = outstanding s" "log_start s' = log_start s"
    "log_dev s' = log_dev s" "cached_in s' = cached_in s" "b_valid (bufs s' ! c) = b_valid (bufs s ! c)"
  using assms
  by (auto simp: log_write_def bpin_def Let_def mylock_def myproc_def mycpu_def upd_buf_def cached_in_def
        fun_eq_iff nth_upd_same split: if_splits)

lemma log_write_absorb:
  assumes "find (\<lambda>i. lh_block s ! i = b_blockno (bufs s ! b)) [0..<nat (lh_n s)] = Some i" "lh_n s < int LOGBLOCKS"
    "1 \<le> outstanding s"
  shows "log_write b s = Inr s"
proof -
  have i: "i < nat (lh_n s)" "lh_block s ! i = b_blockno (bufs s ! b)" using assms(1) by (auto simp: find_Some_iff)
  then have "(lh_block s)[i := b_blockno (bufs s ! b)] = lh_block s" by (metis list_update_id)
  then show ?thesis using assms i(1) by (simp add: log_write_def Let_def)
qed

lemma fs_log_write:
  assumes "running s" "held s n b" "length (lh_block s) = LOGBLOCKS" "0 \<le> lh_n s" "lh_n s < int LOGBLOCKS" "1 \<le> outstanding s"
    "distinct (take (nat (lh_n s)) (lh_block s))" "refs s n + 1 < 2 ^ 32"
  obtains s' where "log_write b s = Inr s'" "running s'" "view s' = view s" "blk_lock s' = blk_lock s" "medium s' = medium s"
    "refs s' = (refs s)(n := refs s n + (if n \<in> logged s then 0 else 1))" "logged s' = insert n (logged s)"
    "length (lh_block s') = LOGBLOCKS" "0 \<le> lh_n s'" "lh_n s' \<le> int LOGBLOCKS" "distinct (take (nat (lh_n s')) (lh_block s'))"
proof (cases "n \<in> logged s")
  case True
  have bn: "b_blockno (bufs s ! b) = n" using assms(2) by (simp add: held_def cached_in_def)
  obtain i where "find (\<lambda>i. lh_block s ! i = n) [0..<nat (lh_n s)] = Some i"
    using True assms(3-5) by (cases "find (\<lambda>i. lh_block s ! i = n) [0..<nat (lh_n s)]") (auto simp: find_None_iff logged_def in_set_conv_nth)
  then have "log_write b s = Inr s" using log_write_absorb [of s b] assms(5,6) bn by simp
  then show thesis using that [of s] assms True by (simp add: fun_upd_idem insert_absorb)
next
  case False
  define k where "k = nat (lh_n s)"
  have k: "lh_n s = int k" "k < LOGBLOCKS" "n \<notin> set (take k (lh_block s))" using assms(4,5) False by (simp_all add: k_def logged_def)
  obtain s' where s': "log_write b s = Inr s'" "running s'" "view s' = view s"
    "refs s' = (refs s)(n := refs s n + 1)" "blk_lock s' = blk_lock s" "medium s' = medium s"
    "lh_n s' = int k + 1" "lh_block s' = (lh_block s)[k := n]"
    using log_write_spec [OF assms(1,2) k(1,2) assms(6,3) k(3) assms(8)] by blast
  have t: "take (nat (lh_n s')) (lh_block s') = take k (lh_block s) @ [n]"
    using s'(7,8) k(2) assms(3) by (simp add: nat_add_distrib take_Suc_conv_app_nth)
  show thesis
    using that [OF s'(1,2,3,5,6)] s'(4,7,8) t assms(3,7) False k by (simp add: logged_def)
qed

lemma fs_store:
  assumes "fs_ok H s" "H n = Some b" "length d = BSIZE" "lh_n s < int LOGBLOCKS" "1 \<le> outstanding s"
  obtains s' where "log_write b (set_data b d s) = Inr s'" "fs_ok H s'" "view s' = (view s)(n := d)"
    "logged s' = insert n (logged s)" "fs_same s s'"
proof -
  let ?t = "set_data b d s"
  have h: "held s m c" if "H m = Some c" for m c using assms(1) that by (simp add: fs_ok_def)
  have r: "running s" using assms(1) by (simp add: fs_ok_def)
  note D = log_set_data [OF r h [OF assms(2)] assms(3)]
  have L: "length (lh_block ?t) = LOGBLOCKS" "0 \<le> lh_n ?t" "lh_n ?t < int LOGBLOCKS" "1 \<le> outstanding ?t"
    "distinct (take (nat (lh_n ?t)) (lh_block ?t))" "refs ?t n + 1 < 2 ^ 32"
    using assms(1,4,5) D(4,8) by (auto simp: fs_ok_def same_env_def)
  obtain s' where s': "log_write b ?t = Inr s'" "running s'" "view s' = view ?t" "blk_lock s' = blk_lock ?t" "medium s' = medium ?t"
    "refs s' = (refs ?t)(n := refs ?t n + (if n \<in> logged ?t then 0 else 1))" "logged s' = insert n (logged ?t)"
    "length (lh_block s') = LOGBLOCKS" "0 \<le> lh_n s'" "lh_n s' \<le> int LOGBLOCKS" "distinct (take (nat (lh_n s')) (lh_block s'))"
    by (rule fs_log_write [OF D(1,2) L])
  note E = log_write_env [OF s'(1)] and l = logged_env [OF D(8)]
  have ml: "mylock s' = mylock s" "myproc s' = myproc s" using E(1,2) D(8) by (simp_all add: same_env_def)
  have held': "held s' m c" if m: "H m = Some c" for m c
  proof -
    have "held ?t m c" using m D(2) D(9) [OF _ h [OF m]] assms(2) by (cases "m = n") auto
    then show ?thesis using E s'(4,6) by (auto simp: held_def)
  qed
  have "fs_ok H s'"
    using assms(1,2) s' D l ml held' by (auto simp: fs_ok_def)
  moreover have "fs_same s s'"
    using log_write_fs [OF s'(1)] E D(8) by (simp add: fs_same_def fs_view_def same_env_def set_data_def upd_buf_def)
  ultimately show thesis using that [OF s'(1)] s'(3,7) D(3) l by simp
qed

section \<open>Common sequences\<close>

lemma fs_ok_length: "fs_ok H s \<Longrightarrow> length (view s n) = BSIZE"
  by (simp add: fs_ok_def running_def length_view)

lemma in_use_insert: "logged s' = insert n (logged s) \<Longrightarrow> in_use H s' \<le> Suc (in_use H s)"
  unfolding in_use_def by (metis Un_insert_left card_insert_le_m1 diff_Suc_1 le_refl zero_less_Suc)

text \<open>Changes of the state outside the cache and the log.\<close>

lemma fs_ok_cong:
  fixes s s' :: "'a fstate_scheme"
  assumes "bufs s' = bufs s" "medium s' = medium s" "procs s' = procs s" "cpus s' = cpus s" "hartid s' = hartid s"
    "lh_n s' = lh_n s" "lh_block s' = lh_block s"
  shows "fs_ok H s' = fs_ok H s" "view s' = view s" "logged s' = logged s" "in_use H s' = in_use H s"
proof -
  note C = cache_cong [OF assms(1,2)]
  have P: "myproc s' = myproc s" "mylock s' = mylock s" using assms by (simp_all add: mylock_def myproc_def mycpu_def)
  show L: "logged s' = logged s" using assms by (simp add: logged_def)
  show "view s' = view s" "in_use H s' = in_use H s" using C L by (simp_all add: in_use_def)
  show "fs_ok H s' = fs_ok H s"
    unfolding fs_ok_def running_def held_cong [OF assms(1,2) P(2,1)] C P L assms by simp
qed

lemma upd_inode_fs_ok [simp]:
  "fs_ok H (upd_inode i f s) = fs_ok H s" "view (upd_inode i f s) = view s" "logged (upd_inode i f s) = logged s"
  "in_use H (upd_inode i f s) = in_use H s" "sb (upd_inode i f s) = sb s" "bufs (upd_inode i f s) = bufs s"
  "outstanding (upd_inode i f s) = outstanding s" "mem (upd_inode i f s) = mem s" "lh_n (upd_inode i f s) = lh_n s"
  "itable (upd_inode i f s) = (itable s)[i := f (itable s ! i)]" "de_addr (upd_inode i f s) = de_addr s"
  using fs_ok_cong [of "upd_inode i f s" s] by (simp_all add: upd_inode_def)

lemma mem_fs_ok [simp]:
  "fs_ok H (s\<lparr>mem := m\<rparr>) = fs_ok H s" "view (s\<lparr>mem := m\<rparr>) = view s" "logged (s\<lparr>mem := m\<rparr>) = logged s"
  "in_use H (s\<lparr>mem := m\<rparr>) = in_use H s"
  by (rule fs_ok_cong; simp)+

text \<open>Looking at a block, and replacing its contents.\<close>

lemma fs_peek:
  assumes "fs_ok H s" "H n = None" "in_use H s < NBUF"
  obtains b s1 s2 where "bread (of_nat ROOTDEV) n s = Inr (b, s1)" "b_data (bufs s1 ! b) = view s n" "fs_same s s1"
    "brelse b s1 = Inr s2" "fs_ok H s2" "view s2 = view s" "logged s2 = logged s" "fs_same s s2"
proof -
  obtain b s1 where s1: "bread (of_nat ROOTDEV) n s = Inr (b, s1)" "fs_ok (H(n \<mapsto> b)) s1" "b_data (bufs s1 ! b) = view s n"
    "view s1 = view s" "logged s1 = logged s" "fs_same s s1"
    using assms fs_bread by blast
  obtain s2 where s2: "brelse b s1 = Inr s2" "fs_ok ((H(n \<mapsto> b))(n := None)) s2" "view s2 = view s1"
    "logged s2 = logged s1" "fs_same s1 s2"
    by (rule fs_brelse [OF s1(2)]) auto
  have H: "(H(n \<mapsto> b))(n := None) = H" using assms(2) by (simp add: fun_upd_idem)
  show thesis
    using that [OF s1(1,3,6) s2(1) s2(2) [unfolded H]] s2(3,4) s1(4,5) fs_same_trans [OF s1(6) s2(5)] by simp
qed

lemma fs_modify:
  assumes "fs_ok H s" "H n = None" "in_use H s < NBUF" "1 \<le> outstanding s" "length d = BSIZE"
  obtains b s1 s2 s3 where "bread (of_nat ROOTDEV) n s = Inr (b, s1)" "b_data (bufs s1 ! b) = view s n" "fs_same s s1"
    "log_write b (set_data b d s1) = Inr s2" "fs_same s s2" "brelse b s2 = Inr s3" "fs_ok H s3" "view s3 = (view s)(n := d)"
    "logged s3 = insert n (logged s)" "fs_same s s3" "in_use H s3 \<le> Suc (in_use H s)"
proof -
  obtain b s1 where s1: "bread (of_nat ROOTDEV) n s = Inr (b, s1)" "fs_ok (H(n \<mapsto> b)) s1" "b_data (bufs s1 ! b) = view s n"
    "view s1 = view s" "logged s1 = logged s" "fs_same s s1"
    using assms fs_bread by blast
  have "lh_n s1 = lh_n s"
    using lh_n_logged [OF s1(2)] lh_n_logged [OF assms(1)] s1(5) by simp
  then have k: "lh_n s1 < int LOGBLOCKS" "1 \<le> outstanding s1"
    using lh_n_in_use [OF assms(1)] assms(3,4) s1(6) by (simp_all add: fs_same_def)
  obtain s2 where s2: "log_write b (set_data b d s1) = Inr s2" "fs_ok (H(n \<mapsto> b)) s2" "view s2 = (view s1)(n := d)"
    "logged s2 = insert n (logged s1)" "fs_same s1 s2"
    by (rule fs_store [OF s1(2) _ assms(5) k]) auto
  obtain s3 where s3: "brelse b s2 = Inr s3" "fs_ok ((H(n \<mapsto> b))(n := None)) s3" "view s3 = view s2"
    "logged s3 = logged s2" "fs_same s2 s3"
    by (rule fs_brelse [OF s2(2)]) auto
  have H: "(H(n \<mapsto> b))(n := None) = H" using assms(2) by (simp add: fun_upd_idem)
  have l: "logged s3 = insert n (logged s)" using s3(4) s2(4) s1(5) by simp
  note F2 = fs_same_trans [OF s1(6) s2(5)]
  show thesis
    using that [OF s1(1,3,6) s2(1) F2 s3(1) s3(2) [unfolded H] _ l fs_same_trans [OF F2 s3(5)] in_use_insert [OF l]]
      s3(3) s2(3) s1(4) by simp
qed

section \<open>A machine to run examples on\<close>

text \<open>A booted machine with disk contents \<open>m\<close>, super block \<open>sbl\<close> and inode table \<open>itab\<close>, one call under way.\<close>

definition boot_fstate :: "(nat \<Rightarrow> block) \<Rightarrow> superblock \<Rightarrow> inode list \<Rightarrow> fstate" where
  "boot_fstate m sbl itab =
     vstate.extend (kstate.extend (lstate.extend (boot_lstate\<lparr>medium := m\<rparr>) (kstate.fields 0x80024cf8 0 [] [] 0)) (vstate.fields 0))
       (fstate.fields sbl itab (\<lambda>b. 0x80000000 + of_nat b * 1024) 0x80010000)"

lemma boot_fs:
  fixes sbl itab
  assumes "\<forall>n. length (m n) = BSIZE"
  defines "s \<equiv> binit (boot_fstate m sbl itab)"
  shows "fs_ok Map.empty s" "view s = (\<lambda>n. m (unat n))" "logged s = {}" "in_use Map.empty s = 0" "outstanding s = 1"
    "sb s = sbl" "itable s = itab" "mem s = (\<lambda>_. 0)" "de_addr s = 0x80010000" "myproc s = Some 0" "procs s = replicate NPROC zero_proc"
proof -
  let ?b = "boot_fstate m sbl itab"
  note bd = boot_fstate_def boot_lstate_def lstate.extend_def kstate.extend_def vstate.extend_def kstate.fields_def vstate.fields_def fstate.fields_def
  have B0: "bufs ?b = replicate 31 zero_buf" "\<And>n. length (medium ?b n) = BSIZE"
    using assms(1) by (simp_all add: bd)
  note B = binit_spec [OF B0]
  have fr: "cpus s = cpus ?b" "hartid s = hartid ?b" "procs s = procs ?b" "medium s = medium ?b" "outstanding s = outstanding ?b"
    "lh_n s = lh_n ?b" "lh_block s = lh_block ?b" "sb s = sb ?b" "itable s = itable ?b" "mem s = mem ?b" "de_addr s = de_addr ?b"
    unfolding s_def by (subst B(5), simp)+
  show v: "view s = (\<lambda>n. m (unat n))" using B(2) by (simp add: s_def bd)
  show l: "logged s = {}" using fr by (simp add: logged_def bd)
  then show "in_use Map.empty s = 0" by (simp add: in_use_def)
  show "outstanding s = 1" "sb s = sbl" "itable s = itab" "mem s = (\<lambda>_. 0)" "de_addr s = 0x80010000"
    "procs s = replicate NPROC zero_proc"
    using fr by (simp_all add: bd)
  show p: "myproc s = Some 0" using fr by (simp add: myproc_def mycpu_def bd)
  have "running s" using B(1) p fr(3) by (simp add: running_def s_def bd)
  then show "fs_ok Map.empty s"
    using B(3,4) [folded s_def] fr v l by (simp add: fs_ok_def bd)
qed

end
