(* ===== verification/FsBitmap.thy ===== *)
theory FsBitmap
  imports FsTxn
begin

text \<open>
  The block allocator of \<^verbatim>\<open>kernel/fs.c\<close> against its specification: the bitmap is a set of free block
  numbers, \<open>balloc\<close> takes the smallest one out and zeroes the block, \<open>bfree\<close> puts one back.
\<close>

section \<open>The bitmap as a set\<close>

definition blk_free :: "'a fstate_scheme \<Rightarrow> nat \<Rightarrow> bool" where
  "blk_free s b \<longleftrightarrow> bit_free (view s (BBLOCK (of_nat b) (sb s))) (b mod BPB)"

definition mark_bit :: "nat \<Rightarrow> block \<Rightarrow> block" where
  "mark_bit bi d = d[bi div 8 := d ! (bi div 8) OR bit_mask bi]"

definition clear_bit :: "nat \<Rightarrow> block \<Rightarrow> block" where
  "clear_bit bi d = d[bi div 8 := d ! (bi div 8) AND NOT (bit_mask bi)]"

lemma length_mark_bit [simp]: "length (mark_bit bi d) = length d" "length (clear_bit bi d) = length d"
  by (simp_all add: mark_bit_def clear_bit_def)

lemma and_bit_mask: "(w :: byte) AND bit_mask i = 0 \<longleftrightarrow> \<not> bit w (i mod 8)"
proof
  assume "w AND bit_mask i = 0"
  then have "\<not> bit (w AND bit_mask i) (i mod 8)" by simp
  then show "\<not> bit w (i mod 8)" by (simp add: bit_mask_def bit_simps)
next
  assume "\<not> bit w (i mod 8)"
  then show "w AND bit_mask i = 0" by (intro bit_word_eqI) (auto simp: bit_mask_def bit_simps)
qed

lemma bit_free_bit: "bit_free d i \<longleftrightarrow> \<not> bit (d ! (i div 8)) (i mod 8)"
  by (simp add: bit_free_def and_bit_mask)

lemma bit_free_mark:
  assumes "i div 8 < length d"
  shows "bit_free (mark_bit i d) j \<longleftrightarrow> bit_free d j \<and> j \<noteq> i"
proof (cases "j div 8 = i div 8")
  case True
  then have "j = i \<longleftrightarrow> j mod 8 = i mod 8" by (metis div_mult_mod_eq)
  then show ?thesis using assms True by (auto simp: bit_free_bit mark_bit_def bit_mask_def bit_simps)
qed (auto simp: bit_free_def mark_bit_def)

lemma bit_free_clear:
  assumes "i div 8 < length d"
  shows "bit_free (clear_bit i d) j \<longleftrightarrow> bit_free d j \<or> j = i"
proof (cases "j div 8 = i div 8")
  case True
  then have "j = i \<longleftrightarrow> j mod 8 = i mod 8" by (metis div_mult_mod_eq)
  moreover have "j mod 8 < 8" by simp
  ultimately show ?thesis using assms True
    by (auto simp: bit_free_bit clear_bit_def bit_mask_def bit_simps)
qed (auto simp: bit_free_def clear_bit_def)

lemma clear_mark_bit:
  assumes "i div 8 < length d" "bit_free d i"
  shows "clear_bit i (mark_bit i d) = d"
proof -
  have "(d ! (i div 8) OR bit_mask i) AND NOT (bit_mask i) = d ! (i div 8)"
    using assms(2) by (intro bit_word_eqI) (auto simp: bit_free_bit bit_mask_def bit_simps)
  then show ?thesis using assms(1) by (simp add: clear_bit_def mark_bit_def)
qed

text \<open>Which bitmap block holds the bit of a block.\<close>

lemma unat_u32_less: "unat (w :: u32) < 2 ^ 32"
  using unsigned_less [of w] by simp

lemma BBLOCK_of_nat:
  "b < 2 ^ 32 \<Longrightarrow> BBLOCK (of_nat b) sbl = of_nat (b div BPB) + sb_bmapstart sbl"
proof -
  assume b: "b < 2 ^ 32"
  then have "b div 8192 < 2 ^ 32" by (simp add: div_less_dividend order_le_less_trans [OF div_le_dividend])
  then have "unat ((of_nat b :: u32) div 8192) = unat (of_nat (b div 8192) :: u32)"
    using b by (simp add: unat_div unat_of_nat_u32)
  then have "(of_nat b :: u32) div 8192 = of_nat (b div 8192)" by (rule iffD2 [OF word_unat_eq_iff])
  then show ?thesis by (simp add: BBLOCK_def)
qed

lemma BBLOCK_inj:
  assumes "b < 2 ^ 32" "c < 2 ^ 32"
  shows "BBLOCK (of_nat b) sbl = BBLOCK (of_nat c) sbl \<longleftrightarrow> b div BPB = c div BPB"
proof -
  have "b div 8192 < 2 ^ 32" "c div 8192 < 2 ^ 32" using assms by (auto intro: order_le_less_trans [OF div_le_dividend])
  then show ?thesis
    using BBLOCK_of_nat [OF assms(1)] BBLOCK_of_nat [OF assms(2)] unat_of_nat_u32 by (metis add_right_cancel)
qed

lemma find_shift: "find P (map (\<lambda>i. b + i) xs) = map_option (\<lambda>i. b + i) (find (\<lambda>i. P (b + i)) xs)" for b :: nat
  by (induction xs) auto

lemma find_append: "find P (xs @ ys) = (case find P xs of Some x \<Rightarrow> Some x | None \<Rightarrow> find P ys)"
  by (induction xs) auto

lemma find_cong_set: "(\<And>x. x \<in> set xs \<Longrightarrow> P x = Q x) \<Longrightarrow> find P xs = find Q xs"
  by (induction xs) auto

lemma blk_free_in:
  assumes "k * BPB + i < 2 ^ 32" "i < BPB"
  shows "blk_free s (k * BPB + i) = bit_free (view s (BBLOCK (of_nat (k * BPB)) (sb s))) i"
proof -
  have "BBLOCK (of_nat (k * BPB + i)) (sb s) = BBLOCK (of_nat (k * BPB)) (sb s)"
    using assms by (intro iffD2 [OF BBLOCK_inj]) auto
  then show ?thesis using assms(2) by (simp add: blk_free_def)
qed

text \<open>The search of \<open>balloc\<close> goes through the block numbers in order.\<close>

lemma find_free_step:
  assumes "siz < 2 ^ 32" "k * BPB < siz"
  shows "find (blk_free s) [k * BPB..<siz] =
    (case find (bit_free (view s (BBLOCK (of_nat (k * BPB)) (sb s)))) [0..<min BPB (siz - k * BPB)] of
       Some i \<Rightarrow> Some (k * BPB + i) | None \<Rightarrow> find (blk_free s) [Suc k * BPB..<siz])"
proof -
  let ?b = "k * BPB" and ?n = "min BPB (siz - k * BPB)"
  have e: "[?b..<siz] = map (\<lambda>i. ?b + i) [0..<?n] @ [?b + ?n..<siz]"
    using upt_add_eq_append [of ?b "?b + ?n" "siz - (?b + ?n)"] map_add_upt [of ?b ?n] assms(2) by (simp add: add.commute)
  have t: "[?b + ?n..<siz] = [Suc k * BPB..<siz]" by (cases "BPB \<le> siz - k * BPB") (simp_all add: min_def add.commute)
  have "find (\<lambda>i. blk_free s (?b + i)) [0..<?n] = find (bit_free (view s (BBLOCK (of_nat ?b) (sb s)))) [0..<?n]"
    using assms by (intro find_cong_set blk_free_in) auto
  then show ?thesis unfolding e find_append find_shift t by (simp split: option.split)
qed

section \<open>Allocation\<close>

text \<open>A call has room for \<open>k\<close> more blocks in the log and the cache.\<close>

definition in_call :: "nat \<Rightarrow> (u32 \<Rightarrow> nat option) \<Rightarrow> 'a fstate_scheme \<Rightarrow> bool" where
  "in_call k H s \<longleftrightarrow> fs_ok H s \<and> in_use H s + k \<le> NBUF \<and> 1 \<le> outstanding s"

lemma in_call_same: "in_call k H s \<Longrightarrow> fs_ok H s' \<Longrightarrow> logged s' = logged s \<Longrightarrow> fs_same s s' \<Longrightarrow> in_call k H s'"
  by (simp add: in_call_def in_use_def fs_same_def)

lemma in_call_less: "in_call k H s \<Longrightarrow> j \<le> k \<Longrightarrow> in_call j H s"
  by (simp add: in_call_def)

lemma in_call_length: "in_call k H s \<Longrightarrow> length (view s n) = BSIZE"
  by (auto simp: in_call_def intro: fs_ok_length)

lemma call_modify:
  assumes "in_call (Suc k) H s" "H n = None" "length d = BSIZE"
  obtains b s1 s2 s3 where "bread (of_nat ROOTDEV) n s = Inr (b, s1)" "b_data (bufs s1 ! b) = view s n" "fs_same s s1"
    "log_write b (set_data b d s1) = Inr s2" "fs_same s s2" "brelse b s2 = Inr s3" "in_call k H s3" "view s3 = (view s)(n := d)"
    "fs_same s s3"
proof -
  have a: "fs_ok H s" "in_use H s < NBUF" "1 \<le> outstanding s" using assms(1) by (auto simp: in_call_def)
  obtain b s1 s2 s3 where S: "bread (of_nat ROOTDEV) n s = Inr (b, s1)" "b_data (bufs s1 ! b) = view s n" "fs_same s s1"
    "log_write b (set_data b d s1) = Inr s2" "fs_same s s2" "brelse b s2 = Inr s3" "fs_ok H s3" "view s3 = (view s)(n := d)"
    "logged s3 = insert n (logged s)" "fs_same s s3" "in_use H s3 \<le> Suc (in_use H s)"
    by (rule fs_modify [OF a(1) assms(2) a(2,3) assms(3)])
  have "in_call k H s3" using S(7,10,11) assms(1) by (simp add: in_call_def fs_same_def)
  then show thesis using that [OF S(1-6) _ S(8,10)] by blast
qed

lemma call_peek:
  assumes "in_call (Suc k) H s" "H n = None"
  obtains b s1 s2 where "bread (of_nat ROOTDEV) n s = Inr (b, s1)" "b_data (bufs s1 ! b) = view s n" "fs_same s s1"
    "brelse b s1 = Inr s2" "in_call (Suc k) H s2" "view s2 = view s" "fs_same s s2"
proof -
  have a: "fs_ok H s" "in_use H s < NBUF" using assms(1) by (auto simp: in_call_def)
  obtain b s1 s2 where S: "bread (of_nat ROOTDEV) n s = Inr (b, s1)" "b_data (bufs s1 ! b) = view s n" "fs_same s s1"
    "brelse b s1 = Inr s2" "fs_ok H s2" "view s2 = view s" "logged s2 = logged s" "fs_same s s2"
    by (rule fs_peek [OF a(1) assms(2) a(2)])
  then show thesis using that [OF S(1-4) in_call_same [OF assms(1) S(5,7,8)] S(6,8)] by blast
qed

lemma bzero_spec:
  assumes "in_call (Suc k) H s" "H n = None"
  obtains s' where "bzero (of_nat ROOTDEV) n s = Inr s'" "in_call k H s'" "view s' = (view s)(n := replicate BSIZE 0)" "fs_same s s'"
proof -
  define d :: block where "d = replicate BSIZE 0"
  have "length d = BSIZE" by (simp add: d_def)
  from call_modify [OF assms this] obtain b s1 s2 s3 where S: "bread (of_nat ROOTDEV) n s = Inr (b, s1)"
    "log_write b (set_data b d s1) = Inr s2" "brelse b s2 = Inr s3" "in_call k H s3" "view s3 = (view s)(n := d)" "fs_same s s3"
    by metis
  have "bzero (of_nat ROOTDEV) n s = Inr s3" unfolding bzero_def using S(1-3) by (simp add: d_def)
  then show thesis using that [OF _ S(4)] S(5,6) by (simp add: d_def)
qed

text \<open>The blocks after block \<open>b\<close> has been taken.\<close>

definition alloc_view :: "nat \<Rightarrow> 'a fstate_scheme \<Rightarrow> u32 \<Rightarrow> block" where
  "alloc_view b s = (view s)(BBLOCK (of_nat b) (sb s) := mark_bit (b mod BPB) (view s (BBLOCK (of_nat b) (sb s))),
     of_nat b := replicate BSIZE 0)"

text \<open>The buffers that a caller of \<open>balloc\<close> may hold: neither of the bitmap nor of a free block.\<close>

definition holds_data :: "(u32 \<Rightarrow> nat option) \<Rightarrow> 'a fstate_scheme \<Rightarrow> bool" where
  "holds_data H s \<longleftrightarrow> (\<forall>b < unat (sb_size (sb s)).
     H (BBLOCK (of_nat b) (sb s)) = None \<and> (blk_free s b \<longrightarrow> H (of_nat b) = None))"

lemma holds_data_same: "holds_data H s \<Longrightarrow> view s' = view s \<Longrightarrow> fs_same s s' \<Longrightarrow> holds_data H s'"
  by (simp add: holds_data_def blk_free_def fs_same_def)

lemma blk_free_same: "view s' = view s \<Longrightarrow> fs_same s s' \<Longrightarrow> blk_free s' = blk_free s"
  by (simp add: blk_free_def fs_same_def fun_eq_iff)

lemma balloc_found:
  assumes "in_call (Suc (Suc k0)) H s" "holds_data H s" "unat (sb_size (sb s)) = siz" "k * BPB < siz"
    "find (bit_free (view s (BBLOCK (of_nat (k * BPB)) (sb s)))) [0..<min BPB (siz - k * BPB)] = Some i"
  shows "\<exists>s'. balloc_loop (of_nat ROOTDEV) (k * BPB # bs) s = Inr (of_nat (k * BPB + i), s') \<and> in_call k0 H s' \<and>
    view s' = alloc_view (k * BPB + i) s \<and> fs_same s s'"
proof -
  let ?b = "k * BPB + i" and ?n = "BBLOCK (of_nat (k * BPB)) (sb s)"
  have i: "i < BPB" "?b < siz" "bit_free (view s ?n) i" using assms(5) by (auto simp: find_Some_iff)
  have siz: "siz < 2 ^ 32" using assms(3) unat_u32_less [of "sb_size (sb s)"] by simp
  have n: "BBLOCK (of_nat ?b) (sb s) = ?n" using i siz by (intro iffD2 [OF BBLOCK_inj]) auto
  have "blk_free s ?b" using blk_free_in [of k i s] i siz by simp
  then have H: "H ?n = None" "H (of_nat ?b) = None" using assms(2,3) i(2) n unfolding holds_data_def by metis+
  have len: "length (mark_bit i (view s ?n)) = BSIZE" using in_call_length [OF assms(1)] by simp
  obtain b s1 s2 s3 where S: "bread (of_nat ROOTDEV) ?n s = Inr (b, s1)" "b_data (bufs s1 ! b) = view s ?n" "fs_same s s1"
    "log_write b (set_data b (mark_bit i (view s ?n)) s1) = Inr s2" "fs_same s s2" "brelse b s2 = Inr s3"
    "in_call (Suc k0) H s3" "view s3 = (view s)(?n := mark_bit i (view s ?n))" "fs_same s s3"
    using call_modify [OF assms(1) H(1) len] by metis
  obtain s' where s': "bzero (of_nat ROOTDEV) (of_nat ?b) s3 = Inr s'" "in_call k0 H s'"
    "view s' = (view s3)(of_nat ?b := replicate BSIZE 0)" "fs_same s3 s'"
    by (rule bzero_spec [OF S(7) H(2)])
  have sz: "unat (sb_size (sb s1)) = siz" using S(3) assms(3) by (simp add: fs_same_def)
  have "balloc_loop (of_nat ROOTDEV) (k * BPB # bs) s = Inr (of_nat ?b, s')"
    using S(1,2,4,6) s'(1) assms(5) sz by (simp add: mark_bit_def)
  moreover have "view s' = alloc_view ?b s" using s'(3) S(8) i(1) n by (simp add: alloc_view_def)
  ultimately show ?thesis using s'(2) fs_same_trans [OF S(9) s'(4)] by blast
qed

lemma balloc_loop_spec:
  assumes "in_call (Suc (Suc k0)) H s" "holds_data H s" "unat (sb_size (sb s)) = siz" "k \<le> (siz + (BPB - 1)) div BPB"
  shows "\<exists>s'. balloc_loop (of_nat ROOTDEV) (map (\<lambda>k. k * BPB) [k..<(siz + (BPB - 1)) div BPB]) s =
      Inr (case find (blk_free s) [k * BPB..<siz] of None \<Rightarrow> 0 | Some b \<Rightarrow> of_nat b, s') \<and> fs_same s s' \<and>
    (case find (blk_free s) [k * BPB..<siz] of None \<Rightarrow> in_call (Suc (Suc k0)) H s' \<and> view s' = view s
       | Some b \<Rightarrow> in_call k0 H s' \<and> view s' = alloc_view b s)"
  using assms
proof (induction "(siz + (BPB - 1)) div BPB - k" arbitrary: k s)
  case 0
  then have k: "k = (siz + (BPB - 1)) div BPB" by simp
  then have "siz \<le> k * BPB" by linarith
  then have e: "[k * BPB..<siz] = []" "[k..<(siz + (BPB - 1)) div BPB] = []" using k by simp_all
  show ?case unfolding e using 0(2) by auto
next
  case (Suc x)
  let ?K = "(siz + (BPB - 1)) div BPB" and ?n = "BBLOCK (of_nat (k * BPB)) (sb s)"
  have k: "k < ?K" using Suc(2) by simp
  then have kb: "k * BPB < siz" by linarith
  have siz: "siz < 2 ^ 32" using Suc(5) unat_u32_less [of "sb_size (sb s)"] by simp
  have u: "map (\<lambda>k. k * BPB) [k..<?K] = k * BPB # map (\<lambda>k. k * BPB) [Suc k..<?K]"
    using k by (simp add: upt_conv_Cons)
  note F = find_free_step [OF siz kb, of s]
  show ?case
  proof (cases "find (bit_free (view s ?n)) [0..<min BPB (siz - k * BPB)]")
    case (Some i)
    have f: "find (blk_free s) [k * BPB..<siz] = Some (k * BPB + i)" using F Some by simp
    show ?thesis unfolding u f option.case using balloc_found [OF Suc(3,4,5) kb Some] by blast
  next
    case None
    have H: "H ?n = None" using Suc(4,5) kb by (auto simp: holds_data_def)
    obtain b s1 s2 where S: "bread (of_nat ROOTDEV) ?n s = Inr (b, s1)" "b_data (bufs s1 ! b) = view s ?n" "fs_same s s1"
      "brelse b s1 = Inr s2" "in_call (Suc (Suc k0)) H s2" "view s2 = view s" "fs_same s s2"
      using call_peek [OF Suc(3) H] by metis
    have sz: "unat (sb_size (sb s1)) = siz" "unat (sb_size (sb s2)) = siz" using S(3,7) Suc(5) by (simp_all add: fs_same_def)
    have f: "find (blk_free s) [k * BPB..<siz] = find (blk_free s2) [Suc k * BPB..<siz]"
      using F None blk_free_same [OF S(6,7)] by simp
    have x: "x = ?K - Suc k" using Suc(2) by simp
    have a: "alloc_view b s2 = alloc_view b s" for b using S(6,7) by (simp add: alloc_view_def fs_same_def)
    have step: "balloc_loop (of_nat ROOTDEV) (k * BPB # map (\<lambda>k. k * BPB) [Suc k..<?K]) s =
      balloc_loop (of_nat ROOTDEV) (map (\<lambda>k. k * BPB) [Suc k..<?K]) s2"
      using S(1,2,4) None sz by simp
    from Suc(1) [OF x S(5) holds_data_same [OF Suc(4) S(6,7)] sz(2)] k obtain s' where
      s': "balloc_loop (of_nat ROOTDEV) (map (\<lambda>k. k * BPB) [Suc k..<?K]) s2 =
        Inr (case find (blk_free s2) [Suc k * BPB..<siz] of None \<Rightarrow> 0 | Some b \<Rightarrow> of_nat b, s')" "fs_same s2 s'"
      "case find (blk_free s2) [Suc k * BPB..<siz] of None \<Rightarrow> in_call (Suc (Suc k0)) H s' \<and> view s' = view s2
         | Some b \<Rightarrow> in_call k0 H s' \<and> view s' = alloc_view b s2" by auto
    show ?thesis
      unfolding u step f using s' S(6) a fs_same_trans [OF S(7) s'(2)] by (intro exI [of _ s']) (simp split: option.splits)
  qed
qed

lemma balloc_spec:
  assumes "in_call (Suc (Suc k)) H s" "holds_data H s"
  shows "\<exists>s'. balloc (of_nat ROOTDEV) s =
      Inr (case find (blk_free s) [0..<unat (sb_size (sb s))] of None \<Rightarrow> 0 | Some b \<Rightarrow> of_nat b, s') \<and> fs_same s s' \<and>
    (case find (blk_free s) [0..<unat (sb_size (sb s))] of None \<Rightarrow> in_call (Suc (Suc k)) H s' \<and> view s' = view s
       | Some b \<Rightarrow> in_call k H s' \<and> view s' = alloc_view b s)"
  using balloc_loop_spec [OF assms refl, of 0] by (simp add: balloc_def)

section \<open>Freeing\<close>

lemma bfree_spec:
  assumes "in_call (Suc k) H s" "H (BBLOCK b (sb s)) = None" "\<not> blk_free s (unat b)"
  obtains s' where "bfree (of_nat ROOTDEV) b s = Inr s'" "in_call k H s'" "fs_same s s'"
    "view s' = (view s)(BBLOCK b (sb s) := clear_bit (unat b mod BPB) (view s (BBLOCK b (sb s))))"
proof -
  let ?n = "BBLOCK b (sb s)"
  have len: "length (clear_bit (unat b mod BPB) (view s ?n)) = BSIZE" using in_call_length [OF assms(1)] by simp
  obtain c s1 s2 s3 where S: "bread (of_nat ROOTDEV) ?n s = Inr (c, s1)" "b_data (bufs s1 ! c) = view s ?n"
    "log_write c (set_data c (clear_bit (unat b mod BPB) (view s ?n)) s1) = Inr s2" "brelse c s2 = Inr s3"
    "in_call k H s3" "view s3 = (view s)(?n := clear_bit (unat b mod BPB) (view s ?n))" "fs_same s s3"
    using call_modify [OF assms(1,2) len] by metis
  have "\<not> bit_free (view s ?n) (unat b mod BPB)" using assms(3) by (simp add: blk_free_def)
  then have "bfree (of_nat ROOTDEV) b s = Inr s3"
    using S(1-4) by (simp add: bfree_def clear_bit_def)
  then show thesis using that [OF _ S(5,7,6)] by blast
qed

lemma bfree_panics:
  assumes "in_call (Suc k) H s" "H (BBLOCK b (sb s)) = None" "blk_free s (unat b)"
  shows "bfree (of_nat ROOTDEV) b s = Inl (Panic ''freeing free block'')"
proof -
  obtain c s1 where S: "bread (of_nat ROOTDEV) (BBLOCK b (sb s)) s = Inr (c, s1)"
    "b_data (bufs s1 ! c) = view s (BBLOCK b (sb s))"
    using call_peek [OF assms(1,2)] by metis
  then show ?thesis using assms(3) by (simp add: bfree_def blk_free_def)
qed

text \<open>What a change of one bit, and of blocks outside the bitmap, does to the set of free blocks.\<close>

lemma bitmap_byte: "b mod BPB div 8 < BSIZE"
  by (simp add: less_mult_imp_div_less)

lemma blk_free_update:
  assumes "b < 2 ^ 32" "c < 2 ^ 32" "view s' (BBLOCK (of_nat c) (sb s)) = ((view s)(BBLOCK (of_nat b) (sb s) := d)) (BBLOCK (of_nat c) (sb s))"
    "sb s' = sb s" "\<And>j. bit_free d j = (if j = b mod BPB then v else bit_free (view s (BBLOCK (of_nat b) (sb s))) j)"
  shows "blk_free s' c = (if c = b then v else blk_free s c)"
proof (cases "c div BPB = b div BPB")
  case True
  then have e: "BBLOCK (of_nat c) (sb s) = BBLOCK (of_nat b) (sb s)" using BBLOCK_inj assms(1,2) by blast
  have "c mod BPB = b mod BPB \<longleftrightarrow> c = b" using True by (metis div_mult_mod_eq)
  then show ?thesis using assms(3-5) e by (simp add: blk_free_def)
next
  case False
  then have "BBLOCK (of_nat c) (sb s) \<noteq> BBLOCK (of_nat b) (sb s)" "c \<noteq> b" using BBLOCK_inj assms(1,2) by blast+
  then show ?thesis using assms(3,4) by (simp add: blk_free_def)
qed

section \<open>Properties\<close>

text \<open>
  (C24) \<open>balloc\<close> searches the bitmap first-fit: inside a file system call with room for two more blocks,
  it returns the smallest block number whose bit is clear, having set exactly that bit and
  zeroed exactly that block, and returns 0 with nothing changed when no bit is clear.
\<close>

theorem balloc_first_fit:
  assumes "in_call (k + 2) H s" "holds_data H s"
  shows "\<exists>s'. balloc (of_nat ROOTDEV) s =
      Inr (case find (blk_free s) [0..<unat (sb_size (sb s))] of None \<Rightarrow> 0 | Some b \<Rightarrow> of_nat b, s') \<and>
    (case find (blk_free s) [0..<unat (sb_size (sb s))] of None \<Rightarrow> in_call (k + 2) H s' \<and> view s' = view s
       | Some b \<Rightarrow> in_call k H s' \<and>
           view s' = (view s)(BBLOCK (of_nat b) (sb s) := mark_bit (b mod BPB) (view s (BBLOCK (of_nat b) (sb s))),
                              of_nat b := replicate BSIZE 0))"
  using balloc_spec [of k H s] assms unfolding alloc_view_def add_2_eq_Suc' by blast

text \<open>A small disk to try the allocator on: 200 blocks, the bitmap in block 45, blocks 0 to 47 in use.\<close>

definition small_sb :: superblock where
  "small_sb = \<lparr>sb_magic = FSMAGIC, sb_size = 200, sb_nblocks = 153, sb_ninodes = 100, sb_nlog = 31, sb_logstart = 2,
     sb_inodestart = 33, sb_bmapstart = 45\<rparr>"

definition small_disk :: "nat \<Rightarrow> block" where
  "small_disk n = (if n = 45 then replicate 6 255 @ replicate 1018 0 else replicate BSIZE 0)"

lemma small_fs:
  fixes itab
  defines "s \<equiv> binit (boot_fstate small_disk small_sb itab)"
  shows "in_call 30 Map.empty s" "view s = (\<lambda>n. small_disk (unat n))" "sb s = small_sb" "itable s = itab"
    "find (blk_free s) [0..<unat (sb_size (sb s))] = Some 48"
    "c < unat (sb_size (sb s)) \<Longrightarrow> BBLOCK (of_nat c) (sb s) = 45"
proof -
  have d: "\<forall>n. length (small_disk n) = BSIZE" by (simp add: small_disk_def)
  note B = boot_fs [OF d, of small_sb itab, folded s_def]
  show "in_call 30 Map.empty s" using B(1,4,5) by (simp add: in_call_def)
  show v: "view s = (\<lambda>n. small_disk (unat n))" and sb: "sb s = small_sb" and "itable s = itab" by (fact B)+
  have n: "BBLOCK (of_nat b) small_sb = 45" if "b < 200" for b
    using BBLOCK_of_nat [of b small_sb] that by (simp add: small_sb_def)
  then show "c < unat (sb_size (sb s)) \<Longrightarrow> BBLOCK (of_nat c) (sb s) = 45" using sb by (simp add: small_sb_def)
  have f: "blk_free s b \<longleftrightarrow> 48 \<le> b" if b: "b < 200" for b
  proof -
    have "unat (45 :: u32) = 45" by simp
    then have "small_disk 45 ! (b div 8) = (if b < 48 then - 1 else 0)"
      using b by (auto simp: small_disk_def nth_append)
    then show ?thesis using n [OF b] b by (simp add: blk_free_def bit_free_bit v sb bit_simps)
  qed
  have "find (blk_free s) [0..<200] = find ((\<le>) 48) [0..<200]" using f by (intro find_cong_set) simp
  also have "... = Some 48" by (auto simp: find_Some_iff intro!: exI [of _ 48])
  finally show "find (blk_free s) [0..<unat (sb_size (sb s))] = Some 48" by (simp add: sb small_sb_def)
qed

theorem balloc_first_fit_witness:
  "\<exists>s s'. find (blk_free s) [0..<unat (sb_size (sb s))] = Some 48 \<and>
     balloc (of_nat ROOTDEV) (s :: fstate) = Inr (48, s') \<and> view s' 48 = replicate BSIZE 0"
proof -
  define s where "s = binit (boot_fstate small_disk small_sb [])"
  note S = small_fs [where itab = "[]", folded s_def]
  have "in_call (28 + 2) Map.empty s" "holds_data Map.empty s" using S(1) by (simp_all add: holds_data_def)
  from balloc_first_fit [OF this] S(5) show ?thesis by auto
qed

text \<open>
  (C13) The bitmap is a set of free blocks: \<open>balloc\<close> takes its smallest element \<open>b\<close> out and leaves
  every other one, \<open>bfree\<close> puts \<open>b\<close> back, and freeing \<open>b\<close> a second time panics, provided
  block \<open>b\<close> is not itself part of the bitmap.
\<close>

theorem balloc_bfree_round_trip:
  assumes "in_call 4 Map.empty s" "find (blk_free s) [0..<unat (sb_size (sb s))] = Some b"
    "\<And>c. c < unat (sb_size (sb s)) \<Longrightarrow> BBLOCK (of_nat c) (sb s) \<noteq> of_nat b"
  shows "\<exists>s' s''. balloc (of_nat ROOTDEV) s = Inr (of_nat b, s') \<and> view s' (of_nat b) = replicate BSIZE 0 \<and>
    (\<forall>c < unat (sb_size (sb s)). blk_free s' c \<longleftrightarrow> blk_free s c \<and> c \<noteq> b) \<and>
    bfree (of_nat ROOTDEV) (of_nat b) s' = Inr s'' \<and>
    (\<forall>c < unat (sb_size (sb s)). blk_free s'' c = blk_free s c) \<and>
    bfree (of_nat ROOTDEV) (of_nat b) s'' = Inl (Panic ''freeing free block'')"
proof -
  let ?n = "BBLOCK (of_nat b) (sb s)" and ?siz = "unat (sb_size (sb s))"
  have b: "b < ?siz" "blk_free s b" using assms(2) by (auto simp: find_Some_iff)
  have siz: "c < 2 ^ 32" if "c < ?siz" for c using that unat_u32_less [of "sb_size (sb s)"] by simp
  have ub: "unat (of_nat b :: u32) = b" using siz [OF b(1)] by (rule unat_of_nat_u32)
  have c4: "in_call (Suc (Suc 2)) Map.empty s" using assms(1) by (simp add: eval_nat_numeral)
  obtain s' where s': "balloc (of_nat ROOTDEV) s = Inr (of_nat b, s')" "fs_same s s'" "in_call 2 Map.empty s'" "view s' = alloc_view b s"
    using balloc_spec [OF c4] assms(2) by (auto simp: holds_data_def)
  have len: "b mod BPB div 8 < length (view s n)" for n using in_call_length [OF assms(1)] bitmap_byte by simp
  have sb': "sb s' = sb s" using s'(2) by (simp add: fs_same_def)
  have f': "blk_free s' c \<longleftrightarrow> blk_free s c \<and> c \<noteq> b" if c: "c < ?siz" for c
    using blk_free_update [OF siz [OF b(1)] siz [OF c], of s' s _ False] s'(4) assms(3) [OF c] sb' bit_free_mark [OF len]
    by (simp add: alloc_view_def)
  have u: "\<not> blk_free s' (unat (of_nat b :: u32))" using f' [OF b(1)] ub by simp
  obtain s'' where s'': "bfree (of_nat ROOTDEV) (of_nat b) s' = Inr s''" "in_call 1 Map.empty s''" "fs_same s' s''"
    "view s'' = (view s')(?n := clear_bit (b mod BPB) (view s' ?n))"
    by (rule bfree_spec [OF s'(3) [unfolded Suc_1 [symmetric]] _ u]) (simp_all add: sb' ub)
  have len': "b mod BPB div 8 < length (view s' n)" for n using in_call_length [OF s'(3)] bitmap_byte by simp
  have sb'': "sb s'' = sb s" using s''(3) sb' by (simp add: fs_same_def)
  have f'': "blk_free s'' c = blk_free s c" if c: "c < ?siz" for c
    using blk_free_update [OF siz [OF b(1)] siz [OF c], of s'' s' _ True] s''(4) sb' sb'' bit_free_clear [OF len'] f' [OF c] b(2)
    by auto
  have "bfree (of_nat ROOTDEV) (of_nat b) s'' = Inl (Panic ''freeing free block'')"
    using bfree_panics [of 0 Map.empty s'' "of_nat b"] s''(2) f'' [OF b(1)] b(2) ub by simp
  moreover have "view s' (of_nat b) = replicate BSIZE 0" using s'(4) by (simp add: alloc_view_def)
  ultimately show ?thesis using s'(1) s''(1) f' f'' by blast
qed

theorem balloc_bfree_round_trip_witness:
  "\<exists>s s' s''. balloc (of_nat ROOTDEV) (s :: fstate) = Inr (48, s') \<and> blk_free s 48 \<and> \<not> blk_free s' 48 \<and>
     bfree (of_nat ROOTDEV) 48 s' = Inr s'' \<and> blk_free s'' 48 \<and>
     bfree (of_nat ROOTDEV) 48 s'' = Inl (Panic ''freeing free block'')"
proof -
  define s where "s = binit (boot_fstate small_disk small_sb [])"
  note S = small_fs [where itab = "[]", folded s_def]
  have c: "in_call 4 Map.empty s" by (rule in_call_less [OF S(1)]) simp
  have n: "BBLOCK (of_nat c) (sb s) \<noteq> of_nat 48" if "c < unat (sb_size (sb s))" for c using S(6) [OF that] by simp
  have "blk_free s 48" "48 < unat (sb_size (sb s))" using S(5) by (auto simp: find_Some_iff)
  then show ?thesis using balloc_bfree_round_trip [OF c S(5) n] by (metis of_nat_numeral)
qed

end
