(* ===== verification/FsInode.thy ===== *)
theory FsInode
  imports FsBitmap
begin

text \<open>
  Inodes on disk and in the table: \<open>iupdate\<close> and \<open>ilock\<close> write and read the 64 bytes of an inode, and the
  operations of \<^verbatim>\<open>kernel/fs.c\<close> keep the inode table well formed.
\<close>

section \<open>The bytes of an inode\<close>

type_synonym meta = "u16 \<times> u16 \<times> u16 \<times> u16 \<times> u32 \<times> u32 list"

definition meta :: "inode \<Rightarrow> meta" where
  "meta ip = (i_type ip, i_major ip, i_minor ip, i_nlink ip, i_size ip, i_addrs ip)"

definition dinode_at :: "block \<Rightarrow> u32 \<Rightarrow> meta" where
  "dinode_at d inum =
     (let dip = dinode_off inum
      in (get16 d dip, get16 d (dip + 2), get16 d (dip + 4), get16 d (dip + 6), get32 d (dip + 8),
          map (\<lambda>j. get32 d (dip + 12 + 4 * j)) [0..<NDIRECT + 1]))"

definition disk_inode :: "'a fstate_scheme \<Rightarrow> u32 \<Rightarrow> meta" where
  "disk_inode s inum = dinode_at (view s (IBLOCK inum (sb s))) inum"

lemma meta_get_dinode: "meta (get_dinode d ip) = dinode_at d (i_inum ip)"
  by (simp add: meta_def get_dinode_def dinode_at_def Let_def)

lemma dinode_off_le: "dinode_off inum + 64 \<le> BSIZE"
proof -
  have "unat inum mod 16 \<le> 15" by simp
  then show ?thesis unfolding dinode_off_def by linarith
qed

text \<open>Two ranges of bytes that do not overlap.\<close>

lemma get_put32_list:
  fixes xs :: "u32 list"
  assumes "length d = BSIZE" "a + 4 * k \<le> BSIZE"
  defines "e \<equiv> fold (\<lambda>j d. put32 d (a + 4 * j) (xs ! j)) [0..<k] d"
  shows "length e = BSIZE \<and> (\<forall>j < k. get32 e (a + 4 * j) = xs ! j) \<and>
    (\<forall>p. p + 2 \<le> a \<or> a + 4 * k \<le> p \<and> p + 2 \<le> BSIZE \<longrightarrow> get16 e p = get16 d p) \<and>
    (\<forall>p. p + 4 \<le> a \<or> a + 4 * k \<le> p \<and> p + 4 \<le> BSIZE \<longrightarrow> get32 e p = get32 d p)"
  using assms(2) unfolding e_def
proof (induction k)
  case 0
  then show ?case using assms(1) by simp
next
  case (Suc k)
  let ?e = "fold (\<lambda>j d. put32 d (a + 4 * j) (xs ! j)) [0..<k] d"
  have IH: "length ?e = BSIZE" "\<forall>j < k. get32 ?e (a + 4 * j) = xs ! j"
    "\<forall>p. p + 2 \<le> a \<or> a + 4 * k \<le> p \<and> p + 2 \<le> BSIZE \<longrightarrow> get16 ?e p = get16 d p"
    "\<forall>p. p + 4 \<le> a \<or> a + 4 * k \<le> p \<and> p + 4 \<le> BSIZE \<longrightarrow> get32 ?e p = get32 d p"
    using Suc by auto
  have k: "a + 4 * k + 4 \<le> length ?e" using Suc.prems IH(1) by simp
  have "get32 (put32 ?e (a + 4 * k) (xs ! k)) (a + 4 * j) = xs ! j" if "j < Suc k" for j
    using that IH(2) k get32_put32 [OF k] get32_put32_other [of "a + 4 * k" ?e "a + 4 * j"] by (cases "j = k") auto
  then show ?case
    using IH k get16_put32_other [of "a + 4 * k" ?e] get32_put32_other [of "a + 4 * k" ?e] by auto
qed

text \<open>The part of \<open>put_dinode\<close> before the block addresses.\<close>

definition put_header :: "inode \<Rightarrow> block \<Rightarrow> block" where
  "put_header ip d =
     (let dip = dinode_off (i_inum ip)
      in put32 (put16 (put16 (put16 (put16 d dip (i_type ip)) (dip + 2) (i_major ip)) (dip + 4) (i_minor ip))
           (dip + 6) (i_nlink ip)) (dip + 8) (i_size ip))"

lemma put_dinode_header:
  "put_dinode ip d = fold (\<lambda>j d. put32 d (dinode_off (i_inum ip) + 12 + 4 * j) (i_addrs ip ! j)) [0..<NDIRECT + 1] (put_header ip d)"
  unfolding put_dinode_def put_header_def Let_def by (rule refl)

lemmas get_put_other = get16_put16_other get16_put32_other get32_put16_other get32_put32_other

lemma put_header_get:
  fixes ip
  assumes "length d = BSIZE"
  defines "dip \<equiv> dinode_off (i_inum ip)"
  shows "length (put_header ip d) = BSIZE" "get16 (put_header ip d) dip = i_type ip"
    "get16 (put_header ip d) (dip + 2) = i_major ip" "get16 (put_header ip d) (dip + 4) = i_minor ip"
    "get16 (put_header ip d) (dip + 6) = i_nlink ip" "get32 (put_header ip d) (dip + 8) = i_size ip"
    "p + 2 \<le> dip \<or> dip + 12 \<le> p \<and> p + 2 \<le> BSIZE \<Longrightarrow> get16 (put_header ip d) p = get16 d p"
    "p + 4 \<le> dip \<or> dip + 12 \<le> p \<and> p + 4 \<le> BSIZE \<Longrightarrow> get32 (put_header ip d) p = get32 d p"
  using assms(1) dinode_off_le [of "i_inum ip"]
  by (auto simp: put_header_def Let_def dip_def [symmetric] get_put_other get16_put16 get32_put32)

lemma put_dinode_same:
  assumes "length d = BSIZE" "length (i_addrs ip) = NDIRECT + 1"
  shows "dinode_at (put_dinode ip d) (i_inum ip) = meta ip" "length (put_dinode ip d) = BSIZE"
proof -
  define dip where "dip = dinode_off (i_inum ip)"
  note h = put_header_get [OF assms(1), where ip = ip, folded dip_def]
  have b: "dip + 12 + 4 * (NDIRECT + 1) \<le> BSIZE" using dinode_off_le [of "i_inum ip"] by (simp add: dip_def)
  note P = get_put32_list [OF h(1) b, of "i_addrs ip", folded dip_def put_dinode_header [of ip d, folded dip_def]]
  show "length (put_dinode ip d) = BSIZE" using P by blast
  have "map (\<lambda>j. get32 (put_dinode ip d) (dip + 12 + 4 * j)) [0..<NDIRECT + 1] = i_addrs ip"
    using P assms(2) by (intro nth_equalityI) (auto simp del: upt_Suc)
  then show "dinode_at (put_dinode ip d) (i_inum ip) = meta ip"
    using P h unfolding dinode_at_def meta_def dip_def [symmetric] Let_def by (auto simp del: upt_Suc)
qed

lemma put_dinode_other:
  assumes "length d = BSIZE" "unat inum mod IPB \<noteq> unat (i_inum ip) mod IPB"
  shows "dinode_at (put_dinode ip d) inum = dinode_at d inum"
proof -
  define dip where "dip = dinode_off (i_inum ip)"
  define off where "off = dinode_off inum"
  have o: "off + 64 \<le> dip \<or> dip + 64 \<le> off" "off + 64 \<le> BSIZE"
    using assms(2) dinode_off_le [of inum] unfolding off_def dip_def dinode_off_def by linarith+
  note h = put_header_get [OF assms(1), where ip = ip, folded dip_def]
  have b: "dip + 12 + 4 * (NDIRECT + 1) \<le> BSIZE" using dinode_off_le [of "i_inum ip"] by (simp add: dip_def)
  note P = get_put32_list [OF h(1) b, of "i_addrs ip", folded dip_def put_dinode_header [of ip d, folded dip_def]]
  have g: "get16 (put_dinode ip d) p = get16 d p" if "off \<le> p" "p + 2 \<le> off + 64" for p
    using P h(7) [of p] that o by auto
  have g': "get32 (put_dinode ip d) p = get32 d p" if "off \<le> p" "p + 4 \<le> off + 64" for p
    using P h(8) [of p] that o by auto
  show ?thesis unfolding dinode_at_def off_def [symmetric] Let_def by (auto simp: g g' simp del: upt_Suc)
qed

text \<open>Inodes with different numbers are in different blocks or at different offsets.\<close>

lemma inode_place:
  assumes "IBLOCK a sbl = IBLOCK b sbl" "unat a mod IPB = unat b mod IPB"
  shows "a = b"
proof -
  have "a div 16 = b div 16" using assms(1) by (simp add: IBLOCK_def)
  then have "unat (a div 16) = unat (b div 16)" by simp
  then have "unat a div 16 = unat b div 16" by (simp add: unat_div)
  then have "unat a = unat b" using assms(2) by (metis div_mult_mod_eq)
  then show ?thesis by (rule iffD2 [OF word_unat_eq_iff])
qed

section \<open>Writing an inode back and loading it\<close>

lemma iupdate_spec:
  assumes "in_call (Suc k) H s" "i_dev (itable s ! i) = of_nat ROOTDEV" "H (IBLOCK (i_inum (itable s ! i)) (sb s)) = None"
    "length (i_addrs (itable s ! i)) = NDIRECT + 1"
  obtains s' where "iupdate i s = Inr s'" "in_call k H s'" "fs_same s s'"
    "\<And>b. b \<noteq> IBLOCK (i_inum (itable s ! i)) (sb s) \<Longrightarrow> view s' b = view s b"
    "\<And>inum. disk_inode s' inum = (if inum = i_inum (itable s ! i) then meta (itable s ! i) else disk_inode s inum)"
proof -
  let ?ip = "itable s ! i"
  let ?n = "IBLOCK (i_inum ?ip) (sb s)"
  let ?d = "put_dinode ?ip (view s ?n)"
  note D = put_dinode_same [OF in_call_length [OF assms(1)] assms(4), of ?n]
  obtain c s1 s2 s3 where S: "bread (of_nat ROOTDEV) ?n s = Inr (c, s1)" "b_data (bufs s1 ! c) = view s ?n" "fs_same s s1"
    "log_write c (set_data c ?d s1) = Inr s2" "brelse c s2 = Inr s3" "in_call k H s3" "view s3 = (view s)(?n := ?d)" "fs_same s s3"
    using call_modify [OF assms(1,3) D(2)] by metis
  have "iupdate i s = Inr s3" using S(1-5) assms(2) by (simp add: iupdate_def fs_same_def)
  moreover have "disk_inode s3 inum = (if inum = i_inum ?ip then meta ?ip else disk_inode s inum)" for inum
    using S(7,8) D(1) inode_place [of inum "sb s" "i_inum ?ip"] put_dinode_other [OF in_call_length [OF assms(1)], of inum ?ip ?n]
    by (auto simp: disk_inode_def fs_same_def)
  ultimately show thesis using that [OF _ S(6,8)] S(7) by simp
qed

lemma acquiresleep_free:
  assumes "running s" "\<not> slocked l"
  shows "acquiresleep ch l s = Inr (mylock s)"
  using assms by (auto simp: acquiresleep_def curproc_def running_def mylock_def)

lemma ilock_loads:
  assumes "in_call (Suc k) H s" "i < length (itable s)" "1 \<le> i_ref (itable s ! i)" "\<not> slocked (i_lock (itable s ! i))"
    "i_dev (itable s ! i) = of_nat ROOTDEV" "H (IBLOCK (i_inum (itable s ! i)) (sb s)) = None" "\<not> i_valid (itable s ! i)"
    "fst (disk_inode s (i_inum (itable s ! i))) \<noteq> 0"
  obtains s' where "ilock i s = Inr s'" "in_call (Suc k) H s'" "view s' = view s" "sb s' = sb s" "mem s' = mem s"
    "itable s' = (itable s)[i := (get_dinode (view s (IBLOCK (i_inum (itable s ! i)) (sb s))) (itable s ! i))
       \<lparr>i_lock := mylock s, i_valid := True\<rparr>]"
proof -
  let ?ip = "itable s ! i"
  let ?n = "IBLOCK (i_inum ?ip) (sb s)"
  have ok: "fs_ok H s" "in_use H s < NBUF" "running s" using assms(1) by (auto simp: in_call_def fs_ok_def)
  define s0 where "s0 = upd_inode i (\<lambda>ip. ip\<lparr>i_lock := mylock s\<rparr>) s"
  have s0: "fs_ok H s0" "in_use H s0 < NBUF" "view s0 = view s" "itable s0 ! i = ?ip\<lparr>i_lock := mylock s\<rparr>" "sb s0 = sb s"
    using ok assms(2) by (simp_all add: s0_def)
  obtain b s1 where s1: "bread (of_nat ROOTDEV) ?n s0 = Inr (b, s1)" "fs_ok (H(?n \<mapsto> b)) s1" "b_data (bufs s1 ! b) = view s0 ?n"
    "view s1 = view s0" "logged s1 = logged s0" "fs_same s0 s1"
    using fs_bread [OF s0(1) assms(6)] s0(2) by blast
  define t where "t = upd_inode i (get_dinode (view s ?n)) s1"
  have t: "fs_ok (H(?n \<mapsto> b)) t" using s1(2) by (simp add: t_def)
  obtain s2 where s2: "brelse b t = Inr s2" "fs_ok ((H(?n \<mapsto> b))(?n := None)) s2" "view s2 = view t" "logged s2 = logged t" "fs_same t s2"
    by (rule fs_brelse [OF t]) auto
  define u where "u = upd_inode i (\<lambda>ip. ip\<lparr>i_valid := True\<rparr>) s2"
  have it: "itable s2 = (itable s)[i := get_dinode (view s ?n) (?ip\<lparr>i_lock := mylock s\<rparr>)]"
    using s2(5) s1(6) assms(2) by (simp add: fs_same_def t_def s0_def)
  have g: "get_dinode d (ip\<lparr>i_lock := l\<rparr>) = (get_dinode d ip)\<lparr>i_lock := l\<rparr>" for d ip l by (simp add: get_dinode_def Let_def)
  have itu: "itable u = (itable s)[i := (get_dinode (view s ?n) ?ip)\<lparr>i_lock := mylock s, i_valid := True\<rparr>]"
    using it assms(2) g by (simp add: u_def)
  have ty: "i_type (itable u ! i) \<noteq> 0"
    using assms(2,8) itu by (simp add: disk_inode_def dinode_at_def get_dinode_def Let_def)
  have "ilock i s = Inr u"
    unfolding ilock_def
    using assms(2,3,5,7) acquiresleep_free [OF ok(3) assms(4)] s1(1,3) s2(1) ty [unfolded u_def upd_inode_fs_ok] s0(3-5)
    by (simp add: s0_def [symmetric] t_def [symmetric] u_def [symmetric])
  moreover have "in_call (Suc k) H u"
    using assms(1,6) s2(2,4,5) s1(5,6) by (simp add: in_call_def u_def t_def s0_def fs_same_def in_use_def fun_upd_idem)
  moreover have "view u = view s" "sb u = sb s" "mem u = mem s"
    using s2(3,5) s1(4,6) by (simp_all add: u_def t_def s0_def fs_same_def)
  ultimately show thesis using that itu by blast
qed

text \<open>
  (C14) What \<open>iupdate\<close> writes, \<open>ilock\<close> reads back: the inode on disk becomes the one in the table, no other
  inode on disk changes, and once the table entry is unlocked and no longer valid, locking it loads exactly the
  type, device numbers, link count, size and block addresses that were written.
\<close>

theorem inode_round_trip:
  assumes "in_call (k + 2) Map.empty s" "i < length (itable s)" "1 \<le> i_ref (itable s ! i)"
    "i_dev (itable s ! i) = of_nat ROOTDEV" "length (i_addrs (itable s ! i)) = NDIRECT + 1" "i_type (itable s ! i) \<noteq> 0" "\<not> slocked l"
  shows "\<exists>s' s''. iupdate i s = Inr s' \<and> itable s' = itable s \<and>
    (\<forall>inum. disk_inode s' inum = (if inum = i_inum (itable s ! i) then meta (itable s ! i) else disk_inode s inum)) \<and>
    ilock i (upd_inode i (\<lambda>ip. ip\<lparr>i_valid := False, i_lock := l\<rparr>) s') = Inr s'' \<and> meta (itable s'' ! i) = meta (itable s ! i) \<and>
    i_valid (itable s'' ! i) \<and> slocked (i_lock (itable s'' ! i))"
proof -
  have c: "in_call (Suc (Suc k)) Map.empty s" using assms(1) by simp
  obtain s' where s': "iupdate i s = Inr s'" "in_call (Suc k) Map.empty s'" "fs_same s s'"
    "\<And>inum. disk_inode s' inum = (if inum = i_inum (itable s ! i) then meta (itable s ! i) else disk_inode s inum)"
    by (rule iupdate_spec [OF c assms(4) _ assms(5)]) auto
  define t where "t = upd_inode i (\<lambda>ip. ip\<lparr>i_valid := False, i_lock := l\<rparr>) s'"
  have it: "itable s' = itable s" using s'(3) by (simp add: fs_same_def)
  have t: "in_call (Suc k) Map.empty t" "itable t ! i = (itable s ! i)\<lparr>i_valid := False, i_lock := l\<rparr>" "i < length (itable t)" "sb t = sb s'" "view t = view s'"
    using s'(2) it assms(2) by (simp_all add: t_def in_call_def)
  have "disk_inode t (i_inum (itable t ! i)) = meta (itable s ! i)" using s'(4) t by (simp add: disk_inode_def)
  then have m: "dinode_at (view t (IBLOCK (i_inum (itable t ! i)) (sb t))) (i_inum (itable t ! i)) = meta (itable s ! i)"
    "fst (disk_inode t (i_inum (itable t ! i))) \<noteq> 0"
    using assms(6) by (simp_all add: disk_inode_def meta_def)
  obtain s'' where s'': "ilock i t = Inr s''"
    "itable s'' = (itable t)[i := (get_dinode (view t (IBLOCK (i_inum (itable t ! i)) (sb t))) (itable t ! i))
       \<lparr>i_lock := mylock t, i_valid := True\<rparr>]"
    by (rule ilock_loads [OF t(1,3) _ _ _ _ _ m(2)]) (use t(2) assms(3,4,7) in auto)
  have "meta (itable s'' ! i) = meta (get_dinode (view t (IBLOCK (i_inum (itable t ! i)) (sb t))) (itable t ! i))"
    using s''(2) t(3) by (simp add: meta_def)
  then show ?thesis
    using s'(1,4) it s'' t(3) m(1) by (intro exI [of _ s'] exI [of _ s'']) (simp add: meta_get_dinode t_def mylock_def)
qed

definition example_inode :: inode where
  "example_inode = \<lparr>i_dev = of_nat ROOTDEV, i_inum = 5, i_ref = 1, i_lock = initsleeplock\<lparr>slocked := True, spid := 1\<rparr>, i_valid = True, i_type = T_FILE,
     i_major = 0, i_minor = 0, i_nlink = 1, i_size = 100, i_addrs = 48 # replicate NDIRECT 0\<rparr>"

theorem inode_round_trip_witness:
  "\<exists>s s' s''. iupdate 0 (s :: fstate) = Inr s' \<and> slocked (i_lock (itable s ! 0)) \<and> fst (disk_inode s 5) = 0 \<and> disk_inode s' 5 = meta example_inode \<and>
     ilock 0 (upd_inode 0 (\<lambda>ip. ip\<lparr>i_valid := False, i_lock := initsleeplock\<rparr>) s') = Inr s'' \<and> meta (itable s'' ! 0) = meta example_inode"
proof -
  define s where "s = binit (boot_fstate small_disk small_sb [example_inode])"
  note S = small_fs [where itab = "[example_inode]", folded s_def]
  have a: "in_call (28 + 2) Map.empty s" "0 < length (itable s)" "1 \<le> i_ref (itable s ! 0)"
    "i_dev (itable s ! 0) = of_nat ROOTDEV" "length (i_addrs (itable s ! 0)) = NDIRECT + 1" "i_type (itable s ! 0) \<noteq> 0" "\<not> slocked initsleeplock"
    using S(1,4) by (simp_all add: example_inode_def initsleeplock_def)
  have "IBLOCK 5 (sb s) = 33" by (simp add: S(3) IBLOCK_def small_sb_def)
  then have "view s (IBLOCK 5 (sb s)) = replicate BSIZE 0" by (simp add: S(2) small_disk_def)
  then have "fst (disk_inode s 5) = 0" by (simp add: disk_inode_def dinode_at_def dinode_off_def get16_def)
  moreover have "itable s ! 0 = example_inode" "i_inum example_inode = 5" "slocked (i_lock example_inode)" using S(4) by (simp_all add: example_inode_def)
  ultimately show ?thesis using inode_round_trip [OF a] by (metis (no_types))
qed

end
