(* ===== verification/FsTable.thy ===== *)
theory FsTable
  imports FsInode VmFrame
begin

text \<open>
  The inode table is well formed at all times: every entry has its thirteen block addresses, and no
  inode is in the table twice, so that all users of a file share one lock and one copy of the inode.
\<close>

definition itable_ok :: "'a fstate_scheme \<Rightarrow> bool" where
  "itable_ok s \<longleftrightarrow> length (itable s) = NINODE \<and> (\<forall>i < NINODE. length (i_addrs (itable s ! i)) = NDIRECT + 1) \<and>
     (\<forall>i < NINODE. \<forall>j < NINODE. 0 < i_ref (itable s ! i) \<longrightarrow> 0 < i_ref (itable s ! j) \<longrightarrow>
        i_dev (itable s ! i) = i_dev (itable s ! j) \<longrightarrow> i_inum (itable s ! i) = i_inum (itable s ! j) \<longrightarrow> i = j)"

section \<open>Operations that do not touch the table\<close>

lemma itable_ok_cong: "itable s' = itable s \<Longrightarrow> itable_ok s' = itable_ok s"
  by (simp add: itable_ok_def)

lemma itable_view: "fs_view s' = fs_view s \<Longrightarrow> itable_ok s' = itable_ok s"
  by (rule itable_ok_cong) (simp add: fs_view_def)

lemma itable_more: "kstate.more s' = kstate.more (s :: 'a fstate_scheme) \<Longrightarrow> itable_ok s' = itable_ok s"
  by (rule itable_ok_cong) (cases s; cases s'; simp)

lemma bwrite_fs: "bwrite b s = Inr s' \<Longrightarrow> fs_view s' = fs_view s"
  by (auto simp: bwrite_def)

lemma table_cache [pres_rules]:
  "itable_ok s = v \<Longrightarrow> pres itable_ok v (bread d n s)" "itable_ok s = v \<Longrightarrow> pres0 itable_ok v (brelse b s)"
  "itable_ok s = v \<Longrightarrow> pres0 itable_ok v (bwrite b s)" "itable_ok s = v \<Longrightarrow> pres0 itable_ok v (log_write b s)"
  by (auto intro!: presI pres0I dest!: itable_view [OF bread_fs] itable_view [OF brelse_fs] itable_view [OF bwrite_fs]
      itable_view [OF log_write_fs])

lemma table_simps [simp]:
  "itable_ok (set_data b d s) = itable_ok s" "itable_ok (s\<lparr>mem := m\<rparr>) = itable_ok s" "itable_ok (s\<lparr>sb := sbl\<rparr>) = itable_ok s"
  "itable_ok (wakeup ch s) = itable_ok s" "itable_ok (stage bp s) = itable_ok s" "itable_ok (bunpin b s) = itable_ok s"
  "itable_ok (s\<lparr>lh_n := k\<rparr>) = itable_ok s" "itable_ok (s\<lparr>outstanding := c\<rparr>) = itable_ok s" "itable_ok (s\<lparr>committing := e\<rparr>) = itable_ok s"
  by (rule itable_ok_cong; simp add: set_data_def upd_buf_def wakeup_def stage_def bunpin_def)+

lemma table_copy [pres_rules]:
  fixes s :: "'a fstate_scheme"
  shows "itable_ok s = v \<Longrightarrow> pres itable_ok v (copyout pt dst src len s)" "itable_ok s = v \<Longrightarrow> pres itable_ok v (copyin pt dst src len s)"
  by (auto intro!: presI dest!: itable_more [OF presD [OF copyout_pres [OF refl]]] itable_more [OF presD [OF copyin_pres [OF refl]]])

lemma table_either_copy [pres_rules]:
  "itable_ok s = v \<Longrightarrow> pres itable_ok v (either_copyout u dst bp k len s)"
  "itable_ok s = v \<Longrightarrow> pres itable_ok v (either_copyin bp k u src len s)"
  unfolding either_copyout_def either_copyin_def by (intro pres_rules; simp)+

lemma table_bzero [pres_rules]: "itable_ok s = v \<Longrightarrow> pres0 itable_ok v (bzero dev n s)"
  unfolding bzero_def by (intro pres_rules; simp)

lemma table_balloc [pres_rules]: "itable_ok s = v \<Longrightarrow> pres itable_ok v (balloc dev s)"
proof -
  have "itable_ok s = v \<Longrightarrow> pres itable_ok v (balloc_loop dev bs s)" for bs
  proof (induction bs arbitrary: s)
    case (Cons b bs)
    show ?case unfolding balloc_loop.simps by (intro pres_rules Cons; simp add: Cons)
  qed (simp add: pres_rules)
  then show "itable_ok s = v \<Longrightarrow> ?thesis" unfolding balloc_def by blast
qed

lemma table_bfree [pres_rules]: "itable_ok s = v \<Longrightarrow> pres0 itable_ok v (bfree dev b s)"
  unfolding bfree_def by (intro pres_rules; simp)

lemma table_iupdate [pres_rules]: "itable_ok s = v \<Longrightarrow> pres0 itable_ok v (iupdate i s)"
  unfolding iupdate_def by (intro pres_rules; simp)

lemma table_write_head [pres_rules]: "itable_ok s = v \<Longrightarrow> pres0 itable_ok v (write_head s)"
  unfolding write_head_def by (intro pres_rules; simp)

lemma table_commit [pres_rules]: "itable_ok s = v \<Longrightarrow> pres0 itable_ok v (commit s)"
  unfolding commit_def write_log_def install_trans_def write_log_one_def install_one_def
  by (intro pres_rules pres_rfold; simp add: pres_rules)

lemma table_begin_op [pres_rules]: "itable_ok s = v \<Longrightarrow> pres0 itable_ok v (begin_op s)"
  unfolding begin_op_def by (intro pres_rules; simp)

lemma table_end_op [pres_rules]: "itable_ok s = v \<Longrightarrow> pres0 itable_ok v (end_op s)"
  unfolding end_op_def by (intro pres_rules; simp)

section \<open>Operations on one entry\<close>

lemma itable_ok_upd:
  assumes "itable_ok s" "i_dev (f (itable s ! i)) = i_dev (itable s ! i)" "i_inum (f (itable s ! i)) = i_inum (itable s ! i)"
    "0 < i_ref (f (itable s ! i)) \<Longrightarrow> 0 < i_ref (itable s ! i)"
    "length (i_addrs (itable s ! i)) = NDIRECT + 1 \<Longrightarrow> length (i_addrs (f (itable s ! i))) = NDIRECT + 1"
  shows "itable_ok (upd_inode i f s)"
proof (cases "i < length (itable s)")
  case True
  then show ?thesis using assms unfolding itable_ok_def by (auto simp: nth_list_update)
next
  case False
  then show ?thesis using assms(1) by (simp add: itable_ok_def list_update_beyond)
qed

lemma table_pure [pres_rules]:
  "(\<And>x. pres0 g v (f x)) \<Longrightarrow> pres0 g v (rbind (acquiresleep ch l s) f)"
  "(\<And>x. pres0 g v (h x)) \<Longrightarrow> pres0 g v (rbind (holdingsleep l s) h)"
  by (rule pres_pure; blast)+

lemma table_unlock [intro]: "itable_ok s \<Longrightarrow> itable_ok (unlock_inode i s)"
  by (auto simp: unlock_inode_def releasesleep_def intro: itable_ok_upd)

lemma table_ilock [pres_rules]: "itable_ok s = True \<Longrightarrow> pres0 itable_ok True (ilock i s)"
  unfolding ilock_def by (intro pres_rules; auto intro!: itable_ok_upd simp: get_dinode_def Let_def)

lemma table_iunlock [pres_rules]: "itable_ok s = True \<Longrightarrow> pres0 itable_ok True (iunlock i s)"
  unfolding iunlock_def by (intro pres_rules; auto)

lemma table_trunc_direct: "itable_ok s = True \<Longrightarrow> pres0 itable_ok True (trunc_direct i j s)"
  unfolding trunc_direct_def by (intro pres_rules; auto intro!: itable_ok_upd)

lemma table_trunc_indirect: "itable_ok s = True \<Longrightarrow> pres0 itable_ok True (trunc_indirect dev bp j s)"
  unfolding trunc_indirect_def by (intro pres_rules; auto)

lemma table_itrunc [pres_rules]: "itable_ok s = True \<Longrightarrow> pres0 itable_ok True (itrunc i s)"
  unfolding itrunc_def
  by (intro pres_rules pres_rfold table_trunc_direct table_trunc_indirect; auto intro!: itable_ok_upd)

lemma table_iput [pres_rules]: "itable_ok s = True \<Longrightarrow> pres0 itable_ok True (iput i s)"
  unfolding iput_def by (intro pres_rules; auto intro!: itable_ok_upd)

lemma table_iunlockput [pres_rules]: "itable_ok s = True \<Longrightarrow> pres0 itable_ok True (iunlockput i s)"
  unfolding iunlockput_def by (intro pres_rules; auto)

lemma table_bmap [pres_rules]: "itable_ok s = True \<Longrightarrow> pres itable_ok True (bmap i bn s)"
  unfolding bmap_def Let_def by (intro pres_rules; auto intro!: itable_ok_upd)

lemma table_readi_loop [pres_rules]: "itable_ok s = True \<Longrightarrow> pres itable_ok True (readi_loop k i u dst off tot n s)"
proof (induction k arbitrary: dst off tot s)
  case (Suc k)
  show ?case unfolding readi_loop.simps by (intro pres_rules Suc; use Suc in auto)
qed (simp add: pres_rules)

lemma table_readi [pres_rules]: "itable_ok s = True \<Longrightarrow> pres itable_ok True (readi i u dst off n s)"
  unfolding readi_def by (intro pres_rules; simp)

lemma table_writei_loop [pres_rules]: "itable_ok s = True \<Longrightarrow> pres itable_ok True (writei_loop k i u src off tot n s)"
proof (induction k arbitrary: src off tot s)
  case (Suc k)
  show ?case unfolding writei_loop.simps by (intro pres_rules Suc; use Suc in auto)
qed (simp add: pres_rules)

lemma pres_case_pair [pres_rules]: "(\<And>a b. x = (a, b) \<Longrightarrow> pres g v (f a b y)) \<Longrightarrow> pres g v ((case x of (a, b) \<Rightarrow> f a b) y)"
  by (cases x) simp

lemma table_writei [pres_rules]: "itable_ok s = True \<Longrightarrow> pres itable_ok True (writei i u src off n s)"
  unfolding writei_def by (intro pres_rules; auto intro!: itable_ok_upd)

section \<open>References and directories\<close>

text \<open>The search of \<open>iget\<close> finds the entry of the inode if there is one, and else an unused entry.\<close>

lemma iget_scan_hit:
  "iget_scan dev inum ips k emp = (Some i, e) \<Longrightarrow>
     k \<le> i \<and> i < k + length ips \<and> 0 < i_ref (ips ! (i - k)) \<and> i_dev (ips ! (i - k)) = dev \<and> i_inum (ips ! (i - k)) = inum"
proof (induction ips arbitrary: k emp)
  case (Cons ip ips)
  show ?case
  proof (cases "0 < i_ref ip \<and> i_dev ip = dev \<and> i_inum ip = inum")
    case False
    note IH = Cons.IH [of "Suc k" "if emp = None \<and> i_ref ip = 0 then Some k else emp"]
    then have r: "Suc k \<le> i" "i < Suc k + length ips" "0 < i_ref (ips ! (i - Suc k))" "i_dev (ips ! (i - Suc k)) = dev" "i_inum (ips ! (i - Suc k)) = inum"
      using Cons.prems False by auto
    then have "(ip # ips) ! (i - k) = ips ! (i - Suc k)" by (simp add: nth_Cons')
    with r show ?thesis by simp
  qed (use Cons.prems in auto)
qed simp

lemma iget_scan_miss:
  "iget_scan dev inum ips k emp = (None, r) \<Longrightarrow>
     (\<forall>ip \<in> set ips. \<not> (0 < i_ref ip \<and> i_dev ip = dev \<and> i_inum ip = inum)) \<and>
     (r = emp \<or> (\<exists>i. r = Some i \<and> k \<le> i \<and> i < k + length ips \<and> i_ref (ips ! (i - k)) = 0))"
proof (induction ips arbitrary: k emp)
  case (Cons ip ips)
  let ?e = "if emp = None \<and> i_ref ip = 0 then Some k else emp"
  have h: "\<not> (0 < i_ref ip \<and> i_dev ip = dev \<and> i_inum ip = inum)" "iget_scan dev inum ips (Suc k) ?e = (None, r)"
    using Cons.prems by (auto split: if_splits)
  from Cons.IH [OF h(2)] consider "r = ?e" | i where "r = Some i" "Suc k \<le> i" "i < Suc k + length ips" "i_ref (ips ! (i - Suc k)) = 0" by auto
  then have "r = emp \<or> (\<exists>i. r = Some i \<and> k \<le> i \<and> i < k + length (ip # ips) \<and> i_ref ((ip # ips) ! (i - k)) = 0)"
  proof cases
    case 1
    then show ?thesis by (auto split: if_splits)
  next
    case 2
    then show ?thesis by (auto simp: nth_Cons')
  qed
  then show ?case using Cons.IH [OF h(2)] h(1) by auto
qed simp

lemma table_recycle:
  assumes "itable_ok s" "i < length (itable s)"
    "\<forall>ip \<in> set (itable s). \<not> (0 < i_ref ip \<and> i_dev ip = dev \<and> i_inum ip = inum)"
  shows "itable_ok (upd_inode i (\<lambda>ip. ip\<lparr>i_dev := dev, i_inum := inum, i_ref := 1, i_valid := False\<rparr>) s)"
proof -
  have "\<forall>j < NINODE. \<not> (0 < i_ref (itable s ! j) \<and> i_dev (itable s ! j) = dev \<and> i_inum (itable s ! j) = inum)"
    using assms(1,3) by (simp add: itable_ok_def)
  then show ?thesis
    using assms(1,2) unfolding itable_ok_def by (simp add: nth_list_update) metis
qed

lemma table_iget [pres_rules]:
  assumes "itable_ok s = True"
  shows "pres itable_ok True (iget dev inum s)"
proof (cases "iget_scan dev inum (itable s) 0 None")
  case (Pair a b)
  consider i where "a = Some i" | i where "a = None" "b = Some i" | "a = None" "b = None" by (cases a; cases b) auto
  then show ?thesis
  proof cases
    case (1 i)
    then show ?thesis
      using iget_scan_hit [of dev inum "itable s" 0 None i b] Pair assms
      by (auto simp: iget_def intro!: presI itable_ok_upd)
  next
    case (2 i)
    then show ?thesis
      using iget_scan_miss [of dev inum "itable s" 0 None b] Pair assms table_recycle [of s i dev inum]
      by (auto simp: iget_def intro!: presI)
  next
    case 3
    then show ?thesis using Pair by (auto simp: iget_def intro!: presI)
  qed
qed

lemma table_ialloc [pres_rules]: "itable_ok s = True \<Longrightarrow> pres itable_ok True (ialloc dev ty s)"
proof -
  have "itable_ok s = True \<Longrightarrow> pres itable_ok True (ialloc_loop dev ty ns s)" for ns
  proof (induction ns arbitrary: s)
    case (Cons n ns)
    show ?case unfolding ialloc_loop.simps by (intro pres_rules Cons; simp add: Cons)
  qed (simp add: pres_rules)
  then show "itable_ok s = True \<Longrightarrow> ?thesis" unfolding ialloc_def by blast
qed

lemma table_ireclaim [pres_rules]: "itable_ok s = True \<Longrightarrow> pres0 itable_ok True (ireclaim dev s)"
  unfolding ireclaim_def ireclaim_one_def Let_def by (intro pres_rules pres_rfold; simp)

lemma table_dirlookup_loop [pres_rules]: "itable_ok s = True \<Longrightarrow> pres itable_ok True (dirlookup_loop offs dp name s)"
proof (induction offs arbitrary: s)
  case (Cons off offs)
  show ?case unfolding dirlookup_loop.simps by (intro pres_rules Cons; simp add: Cons)
qed (simp add: pres_rules)

lemma table_dirlookup [pres_rules]: "itable_ok s = True \<Longrightarrow> pres itable_ok True (dirlookup dp name s)"
  unfolding dirlookup_def by (intro pres_rules; auto intro!: pres_rules split: prod.split)

lemma table_dirlink_loop [pres_rules]: "itable_ok s = True \<Longrightarrow> pres itable_ok True (dirlink_loop offs e dp s)"
proof (induction offs arbitrary: s)
  case (Cons off offs)
  show ?case unfolding dirlink_loop.simps by (intro pres_rules Cons; simp add: Cons)
qed (simp add: pres_rules)

lemma table_dirlink [pres_rules]: "itable_ok s = True \<Longrightarrow> pres itable_ok True (dirlink dp name inum s)"
  unfolding dirlink_def by (intro pres_rules; auto intro!: pres_rules split: prod.split)

lemma table_namex_loop [pres_rules]:
  fixes s :: "'a fstate_scheme"
  shows "itable_ok s = True \<Longrightarrow> pres itable_ok True (namex_loop pth par name ip s)"
proof (induction "length pth" arbitrary: pth name ip s rule: less_induct)
  case less
  have IH: "pres itable_ok True (namex_loop pth' par name' i s')" if "skipelem pth = Some (pth', name')" "itable_ok s'" for pth' name' i and s' :: "'a fstate_scheme"
    using less(1) [OF skipelem_shorter [OF that(1)]] that(2) by simp
  show ?case
  proof (cases "skipelem pth")
    case None
    then show ?thesis using less(2) by (subst namex_loop.simps) (auto intro!: pres_rules)
  next
    case (Some a)
    then obtain pth' name' where a: "skipelem pth = Some (pth', name')" by (cases a) auto
    show ?thesis
      unfolding namex_loop.simps [of pth] a option.case prod.case
      by (intro pres_rules; use less(2) IH [OF a] in \<open>auto split: prod.split\<close>)
  qed
qed

lemma table_idup: "itable_ok s \<Longrightarrow> 1 \<le> i_ref (itable s ! i) \<Longrightarrow> itable_ok (snd (idup i s))"
  by (auto simp: idup_def intro!: itable_ok_upd)

text \<open>A process with a working directory holds a reference to it.\<close>

definition cwd_held :: "'a fstate_scheme \<Rightarrow> bool" where
  "cwd_held s \<longleftrightarrow> (\<forall>p i. myproc s = Some p \<longrightarrow> cwd (procs s ! p) = Some i \<longrightarrow> 1 \<le> i_ref (itable s ! i))"

lemma table_namex [pres_rules]:
  assumes "itable_ok s = True" "cwd_held s"
  shows "pres itable_ok True (namex pth par s)"
proof -
  have "pres itable_ok True (case cwd (procs s ! p) of None \<Rightarrow> Inl (Panic ''kerneltrap'') | Some i \<Rightarrow> Inr (idup i s))"
    if "myproc s = Some p" for p
    using assms that table_idup [of s] by (auto simp: cwd_held_def idup_def intro!: pres_rules split: option.split)
  then have "pres itable_ok True (rbind (curproc s) (\<lambda>p. case cwd (procs s ! p) of None \<Rightarrow> Inl (Panic ''kerneltrap'') | Some i \<Rightarrow> Inr (idup i s)))"
    by (cases "myproc s") (auto simp: curproc_def intro!: pres_rules)
  then show ?thesis unfolding namex_def using assms(1) by (auto intro!: pres_rules)
qed

section \<open>Every run\<close>

definition zero_inode :: inode where
  "zero_inode = \<lparr>i_dev = 0, i_inum = 0, i_ref = 0, i_lock = initsleeplock, i_valid = False, i_type = 0,
     i_major = 0, i_minor = 0, i_nlink = 0, i_size = 0, i_addrs = replicate (NDIRECT + 1) 0\<rparr>"

text \<open>
  The states that the file system goes through: after \<open>iinit\<close> on the zeroed table, any operation of
  \<^verbatim>\<open>kernel/fs.c\<close> in any order, interleaved with steps of the rest of the kernel (\<open>other\<close>), which do not touch the table. An inode
  is duplicated only by a holder of a reference.
\<close>

inductive fs_run :: "'a fstate_scheme \<Rightarrow> bool" where
  boot: "itable s = replicate NINODE zero_inode \<Longrightarrow> fs_run (iinit s)"
| other: "fs_run s \<Longrightarrow> itable s' = itable s \<Longrightarrow> fs_run s'"
| iget: "fs_run s \<Longrightarrow> iget dev inum s = Inr (i, s') \<Longrightarrow> fs_run s'"
| idup: "fs_run s \<Longrightarrow> 1 \<le> i_ref (itable s ! i) \<Longrightarrow> fs_run (snd (idup i s))"
| ilock: "fs_run s \<Longrightarrow> ilock i s = Inr s' \<Longrightarrow> fs_run s'"
| iunlock: "fs_run s \<Longrightarrow> iunlock i s = Inr s' \<Longrightarrow> fs_run s'"
| iput: "fs_run s \<Longrightarrow> iput i s = Inr s' \<Longrightarrow> fs_run s'"
| iunlockput: "fs_run s \<Longrightarrow> iunlockput i s = Inr s' \<Longrightarrow> fs_run s'"
| iupdate: "fs_run s \<Longrightarrow> iupdate i s = Inr s' \<Longrightarrow> fs_run s'"
| itrunc: "fs_run s \<Longrightarrow> itrunc i s = Inr s' \<Longrightarrow> fs_run s'"
| ialloc: "fs_run s \<Longrightarrow> ialloc dev ty s = Inr (r, s') \<Longrightarrow> fs_run s'"
| ireclaim: "fs_run s \<Longrightarrow> ireclaim dev s = Inr s' \<Longrightarrow> fs_run s'"
| readi: "fs_run s \<Longrightarrow> readi i u a off n s = Inr (c, s') \<Longrightarrow> fs_run s'"
| writei: "fs_run s \<Longrightarrow> writei i u a off n s = Inr (c, s') \<Longrightarrow> fs_run s'"
| dirlookup: "fs_run s \<Longrightarrow> dirlookup i name s = Inr (x, s') \<Longrightarrow> fs_run s'"
| dirlink: "fs_run s \<Longrightarrow> dirlink i name inum s = Inr (c, s') \<Longrightarrow> fs_run s'"
| namex: "fs_run s \<Longrightarrow> cwd_held s \<Longrightarrow> namex pth par s = Inr (y, s') \<Longrightarrow> fs_run s'"

lemma iinit_ok: "itable s = replicate NINODE zero_inode \<Longrightarrow> itable_ok (iinit s)"
  by (simp add: iinit_def itable_ok_def zero_inode_def)

text \<open>
  (C8) The inode table is well typed in every state that the file system reaches: it has \<open>NINODE\<close>
  entries with thirteen block addresses each, and two entries in use never hold the same inode of the
  same device, whatever the order of the operations.
\<close>

theorem fs_run_itable_ok:
  assumes "fs_run s"
  shows "itable_ok s"
  using assms
proof induction
  case (boot s)
  then show ?case by (rule iinit_ok)
next
  case (other s s')
  then show ?case using itable_ok_cong by blast
next
  case (idup s i)
  then show ?case by (simp add: table_idup)
qed (auto dest: presD [rotated] pres0D [rotated] intro: pres_rules)

lemma iget_scan_free: "(\<forall>ip \<in> set ips. i_ref ip = 0) \<Longrightarrow> iget_scan dev inum ips k (Some e) = (None, Some e)"
  by (induction ips arbitrary: k) auto

theorem fs_run_itable_ok_witness:
  "\<exists>s :: fstate. fs_run s \<and> 0 < i_ref (itable s ! 0) \<and> i_inum (itable s ! 0) = 5 \<and> itable_ok s"
proof -
  define b where "b = boot_fstate small_disk small_sb (replicate NINODE zero_inode)"
  have "itable b = replicate NINODE zero_inode"
    by (simp add: b_def boot_fstate_def vstate.extend_def fstate.fields_def)
  then have b: "itable b = replicate NINODE zero_inode" "fs_run (iinit b)" by (auto intro: fs_run.boot)
  have z: "itable (iinit b) = zero_inode # replicate 49 zero_inode"
    using b(1) by (simp add: iinit_def zero_inode_def numeral_eq_Suc)
  have "iget_scan 1 5 (itable (iinit b)) 0 None = (None, Some 0)"
    unfolding z using iget_scan_free [of "replicate 49 zero_inode" 1 5 1 0] by (simp add: zero_inode_def)
  then obtain s where s: "iget 1 5 (iinit b) = Inr (0, s)" "0 < i_ref (itable s ! 0)" "i_inum (itable s ! 0) = 5"
    by (simp add: iget_def z)
  then show ?thesis using fs_run_itable_ok [OF fs_run.iget [OF b(2) s(1)]] fs_run.iget [OF b(2) s(1)] by blast
qed

end
