(* ===== verification/FsData.thy ===== *)
theory FsData
  imports FsTable
begin

text \<open>
  File contents: \<open>readi\<close> and \<open>writei\<close> see a file as a sequence of bytes, which the block map of the inode
  (twelve direct blocks and one indirect block) spreads over the disk. The lemmas are about kernel memory as the source or
  destination, the way directories are read and written, and about blocks that are allocated.
\<close>

section \<open>The block map\<close>

definition file_blk :: "'a fstate_scheme \<Rightarrow> nat \<Rightarrow> nat \<Rightarrow> u32" where
  "file_blk s i k =
     (let ip = itable s ! i in
      if k < NDIRECT then i_addrs ip ! k
      else if i_addrs ip ! NDIRECT = 0 then 0 else get32 (view s (i_addrs ip ! NDIRECT)) (4 * (k - NDIRECT)))"

definition file_byte :: "'a fstate_scheme \<Rightarrow> nat \<Rightarrow> nat \<Rightarrow> byte" where
  "file_byte s i p = view s (file_blk s i (p div BSIZE)) ! (p mod BSIZE)"

definition file_bytes :: "'a fstate_scheme \<Rightarrow> nat \<Rightarrow> nat \<Rightarrow> nat \<Rightarrow> byte list" where
  "file_bytes s i off n = map (\<lambda>j. file_byte s i (off + j)) [0..<n]"

lemma bmap_allocated:
  assumes "in_call (Suc k) Map.empty s" "i_dev (itable s ! i) = of_nat ROOTDEV" "unat bn < MAXFILE" "file_blk s i (unat bn) \<noteq> 0"
  obtains s' where "bmap i bn s = Inr (file_blk s i (unat bn), s')" "in_call (Suc k) Map.empty s'" "view s' = view s" "fs_same s s'"
proof (cases "unat bn < NDIRECT")
  case True
  then have "bn < of_nat NDIRECT" by (simp add: word_less_nat_alt)
  then have "bmap i bn s = Inr (file_blk s i (unat bn), s)" using assms(4) True by (simp add: bmap_def file_blk_def Let_def)
  then show thesis using that assms(1) by simp
next
  case False
  let ?a = "i_addrs (itable s ! i) ! NDIRECT"
  have nb: "\<not> bn < of_nat NDIRECT" "unat (bn - of_nat NDIRECT) = unat bn - NDIRECT" "?a \<noteq> 0"
    using False assms(4) by (auto simp: word_less_nat_alt word_le_nat_alt unat_sub file_blk_def Let_def)
  have lt: "bn - of_nat NDIRECT < of_nat NINDIRECT" using assms(3) nb(2) by (simp add: word_less_nat_alt)
  obtain b s1 s2 where S: "bread (of_nat ROOTDEV) ?a s = Inr (b, s1)" "b_data (bufs s1 ! b) = view s ?a" "fs_same s s1"
    "brelse b s1 = Inr s2" "in_call (Suc k) Map.empty s2" "view s2 = view s" "fs_same s s2"
    by (rule call_peek [OF assms(1)]) auto
  have f: "file_blk s i (unat bn) = get32 (view s ?a) (4 * (unat bn - NDIRECT))" using False nb(3) by (simp add: file_blk_def Let_def)
  have "bmap i bn s = Inr (file_blk s i (unat bn), s2)"
    using S(1,2,4) nb lt assms(2,4) f by (simp add: bmap_def Let_def)
  then show thesis using that S(5-7) by blast
qed

lemma file_same: "view s' = view s \<Longrightarrow> fs_same s s' \<Longrightarrow> file_blk s' = file_blk s \<and> file_byte s' = file_byte s \<and> file_bytes s' = file_bytes s"
  by (simp add: file_blk_def file_byte_def file_bytes_def fs_same_def fun_eq_iff Let_def)

section \<open>Reading\<close>

lemma unat_block_chunk: "unat (block_chunk off left) = min (unat left) (BSIZE - unat off mod BSIZE)"
proof -
  have m: "unat (off mod 1024) = unat off mod 1024" by (simp add: unat_mod)
  have "unat off mod 1024 < 1024" by simp
  then have "off mod 1024 \<le> 1024" using m by (simp add: word_le_nat_alt)
  then have "unat (1024 - off mod 1024) = 1024 - unat off mod 1024" using m by (simp add: unat_sub)
  then show ?thesis by (simp add: block_chunk_def Let_def word_less_nat_alt min_def)
qed

text \<open>The bytes of one round lie in one block.\<close>

lemma file_bytes_block:
  assumes "m \<le> BSIZE - off mod BSIZE" "length (view s (file_blk s i (off div BSIZE))) = BSIZE"
  shows "get_bytes (view s (file_blk s i (off div BSIZE))) (off mod BSIZE) m = file_bytes s i off m"
proof -
  have o: "off mod 1024 < 1024" by simp
  have "(off + j) div BSIZE = off div BSIZE" "(off + j) mod BSIZE = off mod BSIZE + j" if "j < m" for j
  proof -
    have j: "off mod 1024 + j < 1024" using that assms(1) o by simp
    have "off + j = off div 1024 * 1024 + (off mod 1024 + j)" by simp
    then show "(off + j) div BSIZE = off div BSIZE" "(off + j) mod BSIZE = off mod BSIZE + j"
      using j by (metis div_mult_self3 add.commute div_less add_0 zero_neq_numeral, metis mod_mult_self3 mod_less)
  qed
  then show ?thesis
    using assms o by (intro nth_equalityI) (auto simp: file_bytes_def file_byte_def nth_get_bytes)
qed

lemma mem_proc [simp]: "mylock (s\<lparr>mem := m\<rparr>) = mylock s" "myproc (s\<lparr>mem := m\<rparr>) = myproc s"
  by (simp_all add: mylock_def myproc_def mycpu_def)

text \<open>A block is read into memory: only the memory changes.\<close>

lemma read_block:
  assumes "in_call (Suc k) Map.empty s"
  obtains b s1 s2 where "bread (of_nat ROOTDEV) n s = Inr (b, s1)" "b_data (bufs s1 ! b) = view s n" "fs_same s s1"
    "brelse b (s1\<lparr>mem := m\<rparr>) = Inr s2" "in_call (Suc k) Map.empty s2" "view s2 = view s" "fs_same (s\<lparr>mem := m\<rparr>) s2"
proof -
  have a: "fs_ok Map.empty s" "in_use Map.empty s < NBUF" using assms by (auto simp: in_call_def)
  obtain b s1 where s1: "bread (of_nat ROOTDEV) n s = Inr (b, s1)" "fs_ok (Map.empty(n \<mapsto> b)) s1" "b_data (bufs s1 ! b) = view s n"
    "view s1 = view s" "logged s1 = logged s" "fs_same s s1"
    using fs_bread [OF a(1)] a(2) by blast
  have t: "fs_ok (Map.empty(n \<mapsto> b)) (s1\<lparr>mem := m\<rparr>)" using s1(2) by simp
  obtain s2 where s2: "brelse b (s1\<lparr>mem := m\<rparr>) = Inr s2" "fs_ok ((Map.empty(n \<mapsto> b))(n := None)) s2" "view s2 = view (s1\<lparr>mem := m\<rparr>)"
    "logged s2 = logged (s1\<lparr>mem := m\<rparr>)" "fs_same (s1\<lparr>mem := m\<rparr>) s2"
    by (rule fs_brelse [OF t]) auto
  have same: "fs_same (s\<lparr>mem := m\<rparr>) s2"
    using s1(6) s2(5) by (simp add: fs_same_def)
  have "in_call (Suc k) Map.empty s2"
    using assms s2(2,4) s1(5) same by (simp add: in_call_def in_use_def fs_same_def)
  then show thesis using that [OF s1(1,3,6) s2(1)] s2(3) s1(4) same by simp
qed

lemma file_bytes_append: "file_bytes s i off (m + n) = file_bytes s i off m @ file_bytes s i (off + m) n"
  unfolding file_bytes_def by (rule nth_equalityI) (auto simp: nth_append)

lemma length_file_bytes [simp]: "length (file_bytes s i off n) = n"
  by (simp add: file_bytes_def)

lemma mem_update_same [simp]: "s\<lparr>mem := mem s\<rparr> = s"
  by simp

lemma fs_same_mem: "fs_same (s\<lparr>mem := m\<rparr>) s' \<Longrightarrow> fs_same (s'\<lparr>mem := m'\<rparr>) s'' \<Longrightarrow> fs_same (s\<lparr>mem := m'\<rparr>) s''"
  by (simp add: fs_same_def)

text \<open>The arithmetic of one round on 32-bit counters.\<close>

lemma round_facts:
  fixes off tot n :: u32
  assumes "tot < n" "unat off + (unat n - unat tot) \<le> MAXFILE * BSIZE"
  defines "m \<equiv> block_chunk off (n - tot)"
  shows "0 < unat m" "unat m \<le> unat n - unat tot" "unat m \<le> BSIZE - unat off mod BSIZE" "unat (off + m) = unat off + unat m"
    "unat (tot + m) = unat tot + unat m" "unat (off div 1024) = unat off div BSIZE" "unat (off mod 1024) = unat off mod BSIZE"
    "unat off div BSIZE < MAXFILE"
proof -
  have lt: "unat tot < unat n" using assms(1) by (simp add: word_less_nat_alt)
  have d: "unat (n - tot) = unat n - unat tot" using lt by (simp add: unat_sub word_le_nat_alt)
  have m: "unat m = min (unat n - unat tot) (BSIZE - unat off mod BSIZE)" by (simp add: m_def unat_block_chunk d)
  have "unat off mod 1024 < 1024" by simp
  then show p: "0 < unat m" and le: "unat m \<le> unat n - unat tot" and "unat m \<le> BSIZE - unat off mod BSIZE" using m lt by auto
  show "unat (off + m) = unat off + unat m" using assms(2) le by (intro unat_add_lem [THEN iffD1]) simp
  have "unat tot + unat m < 2 ^ 32" using le lt unat_u32_less [of n] by linarith
  then show "unat (tot + m) = unat tot + unat m" by (intro unat_add_lem [THEN iffD1]) simp
  show "unat (off div 1024) = unat off div BSIZE" "unat (off mod 1024) = unat off mod BSIZE" by (simp_all add: unat_div unat_mod)
  show "unat off div BSIZE < MAXFILE" using assms(2) lt by (intro div_less_iff_less_mult [THEN iffD2]) simp_all
qed

lemma readi_loop_spec:
  assumes "in_call (Suc k) Map.empty s" "i_dev (itable s ! i) = of_nat ROOTDEV" "unat tot \<le> unat n"
    "unat off + (unat n - unat tot) \<le> MAXFILE * BSIZE" "unat n - unat tot < fuel"
    "\<And>p. unat off \<le> p \<Longrightarrow> p < unat off + (unat n - unat tot) \<Longrightarrow> file_blk s i (p div BSIZE) \<noteq> 0"
  shows "\<exists>s'. readi_loop fuel i False dst off tot n s = Inr (n, s') \<and> in_call (Suc k) Map.empty s' \<and> view s' = view s \<and>
    fs_same (s\<lparr>mem := mem_write (mem s) dst (file_bytes s i (unat off) (unat n - unat tot))\<rparr>) s'"
  using assms
proof (induction fuel arbitrary: dst off tot s)
  case (Suc fuel)
  show ?case
  proof (cases "tot < n")
    case False
    then have "tot = n" using Suc.prems(3) by (simp add: word_less_nat_alt word_unat_eq_iff)
    then show ?thesis using Suc.prems(1) by (simp add: file_bytes_def)
  next
    case True
    define m where "m = block_chunk off (n - tot)"
    note R = round_facts [OF True Suc.prems(4), folded m_def]
    have tn: "unat tot < unat n" using True by (simp add: word_less_nat_alt)
    have blk: "file_blk s i (unat (off div 1024)) \<noteq> 0" using Suc.prems(6) [of "unat off"] R(6) tn by simp
    obtain s1 where s1: "bmap i (off div 1024) s = Inr (file_blk s i (unat (off div 1024)), s1)" "in_call (Suc k) Map.empty s1"
      "view s1 = view s" "fs_same s s1"
      using bmap_allocated [OF Suc.prems(1,2) _ blk] R(6,8) by metis
    let ?a = "file_blk s i (unat (off div 1024))"
    define M where "M = mem_write (mem s) dst (file_bytes s i (unat off) (unat m))"
    obtain b s2 s3 where s2: "bread (of_nat ROOTDEV) ?a s1 = Inr (b, s2)" "b_data (bufs s2 ! b) = view s1 ?a" "fs_same s1 s2"
      "brelse b (s2\<lparr>mem := M\<rparr>) = Inr s3" "in_call (Suc k) Map.empty s3" "view s3 = view s1" "fs_same (s1\<lparr>mem := M\<rparr>) s3"
      by (rule read_block [OF s1(2)])
    have bytes: "get_bytes (b_data (bufs s2 ! b)) (unat (off mod 1024)) (unat m) = file_bytes s i (unat off) (unat m)"
      using file_bytes_block [OF R(3), of s i] in_call_length [OF Suc.prems(1)] s2(2) s1(3) R(6,7) by simp
    have mem2: "mem s2 = mem s" "itable s1 = itable s" "i_dev (itable s1 ! i) = 1" using s2(3) s1(4) Suc.prems(2) by (simp_all add: fs_same_def)
    have copy: "either_copyout False dst b (unat (off mod 1024)) (unat m) s2 = Inr (0, s2\<lparr>mem := M\<rparr>)"
      unfolding either_copyout_def bytes M_def mem2(1) by simp
    have same3: "fs_same (s\<lparr>mem := M\<rparr>) s3" using fs_same_mem [OF _ s2(7), where s = s and m = "mem s"] s1(4) by simp
    have F: "file_blk s3 = file_blk s" "file_bytes s3 = file_bytes s"
      using s2(6) s1(3) same3 by (simp_all add: file_blk_def file_bytes_def file_byte_def fs_same_def fun_eq_iff Let_def)
    have step: "readi_loop (Suc fuel) i False dst off tot n s = readi_loop fuel i False (dst + ucast m) (off + m) (tot + m) n s3"
      using True s1(1) s2(1,4) copy mem2(3) blk by (simp add: m_def [symmetric])
    have "\<exists>s'. readi_loop fuel i False (dst + ucast m) (off + m) (tot + m) n s3 = Inr (n, s') \<and> in_call (Suc k) Map.empty s' \<and> view s' = view s3 \<and>
      fs_same (s3\<lparr>mem := mem_write (mem s3) (dst + ucast m) (file_bytes s3 i (unat (off + m)) (unat n - unat (tot + m)))\<rparr>) s'"
      using s2(5) same3 Suc.prems R tn F(1) by (intro Suc.IH) (auto simp: fs_same_def)
    then obtain s' where s': "readi_loop fuel i False (dst + ucast m) (off + m) (tot + m) n s3 = Inr (n, s')" "in_call (Suc k) Map.empty s'"
      "view s' = view s3" "fs_same (s3\<lparr>mem := mem_write (mem s3) (dst + ucast m) (file_bytes s3 i (unat (off + m)) (unat n - unat (tot + m)))\<rparr>) s'" by blast
    have m3: "mem s3 = M" using same3 by (simp add: fs_same_def)
    have split: "file_bytes s i (unat off) (unat n - unat tot) =
        file_bytes s i (unat off) (unat m) @ file_bytes s i (unat (off + m)) (unat n - unat (tot + m))"
    proof -
      have "unat n - unat tot = unat m + (unat n - unat (tot + m))" using R(2,5) by simp
      then show ?thesis using file_bytes_append [of s i "unat off" "unat m" "unat n - unat (tot + m)"] R(4) by simp
    qed
    have "unat m + (unat n - unat (tot + m)) < 2 ^ 64" using unat_u32_less [of n] unat_u32_less [of m] by simp
    then have "mem_write M (dst + of_nat (unat m)) (file_bytes s i (unat (off + m)) (unat n - unat (tot + m))) =
        mem_write (mem s) dst (file_bytes s i (unat off) (unat n - unat tot))"
      unfolding split M_def using mem_write_append [of "file_bytes s i (unat off) (unat m)" _ "mem s" dst] by (metis length_file_bytes)
    then have "mem_write (mem s3) (dst + ucast m) (file_bytes s3 i (unat (off + m)) (unat n - unat (tot + m))) =
        mem_write (mem s) dst (file_bytes s i (unat off) (unat n - unat tot))"
      unfolding m3 F(2) ucast_u32_of_nat .
    then show ?thesis using s' step s2(6) s1(3) fs_same_mem [OF same3] by (intro exI [of _ s']) simp
  qed
qed simp

lemma sint_u32_small: "unat (w :: u32) < 2 ^ 31 \<Longrightarrow> sint w = int (unat w)"
proof -
  assume "unat w < 2 ^ 31"
  then have "int (unat w) < 2 ^ 31" by (metis of_nat_less_iff of_nat_numeral of_nat_power)
  moreover have u: "uint w = int (unat w)" by simp
  ultimately have "uint w < 2 ^ 31" by (simp only:)
  moreover have "- (2 ^ 31) \<le> uint w" by (rule order_trans [OF _ uint_ge_0]) simp
  ultimately have "sint w = uint w" using signed_take_bit_int_eq_self [of 31 "uint w"] by (simp add: sint_uint)
  with u show ?thesis by simp
qed

text \<open>The first \<open>e\<close> bytes of the file are in allocated blocks.\<close>

definition allocated :: "'a fstate_scheme \<Rightarrow> nat \<Rightarrow> nat \<Rightarrow> bool" where
  "allocated s i e \<longleftrightarrow> e \<le> MAXFILE * BSIZE \<and> (\<forall>p < e. file_blk s i (p div BSIZE) \<noteq> 0)"

lemma readi_spec:
  assumes "in_call (Suc k) Map.empty s" "i_dev (itable s ! i) = of_nat ROOTDEV" "unat off + unat n \<le> unat (i_size (itable s ! i))"
    "allocated s i (unat off + unat n)"
  obtains s' where "readi i False dst off n s = Inr (int (unat n), s')" "in_call (Suc k) Map.empty s'" "view s' = view s"
    "fs_same (s\<lparr>mem := mem_write (mem s) dst (file_bytes s i (unat off) (unat n))\<rparr>) s'"
proof -
  have le: "unat off + unat n \<le> MAXFILE * BSIZE" using assms(4) by (simp add: allocated_def)
  have add: "unat (off + n) = unat off + unat n" using le by (intro unat_add_lem [THEN iffD1]) simp
  have c: "\<not> off > i_size (itable s ! i)" "\<not> off + n < off" "\<not> off + n > i_size (itable s ! i)"
    using assms(3) add by (simp_all add: word_less_nat_alt)
  obtain s' where s': "readi_loop (Suc (unat n)) i False dst off 0 n s = Inr (n, s')" "in_call (Suc k) Map.empty s'" "view s' = view s"
    "fs_same (s\<lparr>mem := mem_write (mem s) dst (file_bytes s i (unat off) (unat n))\<rparr>) s'"
    using readi_loop_spec [OF assms(1,2), of 0 n off "Suc (unat n)" dst] assms(4) by (auto simp: allocated_def)
  have "sint n = int (unat n)" using le by (intro sint_u32_small) simp
  then show thesis using that [OF _ s'(2-4)] s'(1) c by (simp add: readi_def Let_def)
qed

section \<open>Writing\<close>

text \<open>
  The blocks of the file are its own: pairwise different, and none of them is the indirect block or the
  block of the inode.
\<close>

definition separate :: "'a fstate_scheme \<Rightarrow> nat \<Rightarrow> bool" where
  "separate s i \<longleftrightarrow> (let ip = itable s ! i; ib = IBLOCK (i_inum ip) (sb s) in
     (\<forall>j < MAXFILE. \<forall>k < MAXFILE. file_blk s i j \<noteq> 0 \<longrightarrow> file_blk s i j = file_blk s i k \<longrightarrow> j = k) \<and>
     (\<forall>k < MAXFILE. file_blk s i k \<noteq> 0 \<longrightarrow> file_blk s i k \<noteq> ib \<and> file_blk s i k \<noteq> i_addrs ip ! NDIRECT) \<and>
     i_addrs ip ! NDIRECT \<noteq> ib)"

lemma separateD:
  assumes "separate s i" "j < MAXFILE" "file_blk s i j \<noteq> 0"
  shows "k < MAXFILE \<Longrightarrow> file_blk s i j = file_blk s i k \<longleftrightarrow> j = k" "file_blk s i j \<noteq> IBLOCK (i_inum (itable s ! i)) (sb s)"
    "file_blk s i j \<noteq> i_addrs (itable s ! i) ! NDIRECT"
  using assms unfolding separate_def Let_def by metis+

definition nblocks :: "nat \<Rightarrow> nat \<Rightarrow> nat" where
  "nblocks off left = (if left = 0 then 0 else (off mod BSIZE + left - 1) div BSIZE + 1)"

lemma nblocks_step:
  assumes "m = min left (BSIZE - off mod BSIZE)" "0 < left"
  shows "nblocks off left = Suc (nblocks (off + m) (left - m)) \<or> nblocks (off + m) (left - m) = 0 \<and> 0 < nblocks off left"
proof (cases "left \<le> BSIZE - off mod BSIZE")
  case True
  then show ?thesis using assms by (simp add: nblocks_def)
next
  case False
  have o: "off mod 1024 < 1024" by simp
  have m: "m = 1024 - off mod 1024" using False assms(1) by simp
  have "m + off mod 1024 = 1024" using m o by simp
  moreover obtain q r where q: "off div 1024 = q" "off mod 1024 = r" "off = 1024 * q + r" by (metis mult_div_mod_eq)
  ultimately have "off + m = 1024 * (off div 1024 + 1)" by simp
  then have z: "(off + m) mod 1024 = 0" by simp
  have "off mod 1024 + left - 1 = (left - m - 1) + 1024" using m o False by simp
  then have "(off mod 1024 + left - 1) div 1024 = (left - m - 1) div 1024 + 1" by simp
  then show ?thesis using False z m assms(2) by (simp add: nblocks_def)
qed

text \<open>One round of \<open>writei\<close> replaces the bytes of its part of one block.\<close>

lemma file_byte_round:
  assumes "separate s i" "length (view s (file_blk s i (off div BSIZE))) = BSIZE" "off div BSIZE < MAXFILE" "file_blk s i (off div BSIZE) \<noteq> 0"
    "off mod BSIZE + length bs \<le> BSIZE" "fs_same s s'"
    "view s' = (view s)(file_blk s i (off div BSIZE) := put_bytes (view s (file_blk s i (off div BSIZE))) (off mod BSIZE) bs)"
  shows "k < MAXFILE \<Longrightarrow> file_blk s' i k = file_blk s i k" "separate s' i"
    "p div BSIZE < MAXFILE \<Longrightarrow>
       file_byte s' i p = (if off \<le> p \<and> p < off + length bs then bs ! (p - off) else file_byte s i p)"
proof -
  let ?a = "file_blk s i (off div BSIZE)"
  note S = separateD [OF assms(1,3,4)]
  have fb: "file_blk s' i = file_blk s i" using assms(6,7) S(3) by (auto simp: file_blk_def fs_same_def Let_def fun_eq_iff)
  then show "k < MAXFILE \<Longrightarrow> file_blk s' i k = file_blk s i k" by simp
  show "separate s' i" using assms(1,6) fb by (simp add: separate_def fs_same_def)
  assume p: "p div BSIZE < MAXFILE"
  have o: "off mod 1024 < 1024" "p mod 1024 < 1024" by simp_all
  have d: "off = 1024 * (off div 1024) + off mod 1024" "p = 1024 * (p div 1024) + p mod 1024" by simp_all
  show "file_byte s' i p = (if off \<le> p \<and> p < off + length bs then bs ! (p - off) else file_byte s i p)"
  proof (cases "p div BSIZE = off div BSIZE")
    case True
    have "file_byte s' i p = put_bytes (view s ?a) (off mod BSIZE) bs ! (p mod BSIZE)" using True fb assms(7) by (simp add: file_byte_def)
    also have "... = (if off mod BSIZE \<le> p mod BSIZE \<and> p mod BSIZE < off mod BSIZE + length bs then bs ! (p mod BSIZE - off mod BSIZE) else view s ?a ! (p mod BSIZE))"
      using assms(2,5) o by (intro nth_put_bytes) simp_all
    finally have B: "file_byte s' i p = (if off mod BSIZE \<le> p mod BSIZE \<and> p mod BSIZE < off mod BSIZE + length bs then bs ! (p mod BSIZE - off mod BSIZE) else view s ?a ! (p mod BSIZE))" .
    have "p div 1024 = off div 1024" using True by simp
    then have "off mod BSIZE \<le> p mod BSIZE \<longleftrightarrow> off \<le> p" "p mod BSIZE < off mod BSIZE + length bs \<longleftrightarrow> p < off + length bs"
      "p mod BSIZE - off mod BSIZE = p - off" using d by linarith+
    then show ?thesis using B True by (simp only: file_byte_def if_True)
  next
    case False
    then have "file_blk s i (p div BSIZE) \<noteq> ?a" using S(1) [OF p] by simp
    then have "file_byte s' i p = file_byte s i p" using fb assms(7) by (simp add: file_byte_def)
    moreover have "\<not> (off \<le> p \<and> p < off + length bs)"
    proof
      assume "off \<le> p \<and> p < off + length bs"
      then have "off \<le> p" "p < 1024 * (off div 1024) + 1024" using assms(5) d(1) by linarith+
      then have "p div 1024 = off div 1024" by (intro antisym div_le_mono less_Suc_eq_le [THEN iffD1] div_less_iff_less_mult [THEN iffD2]) auto
      with False show False by simp
    qed
    ultimately show ?thesis by metis
  qed
qed

lemma writei_round:
  fixes off tot n :: u32
  assumes "in_call (Suc k) Map.empty s" "i_dev (itable s ! i) = of_nat ROOTDEV" "tot < n"
    "unat off + (unat n - unat tot) \<le> MAXFILE * BSIZE" "file_blk s i (unat off div BSIZE) \<noteq> 0"
  defines "m \<equiv> block_chunk off (n - tot)"
  obtains s' where "writei_loop (Suc fuel) i False src off tot n s = writei_loop fuel i False (src + ucast m) (off + m) (tot + m) n s'"
    "in_call k Map.empty s'" "fs_same s s'"
    "view s' = (view s)(file_blk s i (unat off div BSIZE) :=
       put_bytes (view s (file_blk s i (unat off div BSIZE))) (unat off mod BSIZE) (mem_read (mem s) src (unat m)))"
proof -
  let ?a = "file_blk s i (unat off div BSIZE)"
  let ?d = "put_bytes (view s ?a) (unat off mod BSIZE) (mem_read (mem s) src (unat m))"
  note R = round_facts [OF assms(3,4), folded m_def]
  obtain s1 where s1: "bmap i (off div 1024) s = Inr (file_blk s i (unat (off div 1024)), s1)" "in_call (Suc k) Map.empty s1"
    "view s1 = view s" "fs_same s s1"
    using bmap_allocated [OF assms(1,2), of "off div 1024"] assms(5) R(6,8) by metis
  have len: "length ?d = BSIZE" using in_call_length [OF assms(1), of ?a] R(3) by (simp add: put_bytes_def)
  obtain b s2 s3 s4 where S: "bread (of_nat ROOTDEV) ?a s1 = Inr (b, s2)" "b_data (bufs s2 ! b) = view s1 ?a" "fs_same s1 s2"
    "log_write b (set_data b ?d s2) = Inr s3" "fs_same s1 s3" "brelse b s3 = Inr s4" "in_call k Map.empty s4"
    "view s4 = (view s1)(?a := ?d)" "fs_same s1 s4"
    using call_modify [OF s1(2) _ len] by (metis option.distinct(1))
  have e: "mem s2 = mem s" "i_dev (itable s1 ! i) = 1" using S(3) s1(4) assms(2) by (simp_all add: fs_same_def)
  have copy: "either_copyin b (unat (off mod 1024)) False src (unat m) s2 = Inr (0, set_data b ?d s2)"
    unfolding either_copyin_def e(1) S(2) s1(3) R(7) by simp
  have "writei_loop (Suc fuel) i False src off tot n s = writei_loop fuel i False (src + ucast m) (off + m) (tot + m) n s4"
    using assms(3,5) s1(1) S(1,4,6) copy e(2) R(6) by (simp add: m_def [symmetric])
  moreover have "fs_same s s4" using s1(4) S(9) by (simp add: fs_same_def)
  ultimately show thesis using that S(7,8) s1(3) by simp
qed

lemma writei_loop_spec:
  assumes "in_call (nblocks (unat off) (unat n - unat tot) + k) Map.empty s" "i_dev (itable s ! i) = of_nat ROOTDEV" "unat tot \<le> unat n"
    "unat off + (unat n - unat tot) \<le> MAXFILE * BSIZE" "unat n - unat tot < fuel" "separate s i"
    "\<And>p. unat off \<le> p \<Longrightarrow> p < unat off + (unat n - unat tot) \<Longrightarrow> file_blk s i (p div BSIZE) \<noteq> 0"
  shows "\<exists>s'. writei_loop fuel i False src off tot n s = Inr ((n, off + (n - tot)), s') \<and> in_call k Map.empty s' \<and> fs_same s s' \<and>
    separate s' i \<and> (\<forall>j < MAXFILE. file_blk s' i j = file_blk s i j) \<and>
    (\<forall>p < MAXFILE * BSIZE. file_byte s' i p =
       (if unat off \<le> p \<and> p < unat off + (unat n - unat tot) then mem s (src + of_nat (p - unat off)) else file_byte s i p))"
  using assms
proof (induction fuel arbitrary: src off tot s)
  case (Suc fuel)
  show ?case
  proof (cases "tot < n")
    case False
    then have "tot = n" using Suc.prems(3) by (simp add: word_less_nat_alt word_unat_eq_iff)
    then show ?thesis using Suc.prems(1,6) by (auto simp: nblocks_def)
  next
    case True
    define m where "m = block_chunk off (n - tot)"
    note R = round_facts [OF True Suc.prems(4), folded m_def]
    have tn: "unat tot < unat n" "unat (n - tot) = unat n - unat tot" using True by (simp_all add: word_less_nat_alt unat_sub word_le_nat_alt)
    have blk: "file_blk s i (unat off div BSIZE) \<noteq> 0" using Suc.prems(7) [of "unat off"] tn by simp
    have mm: "unat m = min (unat n - unat tot) (BSIZE - unat off mod BSIZE)" by (simp add: m_def unat_block_chunk tn)
    have nb: "in_call (Suc (nblocks (unat (off + m)) (unat n - unat (tot + m)) + k)) Map.empty s"
      using in_call_less [OF Suc.prems(1)] nblocks_step [OF mm] tn R(4,5) by auto
    let ?bs = "mem_read (mem s) src (unat m)"
    obtain s3 where s3: "writei_loop (Suc fuel) i False src off tot n s = writei_loop fuel i False (src + ucast m) (off + m) (tot + m) n s3"
      "in_call (nblocks (unat (off + m)) (unat n - unat (tot + m)) + k) Map.empty s3" "fs_same s s3"
      "view s3 = (view s)(file_blk s i (unat off div BSIZE) := put_bytes (view s (file_blk s i (unat off div BSIZE))) (unat off mod BSIZE) ?bs)"
      by (rule writei_round [OF nb Suc.prems(2) True Suc.prems(4) blk, folded m_def])
    have len: "unat off mod BSIZE + length ?bs \<le> BSIZE" using R(3) by simp
    note F = file_byte_round [OF Suc.prems(6) in_call_length [OF Suc.prems(1)] R(8) blk len s3(3,4)]
    have s3': "i_dev (itable s3 ! i) = of_nat ROOTDEV" "mem s3 = mem s" using s3(3) Suc.prems(2) by (simp_all add: fs_same_def)
    have alloc: "file_blk s3 i (p div BSIZE) \<noteq> 0" if "unat (off + m) \<le> p" "p < unat (off + m) + (unat n - unat (tot + m))" for p
    proof -
      have p: "p < unat off + (unat n - unat tot)" "unat off \<le> p" using that R(2,4,5) by linarith+
      then have "p < MAXFILE * BSIZE" using Suc.prems(4) by linarith
      then have "p div BSIZE < MAXFILE" by (simp add: div_less_iff_less_mult)
      then show ?thesis using F(1) Suc.prems(7) p by simp
    qed
    have le: "unat (tot + m) \<le> unat n" "unat (off + m) + (unat n - unat (tot + m)) \<le> MAXFILE * BSIZE" "unat n - unat (tot + m) < fuel"
      using R Suc.prems(4,5) tn by linarith+
    obtain s' where s': "writei_loop fuel i False (src + ucast m) (off + m) (tot + m) n s3 = Inr ((n, off + m + (n - (tot + m))), s')"
      "in_call k Map.empty s'" "fs_same s3 s'" "separate s' i" "\<forall>j < MAXFILE. file_blk s' i j = file_blk s3 i j"
      "\<forall>p < MAXFILE * BSIZE. file_byte s' i p = (if unat (off + m) \<le> p \<and> p < unat (off + m) + (unat n - unat (tot + m))
         then mem s3 (src + ucast m + of_nat (p - unat (off + m))) else file_byte s3 i p)"
      using Suc.IH [OF s3(2) s3'(1) le F(2) alloc] by blast
    have byte: "file_byte s' i p = (if unat off \<le> p \<and> p < unat off + (unat n - unat tot) then mem s (src + of_nat (p - unat off)) else file_byte s i p)"
      if p: "p < MAXFILE * BSIZE" for p
    proof -
      have "p div BSIZE < MAXFILE" using p by (simp add: div_less_iff_less_mult)
      note old = F(3) [OF this]
      consider (lo) "p < unat off \<or> unat off + (unat n - unat tot) \<le> p" | (this_block) "unat off \<le> p" "p < unat off + unat m"
        | (next_blocks) "unat off + unat m \<le> p" "p < unat off + (unat n - unat tot)" by linarith
      then show ?thesis
      proof cases
        case lo
        then have "\<not> (unat (off + m) \<le> p \<and> p < unat (off + m) + (unat n - unat (tot + m)))" "\<not> (unat off \<le> p \<and> p < unat off + unat m)"
          "\<not> (unat off \<le> p \<and> p < unat off + (unat n - unat tot))" using R(2,4,5) by linarith+
        then show ?thesis using s'(6) p old by (simp only: length_mem_read if_False)
      next
        case this_block
        then have "\<not> unat (off + m) \<le> p" "p < unat off + (unat n - unat tot)" "p - unat off < unat m" using R(2,4) by linarith+
        moreover have "file_byte s3 i p = mem s (src + of_nat (p - unat off))"
          using old this_block calculation(3) by (simp only: length_mem_read simp_thms if_True nth_mem_read)
        ultimately show ?thesis using s'(6) p this_block by (simp only: simp_thms if_True if_False)
      next
        case next_blocks
        have a: "src + ucast m + of_nat (p - unat (off + m)) = src + of_nat (p - unat off)"
        proof -
          have "p - unat off = unat m + (p - unat (off + m))" using next_blocks(1) R(4) by linarith
          then have "of_nat (p - unat off) = (of_nat (unat m) + of_nat (p - unat (off + m)) :: u64)" by (simp only: of_nat_add)
          then show ?thesis unfolding ucast_u32_of_nat by (simp only: add.assoc)
        qed
        have "unat (off + m) \<le> p" "p < unat (off + m) + (unat n - unat (tot + m))" "unat off \<le> p" using next_blocks R(2,4,5) by linarith+
        then show ?thesis using s'(6) p next_blocks(2) a s3'(2) by (simp only: simp_thms if_True)
      qed
    qed
    show ?thesis
    proof (intro exI [of _ s'] conjI allI impI)
      show "writei_loop (Suc fuel) i False src off tot n s = Inr ((n, off + (n - tot)), s')" using s3(1) s'(1) by (simp add: algebra_simps)
      show "fs_same s s'" using s3(3) s'(3) by (simp add: fs_same_def)
    qed (use s'(2,4,5) F(1) byte in auto)
  qed
qed simp

lemma file_byte_other:
  assumes "\<And>b. b \<noteq> IBLOCK (i_inum (itable s ! i)) (sb s) \<Longrightarrow> view s' b = view s b" "separate s i"
    "i_addrs (itable s' ! i) = i_addrs (itable s ! i)"
  shows "file_blk s' i j = file_blk s i j"
    "p < MAXFILE * BSIZE \<Longrightarrow> file_blk s i (p div BSIZE) \<noteq> 0 \<Longrightarrow> file_byte s' i p = file_byte s i p"
proof -
  show fb: "file_blk s' i j = file_blk s i j" for j using assms by (simp add: file_blk_def separate_def Let_def)
  assume "p < MAXFILE * BSIZE" "file_blk s i (p div BSIZE) \<noteq> 0"
  then have "file_blk s i (p div BSIZE) \<noteq> IBLOCK (i_inum (itable s ! i)) (sb s)"
    by (intro separateD(2) [OF assms(2)]) (simp_all add: div_less_iff_less_mult)
  then show "file_byte s' i p = file_byte s i p" using assms(1) by (simp add: file_byte_def fb)
qed

lemma writei_spec:
  assumes "in_call (nblocks (unat off) (unat n) + Suc k) Map.empty s" "i < length (itable s)" "i_dev (itable s ! i) = of_nat ROOTDEV"
    "unat off \<le> unat (i_size (itable s ! i))" "allocated s i (unat off + unat n)" "separate s i" "length (i_addrs (itable s ! i)) = NDIRECT + 1"
  obtains s' where "writei i False src off n s = Inr (int (unat n), s')" "in_call k Map.empty s'" "mem s' = mem s"
    "itable s' = (itable s)[i := (itable s ! i)\<lparr>i_size := (if off + n > i_size (itable s ! i) then off + n else i_size (itable s ! i))\<rparr>]"
    "\<And>j. j < MAXFILE \<Longrightarrow> file_blk s' i j = file_blk s i j" "disk_inode s' (i_inum (itable s ! i)) = meta (itable s' ! i)"
    "\<And>p. p < MAXFILE * BSIZE \<Longrightarrow> file_blk s i (p div BSIZE) \<noteq> 0 \<Longrightarrow>
       file_byte s' i p = (if unat off \<le> p \<and> p < unat off + unat n then mem s (src + of_nat (p - unat off)) else file_byte s i p)"
proof -
  let ?sz = "if off + n > i_size (itable s ! i) then off + n else i_size (itable s ! i)"
  have le: "unat off + unat n \<le> MAXFILE * BSIZE" using assms(5) by (simp add: allocated_def)
  have add: "unat (off + n) = unat off + unat n" using le by (intro unat_add_lem [THEN iffD1]) simp
  have c: "\<not> off > i_size (itable s ! i)" "\<not> off + n < off" "\<not> off + n > of_nat (MAXFILE * BSIZE)"
    using assms(4) add le by (simp_all add: word_less_nat_alt)
  have ok: "in_call (nblocks (unat off) (unat n - unat (0 :: u32)) + Suc k) Map.empty s" "unat (0 :: u32) \<le> unat n"
    "unat off + (unat n - unat (0 :: u32)) \<le> MAXFILE * BSIZE" "unat n - unat (0 :: u32) < Suc (unat n)"
    "\<And>p. unat off \<le> p \<Longrightarrow> p < unat off + (unat n - unat (0 :: u32)) \<Longrightarrow> file_blk s i (p div BSIZE) \<noteq> 0"
    using assms(1,5) le by (simp_all add: allocated_def)
  obtain s1 where s1: "writei_loop (Suc (unat n)) i False src off 0 n s = Inr ((n, off + n), s1)" "in_call (Suc k) Map.empty s1" "fs_same s s1"
    "separate s1 i" "\<forall>j < MAXFILE. file_blk s1 i j = file_blk s i j"
    "\<forall>p < MAXFILE * BSIZE. file_byte s1 i p = (if unat off \<le> p \<and> p < unat off + unat n then mem s (src + of_nat (p - unat off)) else file_byte s i p)"
    using writei_loop_spec [OF ok(1) assms(3) ok(2-4) assms(6) ok(5), of src] by auto
  define s2 where "s2 = (if off + n > i_size (itable s1 ! i) then upd_inode i (\<lambda>ip. ip\<lparr>i_size := off + n\<rparr>) s1 else s1)"
  have it: "itable s1 = itable s" "mem s1 = mem s" using s1(3) by (simp_all add: fs_same_def)
  have s2: "in_call (Suc k) Map.empty s2" "view s2 = view s1" "sb s2 = sb s1" "mem s2 = mem s"
    "itable s2 = (itable s)[i := (itable s ! i)\<lparr>i_size := ?sz\<rparr>]"
    using s1(2) it by (simp_all add: s2_def in_call_def)
  have at: "itable s2 ! i = (itable s ! i)\<lparr>i_size := ?sz\<rparr>" using s2(5) assms(2) by simp
  then have d: "i_dev (itable s2 ! i) = of_nat ROOTDEV" "length (i_addrs (itable s2 ! i)) = NDIRECT + 1" using assms(3,7) by simp_all
  obtain s3 where s3: "iupdate i s2 = Inr s3" "in_call k Map.empty s3" "fs_same s2 s3"
    "\<And>b. b \<noteq> IBLOCK (i_inum (itable s2 ! i)) (sb s2) \<Longrightarrow> view s3 b = view s2 b"
    "\<And>inum. disk_inode s3 inum = (if inum = i_inum (itable s2 ! i) then meta (itable s2 ! i) else disk_inode s2 inum)"
    by (rule iupdate_spec [OF s2(1) d(1) _ d(2)]) auto
  have it3: "itable s3 = itable s2" "mem s3 = mem s" using s3(3) s2(4) by (simp_all add: fs_same_def)
  have v: "view s3 b = view s1 b" if "b \<noteq> IBLOCK (i_inum (itable s1 ! i)) (sb s1)" for b using s3(4) s2(2,3) at it that by simp
  have a: "i_addrs (itable s3 ! i) = i_addrs (itable s1 ! i)" using it3 it at by simp
  have F: "file_blk s3 i j = file_blk s1 i j" "p < MAXFILE * BSIZE \<Longrightarrow> file_blk s1 i (p div BSIZE) \<noteq> 0 \<Longrightarrow> file_byte s3 i p = file_byte s1 i p" for j p
    using file_byte_other [OF _ s1(4) a] v by blast+
  have "sint n = int (unat n)" using le by (intro sint_u32_small) simp
  then have run: "writei i False src off n s = Inr (int (unat n), s3)"
    unfolding writei_def using c s1(1) s3(1) by (simp add: s2_def [symmetric])
  have byte: "file_byte s3 i p = (if unat off \<le> p \<and> p < unat off + unat n then mem s (src + of_nat (p - unat off)) else file_byte s i p)"
    if "p < MAXFILE * BSIZE" "file_blk s i (p div BSIZE) \<noteq> 0" for p
  proof -
    have "p div BSIZE < MAXFILE" using that(1) by (simp add: div_less_iff_less_mult)
    then show ?thesis using F(2) [OF that(1)] s1(5,6) that by metis
  qed
  have blk: "file_blk s3 i j = file_blk s i j" if "j < MAXFILE" for j using F(1) s1(5) that by simp
  have "i_inum (itable s2 ! i) = i_inum (itable s ! i)" using at by simp
  then have inode: "disk_inode s3 (i_inum (itable s ! i)) = meta (itable s3 ! i)" using s3(5) it3(1) by simp
  show thesis by (rule that [OF run s3(2) it3(2) s2(5) [folded it3(1)] blk inode byte])
qed

section \<open>Names of entries\<close>

text \<open>On the bytes of memory, \<open>namecmp\<close> is \<^verbatim>\<open>strncmp\<close>.\<close>

lemma namecmp_strncmp: "namecmp (mem_read m p n) (mem_read m q n) n = strncmp m p q n"
  by (induction n arbitrary: p q) (auto simp: mem_read_Suc Let_def)

section \<open>Properties\<close>

text \<open>
  (C12) Writing to a file and reading back: inside a file system call with room in the log, \<open>writei\<close>
  of \<open>n\<close> bytes into allocated blocks of a file, direct or indirect and in any number, stores all of them; \<open>readi\<close> at the same offset then returns
  exactly these bytes. No other byte of the file changes, the size grows to the end of the write and
  never shrinks, and the inode on disk is the one in memory.
\<close>

theorem writei_readi_round_trip:
  assumes "in_call (nblocks (unat off) (unat n) + 2) Map.empty s" "i < length (itable s)" "i_dev (itable s ! i) = of_nat ROOTDEV"
    "unat off \<le> unat (i_size (itable s ! i))" "allocated s i (unat off + unat n)" "separate s i" "length (i_addrs (itable s ! i)) = NDIRECT + 1"
  shows "\<exists>s' s''. writei i False src off n s = Inr (int (unat n), s') \<and>
    readi i False dst off n s' = Inr (int (unat n), s'') \<and> mem_read (mem s'') dst (unat n) = mem_read (mem s) src (unat n) \<and>
    (\<forall>p < MAXFILE * BSIZE. file_blk s i (p div BSIZE) \<noteq> 0 \<and> \<not> (unat off \<le> p \<and> p < unat off + unat n) \<longrightarrow>
       file_byte s' i p = file_byte s i p) \<and>
    unat (i_size (itable s' ! i)) = max (unat (i_size (itable s ! i))) (unat off + unat n) \<and>
    disk_inode s' (i_inum (itable s ! i)) = meta (itable s' ! i)"
proof -
  have c: "in_call (nblocks (unat off) (unat n) + Suc (Suc 0)) Map.empty s" using assms(1) by (simp add: eval_nat_numeral)
  have le: "unat off + unat n \<le> MAXFILE * BSIZE" using assms(5) by (simp add: allocated_def)
  have add: "unat (off + n) = unat off + unat n" using le by (intro unat_add_lem [THEN iffD1]) simp
  obtain s' where s': "writei i False src off n s = Inr (int (unat n), s')" "in_call (Suc 0) Map.empty s'" "mem s' = mem s"
    "itable s' = (itable s)[i := (itable s ! i)\<lparr>i_size := (if off + n > i_size (itable s ! i) then off + n else i_size (itable s ! i))\<rparr>]"
    "\<And>j. j < MAXFILE \<Longrightarrow> file_blk s' i j = file_blk s i j" "disk_inode s' (i_inum (itable s ! i)) = meta (itable s' ! i)"
    "\<And>p. p < MAXFILE * BSIZE \<Longrightarrow> file_blk s i (p div BSIZE) \<noteq> 0 \<Longrightarrow>
       file_byte s' i p = (if unat off \<le> p \<and> p < unat off + unat n then mem s (src + of_nat (p - unat off)) else file_byte s i p)"
    by (rule writei_spec [OF c assms(2-7)]) blast
  have blk: "file_blk s i (p div BSIZE) \<noteq> 0" "p div BSIZE < MAXFILE" "p < MAXFILE * BSIZE" if "p < unat off + unat n" for p
    using assms(5) that le by (simp_all add: allocated_def div_less_iff_less_mult)
  have sz: "unat (i_size (itable s' ! i)) = max (unat (i_size (itable s ! i))) (unat off + unat n)" "i_dev (itable s' ! i) = of_nat ROOTDEV"
    using s'(4) assms(2,3) add by (auto simp: word_less_nat_alt)
  have al: "unat off + unat n \<le> unat (i_size (itable s' ! i))" "allocated s' i (unat off + unat n)"
    using sz(1) assms(5) s'(5) blk by (simp_all add: allocated_def)
  obtain s'' where s'': "readi i False dst off n s' = Inr (int (unat n), s'')"
    "fs_same (s'\<lparr>mem := mem_write (mem s') dst (file_bytes s' i (unat off) (unat n))\<rparr>) s''"
    by (rule readi_spec [OF s'(2) sz(2) al])
  have "file_bytes s' i (unat off) (unat n) = mem_read (mem s) src (unat n)"
    using s'(7) blk by (intro nth_equalityI) (simp_all add: file_bytes_def)
  moreover have "mem s'' = mem_write (mem s') dst (file_bytes s' i (unat off) (unat n))" using s''(2) by (simp add: fs_same_def)
  moreover have "unat n \<le> 2 ^ 64" using unat_u32_less [of n] by simp
  ultimately have "mem_read (mem s'') dst (unat n) = mem_read (mem s) src (unat n)" by (simp add: mem_read_write_same)
  then show ?thesis using s'(1,6,7) s''(1) sz(1) by (intro exI [of _ s'] exI [of _ s'']) auto
qed

theorem writei_readi_round_trip_witness:
  "\<exists>s s' s''. writei 0 False 1000 90 20 (s :: fstate) = Inr (20, s') \<and> i_size (itable s ! 0) = 100 \<and> i_size (itable s' ! 0) = 110 \<and>
     readi 0 False 5000 90 20 s' = Inr (20, s'') \<and> mem_read (mem s'') 5000 20 = mem_read (\<lambda>a. ucast a) 1000 20"
proof -
  define t where "t = binit (boot_fstate small_disk small_sb [example_inode])"
  note S = small_fs [where itab = "[example_inode]", folded t_def]
  define s where "s = t\<lparr>mem := \<lambda>a. ucast a\<rparr>"
  have i: "itable s = [example_inode]" "sb s = small_sb" "mem s = (\<lambda>a. ucast a)" "in_call 30 Map.empty s" "view s = view t"
    using S(1,3,4) by (simp_all add: s_def in_call_def)
  have ib: "IBLOCK (i_inum example_inode) small_sb = 33" by (simp add: IBLOCK_def small_sb_def example_inode_def)
  have fb: "file_blk s 0 k = (if k = 0 then 48 else 0)" for k
    by (auto simp: file_blk_def i(1) example_inode_def nth_Cons' Let_def)
  have "nblocks 90 20 = 1" by (simp add: nblocks_def)
  then have "in_call (nblocks (unat (90 :: u32)) (unat (20 :: u32)) + 2) Map.empty s" using in_call_less [OF i(4)] by simp
  moreover have "allocated s 0 (unat (90 :: u32) + unat (20 :: u32))" by (simp add: allocated_def fb)
  moreover have "separate s 0" using ib by (simp add: separate_def fb i example_inode_def)
  ultimately have "\<exists>s' s''. writei 0 False 1000 90 20 s = Inr (int (unat (20 :: u32)), s') \<and>
    readi 0 False 5000 90 20 s' = Inr (int (unat (20 :: u32)), s'') \<and> mem_read (mem s'') 5000 (unat (20 :: u32)) = mem_read (mem s) 1000 (unat (20 :: u32)) \<and>
    (\<forall>p < MAXFILE * BSIZE. file_blk s 0 (p div BSIZE) \<noteq> 0 \<and> \<not> (unat (90 :: u32) \<le> p \<and> p < unat (90 :: u32) + unat (20 :: u32)) \<longrightarrow>
       file_byte s' 0 p = file_byte s 0 p) \<and>
    unat (i_size (itable s' ! 0)) = max (unat (i_size (itable s ! 0))) (unat (90 :: u32) + unat (20 :: u32)) \<and>
    disk_inode s' (i_inum (itable s ! 0)) = meta (itable s' ! 0)"
    by (intro writei_readi_round_trip) (simp_all add: i(1) example_inode_def)
  then obtain s' s'' where r: "writei 0 False 1000 90 20 s = Inr (20, s')" "readi 0 False 5000 90 20 s' = Inr (20, s'')"
    "mem_read (mem s'') 5000 20 = mem_read (\<lambda>a. ucast a) 1000 20" "unat (i_size (itable s' ! 0)) = 110"
    unfolding i(1,3) by (auto simp: example_inode_def)
  have "i_size (itable s' ! 0) = 110" using r(4) by (simp add: word_unat_eq_iff)
  moreover have "i_size (itable s ! 0) = 100" by (simp add: i(1) example_inode_def)
  ultimately show ?thesis using r by blast
qed

end
