(* ===== verification/Shell.thy ===== *)
theory Shell
  imports Prelude
begin

text \<open>
  The shell's parser (\<^verbatim>\<open>user/sh.c\<close>). The line is a list of bytes without NUL; a \<^verbatim>\<open>char *\<close> into it is an
  index, \<^verbatim>\<open>es\<close> is its length, and reading at or past the end gives the NUL that ends the line. A word
  of a command is the pair of its start and its end, as \<^verbatim>\<open>argv\<close> and \<^verbatim>\<open>eargv\<close> hold them. A call of the
  shell's \<^verbatim>\<open>panic\<close> is \<open>Inl (Panic msg)\<close>. Memory for the nodes (\<^verbatim>\<open>malloc\<close>) is taken to be available.
\<close>

section \<open>Commands\<close>

type_synonym wordpos = "nat \<times> nat"

datatype cmd =
    EXEC "wordpos list"
  | REDIR cmd wordpos int int
  | PIPE cmd cmd
  | LIST cmd cmd
  | BACK cmd

abbreviation (input) MAXARGS :: nat where "MAXARGS \<equiv> 10"
abbreviation (input) O_RDONLY :: int where "O_RDONLY \<equiv> 0"
abbreviation (input) O_WRONLY :: int where "O_WRONLY \<equiv> 1"
abbreviation (input) O_CREATE :: int where "O_CREATE \<equiv> 0x200"
abbreviation (input) O_TRUNC :: int where "O_TRUNC \<equiv> 0x400"

text \<open>The constructors: a zeroed node with its type and fields filled in.\<close>

definition execcmd :: cmd where
  [simp]: "execcmd = EXEC []"

definition redircmd :: "cmd \<Rightarrow> wordpos \<Rightarrow> int \<Rightarrow> int \<Rightarrow> cmd" where
  [simp]: "redircmd subcmd file mode fd = REDIR subcmd file mode fd"

definition pipecmd :: "cmd \<Rightarrow> cmd \<Rightarrow> cmd" where
  [simp]: "pipecmd left right = PIPE left right"

definition listcmd :: "cmd \<Rightarrow> cmd \<Rightarrow> cmd" where
  [simp]: "listcmd left right = LIST left right"

definition backcmd :: "cmd \<Rightarrow> cmd" where
  [simp]: "backcmd subcmd = BACK subcmd"

text \<open>Storing into \<^verbatim>\<open>argv\<close> of the node that \<^verbatim>\<open>execcmd\<close> made, which redirections may have wrapped.\<close>

fun put_arg :: "wordpos \<Rightarrow> cmd \<Rightarrow> cmd" where
  "put_arg w (EXEC ws) = EXEC (ws @ [w])"
| "put_arg w (REDIR c f mode fd) = REDIR (put_arg w c) f mode fd"
| "put_arg w c = c"

section \<open>Tokens\<close>

definition chr :: "byte list \<Rightarrow> nat \<Rightarrow> byte" where
  "chr b s = (if s < length b then b ! s else 0)"

definition is_white :: "byte \<Rightarrow> bool" where
  "is_white c \<longleftrightarrow> c \<in> {32, 9, 13, 10, 11}"

definition is_symbol :: "byte \<Rightarrow> bool" where
  "is_symbol c \<longleftrightarrow> c \<in> {60, 124, 62, 38, 59, 40, 41}"

text \<open>A loop \<^verbatim>\<open>while(s < es && P(*s)) s++\<close>.\<close>

definition skip_while :: "(byte \<Rightarrow> bool) \<Rightarrow> byte list \<Rightarrow> nat \<Rightarrow> nat" where
  "skip_while P b s = s + length (takeWhile P (drop s b))"

text \<open>The kinds of token: the code returns the character, \<^verbatim>\<open>'+'\<close> for \<^verbatim>\<open>>>\<close>, \<^verbatim>\<open>'a'\<close> for a word and 0 at the end.\<close>

definition gettoken :: "byte list \<Rightarrow> nat \<Rightarrow> byte \<times> wordpos \<times> nat" where
  "gettoken b s =
     (let s = skip_while is_white b s; q = s; c = chr b s;
          (ret, s) =
            (if c = 0 then (c, s)
             else if c \<in> {124, 40, 41, 59, 38, 60} then (c, s + 1)
             else if c = 62 then (if chr b (s + 1) = 62 then (43, s + 2) else (c, s + 1))
             else (97, skip_while (\<lambda>c. \<not> is_white c \<and> \<not> is_symbol c) b s))
      in (ret, (q, s), skip_while is_white b s))"

definition peek :: "byte set \<Rightarrow> byte list \<Rightarrow> nat \<Rightarrow> bool \<times> nat" where
  "peek toks b s = (let s = skip_while is_white b s in (chr b s \<noteq> 0 \<and> chr b s \<in> toks, s))"

section \<open>Parsing\<close>

text \<open>
  Recursion is bounded by fuel, one unit per call and per round of a loop; \<open>parsecmd_returns\<close> shows that
  the fuel of \<open>parsecmd\<close> is enough for every line.
\<close>

fun parseredirs :: "nat \<Rightarrow> byte list \<Rightarrow> cmd \<Rightarrow> nat \<Rightarrow> (cmd \<times> nat) res" where
  "parseredirs 0 b cmd s = Inl Diverges"
| "parseredirs (Suc n) b cmd s =
     (let (more, s) = peek {60, 62} b s in
      if more then
        let (tok, _, s) = gettoken b s; (tok', w, s) = gettoken b s in
        if tok' \<noteq> 97 then Inl (Panic ''missing file for redirection'')
        else parseredirs n b
          (if tok = 60 then redircmd cmd w O_RDONLY 0
           else if tok = 62 then redircmd cmd w (O_WRONLY + O_CREATE + O_TRUNC) 1
           else if tok = 43 then redircmd cmd w (O_WRONLY + O_CREATE) 1
           else cmd) s
      else Inr (cmd, s))"

text \<open>The loop of \<^verbatim>\<open>parseexec\<close> over the arguments.\<close>

fun parseargs :: "nat \<Rightarrow> byte list \<Rightarrow> nat \<Rightarrow> cmd \<Rightarrow> nat \<Rightarrow> (cmd \<times> nat) res" where
  "parseargs 0 b argc ret s = Inl Diverges"
| "parseargs (Suc n) b argc ret s =
     (let (stop, s) = peek {124, 41, 38, 59} b s in
      if stop then Inr (ret, s)
      else let (tok, w, s) = gettoken b s in
        if tok = 0 then Inr (ret, s)
        else if tok \<noteq> 97 then Inl (Panic ''syntax'')
        else if argc + 1 \<ge> MAXARGS then Inl (Panic ''too many args'')
        else rbind (parseredirs n b (put_arg w ret) s) (\<lambda>(ret, s). parseargs n b (argc + 1) ret s))"

text \<open>The loop of \<^verbatim>\<open>parseline\<close> over the ampersands.\<close>

fun parseback :: "nat \<Rightarrow> byte list \<Rightarrow> cmd \<Rightarrow> nat \<Rightarrow> (cmd \<times> nat) res" where
  "parseback 0 b cmd s = Inl Diverges"
| "parseback (Suc n) b cmd s =
     (let (amp, s) = peek {38} b s in
      if amp then let (_, _, s) = gettoken b s in parseback n b (backcmd cmd) s
      else Inr (cmd, s))"

fun parseline :: "nat \<Rightarrow> byte list \<Rightarrow> nat \<Rightarrow> (cmd \<times> nat) res"
  and parsepipe :: "nat \<Rightarrow> byte list \<Rightarrow> nat \<Rightarrow> (cmd \<times> nat) res"
  and parseblock :: "nat \<Rightarrow> byte list \<Rightarrow> nat \<Rightarrow> (cmd \<times> nat) res"
  and parseexec :: "nat \<Rightarrow> byte list \<Rightarrow> nat \<Rightarrow> (cmd \<times> nat) res" where
  "parseline 0 b s = Inl Diverges"
| "parseline (Suc n) b s =
     rbind (parsepipe n b s) (\<lambda>(cmd, s).
     rbind (parseback n b cmd s) (\<lambda>(cmd, s).
       let (semi, s) = peek {59} b s in
       if semi then
         let (_, _, s) = gettoken b s in
         rbind (parseline n b s) (\<lambda>(right, s). Inr (listcmd cmd right, s))
       else Inr (cmd, s)))"
| "parsepipe 0 b s = Inl Diverges"
| "parsepipe (Suc n) b s =
     rbind (parseexec n b s) (\<lambda>(cmd, s).
       let (bar, s) = peek {124} b s in
       if bar then
         let (_, _, s) = gettoken b s in
         rbind (parsepipe n b s) (\<lambda>(right, s). Inr (pipecmd cmd right, s))
       else Inr (cmd, s))"
| "parseblock 0 b s = Inl Diverges"
| "parseblock (Suc n) b s =
     (let (par, s) = peek {40} b s in
      if \<not> par then Inl (Panic ''parseblock'')
      else let (_, _, s) = gettoken b s in
        rbind (parseline n b s) (\<lambda>(cmd, s).
          let (par, s) = peek {41} b s in
          if \<not> par then Inl (Panic ''syntax - missing )'')
          else let (_, _, s) = gettoken b s in parseredirs n b cmd s))"
| "parseexec 0 b s = Inl Diverges"
| "parseexec (Suc n) b s =
     (let (par, s) = peek {40} b s in
      if par then parseblock n b s
      else rbind (parseredirs n b execcmd s) (\<lambda>(ret, s). parseargs n b 0 ret s))"

text \<open>Storing a NUL at the end of every word; the end of the line holds one already.\<close>

definition put_nul :: "nat \<Rightarrow> byte list \<Rightarrow> byte list" where
  "put_nul e b = b[e := 0]"

fun nulterminate :: "cmd \<Rightarrow> byte list \<Rightarrow> byte list" where
  "nulterminate (EXEC ws) b = fold (\<lambda>w. put_nul (snd w)) ws b"
| "nulterminate (REDIR c f mode fd) b = put_nul (snd f) (nulterminate c b)"
| "nulterminate (PIPE l r) b = nulterminate r (nulterminate l b)"
| "nulterminate (LIST l r) b = nulterminate r (nulterminate l b)"
| "nulterminate (BACK c) b = nulterminate c b"

text \<open>The result is the command and the line with its words terminated.\<close>

definition PARSEFUEL :: "byte list \<Rightarrow> nat" where
  "PARSEFUEL b = 4 * length b + 5"

definition parsecmd :: "byte list \<Rightarrow> (cmd \<times> byte list) res" where
  "parsecmd b =
     rbind (parseline (PARSEFUEL b) b 0) (\<lambda>(cmd, s).
       let (_, s) = peek {} b s in
       if s \<noteq> length b then Inl (Panic ''syntax'') else Inr (cmd, nulterminate cmd b))"

section \<open>Tokens move forward\<close>

lemma skip_while_bounds: "s \<le> skip_while P b s" "s \<le> length b \<Longrightarrow> skip_while P b s \<le> length b"
proof -
  show "s \<le> skip_while P b s" by (simp add: skip_while_def)
  have "length (takeWhile P (drop s b)) \<le> length b - s" using length_takeWhile_le [of P "drop s b"] by simp
  then show "s \<le> length b \<Longrightarrow> skip_while P b s \<le> length b" by (simp add: skip_while_def)
qed

lemma skip_while_in: "s \<le> i \<Longrightarrow> i < skip_while P b s \<Longrightarrow> P (b ! i)"
proof -
  assume a: "s \<le> i" "i < skip_while P b s"
  then have "i - s < length (takeWhile P (drop s b))" by (simp add: skip_while_def)
  then have "P (takeWhile P (drop s b) ! (i - s))" by (metis nth_mem set_takeWhileD)
  moreover have "takeWhile P (drop s b) ! (i - s) = b ! i"
    using \<open>i - s < length (takeWhile P (drop s b))\<close> a(1) length_takeWhile_le [of P "drop s b"] by (simp add: takeWhile_nth)
  ultimately show ?thesis by simp
qed

lemma skip_while_end: "skip_while P b s < length b \<Longrightarrow> \<not> P (b ! skip_while P b s)"
proof -
  assume a: "skip_while P b s < length b"
  then have "length (takeWhile P (drop s b)) < length (drop s b)" by (simp add: skip_while_def)
  from nth_length_takeWhile [OF this] show ?thesis using a by (simp add: skip_while_def)
qed

lemma chr_nonzero: "chr b s \<noteq> 0 \<Longrightarrow> s < length b"
  by (simp add: chr_def split: if_splits)

text \<open>A maximal run of characters that are neither white space nor symbols.\<close>

definition word_char :: "byte \<Rightarrow> bool" where
  "word_char c \<longleftrightarrow> \<not> is_white c \<and> \<not> is_symbol c"

definition good_word :: "byte list \<Rightarrow> wordpos \<Rightarrow> bool" where
  "good_word b w \<longleftrightarrow> fst w < snd w \<and> snd w \<le> length b \<and> (\<forall>i. fst w \<le> i \<and> i < snd w \<longrightarrow> word_char (b ! i)) \<and>
     (snd w < length b \<longrightarrow> \<not> word_char (b ! snd w))"

lemma gettoken_spec:
  assumes "gettoken b s = (t, (q, e), s')" "s \<le> length b"
  shows "s \<le> s'" "s' \<le> length b" "t \<noteq> 0 \<Longrightarrow> s < s'" "t = 97 \<Longrightarrow> good_word b (q, e)"
proof -
  define u where "u = skip_while is_white b s"
  have u: "s \<le> u" "u \<le> length b" using skip_while_bounds assms(2) by (auto simp: u_def)
  let ?W = "skip_while (\<lambda>c. \<not> is_white c \<and> \<not> is_symbol c) b u"
  have w: "good_word b (u, ?W)" "u < ?W" if c: "chr b u \<noteq> 0" "\<not> is_symbol (chr b u)"
  proof -
    have ul: "u < length b" using chr_nonzero [OF c(1)] .
    then have n: "\<not> is_white (b ! u)" "\<not> is_symbol (b ! u)" using skip_while_end [of is_white b s] c by (auto simp: u_def chr_def)
    have "skip_while (\<lambda>c. \<not> is_white c \<and> \<not> is_symbol c) b u \<noteq> u"
      using skip_while_end [of "\<lambda>c. \<not> is_white c \<and> \<not> is_symbol c" b u] n ul by auto
    then show "u < ?W" using skip_while_bounds(1) [of u] by (simp add: le_neq_implies_less)
    then show "good_word b (u, ?W)"
      using skip_while_bounds(2) [OF u(2), of "\<lambda>c. \<not> is_white c \<and> \<not> is_symbol c"]
        skip_while_in [of u _ "\<lambda>c. \<not> is_white c \<and> \<not> is_symbol c" b] skip_while_end [of "\<lambda>c. \<not> is_white c \<and> \<not> is_symbol c" b u]
      by (auto simp: good_word_def word_char_def)
  qed
  define c where "c = chr b u"
  consider (nul) "c = 0" "t = 0" "e = u"
    | (sym) "c \<noteq> 0" "e = u + 1" "t = c" "is_symbol c"
    | (app) "c \<noteq> 0" "chr b (u + 1) \<noteq> 0" "e = u + 2" "t = 43"
    | (run) "c \<noteq> 0" "\<not> is_symbol c" "t = 97" "e = ?W"
    using assms(1) unfolding gettoken_def Let_def u_def [symmetric] c_def [symmetric]
    by (auto simp: is_symbol_def split: if_splits)
  then have E: "u \<le> e \<and> e \<le> length b \<and> (t \<noteq> 0 \<longrightarrow> u < e) \<and> (t = 97 \<longrightarrow> good_word b (u, e))"
  proof cases
    case nul
    then show ?thesis using u by simp
  next
    case sym
    then show ?thesis using chr_nonzero [of b u] by (auto simp: c_def is_symbol_def)
  next
    case app
    then show ?thesis using chr_nonzero [of b "u + 1"] by auto
  next
    case run
    then show ?thesis using w skip_while_bounds(2) [OF u(2)] by (simp add: c_def)
  qed
  have q: "q = u" "s' = skip_while is_white b e" using assms(1) unfolding gettoken_def Let_def u_def [symmetric] by (auto split: if_splits)
  show "s \<le> s'" "t \<noteq> 0 \<Longrightarrow> s < s'" using u(1) E q(2) skip_while_bounds(1) [of e is_white b] by auto
  show "s' \<le> length b" using E q(2) skip_while_bounds(2) by simp
  show "t = 97 \<Longrightarrow> good_word b (q, e)" using E q(1) by simp
qed

lemma peek_spec:
  assumes "peek toks b s = (r, s')" "s \<le> length b"
  shows "s \<le> s'" "s' \<le> length b" "r \<Longrightarrow> chr b s' \<noteq> 0" "skip_while is_white b s' = s'"
proof -
  have s': "s' = skip_while is_white b s" and r: "r \<Longrightarrow> chr b s' \<noteq> 0" using assms(1) by (auto simp: peek_def Let_def)
  show "s \<le> s'" "s' \<le> length b" using s' skip_while_bounds assms(2) by auto
  show "r \<Longrightarrow> chr b s' \<noteq> 0" by (rule r)
  show "skip_while is_white b s' = s'"
  proof (rule ccontr)
    assume "skip_while is_white b s' \<noteq> s'"
    then have lt: "s' < skip_while is_white b s'" using skip_while_bounds(1) by (simp add: le_neq_implies_less)
    then have "is_white (b ! s')" "s' < length b"
      using skip_while_in [of s' s'] skip_while_bounds(2) \<open>s' \<le> length b\<close> by (auto intro: order_less_le_trans)
    then show False using skip_while_end [of is_white b s] s' by simp
  qed
qed

lemma peek_again: "peek toks b s = (r, s') \<Longrightarrow> s \<le> length b \<Longrightarrow> peek toks b s' = (r, s')"
  using peek_spec(4) [of toks b s r s'] by (auto simp: peek_def Let_def)

text \<open>After a successful \<open>peek\<close> there is a token to take.\<close>

lemma peek_token:
  assumes "peek toks b s = (True, s1)" "gettoken b s1 = (t, w, s2)" "s \<le> length b"
  shows "s < s2" "s2 \<le> length b"
proof -
  note P = peek_spec [OF assms(1,3)]
  obtain q e where w: "w = (q, e)" by (cases w)
  have "t \<noteq> 0"
    using assms(2) P(3,4) by (auto simp: gettoken_def Let_def split: if_splits)
  then show "s < s2" "s2 \<le> length b"
    using gettoken_spec [OF assms(2) [unfolded w] P(2)] P(1) by auto
qed

section \<open>The parser returns\<close>

fun cmd_words :: "cmd \<Rightarrow> wordpos set" where
  "cmd_words (EXEC ws) = set ws"
| "cmd_words (REDIR c f mode fd) = insert f (cmd_words c)"
| "cmd_words (PIPE l r) = cmd_words l \<union> cmd_words r"
| "cmd_words (LIST l r) = cmd_words l \<union> cmd_words r"
| "cmd_words (BACK c) = cmd_words c"

definition good_cmd :: "byte list \<Rightarrow> cmd \<Rightarrow> bool" where
  "good_cmd b c \<longleftrightarrow> (\<forall>w \<in> cmd_words c. good_word b w)"

lemma good_cmd_simps [simp]:
  "good_cmd b (EXEC ws) \<longleftrightarrow> (\<forall>w \<in> set ws. good_word b w)" "good_cmd b (REDIR c f mode fd) \<longleftrightarrow> good_word b f \<and> good_cmd b c"
  "good_cmd b (PIPE l r) \<longleftrightarrow> good_cmd b l \<and> good_cmd b r" "good_cmd b (LIST l r) \<longleftrightarrow> good_cmd b l \<and> good_cmd b r"
  "good_cmd b (BACK c) = good_cmd b c"
  by (auto simp: good_cmd_def)

lemma good_put_arg: "good_cmd b c \<Longrightarrow> good_word b w \<Longrightarrow> good_cmd b (put_arg w c)"
  by (induction w c rule: put_arg.induct) auto

text \<open>
  A parser called at \<open>s\<close> either stops with a message or returns a command made of words of the line,
  and the position where it stopped.
\<close>

definition parse_errors :: "string set" where
  "parse_errors = {''syntax'', ''too many args'', ''missing file for redirection'', ''syntax - missing )''}"

definition parses :: "byte list \<Rightarrow> nat \<Rightarrow> (cmd \<times> nat) res \<Rightarrow> bool" where
  "parses b s m \<longleftrightarrow> (case m of Inl e \<Rightarrow> e \<in> Panic ` parse_errors | Inr (c, s') \<Rightarrow> s \<le> s' \<and> s' \<le> length b \<and> good_cmd b c)"

lemma parses_simps [simp]:
  "parses b s (Inl (Panic msg)) \<longleftrightarrow> msg \<in> parse_errors" "\<not> parses b s (Inl Diverges)" "parses b s (Inr (c, s')) \<longleftrightarrow> s \<le> s' \<and> s' \<le> length b \<and> good_cmd b c"
  by (auto simp: parses_def)

lemma parse_errors_simps [simp]:
  "''syntax'' \<in> parse_errors" "''too many args'' \<in> parse_errors" "''missing file for redirection'' \<in> parse_errors"
  "''syntax - missing )'' \<in> parse_errors"
  by (simp_all add: parse_errors_def)

lemma parses_later: "parses b s' m \<Longrightarrow> s \<le> s' \<Longrightarrow> parses b s m"
  by (auto simp: parses_def split: sum.splits)

lemma parses_bind:
  assumes "parses b s m" "\<And>c s'. s \<le> s' \<Longrightarrow> s' \<le> length b \<Longrightarrow> good_cmd b c \<Longrightarrow> parses b s' (f (c, s'))"
  shows "parses b s (rbind m f)"
proof (cases m)
  case (Inr x)
  then obtain c s' where x: "m = Inr (c, s')" by (cases x) auto
  then have "s \<le> s'" "s' \<le> length b" "good_cmd b c" using assms(1) by auto
  then show ?thesis using parses_later [OF assms(2)] x by simp
qed (use assms(1) in \<open>auto simp: parses_def\<close>)

lemma parseredirs_parses:
  "length b - s < n \<Longrightarrow> s \<le> length b \<Longrightarrow> good_cmd b cmd \<Longrightarrow> parses b s (parseredirs n b cmd s)"
proof (induction n arbitrary: cmd s)
  case (Suc n)
  obtain more s1 where p: "peek {60, 62} b s = (more, s1)" by fastforce
  note P = peek_spec [OF p Suc.prems(2)]
  show ?case
  proof (cases more)
    case False
    then show ?thesis using p P Suc.prems(3) by simp
  next
    case True
    obtain t w s2 where g: "gettoken b s1 = (t, w, s2)" by (cases "gettoken b s1") auto
    obtain t' q e s3 where g': "gettoken b s2 = (t', (q, e), s3)" by (cases "gettoken b s2") auto
    note T = peek_token [OF p [unfolded eqTrueI [OF True]] g Suc.prems(2)]
    note G = gettoken_spec [OF g' T(2)]
    show ?thesis
    proof (cases "t' = 97")
      case True
      define c where "c = (if t = 60 then redircmd cmd (q, e) O_RDONLY 0 else if t = 62 then redircmd cmd (q, e) (O_WRONLY + O_CREATE + O_TRUNC) 1
        else if t = 43 then redircmd cmd (q, e) (O_WRONLY + O_CREATE) 1 else cmd)"
      have c: "good_cmd b c" using Suc.prems(3) G(4) True by (simp add: c_def)
      have "parses b s3 (parseredirs n b c s3)" using Suc.IH [OF _ G(2) c] Suc.prems(1) T G by simp
      then have "parses b s (parseredirs n b c s3)" by (rule parses_later) (use T G in simp)
      then show ?thesis using p \<open>more\<close> g g' True by (simp add: c_def del: redircmd_def)
    qed (use p \<open>more\<close> g g' in simp)
  qed
qed simp

lemma parseargs_parses:
  "length b - s < n \<Longrightarrow> s \<le> length b \<Longrightarrow> good_cmd b ret \<Longrightarrow> parses b s (parseargs n b argc ret s)"
proof (induction n arbitrary: argc ret s)
  case (Suc n)
  obtain stop s1 where p: "peek {124, 41, 38, 59} b s = (stop, s1)" by fastforce
  note P = peek_spec [OF p Suc.prems(2)]
  obtain t q e s2 where g: "gettoken b s1 = (t, (q, e), s2)" by (cases "gettoken b s1") auto
  note G = gettoken_spec [OF g P(2)]
  consider "stop" | "\<not> stop" "t = 0" | "\<not> stop" "t \<noteq> 0" "t \<noteq> 97 \<or> argc + 1 \<ge> MAXARGS" | (arg) "\<not> stop" "t = 97" "\<not> argc + 1 \<ge> MAXARGS"
    by fastforce
  then show ?case
  proof cases
    case arg
    have r: "parses b s2 (parseredirs n b (put_arg (q, e) ret) s2)"
      using Suc.prems G P arg(2) good_put_arg by (intro parseredirs_parses) auto
    have "parses b s2 (rbind (parseredirs n b (put_arg (q, e) ret) s2) (\<lambda>(ret, s). parseargs n b (argc + 1) ret s))"
    proof (rule parses_bind [OF r])
      fix c s'
      assume "s2 \<le> s'" "s' \<le> length b" "good_cmd b c"
      then show "parses b s' (case (c, s') of (ret, s) \<Rightarrow> parseargs n b (argc + 1) ret s)"
        using Suc.IH [of s' c "argc + 1"] Suc.prems(1) G P arg(2) by simp
    qed
    then show ?thesis using p g arg parses_later P(1) G(1) by auto
  qed (use p g P G Suc.prems(3) in auto)
qed simp

lemma parseback_parses:
  "length b - s < n \<Longrightarrow> s \<le> length b \<Longrightarrow> good_cmd b cmd \<Longrightarrow> parses b s (parseback n b cmd s)"
proof (induction n arbitrary: cmd s)
  case (Suc n)
  obtain amp s1 where p: "peek {38} b s = (amp, s1)" by fastforce
  obtain t w s2 where g: "gettoken b s1 = (t, w, s2)" by (cases "gettoken b s1") auto
  show ?case
  proof (cases amp)
    case True
    note T = peek_token [OF p [unfolded eqTrueI [OF True]] g Suc.prems(2)]
    have "parses b s2 (parseback n b (BACK cmd) s2)" using Suc T by simp
    then show ?thesis using p g True T(1) parses_later by auto
  qed (use p peek_spec [OF p Suc.prems(2)] Suc.prems(3) in simp)
qed simp

text \<open>Taking a token that was seen, and parsing on; the rest of the line is shorter.\<close>

lemma token_then:
  assumes "peek toks b s = (True, s1)" "s \<le> length b" "\<And>s2. s < s2 \<Longrightarrow> s2 \<le> length b \<Longrightarrow> parses b s2 (f s2)"
  shows "parses b s (case gettoken b s1 of (_, _, s) \<Rightarrow> f s)"
proof -
  obtain t w s2 where g: "gettoken b s1 = (t, w, s2)" by (cases "gettoken b s1") auto
  note T = peek_token [OF assms(1) g assms(2)]
  show ?thesis using parses_later [OF assms(3) [OF T]] T(1) g by simp
qed

lemma parse_all:
  "(s \<le> length b \<longrightarrow> 4 * (length b - s) + 4 \<le> n \<longrightarrow> parses b s (parseline n b s)) \<and>
   (s \<le> length b \<longrightarrow> 4 * (length b - s) + 3 \<le> n \<longrightarrow> parses b s (parsepipe n b s)) \<and>
   (s \<le> length b \<longrightarrow> 4 * (length b - s) + 1 \<le> n \<longrightarrow> fst (peek {40} b s) \<longrightarrow> parses b s (parseblock n b s)) \<and>
   (s \<le> length b \<longrightarrow> 4 * (length b - s) + 2 \<le> n \<longrightarrow> parses b s (parseexec n b s))"
proof (induction n arbitrary: s)
  case (Suc n)
  have L: "parses b s (parseline n b s)" if "s \<le> length b" "4 * (length b - s) + 4 \<le> n" for s using Suc that by blast
  have P: "parses b s (parsepipe n b s)" if "s \<le> length b" "4 * (length b - s) + 3 \<le> n" for s using Suc that by blast
  have B: "parses b s (parseblock n b s)" if "s \<le> length b" "4 * (length b - s) + 1 \<le> n" "fst (peek {40} b s)" for s using Suc that by blast
  have E: "parses b s (parseexec n b s)" if "s \<le> length b" "4 * (length b - s) + 2 \<le> n" for s using Suc that by blast
  have wrap: "parses b s (rbind m (\<lambda>(r, s). Inr (g r, s)))" if "parses b s m" "\<And>r. good_cmd b r \<Longrightarrow> good_cmd b (g r)" for s m g
    using parses_bind [OF that(1)] that(2) by (simp add: split_beta)
  show ?case
  proof (intro conjI impI)
    assume s: "s \<le> length b" "4 * (length b - s) + 4 \<le> Suc n"
    show "parses b s (parseline (Suc n) b s)"
      unfolding parseline.simps
    proof (rule parses_bind [OF P], goal_cases)
      case (3 c s')
      show ?case unfolding prod.case
      proof (rule parses_bind [OF parseback_parses], goal_cases)
        case (4 c' s'')
        obtain semi s1 where p: "peek {59} b s'' = (semi, s1)" by fastforce
        show ?case
        proof (cases semi)
          case True
          have "parses b s'' (case gettoken b s1 of (_, _, s) \<Rightarrow> rbind (parseline n b s) (\<lambda>(right, s). Inr (LIST c' right, s)))"
            using s 3 4 by (intro token_then [OF p [unfolded eqTrueI [OF True]]] wrap L) auto
          then show ?thesis using p True by simp
        qed (use p peek_spec [OF p] 4 in simp)
      qed (use s 3 in auto)
    qed (use s in auto)
  next
    assume s: "s \<le> length b" "4 * (length b - s) + 3 \<le> Suc n"
    show "parses b s (parsepipe (Suc n) b s)"
      unfolding parsepipe.simps
    proof (rule parses_bind [OF E], goal_cases)
      case (3 c s')
      obtain bar s1 where p: "peek {124} b s' = (bar, s1)" by fastforce
      show ?case
      proof (cases bar)
        case True
        have "parses b s' (case gettoken b s1 of (_, _, s) \<Rightarrow> rbind (parsepipe n b s) (\<lambda>(right, s). Inr (PIPE c right, s)))"
          using s 3 by (intro token_then [OF p [unfolded eqTrueI [OF True]]] wrap P) auto
        then show ?thesis using p True by simp
      qed (use p peek_spec [OF p] 3 in simp)
    qed (use s in auto)
  next
    assume s: "s \<le> length b" "4 * (length b - s) + 1 \<le> Suc n" "fst (peek {40} b s)"
    obtain par s1 where p: "peek {40} b s = (par, s1)" by fastforce
    show "parses b s (parseblock (Suc n) b s)"
    proof (cases par)
      case True
      have "parses b s (case gettoken b s1 of (_, _, s) \<Rightarrow> rbind (parseline n b s) (\<lambda>(cmd, s).
          let (par, s) = peek {41} b s in if \<not> par then Inl (Panic ''syntax - missing )'')
          else let (_, _, s) = gettoken b s in parseredirs n b cmd s))"
      proof (intro token_then [OF p [unfolded eqTrueI [OF True]]] parses_bind [OF L], goal_cases)
        case (4 s2 c s')
        obtain close s3 where q: "peek {41} b s' = (close, s3)" by fastforce
        show ?case
        proof (cases close)
          case True
          have "parses b s' (case gettoken b s3 of (_, _, s) \<Rightarrow> parseredirs n b c s)"
            using s 4 by (intro token_then [OF q [unfolded eqTrueI [OF True]]] parseredirs_parses) auto
          then show ?thesis using q True by simp
        qed (use q in simp)
      qed (use s in auto)
      then show ?thesis using p True by simp
    qed (use p s(3) in simp)
  next
    assume s: "s \<le> length b" "4 * (length b - s) + 2 \<le> Suc n"
    obtain par s1 where p: "peek {40} b s = (par, s1)" by fastforce
    note Q = peek_spec [OF p s(1)]
    show "parses b s (parseexec (Suc n) b s)"
    proof (cases par)
      case True
      have "parses b s1 (parseblock n b s1)" using B [OF Q(2)] s Q(1,2) peek_again [OF p s(1)] True by simp
      then show ?thesis using p True parses_later Q(1) by simp
    next
      case False
      have "parses b s1 (rbind (parseredirs n b (EXEC []) s1) (\<lambda>(ret, s). parseargs n b 0 ret s))"
      proof (rule parses_bind [OF parseredirs_parses], goal_cases)
        case (4 c s')
        then show ?case unfolding prod.case using s Q by (intro parseargs_parses) auto
      qed (use s Q in auto)
      then show ?thesis using p False parses_later Q(1) by simp
    qed
  qed
qed simp

section \<open>Terminating the words\<close>

definition cmd_ends :: "cmd \<Rightarrow> nat set" where
  "cmd_ends c = snd ` cmd_words c"

lemma put_nul_spec [simp]: "length (put_nul e b) = length b" "i < length b \<Longrightarrow> put_nul e b ! i = (if i = e then 0 else b ! i)"
  by (auto simp: put_nul_def nth_list_update)

lemma fold_put_nul:
  "length (fold (\<lambda>w. put_nul (snd w)) ws b) = length b \<and>
   (\<forall>i < length b. fold (\<lambda>w. put_nul (snd w)) ws b ! i = (if i \<in> snd ` set ws then 0 else b ! i))"
  by (induction ws arbitrary: b) auto

lemma nulterminate_spec:
  "length (nulterminate c b) = length b \<and> (\<forall>i < length b. nulterminate c b ! i = (if i \<in> cmd_ends c then 0 else b ! i))"
  by (induction c b rule: nulterminate.induct) (auto simp: fold_put_nul cmd_ends_def image_iff)

text \<open>The C string at position \<open>q\<close> of a line.\<close>

definition str_at :: "byte list \<Rightarrow> nat \<Rightarrow> byte list" where
  "str_at b q = takeWhile (\<lambda>c. c \<noteq> 0) (drop q b)"

lemma str_atI:
  assumes "q \<le> e" "e \<le> length b" "length b' = length b" "\<And>i. q \<le> i \<Longrightarrow> i < e \<Longrightarrow> b' ! i = b ! i \<and> b ! i \<noteq> 0" "e < length b \<Longrightarrow> b' ! e = 0"
  shows "str_at b' q = take (e - q) (drop q b)"
proof -
  have "take (e - q) (drop q b) = take (e - q) (drop q b')"
    using assms by (intro nth_equalityI) auto
  moreover have "takeWhile (\<lambda>c. c \<noteq> 0) (drop q b') = take (e - q) (drop q b')"
    using assms by (intro takeWhile_eq_take_P_nth) auto
  ultimately show ?thesis by (simp add: str_at_def)
qed

lemma parseline_parses: "parses b 0 (parseline (PARSEFUEL b) b 0)"
  using parse_all [of 0 b "PARSEFUEL b"] by (simp add: PARSEFUEL_def)

section \<open>Properties\<close>

text \<open>
  (C23) The shell's parser terminates on every line: it returns a command, or stops with one of its four
  error messages; the panic of \<open>parseblock\<close> is never reached.
\<close>

theorem parsecmd_returns:
  "(\<exists>cmd b'. parsecmd b = Inr (cmd, b')) \<or>
   (\<exists>msg \<in> {''syntax'', ''too many args'', ''missing file for redirection'', ''syntax - missing )''}. parsecmd b = Inl (Panic msg))"
  using parseline_parses [of b]
  by (cases "parseline (PARSEFUEL b) b 0") (auto simp: parsecmd_def parses_def parse_errors_def split_beta)

text \<open>
  (C19) The words of a parsed command are intact: although \<open>nulterminate\<close> stores into the line that all
  words point into, the C string at the start of every argument and file name is exactly the run of word characters
  that the parser saw there.
\<close>

theorem parsecmd_words_intact:
  assumes "0 \<notin> set b" "parsecmd b = Inr (cmd, b')" "(q, e) \<in> cmd_words cmd"
  shows "str_at b' q = take (e - q) (drop q b) \<and> q < e \<and> (\<forall>c \<in> set (str_at b' q). word_char c)"
proof -
  obtain s where s: "parseline (PARSEFUEL b) b 0 = Inr (cmd, s)" and b': "b' = nulterminate cmd b"
    using assms(2) by (auto simp: parsecmd_def split_beta Let_def split: if_splits)
  have g: "good_word b w" if "w \<in> cmd_words cmd" for w using parseline_parses [of b] s that by (simp add: good_cmd_def)
  have w: "q < e" "e \<le> length b" "\<And>i. q \<le> i \<Longrightarrow> i < e \<Longrightarrow> word_char (b ! i)" using g [OF assms(3)] by (auto simp: good_word_def)
  note N = nulterminate_spec [of cmd b, folded b']
  have ends: "i \<notin> cmd_ends cmd" if "i < length b" "word_char (b ! i)" for i
    using g that by (auto simp: cmd_ends_def good_word_def)
  have "b' ! i = b ! i \<and> b ! i \<noteq> 0" if i: "q \<le> i" "i < e" for i
    using N ends [of i] w i assms(1) by (metis nth_mem order_less_le_trans)
  moreover have "b' ! e = 0" if "e < length b" using N that assms(3) by (force simp: cmd_ends_def)
  ultimately have str: "str_at b' q = take (e - q) (drop q b)" using w N by (intro str_atI) auto
  moreover have "word_char c" if c: "c \<in> set (take (e - q) (drop q b))" for c
  proof -
    obtain j where j: "j < length (take (e - q) (drop q b))" "take (e - q) (drop q b) ! j = c"
      using c unfolding in_set_conv_nth by blast
    then have "b ! (q + j) = c" "q + j < e" using w(2) by auto
    then show ?thesis using w(3) [of "q + j"] by simp
  qed
  ultimately show ?thesis using w(1) by simp
qed

text \<open>The line \<^verbatim>\<open>cat<a|wc\<close>: every word is followed directly by a symbol, which its NUL overwrites.\<close>

theorem parsecmd_words_intact_witness:
  "\<exists>cmd b'. parsecmd [99, 97, 116, 60, 97, 124, 119, 99] = Inr (cmd, b') \<and>
     cmd = PIPE (REDIR (EXEC [(0, 3)]) (4, 5) O_RDONLY 0) (EXEC [(6, 8)]) \<and>
     str_at b' 0 = [99, 97, 116] \<and> str_at b' 4 = [97] \<and> str_at b' 6 = [119, 99]"
proof -
  define b :: "byte list" where "b = [99, 97, 116, 60, 97, 124, 119, 99]"
  define c where "c = PIPE (REDIR (EXEC [(0, 3)]) (4, 5) O_RDONLY 0) (EXEC [(6, 8)])"
  have p: "parsecmd b = Inr (c, nulterminate c b)" unfolding b_def c_def by code_simp
  have z: "0 \<notin> set b" by (simp add: b_def)
  have "(0, 3) \<in> cmd_words c" "(4, 5) \<in> cmd_words c" "(6, 8) \<in> cmd_words c" by (simp_all add: c_def)
  from this [THEN parsecmd_words_intact [OF z p]] show ?thesis
    using p by (auto simp: b_def c_def)
qed

end
