(* ===== verification/Virtio.thy ===== *)
theory Virtio
  imports DiskSched Ring
begin

text \<open>
  The disk driver (\<^verbatim>\<open>virtio_disk_rw\<close>, \<^verbatim>\<open>virtio_disk_intr\<close> and the descriptor allocator of
  \<^verbatim>\<open>kernel/virtio_disk.c\<close>), as a system of calls that run concurrently with the device. What a call does
  while it holds \<^verbatim>\<open>vdisk_lock\<close> is one step; a call asleep in one of the two loops of
  \<^verbatim>\<open>virtio_disk_rw\<close> is an entry of \<open>waits\<close> or \<open>calls\<close> that holds its local variables.

  The device is not part of the kernel. It is the argument \<open>dev\<close> of the step relation, and \<open>virtio_dev\<close> states what the
  virtio specification says of it. An address in a descriptor is symbolic: the request header
  \<^verbatim>\<open>ops[i]\<close>, the data of buffer \<open>b\<close>, or \<^verbatim>\<open>info[i].status\<close>.
\<close>

section \<open>State\<close>

abbreviation (input) NUM :: nat where "NUM \<equiv> 8"
abbreviation (input) VRING_DESC_F_NEXT :: u16 where "VRING_DESC_F_NEXT \<equiv> 1"
abbreviation (input) VRING_DESC_F_WRITE :: u16 where "VRING_DESC_F_WRITE \<equiv> 2"
abbreviation (input) VIRTIO_BLK_T_IN :: u32 where "VIRTIO_BLK_T_IN \<equiv> 0"
abbreviation (input) VIRTIO_BLK_T_OUT :: u32 where "VIRTIO_BLK_T_OUT \<equiv> 1"

datatype vaddr = VNull | VOps nat | VData nat | VStatus nat

record virtq_desc =
  dsc_addr :: vaddr
  dsc_len :: u32
  dsc_flags :: u16
  dsc_next :: u16

record virtio_blk_req =
  req_type :: u32
  req_reserved :: u32
  req_sector :: u64

record vinfo =
  info_b :: "nat option"
  info_status :: byte

text \<open>
  A call of \<^verbatim>\<open>virtio_disk_rw\<close> that waits for its transfer: its arguments and \<^verbatim>\<open>idx\<close>. The last two
  components are history, for the statements below: what the buffer and the block held when the request was made.
\<close>

record vcall =
  c_b :: nat
  c_write :: bool
  c_idx :: "nat list"
  c_asleep :: bool
  c_data :: block
  c_block :: block

text \<open>A call that waits for free descriptors.\<close>

record vwait =
  w_b :: nat
  w_write :: bool
  w_asleep :: bool

record vdisk =
  desc :: "virtq_desc list"
  avail_ring :: "u16 list"
  avail_idx :: u16
  used_ring :: "u32 list"      \<comment> \<open>the field \<^verbatim>\<open>id\<close> of the elements\<close>
  used_idx_dev :: u16          \<comment> \<open>\<^verbatim>\<open>used->idx\<close>\<close>
  vfree :: "bool list"
  used_idx :: u16
  info :: "vinfo list"
  ops :: "virtio_blk_req list"
  vbufs :: "nat \<Rightarrow> buf"
  waits :: "vwait list"
  calls :: "vcall list"
  sectors :: "u64 \<Rightarrow> byte list"  \<comment> \<open>512 bytes each\<close>
  dev_pos :: u16               \<comment> \<open>how far the device has read the avail ring\<close>
  dev_work :: "nat list"       \<comment> \<open>the chains it is working on\<close>

section \<open>Initialisation\<close>

text \<open>The static data before \<^verbatim>\<open>virtio_disk_init\<close>, with the rings as they are once their pages are zeroed.\<close>

definition zero_desc :: virtq_desc where
  "zero_desc = \<lparr>dsc_addr = VNull, dsc_len = 0, dsc_flags = 0, dsc_next = 0\<rparr>"

definition zero_vdisk :: "(nat \<Rightarrow> buf) \<Rightarrow> (u64 \<Rightarrow> byte list) \<Rightarrow> vdisk" where
  "zero_vdisk bf ss =
     \<lparr>desc = replicate NUM zero_desc, avail_ring = replicate NUM 0, avail_idx = 0, used_ring = replicate NUM 0, used_idx_dev = 0,
      vfree = replicate NUM False, used_idx = 0, info = replicate NUM \<lparr>info_b = None, info_status = 0\<rparr>,
      ops = replicate NUM \<lparr>req_type = 0, req_reserved = 0, req_sector = 0\<rparr>, vbufs = bf, waits = [], calls = [],
      sectors = ss, dev_pos = 0, dev_work = []\<rparr>"

text \<open>
  The handshake with the device. \<open>rd ws r\<close> is what register \<open>r\<close> reads after the writes \<open>ws\<close>, \<open>pd\<close>, \<open>pa\<close> and \<open>pu\<close> are the pages
  that \<^verbatim>\<open>kalloc\<close> returned, \<open>q\<close> is the queue of the disk scheduler, which this routine empties. The first component of the
  result is the sequence of register writes.
\<close>

definition virtio_features :: "u32 \<Rightarrow> u32" where
  "virtio_features f = foldl (\<lambda>f k. f AND NOT (push_bit k 1)) f [5, 7, 11, 12, 27, 29, 28]"

definition virtio_disk_init ::
  "((u64 \<times> u32) list \<Rightarrow> u64 \<Rightarrow> u32) \<Rightarrow> u64 \<Rightarrow> u64 \<Rightarrow> u64 \<Rightarrow> disk_req list \<Rightarrow> vdisk \<Rightarrow> ((u64 \<times> u32) list \<times> disk_req list \<times> vdisk) res"
where
  "virtio_disk_init rd pd pa pu q m =
     (let q = map (\<lambda>r. r\<lparr>rq_valid := False\<rparr>) q in
      rbind (panic_if (rd [] 0x000 \<noteq> 0x74726976 \<or> rd [] 0x004 \<noteq> 2 \<or> rd [] 0x008 \<noteq> 2 \<or> rd [] 0x00c \<noteq> 0x554d4551)
               ''could not find virtio disk'') (\<lambda>_.
      let ws = [(0x070, 0), (0x070, 1), (0x070, 1 OR 2)];
          ws = ws @ [(0x020, virtio_features (rd ws 0x010))];
          ws = ws @ [(0x070, 1 OR 2 OR 8)];
          status = rd ws 0x070 in
      rbind (panic_if (status AND 8 = 0) ''virtio disk FEATURES_OK unset'') (\<lambda>_.
      let ws = ws @ [(0x030, 0)] in
      rbind (panic_if (rd ws 0x044 \<noteq> 0) ''virtio disk should not be ready'') (\<lambda>_.
      rbind (panic_if (rd ws 0x034 = 0) ''virtio disk has no queue 0'') (\<lambda>_.
      rbind (panic_if (rd ws 0x034 < of_nat NUM) ''virtio disk max queue too short'') (\<lambda>_.
      rbind (panic_if (pd = 0 \<or> pa = 0 \<or> pu = 0) ''virtio disk kalloc'') (\<lambda>_.
      let ws = ws @ [(0x038, of_nat NUM), (0x080, ucast pd), (0x084, ucast (drop_bit 32 pd)), (0x090, ucast pa), (0x094, ucast (drop_bit 32 pa)),
                     (0x0a0, ucast pu), (0x0a4, ucast (drop_bit 32 pu)), (0x044, 1), (0x070, status OR 4)]
      in Inr (ws, q, m\<lparr>vfree := replicate NUM True\<rparr>))))))))"

section \<open>Descriptors\<close>

text \<open>\<^verbatim>\<open>wakeup(&disk.free[0])\<close> and \<^verbatim>\<open>wakeup(b)\<close>\<close>

definition wake_free :: "vdisk \<Rightarrow> vdisk" where
  "wake_free m = m\<lparr>waits := map (\<lambda>w. w\<lparr>w_asleep := False\<rparr>) (waits m)\<rparr>"

definition wake_buf :: "nat \<Rightarrow> vdisk \<Rightarrow> vdisk" where
  "wake_buf b m = m\<lparr>calls := map (\<lambda>c. if c_b c = b then c\<lparr>c_asleep := False\<rparr> else c) (calls m)\<rparr>"

definition alloc_desc :: "vdisk \<Rightarrow> nat option \<times> vdisk" where
  "alloc_desc m =
     (case find (\<lambda>i. vfree m ! i) [0..<NUM] of
        None \<Rightarrow> (None, m)
      | Some i \<Rightarrow> (Some i, m\<lparr>vfree := (vfree m)[i := False]\<rparr>))"

definition free_desc :: "nat \<Rightarrow> vdisk \<Rightarrow> vdisk res" where
  "free_desc i m =
     rbind (panic_if (i \<ge> NUM) ''free_desc 1'') (\<lambda>_.
     rbind (panic_if (vfree m ! i) ''free_desc 2'') (\<lambda>_.
       Inr (wake_free (m\<lparr>desc := (desc m)[i := zero_desc], vfree := (vfree m)[i := True]\<rparr>))))"

text \<open>
  A chain that came back to a descriptor already freed would panic there, so \<open>NUM + 1\<close> rounds are
  enough.
\<close>

fun free_chain_loop :: "nat \<Rightarrow> nat \<Rightarrow> vdisk \<Rightarrow> vdisk res" where
  "free_chain_loop 0 i m = Inl Diverges"
| "free_chain_loop (Suc n) i m =
     (let flag = dsc_flags (desc m ! i); nxt = unat (dsc_next (desc m ! i)) in
      rbind (free_desc i m) (\<lambda>m.
        if flag AND VRING_DESC_F_NEXT \<noteq> 0 then free_chain_loop n nxt m else Inr m))"

definition free_chain :: "nat \<Rightarrow> vdisk \<Rightarrow> vdisk res" where
  "free_chain i m = free_chain_loop (NUM + 1) i m"

text \<open>\<open>idx\<close> holds the descriptors taken so far, \<open>k\<close> is how many are still to be taken.\<close>

fun alloc3_loop :: "nat \<Rightarrow> nat list \<Rightarrow> vdisk \<Rightarrow> (nat list option \<times> vdisk) res" where
  "alloc3_loop 0 idx m = Inr (Some idx, m)"
| "alloc3_loop (Suc k) idx m =
     (case alloc_desc m of
        (None, m) \<Rightarrow> rbind (rfold free_desc idx m) (\<lambda>m. Inr (None, m))
      | (Some i, m) \<Rightarrow> alloc3_loop k (idx @ [i]) m)"

definition alloc3_desc :: "vdisk \<Rightarrow> (nat list option \<times> vdisk) res" where
  "alloc3_desc m = alloc3_loop 3 [] m"

section \<open>Transfers\<close>

definition sector_of :: "u32 \<Rightarrow> u64" where
  "sector_of blockno = ucast (blockno * (of_nat BSIZE div 512))"

text \<open>The part of \<^verbatim>\<open>virtio_disk_rw\<close> from the allocation of the descriptors to the first \<^verbatim>\<open>sleep(b)\<close>.\<close>

definition submit :: "nat \<Rightarrow> bool \<Rightarrow> nat list \<Rightarrow> vdisk \<Rightarrow> vdisk" where
  "submit b write idx m =
     (let i0 = idx ! 0; i1 = idx ! 1; i2 = idx ! 2; sector = sector_of (b_blockno (vbufs m b));
          m = m\<lparr>ops := (ops m)[i0 := \<lparr>req_type = (if write then VIRTIO_BLK_T_OUT else VIRTIO_BLK_T_IN), req_reserved = 0, req_sector = sector\<rparr>]\<rparr>;
          m = m\<lparr>desc := (desc m)[i0 := \<lparr>dsc_addr = VOps i0, dsc_len = 16, dsc_flags = VRING_DESC_F_NEXT, dsc_next = of_nat i1\<rparr>]\<rparr>;
          m = m\<lparr>desc := (desc m)[i1 := \<lparr>dsc_addr = VData b, dsc_len = of_nat BSIZE,
                dsc_flags = (if write then 0 else VRING_DESC_F_WRITE) OR VRING_DESC_F_NEXT, dsc_next = of_nat i2\<rparr>]\<rparr>;
          m = m\<lparr>info := (info m)[i0 := (info m ! i0)\<lparr>info_status := 0xFF\<rparr>]\<rparr>;
          m = m\<lparr>desc := (desc m)[i2 := \<lparr>dsc_addr = VStatus i0, dsc_len = 1, dsc_flags = VRING_DESC_F_WRITE, dsc_next = 0\<rparr>]\<rparr>;
          m = m\<lparr>vbufs := (vbufs m)(b := (vbufs m b)\<lparr>b_disk := True\<rparr>)\<rparr>;
          m = m\<lparr>info := (info m)[i0 := (info m ! i0)\<lparr>info_b := Some b\<rparr>]\<rparr>;
          m = m\<lparr>avail_ring := (avail_ring m)[unat (avail_idx m) mod NUM := of_nat i0]\<rparr>
      in m\<lparr>avail_idx := avail_idx m + 1\<rparr>)"

definition block_at :: "u64 \<Rightarrow> (u64 \<Rightarrow> byte list) \<Rightarrow> block" where
  "block_at sec d = d sec @ d (sec + 1)"

text \<open>A call from its start, or from where it slept for want of descriptors, to where it sleeps next.\<close>

definition start_rw :: "nat \<Rightarrow> bool \<Rightarrow> vdisk \<Rightarrow> vdisk res" where
  "start_rw b write m =
     rbind (alloc3_desc m) (\<lambda>(r, m).
       case r of
         None \<Rightarrow> Inr (m\<lparr>waits := waits m @ [\<lparr>w_b = b, w_write = write, w_asleep = True\<rparr>]\<rparr>)
       | Some idx \<Rightarrow>
           let m = submit b write idx m;
               c = \<lparr>c_b = b, c_write = write, c_idx = idx, c_asleep = True, c_data = b_data (vbufs m b),
                    c_block = block_at (sector_of (b_blockno (vbufs m b))) (sectors m)\<rparr>
           in Inr (m\<lparr>calls := calls m @ [c]\<rparr>))"

text \<open>The rest of the call, once it is woken up: it sleeps again if the device is not done with the buffer.\<close>

definition resume_rw :: "nat \<Rightarrow> vdisk \<Rightarrow> vdisk res" where
  "resume_rw k m =
     (let c = calls m ! k; i0 = c_idx c ! 0 in
      if b_disk (vbufs m (c_b c)) then Inr (m\<lparr>calls := (calls m)[k := c\<lparr>c_asleep := True\<rparr>]\<rparr>)
      else free_chain i0 (m\<lparr>calls := take k (calls m) @ drop (Suc k) (calls m), info := (info m)[i0 := (info m ! i0)\<lparr>info_b := None\<rparr>]\<rparr>))"

text \<open>
  The loop of the interrupt handler; the ring has \<open>NUM\<close> elements, so there are at most \<open>NUM\<close> to look at.
  An entry with no buffer would make the handler dereference a null pointer.
\<close>

definition intr_body :: "vdisk \<Rightarrow> vdisk res" where
  "intr_body m =
     (let i = unat (used_ring m ! (unat (used_idx m) mod NUM)) in
      if i \<ge> NUM then Inl Undefined
      else rbind (panic_if (info_status (info m ! i) \<noteq> 0) ''virtio_disk_intr status'') (\<lambda>_.
        case info_b (info m ! i) of
          None \<Rightarrow> Inl (Panic ''kerneltrap'')
        | Some b \<Rightarrow>
            let m = m\<lparr>vbufs := (vbufs m)(b := (vbufs m b)\<lparr>b_disk := False\<rparr>)\<rparr>;
                m = wake_buf b m
            in Inr (m\<lparr>used_idx := used_idx m + 1\<rparr>)))"

fun intr_loop :: "nat \<Rightarrow> vdisk \<Rightarrow> vdisk res" where
  "intr_loop 0 m = Inl Diverges"
| "intr_loop (Suc n) m =
     (if used_idx m \<noteq> used_idx_dev m then rbind (intr_body m) (intr_loop n) else Inr m)"

definition virtio_disk_intr :: "vdisk \<Rightarrow> vdisk res" where
  "virtio_disk_intr m = intr_loop (NUM + 1) m"

section \<open>The device\<close>

interpretation vring: ring NUM "TYPE(16)"
  by unfold_locales simp_all

definition availq :: "vdisk \<Rightarrow> nat list" where
  "availq m = map unat (ring_list NUM (avail_ring m) (dev_pos m) (avail_idx m))"

definition usedq :: "vdisk \<Rightarrow> nat list" where
  "usedq m = map unat (ring_list NUM (used_ring m) (used_idx m) (used_idx_dev m))"

text \<open>A chain of three descriptors in the format of section 5.2 of the virtio specification.\<close>

definition chain_ok :: "vdisk \<Rightarrow> nat \<Rightarrow> bool" where
  "chain_ok m h \<longleftrightarrow>
     (let d0 = desc m ! h; d1 = desc m ! unat (dsc_next d0); d2 = desc m ! unat (dsc_next d1) in
      h < NUM \<and> unat (dsc_next d0) < NUM \<and> unat (dsc_next d1) < NUM \<and>
      dsc_len d0 = 16 \<and> dsc_flags d0 = VRING_DESC_F_NEXT \<and> dsc_len d1 = of_nat BSIZE \<and>
      dsc_len d2 = 1 \<and> dsc_flags d2 = VRING_DESC_F_WRITE \<and>
      (\<exists>i b j. dsc_addr d0 = VOps i \<and> dsc_addr d1 = VData b \<and> dsc_addr d2 = VStatus j \<and> i < NUM \<and> j < NUM \<and>
        (req_type (ops m ! i) = VIRTIO_BLK_T_IN \<and> dsc_flags d1 = VRING_DESC_F_WRITE OR VRING_DESC_F_NEXT \<or>
         req_type (ops m ! i) = VIRTIO_BLK_T_OUT \<and> dsc_flags d1 = VRING_DESC_F_NEXT)))"

definition dev_fetch :: "vdisk \<Rightarrow> vdisk" where
  "dev_fetch m = m\<lparr>dev_pos := dev_pos m + 1,
     dev_work := dev_work m @ [unat (avail_ring m ! slot NUM (dev_pos m))]\<rparr>"

definition put_block :: "u64 \<Rightarrow> block \<Rightarrow> (u64 \<Rightarrow> byte list) \<Rightarrow> u64 \<Rightarrow> byte list" where
  "put_block sec d ss = ss(sec := take 512 d, sec + 1 := drop 512 d)"

definition transfer :: "nat \<Rightarrow> nat \<Rightarrow> vdisk \<Rightarrow> vdisk" where
  "transfer i b m =
     (let sec = req_sector (ops m ! i) in
      if req_type (ops m ! i) = VIRTIO_BLK_T_IN
      then m\<lparr>vbufs := (vbufs m)(b := (vbufs m b)\<lparr>b_data := block_at sec (sectors m)\<rparr>)\<rparr>
      else m\<lparr>sectors := put_block sec (b_data (vbufs m b)) (sectors m)\<rparr>)"

text \<open>
  A request that fails leaves something unspecified, here \<open>d\<close>, where it should have transferred the data.
\<close>

definition garble :: "block \<Rightarrow> nat \<Rightarrow> nat \<Rightarrow> vdisk \<Rightarrow> vdisk" where
  "garble d i b m =
     (if req_type (ops m ! i) = VIRTIO_BLK_T_IN
      then m\<lparr>vbufs := (vbufs m)(b := (vbufs m b)\<lparr>b_data := d\<rparr>)\<rparr>
      else m\<lparr>sectors := put_block (req_sector (ops m ! i)) d (sectors m)\<rparr>)"

text \<open>The device finishes the chain at \<open>h\<close> with status \<open>st\<close>: 0 for success, 1 for an error, 2 for an unsupported request.\<close>

definition dev_complete :: "byte \<Rightarrow> block \<Rightarrow> nat \<Rightarrow> vdisk \<Rightarrow> vdisk" where
  "dev_complete st d h m =
     (let d0 = desc m ! h; d1 = desc m ! unat (dsc_next d0); d2 = desc m ! unat (dsc_next d1) in
      case (dsc_addr d0, dsc_addr d1, dsc_addr d2) of
        (VOps i, VData b, VStatus j) \<Rightarrow>
          let m = (if st = 0 then transfer i b m else garble d i b m)
          in m\<lparr>info := (info m)[j := (info m ! j)\<lparr>info_status := st\<rparr>],
               used_ring := (used_ring m)[slot NUM (used_idx_dev m) := of_nat h],
               used_idx_dev := used_idx_dev m + 1, dev_work := remove1 h (dev_work m)\<rparr>
      | _ \<Rightarrow> m)"

text \<open>
  What the driver relies on: as long as the chains it was given are in the format above, all that the
  device does is to fetch the next chain from the avail ring, or to finish one it has fetched, with success or with a failure
  and in any order.
\<close>

definition virtio_dev :: "(vdisk \<Rightarrow> vdisk \<Rightarrow> bool) \<Rightarrow> bool" where
  "virtio_dev dev \<longleftrightarrow>
     (\<forall>m m'. dev m m' \<longrightarrow> (\<forall>h \<in> set (availq m @ dev_work m). chain_ok m h) \<longrightarrow>
        dev_pos m \<noteq> avail_idx m \<and> m' = dev_fetch m \<or>
        (\<exists>h \<in> set (dev_work m). \<exists>st d. length d = BSIZE \<and> m' = dev_complete st d h m))"

section \<open>The system\<close>

definition vbusy :: "vdisk \<Rightarrow> nat set" where
  "vbusy m = c_b ` set (calls m) \<union> w_b ` set (waits m)"

definition vsec :: "vdisk \<Rightarrow> nat \<Rightarrow> u64" where
  "vsec m b = sector_of (b_blockno (vbufs m b))"

text \<open>
  A step of a call, of the interrupt handler or of the device, or the owner of a buffer changing it
  while there is no call for it. The caller holds the sleep lock of the buffer, so there
  is one call for it at a time, and the buffer cache has one buffer for a block. The interrupt handler runs as a whole or
  round by round, so that the device may finish more requests between two rounds. \<open>submit\<close> is one step: the
  device sees nothing of a request before the last store, which increments the index of the avail ring.
\<close>

inductive vstep :: "(vdisk \<Rightarrow> vdisk \<Rightarrow> bool) \<Rightarrow> vdisk \<Rightarrow> vdisk \<Rightarrow> bool" for dev where
  vcall: "b \<notin> vbusy m \<Longrightarrow> \<forall>b' \<in> vbusy m. vsec m b' \<noteq> vsec m b \<Longrightarrow> start_rw b w m = Inr m' \<Longrightarrow> vstep dev m m'"
| vretry: "k < length (waits m) \<Longrightarrow> \<not> w_asleep (waits m ! k) \<Longrightarrow>
    start_rw (w_b (waits m ! k)) (w_write (waits m ! k)) (m\<lparr>waits := take k (waits m) @ drop (Suc k) (waits m)\<rparr>) = Inr m' \<Longrightarrow>
    vstep dev m m'"
| vresume: "k < length (calls m) \<Longrightarrow> \<not> c_asleep (calls m ! k) \<Longrightarrow> resume_rw k m = Inr m' \<Longrightarrow> vstep dev m m'"
| vintr: "virtio_disk_intr m = Inr m' \<Longrightarrow> vstep dev m m'"
| vintr_round: "used_idx m \<noteq> used_idx_dev m \<Longrightarrow> intr_body m = Inr m' \<Longrightarrow> vstep dev m m'"
| vdevice: "dev m m' \<Longrightarrow> vstep dev m m'"
| vowner: "b \<notin> vbusy m \<Longrightarrow> length d = BSIZE \<Longrightarrow>
    vstep dev m (m\<lparr>vbufs := (vbufs m)(b := (vbufs m b)\<lparr>b_data := d, b_blockno := n\<rparr>)\<rparr>)"

inductive vreach :: "(vdisk \<Rightarrow> vdisk \<Rightarrow> bool) \<Rightarrow> vdisk \<Rightarrow> vdisk \<Rightarrow> bool" for dev where
  vreach_refl: "vreach dev m m"
| vreach_step: "vreach dev m m' \<Longrightarrow> vstep dev m' m'' \<Longrightarrow> vreach dev m m''"

section \<open>Invariant\<close>

definition shape :: "vdisk \<Rightarrow> bool" where
  "shape m \<longleftrightarrow> length (desc m) = NUM \<and> length (vfree m) = NUM \<and> length (info m) = NUM \<and> length (ops m) = NUM \<and>
     length (avail_ring m) = NUM \<and> length (used_ring m) = NUM \<and>
     (\<forall>b. length (b_data (vbufs m b)) = BSIZE) \<and> (\<forall>sec. length (sectors m sec) = 512)"

definition owned :: "vdisk \<Rightarrow> nat list" where
  "owned m = concat (map c_idx (calls m))"

text \<open>Every descriptor that is not free belongs to exactly one call, which has three of them.\<close>

definition descs_ok :: "vdisk \<Rightarrow> bool" where
  "descs_ok m \<longleftrightarrow> distinct (owned m) \<and> (\<forall>idx \<in> set (map c_idx (calls m)). length idx = 3) \<and>
     (\<forall>i < NUM. vfree m ! i \<longleftrightarrow> i \<notin> set (owned m)) \<and> set (owned m) \<subseteq> {..<NUM}"

text \<open>The descriptors of a call, its request and its \<open>info\<close> are what \<open>submit\<close> made them.\<close>

definition call_fmt :: "vdisk \<Rightarrow> vcall \<Rightarrow> bool" where
  "call_fmt m c \<longleftrightarrow>
     (let i0 = c_idx c ! 0; i1 = c_idx c ! 1; i2 = c_idx c ! 2 in
      desc m ! i0 = \<lparr>dsc_addr = VOps i0, dsc_len = 16, dsc_flags = VRING_DESC_F_NEXT, dsc_next = of_nat i1\<rparr> \<and>
      desc m ! i1 = \<lparr>dsc_addr = VData (c_b c), dsc_len = of_nat BSIZE,
        dsc_flags = (if c_write c then 0 else VRING_DESC_F_WRITE) OR VRING_DESC_F_NEXT, dsc_next = of_nat i2\<rparr> \<and>
      desc m ! i2 = \<lparr>dsc_addr = VStatus i0, dsc_len = 1, dsc_flags = VRING_DESC_F_WRITE, dsc_next = 0\<rparr> \<and>
      ops m ! i0 = \<lparr>req_type = (if c_write c then VIRTIO_BLK_T_OUT else VIRTIO_BLK_T_IN), req_reserved = 0, req_sector = vsec m (c_b c)\<rparr> \<and>
      info_b (info m ! i0) = Some (c_b c))"

text \<open>The heads of the chains of the calls in flight are each in exactly one place.\<close>

definition heads :: "vdisk \<Rightarrow> nat list" where
  "heads m = map (\<lambda>c. c_idx c ! 0) (filter (\<lambda>c. b_disk (vbufs m (c_b c))) (calls m))"

definition queues_ok :: "vdisk \<Rightarrow> bool" where
  "queues_ok m \<longleftrightarrow> distinct (availq m @ dev_work m @ usedq m) \<and> set (availq m @ dev_work m @ usedq m) = set (heads m)"

text \<open>
  Before the transfer the buffer and the block are what they were, after it the one is a copy of the other, unless the
  device has reported a failure.
\<close>

definition undone :: "vdisk \<Rightarrow> vcall \<Rightarrow> bool" where
  "undone m c \<longleftrightarrow> b_data (vbufs m (c_b c)) = c_data c \<and> block_at (vsec m (c_b c)) (sectors m) = c_block c"

definition done_ok :: "vdisk \<Rightarrow> vcall \<Rightarrow> bool" where
  "done_ok m c \<longleftrightarrow> (let d = (if c_write c then c_data c else c_block c) in
     b_data (vbufs m (c_b c)) = d \<and> block_at (vsec m (c_b c)) (sectors m) = d)"

definition call_data :: "vdisk \<Rightarrow> vcall \<Rightarrow> bool" where
  "call_data m c \<longleftrightarrow>
     (if \<not> b_disk (vbufs m (c_b c)) then done_ok m c
      else if c_idx c ! 0 \<in> set (usedq m) then info_status (info m ! (c_idx c ! 0)) = 0 \<longrightarrow> done_ok m c else undone m c)"

definition users_ok :: "vdisk \<Rightarrow> bool" where
  "users_ok m \<longleftrightarrow> distinct (map c_b (calls m) @ map w_b (waits m)) \<and> inj_on (vsec m) (vbusy m) \<and>
     (\<forall>b. b_disk (vbufs m b) \<longrightarrow> b \<in> c_b ` set (calls m))"

text \<open>No wake-up is lost: who sleeps still has something to wait for.\<close>

definition no_lost_wakeup :: "vdisk \<Rightarrow> bool" where
  "no_lost_wakeup m \<longleftrightarrow> (\<forall>c \<in> set (calls m). c_asleep c \<longrightarrow> b_disk (vbufs m (c_b c))) \<and>
     (\<forall>w \<in> set (waits m). w_asleep w \<longrightarrow> length (filter id (vfree m)) < 3)"

definition vinv :: "vdisk \<Rightarrow> bool" where
  "vinv m \<longleftrightarrow> shape m \<and> descs_ok m \<and> (\<forall>c \<in> set (calls m). call_fmt m c \<and> call_data m c) \<and> queues_ok m \<and>
     users_ok m \<and> no_lost_wakeup m"

lemma vinvD:
  assumes "vinv m"
  shows "shape m" "descs_ok m" "queues_ok m" "users_ok m" "no_lost_wakeup m" "\<And>c. c \<in> set (calls m) \<Longrightarrow> call_fmt m c"
    "\<And>c. c \<in> set (calls m) \<Longrightarrow> call_data m c"
  using assms by (auto simp: vinv_def)

lemma concat_map_owner: "distinct (concat (map f xs)) \<Longrightarrow> x \<in> set xs \<Longrightarrow> y \<in> set xs \<Longrightarrow> i \<in> set (f x) \<Longrightarrow> i \<in> set (f y) \<Longrightarrow> x = y"
  by (induction xs) auto

lemma descs_ok_cong: "map c_idx (calls m') = map c_idx (calls m) \<Longrightarrow> vfree m' = vfree m \<Longrightarrow> descs_ok m' = descs_ok m"
  by (simp only: descs_ok_def owned_def)

lemma desc_owner:
  "descs_ok m \<Longrightarrow> c \<in> set (calls m) \<Longrightarrow> c' \<in> set (calls m) \<Longrightarrow> i \<in> set (c_idx c) \<Longrightarrow> i \<in> set (c_idx c') \<Longrightarrow> c = c'"
  unfolding descs_ok_def owned_def using concat_map_owner [of c_idx "calls m"] by blast

lemma users_ok_step:
  assumes "users_ok m" "map c_b (calls m') = map c_b (calls m)" "map w_b (waits m') = map w_b (waits m)" "vsec m' = vsec m"
    "\<And>b. b_disk (vbufs m' b) \<Longrightarrow> b_disk (vbufs m b)"
  shows "users_ok m'"
proof -
  have "c_b ` set (calls m') = c_b ` set (calls m)" "w_b ` set (waits m') = w_b ` set (waits m)" using assms(2,3) by (metis set_map)+
  then show ?thesis using assms unfolding users_ok_def vbusy_def by metis
qed

lemma buf_owner: "users_ok m \<Longrightarrow> c \<in> set (calls m) \<Longrightarrow> c' \<in> set (calls m) \<Longrightarrow> c_b c = c_b c' \<Longrightarrow> c = c'"
  by (auto simp: users_ok_def distinct_map dest: inj_onD)

text \<open>The three descriptors of a call.\<close>

lemma call_idx:
  assumes "descs_ok m" "c \<in> set (calls m)"
  obtains i0 i1 i2 where "c_idx c = [i0, i1, i2]" "i0 < NUM" "i1 < NUM" "i2 < NUM" "i0 \<noteq> i1" "i0 \<noteq> i2" "i1 \<noteq> i2"
    "\<not> vfree m ! i0" "\<not> vfree m ! i1" "\<not> vfree m ! i2"
proof -
  have "length (c_idx c) = Suc (Suc (Suc 0))" using assms by (simp add: descs_ok_def eval_nat_numeral)
  then obtain i0 i1 i2 where i: "c_idx c = [i0, i1, i2]" by (auto simp: length_Suc_conv)
  have "distinct (c_idx c)" using assms by (auto simp: descs_ok_def owned_def dest: distinct_concat_iff [THEN iffD1])
  moreover have "set (c_idx c) \<subseteq> set (owned m)" using assms(2) by (auto simp: owned_def)
  ultimately show thesis using that i assms(1) by (auto simp: descs_ok_def)
qed

lemma calls_le: "descs_ok m \<Longrightarrow> length (calls m) \<le> 2"
proof -
  assume a: "descs_ok m"
  have "\<forall>c \<in> set cs. length (c_idx c) = 3 \<Longrightarrow> length (concat (map c_idx cs)) = 3 * length cs" for cs by (induction cs) auto
  moreover have "\<forall>c \<in> set (calls m). length (c_idx c) = 3" using a by (simp add: descs_ok_def)
  ultimately have "length (owned m) = 3 * length (calls m)" unfolding owned_def by blast
  moreover have "length (owned m) = card (set (owned m))" using a by (simp add: descs_ok_def distinct_card)
  moreover have "card (set (owned m)) \<le> NUM" using a card_mono [of "{..<NUM}" "set (owned m)"] by (simp add: descs_ok_def)
  ultimately show ?thesis by simp
qed

lemma heads_facts:
  assumes "descs_ok m"
  shows "h \<in> set (heads m) \<longleftrightarrow> (\<exists>c \<in> set (calls m). c_idx c ! 0 = h \<and> b_disk (vbufs m (c_b c)))" "length (heads m) \<le> 2"
proof -
  show "h \<in> set (heads m) \<longleftrightarrow> (\<exists>c \<in> set (calls m). c_idx c ! 0 = h \<and> b_disk (vbufs m (c_b c)))" by (auto simp: heads_def)
  show "length (heads m) \<le> 2" using calls_le [OF assms] unfolding heads_def length_map by (rule le_trans [OF length_filter_le])
qed

lemma heads_cong:
  assumes "map (\<lambda>c. (c_idx c ! 0, c_b c)) (calls m') = map (\<lambda>c. (c_idx c ! 0, c_b c)) (calls m)" "vbufs m' = vbufs m"
  shows "heads m' = heads m"
proof -
  have "heads m = map fst (filter (\<lambda>x. b_disk (vbufs m (snd x))) (map (\<lambda>c. (c_idx c ! 0, c_b c)) (calls m)))" for m
    by (simp add: heads_def filter_map o_def)
  then show ?thesis by (simp only: assms)
qed

lemma queues_short: "descs_ok m \<Longrightarrow> queues_ok m \<Longrightarrow> length (availq m) + length (dev_work m) + length (usedq m) \<le> 2"
proof -
  assume a: "descs_ok m" "queues_ok m"
  have "length (availq m @ dev_work m @ usedq m) = card (set (heads m))" using a(2) by (metis distinct_card queues_ok_def)
  also have "... \<le> length (heads m)" by (rule card_length)
  finally show ?thesis using heads_facts(2) [OF a(1)] by simp
qed

lemma head_in_idx: "descs_ok m \<Longrightarrow> c \<in> set (calls m) \<Longrightarrow> c_idx c ! 0 \<in> set (c_idx c)"
  by (rule nth_mem) (simp add: descs_ok_def)

lemma head_inj: "descs_ok m \<Longrightarrow> c \<in> set (calls m) \<Longrightarrow> c' \<in> set (calls m) \<Longrightarrow> c_idx c ! 0 = c_idx c' ! 0 \<Longrightarrow> c = c'"
  using head_in_idx desc_owner by metis

section \<open>The device keeps the invariant\<close>

lemma fetch_vinv:
  assumes "vinv m" "dev_pos m \<noteq> avail_idx m"
  shows "vinv (dev_fetch m)"
proof -
  have p: "ring_list NUM (avail_ring m) (dev_pos m) (avail_idx m) =
      avail_ring m ! slot NUM (dev_pos m) # ring_list NUM (avail_ring m) (dev_pos m + 1) (avail_idx m)"
    by (rule vring.ring_pop [OF assms(2)])
  have q: "availq m = unat (avail_ring m ! slot NUM (dev_pos m)) # availq (dev_fetch m)" "usedq (dev_fetch m) = usedq m"
    by (simp_all add: availq_def usedq_def dev_fetch_def p)
  have e: "heads (dev_fetch m) = heads m" "shape (dev_fetch m) = shape m" "descs_ok (dev_fetch m) = descs_ok m"
    "users_ok (dev_fetch m) = users_ok m" "no_lost_wakeup (dev_fetch m) = no_lost_wakeup m" "call_fmt (dev_fetch m) = call_fmt m"
    "calls (dev_fetch m) = calls m" "call_data (dev_fetch m) = call_data m"
    using q(2) by (simp_all add: heads_def shape_def descs_ok_def owned_def users_ok_def vbusy_def vsec_def no_lost_wakeup_def call_fmt_def
      call_data_def done_ok_def undone_def fun_eq_iff) (simp_all add: dev_fetch_def vsec_def inj_on_def)
  have "queues_ok (dev_fetch m)" using vinvD(3) [OF assms(1)] q e(1) by (auto simp: queues_ok_def dev_fetch_def)
  then show ?thesis using assms(1) e by (simp add: vinv_def)
qed

lemma unat_desc [simp]: "i < NUM \<Longrightarrow> unat (of_nat i :: u16) = i" "i < NUM \<Longrightarrow> unat (of_nat i :: u32) = i"
  by (simp_all add: unat_of_nat take_bit_eq_mod)

lemma even_sector: "even (sector_of n)"
proof -
  have "even (ucast w :: u64) = even w" for w :: u32 by transfer simp
  then show ?thesis by (simp add: sector_of_def)
qed

lemma block_put:
  shows "length d = BSIZE \<Longrightarrow> block_at sec (put_block sec d ss) = d"
    "sector_of n \<noteq> sector_of n' \<Longrightarrow> block_at (sector_of n') (put_block (sector_of n) d ss) = block_at (sector_of n') ss"
proof -
  have s: "sec + 1 \<noteq> sec" for sec :: u64 by simp
  show "length d = BSIZE \<Longrightarrow> block_at sec (put_block sec d ss) = d" using s [of sec] by (auto simp: block_at_def put_block_def)
  assume ne: "sector_of n \<noteq> sector_of n'"
  have "sector_of n + 1 \<noteq> sector_of n'" "sector_of n' + 1 \<noteq> sector_of n" using even_sector [of n] even_sector [of n'] by (metis even_plus_one_iff)+
  then show "block_at (sector_of n') (put_block (sector_of n) d ss) = block_at (sector_of n') ss" using ne by (auto simp: block_at_def put_block_def)
qed

lemma complete_eq:
  assumes "vinv m" "c \<in> set (calls m)" "c_idx c ! 0 = h"
  shows "dev_complete st d h m = (if st = 0 then transfer h (c_b c) m else garble d h (c_b c) m)\<lparr>info := (info m)[h := (info m ! h)\<lparr>info_status := st\<rparr>],
    used_ring := (used_ring m)[slot NUM (used_idx_dev m) := of_nat h], used_idx_dev := used_idx_dev m + 1, dev_work := remove1 h (dev_work m)\<rparr>"
    "req_sector (ops m ! h) = vsec m (c_b c)" "req_type (ops m ! h) = VIRTIO_BLK_T_IN \<longleftrightarrow> \<not> c_write c" "chain_ok m h"
proof -
  obtain i0 i1 i2 where i: "c_idx c = [i0, i1, i2]" "i0 < NUM" "i1 < NUM" "i2 < NUM"
    by (rule call_idx [OF vinvD(2) [OF assms(1)] assms(2)])
  note F = vinvD(6) [OF assms(1,2), unfolded call_fmt_def Let_def]
  show "dev_complete st d h m = (if st = 0 then transfer h (c_b c) m else garble d h (c_b c) m)\<lparr>info := (info m)[h := (info m ! h)\<lparr>info_status := st\<rparr>],
    used_ring := (used_ring m)[slot NUM (used_idx_dev m) := of_nat h], used_idx_dev := used_idx_dev m + 1, dev_work := remove1 h (dev_work m)\<rparr>"
    using F i assms(3) by (simp add: dev_complete_def transfer_def garble_def Let_def)
  show "req_sector (ops m ! h) = vsec m (c_b c)" "req_type (ops m ! h) = VIRTIO_BLK_T_IN \<longleftrightarrow> \<not> c_write c" "chain_ok m h"
    using F i assms(3) by (simp_all add: chain_ok_def Let_def)
qed

lemma complete_done:
  assumes "vinv m" "c \<in> set (calls m)" "c_idx c ! 0 = h" "undone m c"
  shows "done_ok (dev_complete 0 d h m) c"
proof -
  let ?b = "c_b c"
  note E = complete_eq [OF assms(1-3)]
  have "length (b_data (vbufs m ?b)) = BSIZE" using vinvD(1) [OF assms(1)] by (auto simp: shape_def)
  then show "done_ok (dev_complete 0 d h m) c"
    using assms(4) E(2,3) by (auto simp: E(1) transfer_def Let_def done_ok_def undone_def block_put(1) vsec_def)
qed

lemma complete_vinv:
  assumes "vinv m" "h \<in> set (dev_work m)" "length dt = BSIZE"
  shows "vinv (dev_complete st dt h m)"
proof -
  note I = vinvD [OF assms(1)]
  have h: "h \<in> set (heads m)" "h \<notin> set (availq m)" "h \<notin> set (usedq m)" "distinct (dev_work m)" using I(3) assms(2) by (auto simp: queues_ok_def)
  obtain c where c: "c \<in> set (calls m)" "c_idx c ! 0 = h" "b_disk (vbufs m (c_b c))" using h(1) heads_facts(1) [OF I(2)] by blast
  define m' where "m' = dev_complete st dt h m"
  note E = complete_eq [OF assms(1) c(1,2)]
  have h8: "h < NUM" using call_idx [OF I(2) c(1)] c(2) by (metis nth_Cons_0)
  have same: "calls m' = calls m" "waits m' = waits m" "desc m' = desc m" "ops m' = ops m" "vfree m' = vfree m" "avail_ring m' = avail_ring m"
    "dev_work m' = remove1 h (dev_work m)" "length (info m') = length (info m)" "length (used_ring m') = length (used_ring m)" "availq m' = availq m"
    "\<And>b. b_disk (vbufs m' b) = b_disk (vbufs m b)" "\<And>b. b_blockno (vbufs m' b) = b_blockno (vbufs m b)"
    using I(1) by (simp_all add: m'_def E(1) transfer_def garble_def availq_def Let_def)
  have "info m' = (info m)[h := (info m ! h)\<lparr>info_status := st\<rparr>]" by (simp add: m'_def E(1))
  then have inf: "info_b (info m' ! i) = info_b (info m ! i)" "i \<noteq> h \<Longrightarrow> info m' ! i = info m ! i" for i
    using I(1) h8 by (cases "i = h"; simp add: shape_def)+
  have sec: "vsec m' = vsec m" by (simp add: vsec_def same fun_eq_iff)
  have uq: "usedq m' = usedq m @ [h]"
  proof -
    have "length (usedq m) < NUM" using queues_short [OF I(2,3)] by simp
    then have "ring_list NUM ((used_ring m)[slot NUM (used_idx_dev m) := of_nat h]) (used_idx m) (used_idx_dev m + 1) =
        ring_list NUM (used_ring m) (used_idx m) (used_idx_dev m) @ [of_nat h]"
      using I(1) by (intro vring.ring_push) (simp_all add: shape_def usedq_def)
    then show ?thesis using h8 by (simp add: usedq_def m'_def E(1) transfer_def garble_def Let_def)
  qed
  have b': "vbufs m' b = vbufs m b" if "b \<noteq> c_b c" for b using that by (simp add: m'_def E(1) transfer_def garble_def Let_def)
  have data: "call_data m' d" if d: "d \<in> set (calls m)" for d
  proof (cases "d = c")
    case True
    have u: "undone m c" using I(7) [OF c(1)] c(2,3) h(3) by (simp add: call_data_def)
    have "st = 0 \<longrightarrow> done_ok m' c" unfolding m'_def using complete_done [OF assms(1) c(1,2) u] by simp
    moreover have "info_status (info m' ! h) = st" using I(1) h8 by (simp add: m'_def E(1) shape_def)
    ultimately show ?thesis using True c same uq by (simp add: call_data_def)
  next
    case False
    have nb: "c_b d \<noteq> c_b c" "c_idx d ! 0 \<noteq> h" using buf_owner [OF I(4) d c(1)] head_inj [OF I(2) d c(1)] c(2) False by metis+
    have "vsec m (c_b d) \<noteq> vsec m (c_b c)" using I(4) d c(1) nb(1) by (auto simp: users_ok_def vbusy_def dest: inj_onD)
    then have "block_at (vsec m (c_b d)) (sectors m') = block_at (vsec m (c_b d)) (sectors m)"
      using E(2) by (auto simp: m'_def E(1) transfer_def garble_def Let_def vsec_def block_put)
    then have "undone m' d = undone m d" "done_ok m' d = done_ok m d" using b' [OF nb(1)] by (simp_all add: undone_def done_ok_def sec)
    then show ?thesis using I(7) [OF d] nb(2) same uq inf(2) by (simp add: call_data_def)
  qed
  have fmt: "call_fmt m' = call_fmt m" by (simp add: call_fmt_def fun_eq_iff same sec inf(1))
  have "shape m'"
    using I(1) same assms(3) by (auto simp: shape_def m'_def E(1) transfer_def garble_def Let_def block_at_def put_block_def)
  moreover have "heads m' = heads m" by (simp add: heads_def same)
  then have "queues_ok m'" using I(3) uq same h assms(2) by (auto simp: queues_ok_def)
  moreover have "descs_ok m'" "users_ok m'" "no_lost_wakeup m'" using I(2,4,5) same sec by (simp_all add: descs_ok_def owned_def users_ok_def vbusy_def no_lost_wakeup_def)
  ultimately show ?thesis using data fmt I(6) same(1) unfolding m'_def [symmetric] by (simp add: vinv_def)
qed

section \<open>The interrupt handler\<close>

lemma asleep_irrelevant [simp]:
  "call_fmt m (c\<lparr>c_asleep := x\<rparr>) = call_fmt m c" "done_ok m (c\<lparr>c_asleep := x\<rparr>) = done_ok m c"
  "undone m (c\<lparr>c_asleep := x\<rparr>) = undone m c" "call_data m (c\<lparr>c_asleep := x\<rparr>) = call_data m c"
  by (simp_all add: call_fmt_def done_ok_def undone_def call_data_def)

abbreviation (input) awake :: "vcall \<Rightarrow> vcall" where "awake c \<equiv> c\<lparr>c_asleep := False\<rparr>"

text \<open>One round of the loop: the call of the request at the head of the used ring is told.\<close>

definition intr_done :: "nat \<Rightarrow> vdisk \<Rightarrow> vdisk" where
  "intr_done b m = (wake_buf b (m\<lparr>vbufs := (vbufs m)(b := (vbufs m b)\<lparr>b_disk := False\<rparr>)\<rparr>))\<lparr>used_idx := used_idx m + 1\<rparr>"

lemma intr_done_facts:
  fixes b m
  defines "m' \<equiv> intr_done b m"
  shows "calls m' = map (\<lambda>c. if c_b c = b then c\<lparr>c_asleep := False\<rparr> else c) (calls m)" "waits m' = waits m" "desc m' = desc m" "ops m' = ops m"
    "vfree m' = vfree m" "info m' = info m" "sectors m' = sectors m" "dev_work m' = dev_work m" "availq m' = availq m"
    "b_disk (vbufs m' d) = (b_disk (vbufs m d) \<and> d \<noteq> b)" "b_data (vbufs m' d) = b_data (vbufs m d)" "vsec m' = vsec m"
    "shape m' = shape m" "descs_ok m' = descs_ok m" "map c_b (calls m') = map c_b (calls m)" "map awake (calls m') = map awake (calls m)"
proof -
  show "descs_ok m' = descs_ok m" by (rule descs_ok_cong) (simp_all add: m'_def intr_done_def wake_buf_def)
qed (auto simp: m'_def intr_done_def wake_buf_def availq_def vsec_def shape_def fun_eq_iff)

lemma intr_round:
  assumes "vinv m" "used_idx m \<noteq> used_idx_dev m"
  obtains i b where "usedq m = i # usedq (intr_done b m)" "intr_body m = (if info_status (info m ! i) = 0 then Inr (intr_done b m) else Inl (Panic ''virtio_disk_intr status''))"
    "info_status (info m ! i) = 0 \<longrightarrow> vinv (intr_done b m)"
proof -
  note I = vinvD [OF assms(1)]
  define i where "i = unat (used_ring m ! (unat (used_idx m) mod NUM))"
  have "ring_list NUM (used_ring m) (used_idx m) (used_idx_dev m) =
      used_ring m ! slot NUM (used_idx m) # ring_list NUM (used_ring m) (used_idx m + 1) (used_idx_dev m)"
    by (rule vring.ring_pop [OF assms(2)])
  then have uq: "usedq m = i # usedq (intr_done b m)" for b
    by (simp add: usedq_def intr_done_def wake_buf_def i_def slot_def)
  have "i \<in> set (usedq m)" unfolding uq [of 0] by simp
  moreover from this have "i \<in> set (heads m)" using I(3) by (auto simp: queues_ok_def)
  ultimately obtain c where c: "c \<in> set (calls m)" "c_idx c ! 0 = i" "b_disk (vbufs m (c_b c))" "i \<in> set (usedq m)"
    using heads_facts(1) [OF I(2)] by blast
  define m' where "m' = intr_done (c_b c) m"
  note F = intr_done_facts [of "c_b c" m, folded m'_def]
  have i8: "i < NUM" using call_idx [OF I(2) c(1)] c(2) by (metis nth_Cons_0)
  have st: "info_status (info m ! i) = 0 \<Longrightarrow> done_ok m c" using I(7) [OF c(1)] c(2-4) by (simp add: call_data_def)
  have fmt: "info_b (info m ! i) = Some (c_b c)" using I(6) [OF c(1)] c(2) by (simp add: call_fmt_def Let_def)
  have dn: "undone m' d = undone m d" "done_ok m' d = done_ok m d" "call_fmt m' d = call_fmt m d" for d
    by (simp_all add: undone_def done_ok_def call_fmt_def F)
  have iu: "i \<notin> set (usedq m')" "set (usedq m) = insert i (set (usedq m'))" using uq [of "c_b c", folded m'_def] I(3) by (auto simp: queues_ok_def)
  have data: "call_data m' d" if ok: "info_status (info m ! i) = 0" and d: "d \<in> set (calls m)" for d
  proof (cases "d = c")
    case True
    then show ?thesis using st [OF ok] by (simp add: call_data_def F dn)
  next
    case False
    then have "c_b d \<noteq> c_b c" "c_idx d ! 0 \<noteq> i" using buf_owner [OF I(4) d c(1)] head_inj [OF I(2) d c(1)] c(2) by metis+
    then show ?thesis using I(7) [OF d] iu(2) by (simp add: call_data_def F dn)
  qed
  have hd: "set (heads m') = set (heads m) - {i}"
  proof -
    have "c_idx d ! 0 = i \<longleftrightarrow> c_b d = c_b c" if "d \<in> set (calls m)" for d
      using buf_owner [OF I(4) that c(1)] head_inj [OF I(2) that c(1)] c(2) by metis
    then show ?thesis by (auto simp: heads_def F split: if_splits)
  qed
  have "vinv m'" if ok: "info_status (info m ! i) = 0"
    unfolding vinv_def
  proof (intro conjI)
    show "queues_ok m'" using I(3) hd iu uq [of "c_b c", folded m'_def] by (auto simp: queues_ok_def F)
    show "users_ok m'" by (rule users_ok_step [OF I(4)]) (use F in simp_all)
    show "no_lost_wakeup m'" using I(5) by (auto simp: no_lost_wakeup_def F)
    show "\<forall>c \<in> set (calls m'). call_fmt m' c \<and> call_data m' c" using data [OF ok] I(6) by (auto simp: F dn)
  qed (use I(1,2) F in simp_all)
  moreover have "intr_body m = (if info_status (info m ! i) = 0 then Inr m' else Inl (Panic ''virtio_disk_intr status''))"
    using i8 fmt by (simp add: intr_body_def i_def [symmetric] m'_def intr_done_def wake_buf_def Let_def)
  ultimately show thesis using that [of i "c_b c"] uq unfolding m'_def by blast
qed

text \<open>Has every request in the used ring succeeded?\<close>

definition all_succeeded :: "vdisk \<Rightarrow> bool" where
  "all_succeeded m \<longleftrightarrow> (\<forall>h \<in> set (usedq m). info_status (info m ! h) = 0)"

definition intr_result :: "vdisk \<Rightarrow> vdisk res \<Rightarrow> bool" where
  "intr_result m r \<longleftrightarrow>
     (if all_succeeded m
      then \<exists>m'. r = Inr m' \<and> vinv m' \<and> usedq m' = [] \<and> availq m' = availq m \<and> dev_work m' = dev_work m \<and> map awake (calls m') = map awake (calls m)
      else r = Inl (Panic ''virtio_disk_intr status''))"

lemma intr_loop_vinv: "vinv m \<Longrightarrow> length (usedq m) < n \<Longrightarrow> intr_result m (intr_loop n m)"
proof (induction n arbitrary: m)
  case (Suc n)
  show ?case
  proof (cases "used_idx m = used_idx_dev m")
    case True
    then show ?thesis using Suc.prems(1) by (auto simp: usedq_def intr_result_def all_succeeded_def)
  next
    case False
    obtain i b where r: "usedq m = i # usedq (intr_done b m)"
      "intr_body m = (if info_status (info m ! i) = 0 then Inr (intr_done b m) else Inl (Panic ''virtio_disk_intr status''))"
      "info_status (info m ! i) = 0 \<longrightarrow> vinv (intr_done b m)"
      by (rule intr_round [OF Suc.prems(1) False])
    note F = intr_done_facts [of b m]
    show ?thesis
    proof (cases "info_status (info m ! i) = 0")
      case True
      then have "intr_result (intr_done b m) (intr_loop n (intr_done b m))" using Suc.IH [of "intr_done b m"] Suc.prems(2) r(1,3) by simp
      moreover have "all_succeeded m = all_succeeded (intr_done b m)" unfolding all_succeeded_def r(1) F(6) using True by simp
      moreover have "map awake (calls (intr_done b m)) = map awake (calls m)" by (rule F(16))
      ultimately show ?thesis using False True r(2) unfolding intr_result_def F(8,9)
        by (cases "all_succeeded (intr_done b m)") simp_all
    next
      case no: False
      then have "\<not> all_succeeded m" unfolding all_succeeded_def r(1) by simp
      then show ?thesis using False no r(2) by (simp add: intr_result_def)
    qed
  qed
qed simp

lemma intr_vinv: "vinv m \<Longrightarrow> intr_result m (virtio_disk_intr m)"
proof -
  assume a: "vinv m"
  then have "length (usedq m) < NUM + 1" using queues_short [OF vinvD(2,3) [OF a]] by simp
  then show ?thesis unfolding virtio_disk_intr_def by (rule intr_loop_vinv [OF a])
qed

text \<open>When the device has nothing left to do, an interrupt wakes every call up.\<close>

lemma intr_all_done:
  assumes "vinv m" "availq m = []" "dev_work m = []" "all_succeeded m"
  shows "\<exists>m'. virtio_disk_intr m = Inr m' \<and> vinv m' \<and> calls m' = map awake (calls m) \<and> (\<forall>c \<in> set (calls m'). \<not> b_disk (vbufs m' (c_b c)))"
proof -
  obtain m' where m': "virtio_disk_intr m = Inr m'" "vinv m'" "usedq m' = []" "availq m' = availq m" "dev_work m' = dev_work m"
    "map awake (calls m') = map awake (calls m)" using intr_vinv [OF assms(1)] assms(4) by (auto simp: intr_result_def)
  have "set (heads m') = {}" using vinvD(3) [OF m'(2)] m'(3-5) assms(2,3) by (simp add: queues_ok_def)
  then have nb: "\<not> b_disk (vbufs m' (c_b c))" if "c \<in> set (calls m')" for c using heads_facts(1) [OF vinvD(2) [OF m'(2)]] that by (metis empty_iff)
  then have "\<not> c_asleep c" if "c \<in> set (calls m')" for c using vinvD(5) [OF m'(2)] that by (auto simp: no_lost_wakeup_def)
  then have "map awake (calls m') = calls m'" by (intro map_idI) simp
  then show ?thesis using m'(1,2,6) nb by auto
qed

section \<open>Calls\<close>

lemma count_free_update:
  "i < length bs \<Longrightarrow> bs ! i \<Longrightarrow> length (filter id bs) = Suc (length (filter id (bs[i := False])))"
  by (induction bs arbitrary: i) (auto split: nat.splits simp: nth_Cons')

lemma alloc_desc_cases:
  assumes "length (vfree m) = NUM"
  obtains "alloc_desc m = (None, m)" "length (filter id (vfree m)) = 0"
  | i where "alloc_desc m = (Some i, m\<lparr>vfree := (vfree m)[i := False]\<rparr>)" "i < NUM" "vfree m ! i"
      "length (filter id (vfree m)) = Suc (length (filter id ((vfree m)[i := False])))"
proof (cases "find (\<lambda>i. vfree m ! i) [0..<NUM]")
  case None
  then have "\<forall>x \<in> set (vfree m). \<not> x" using assms by (auto simp: find_None_iff in_set_conv_nth)
  then show thesis using None by (intro that(1)) (auto simp: alloc_desc_def)
next
  case (Some i)
  then have "i < NUM" "vfree m ! i" by (auto simp: find_Some_iff)
  then show thesis using Some assms by (intro that(2) [of i]) (simp_all add: alloc_desc_def count_free_update)
qed

lemma free_desc_ok:
  "i < NUM \<Longrightarrow> \<not> vfree m ! i \<Longrightarrow> free_desc i m = Inr (wake_free (m\<lparr>desc := (desc m)[i := zero_desc], vfree := (vfree m)[i := True]\<rparr>))"
  by (simp add: free_desc_def)

lemma wake_free_twice [simp]: "wake_free (wake_free m) = wake_free m"
  by (simp add: wake_free_def)

lemma wake_free_upd [simp]:
  "vfree (wake_free m) = vfree m" "desc (wake_free m) = desc m"
  "(wake_free m)\<lparr>desc := d, vfree := f\<rparr> = wake_free (m\<lparr>desc := d, vfree := f\<rparr>)"
  by (simp_all add: wake_free_def)

text \<open>
  \<open>alloc3_desc\<close> takes three free descriptors, or finds fewer than three and changes no more than the contents of
  free descriptors and the sleepers it wakes.
\<close>

lemma alloc3_cases:
  assumes "length (vfree m) = NUM" "length (desc m) = NUM"
  obtains i0 i1 i2 where "alloc3_desc m = Inr (Some [i0, i1, i2], m\<lparr>vfree := (vfree m)[i0 := False, i1 := False, i2 := False]\<rparr>)"
      "distinct [i0, i1, i2]" "i0 < NUM" "i1 < NUM" "i2 < NUM" "vfree m ! i0" "vfree m ! i1" "vfree m ! i2"
  | d ws where "alloc3_desc m = Inr (None, m\<lparr>desc := d, waits := ws\<rparr>)" "length d = NUM" "\<And>i. i < NUM \<Longrightarrow> \<not> vfree m ! i \<Longrightarrow> d ! i = desc m ! i"
      "ws = waits m \<or> ws = waits (wake_free m)" "length (filter id (vfree m)) < 3"
proof (cases rule: alloc_desc_cases [OF assms(1)])
  case 1
  then show thesis by (intro that(2) [where d = "desc m" and ws = "waits m"]) (simp_all add: alloc3_desc_def eval_nat_numeral assms(2))
next
  case i0: (2 i0)
  define m1 where "m1 = m\<lparr>vfree := (vfree m)[i0 := False]\<rparr>"
  have m1: "length (vfree m1) = NUM" "vfree m1 = (vfree m)[i0 := False]" "desc m1 = desc m" using assms(1) by (simp_all add: m1_def)
  note i0' = i0(1) [folded m1_def]
  have id: "(vfree m)[i0 := True] = vfree m" using i0(3) by (metis (full_types) list_update_id)
  show thesis
  proof (cases rule: alloc_desc_cases [OF m1(1)])
    case 1
    have "alloc3_desc m = Inr (None, wake_free (m\<lparr>desc := (desc m)[i0 := zero_desc]\<rparr>))"
      using i0' i0(2) 1(1) m1 assms(1) id by (simp add: alloc3_desc_def eval_nat_numeral free_desc_ok) (simp add: m1_def)
    then show thesis using 1(2) i0 m1(2) assms(2)
      by (intro that(2) [where d = "(desc m)[i0 := zero_desc]" and ws = "waits (wake_free m)"]) (auto simp: wake_free_def nth_list_update)
  next
    case i1: (2 i1)
    define m2 where "m2 = m1\<lparr>vfree := (vfree m1)[i1 := False]\<rparr>"
    have m2: "length (vfree m2) = NUM" "vfree m2 = (vfree m)[i0 := False, i1 := False]" "desc m2 = desc m" using m1 by (simp_all add: m2_def)
    note i1' = i1(1) [folded m2_def]
    have ne: "i1 \<noteq> i0" "vfree m ! i1" using i1(3) m1(2) i0(2) assms(1) by (auto simp: nth_list_update split: if_splits)
    show thesis
    proof (cases rule: alloc_desc_cases [OF m2(1)])
      case 1
      have id1: "(vfree m)[i1 := True] = vfree m" using ne(2) by (metis (full_types) list_update_id)
      have "(vfree m)[i0 := False, i1 := False, i0 := True, i1 := True] = vfree m"
        using ne(1) id id1 by (metis list_update_overwrite list_update_swap)
      then have "alloc3_desc m = Inr (None, wake_free (m\<lparr>desc := (desc m)[i0 := zero_desc, i1 := zero_desc]\<rparr>))"
        using i0' i1' i0(2) i1(2) 1(1) m2 assms(1) ne by (simp add: alloc3_desc_def eval_nat_numeral free_desc_ok) (simp add: m1_def m2_def)
      then show thesis using 1(2) i0 i1 m1(2) m2(2) ne assms(2)
        by (intro that(2) [where d = "(desc m)[i0 := zero_desc, i1 := zero_desc]" and ws = "waits (wake_free m)"]) (auto simp: wake_free_def nth_list_update)
    next
      case i2: (2 i2)
      have "i2 \<noteq> i0" "i2 \<noteq> i1" "vfree m ! i2" using i2(2,3) m2(2) i0(2) i1(2) assms(1) by (auto simp: nth_list_update split: if_splits)
      moreover have "alloc3_desc m = Inr (Some [i0, i1, i2], m\<lparr>vfree := (vfree m)[i0 := False, i1 := False, i2 := False]\<rparr>)"
        using i0' i1' i2(1) m2(2) by (simp add: alloc3_desc_def eval_nat_numeral) (simp add: m1_def m2_def)
      ultimately show thesis using that(1) [of i0 i1 i2] i0(2,3) i1(2) i2(2) ne by auto
    qed
  qed
qed

lemma owned_not_free: "descs_ok m \<Longrightarrow> c \<in> set (calls m) \<Longrightarrow> i \<in> set (c_idx c) \<Longrightarrow> i < NUM \<and> \<not> vfree m ! i"
  by (auto simp: descs_ok_def owned_def)

lemma call_fmt_cong:
  assumes "descs_ok m" "c \<in> set (calls m)" "\<And>i. i \<in> set (c_idx c) \<Longrightarrow> desc m' ! i = desc m ! i \<and> ops m' ! i = ops m ! i \<and> info_b (info m' ! i) = info_b (info m ! i)"
    "vsec m' (c_b c) = vsec m (c_b c)"
  shows "call_fmt m' c = call_fmt m c"
proof -
  obtain i0 i1 i2 where "c_idx c = [i0, i1, i2]" by (rule call_idx [OF assms(1,2)])
  then show ?thesis using assms(3,4) by (simp add: call_fmt_def)
qed

lemma call_data_cong:
  "b_disk (vbufs m' (c_b c)) = b_disk (vbufs m (c_b c)) \<Longrightarrow> b_data (vbufs m' (c_b c)) = b_data (vbufs m (c_b c)) \<Longrightarrow> vsec m' (c_b c) = vsec m (c_b c) \<Longrightarrow>
   block_at (vsec m (c_b c)) (sectors m') = block_at (vsec m (c_b c)) (sectors m) \<Longrightarrow> (c_idx c ! 0 \<in> set (usedq m')) = (c_idx c ! 0 \<in> set (usedq m)) \<Longrightarrow>
   info_status (info m' ! (c_idx c ! 0)) = info_status (info m ! (c_idx c ! 0)) \<Longrightarrow> call_data m' c = call_data m c"
  by (simp add: call_data_def done_ok_def undone_def)

lemma count_free_le: "length (filter id (bs[i := False])) \<le> length (filter id bs)"
  using count_free_update [of i bs] by (cases "i < length bs \<and> bs ! i") (auto simp: list_update_beyond not_less, metis (full_types) list_update_id order_refl)

lemma wait_vinv:
  assumes "vinv m" "length d = NUM" "\<And>i. i < NUM \<Longrightarrow> \<not> vfree m ! i \<Longrightarrow> d ! i = desc m ! i" "map w_b ws = map w_b (waits m)"
    "length (filter id (vfree m)) < 3" "w_b w \<notin> vbusy m" "\<forall>b' \<in> vbusy m. vsec m b' \<noteq> vsec m (w_b w)"
  shows "vinv (m\<lparr>desc := d, waits := ws @ [w]\<rparr>)"
proof -
  define m' where "m' = m\<lparr>desc := d, waits := ws @ [w]\<rparr>"
  note I = vinvD [OF assms(1)]
  have wb: "w_b ` set ws = w_b ` set (waits m)" using assms(4) by (metis set_map)
  have e: "calls m' = calls m" "vfree m' = vfree m" "vsec m' = vsec m" "vbufs m' = vbufs m" "vbusy m' = insert (w_b w) (vbusy m)"
    "heads m' = heads m" "availq m' = availq m" "usedq m' = usedq m" "dev_work m' = dev_work m" "call_data m' = call_data m"
    using wb by (auto simp: m'_def vsec_def vbusy_def heads_def availq_def usedq_def call_data_def done_ok_def undone_def fun_eq_iff)
  have "vinv m'"
    unfolding vinv_def
  proof (intro conjI)
    show "shape m'" using I(1) assms(2) by (simp add: shape_def m'_def)
    show "descs_ok m'" using I(2) descs_ok_cong [of m' m] e(1,2) by simp
    show "queues_ok m'" using I(3) e by (simp add: queues_ok_def)
    show "no_lost_wakeup m'" using I(5) assms(5) e by (simp add: no_lost_wakeup_def)
    show "users_ok m'" using I(4) assms(4,6,7) e wb by (auto simp: users_ok_def m'_def vbusy_def)
    have "call_fmt m' c = call_fmt m c" if "c \<in> set (calls m)" for c
      using owned_not_free [OF I(2) that] assms(3) e(3) by (intro call_fmt_cong [OF I(2) that]) (simp_all add: m'_def)
    then show "\<forall>c \<in> set (calls m'). call_fmt m' c \<and> call_data m' c" using I(6,7) e by simp
  qed
  then show ?thesis by (simp add: m'_def)
qed

lemma submit_vinv:
  fixes m b wr i0 i1 i2
  assumes "vinv m" "distinct [i0, i1, i2]" "i0 < NUM" "i1 < NUM" "i2 < NUM" "vfree m ! i0" "vfree m ! i1" "vfree m ! i2"
    "b \<notin> vbusy m" "\<forall>b' \<in> vbusy m. vsec m b' \<noteq> vsec m b"
  defines "n \<equiv> submit b wr [i0, i1, i2] (m\<lparr>vfree := (vfree m)[i0 := False, i1 := False, i2 := False]\<rparr>)"
  defines "new \<equiv> \<lparr>c_b = b, c_write = wr, c_idx = [i0, i1, i2], c_asleep = True, c_data = b_data (vbufs n b),
    c_block = block_at (sector_of (b_blockno (vbufs n b))) (sectors n)\<rparr>"
  shows "vinv (n\<lparr>calls := calls n @ [new]\<rparr>)"
proof -
  note I = vinvD [OF assms(1)]
  define m' where "m' = n\<lparr>calls := calls n @ [new]\<rparr>"
  note defs = m'_def n_def submit_def Let_def
  have L: "length (desc m) = NUM" "length (ops m) = NUM" "length (info m) = NUM" "length (vfree m) = NUM" using I(1) by (auto simp: shape_def)
  have e: "calls m' = calls m @ [new]" "waits m' = waits m" "sectors m' = sectors m" "dev_work m' = dev_work m" "usedq m' = usedq m"
    "vfree m' = (vfree m)[i0 := False, i1 := False, i2 := False]" "vbufs m' = (vbufs m)(b := (vbufs m b)\<lparr>b_disk := True\<rparr>)" "vsec m' = vsec m"
    by (simp_all add: defs usedq_def vsec_def fun_eq_iff)
  have at: "desc m' ! i = desc m ! i" "ops m' ! i = ops m ! i" "info m' ! i = info m ! i" if "i \<notin> {i0, i1, i2}" for i
    using that by (simp_all add: defs)
  have old: "i \<notin> {i0, i1, i2}" if "c \<in> set (calls m)" "i \<in> set (c_idx c)" for c i using owned_not_free [OF I(2) that] assms(6-8) by auto
  have ob: "c_b c \<noteq> b" if "c \<in> set (calls m)" for c using assms(9) that by (auto simp: vbusy_def)
  have hu: "i0 \<notin> set (heads m)" using heads_facts(1) [OF I(2)] old head_in_idx [OF I(2)] by blast
  have aq: "availq m' = availq m @ [i0]"
  proof -
    have "length (availq m) < NUM" using queues_short [OF I(2,3)] by simp
    then have "ring_list NUM ((avail_ring m)[slot NUM (avail_idx m) := of_nat i0]) (dev_pos m) (avail_idx m + 1) =
        ring_list NUM (avail_ring m) (dev_pos m) (avail_idx m) @ [of_nat i0]"
      using I(1) by (intro vring.ring_push) (simp_all add: shape_def availq_def)
    then show ?thesis using assms(3) by (simp add: availq_def defs slot_def)
  qed
  have hd: "heads m' = heads m @ [i0]" using ob by (auto simp: heads_def e new_def intro!: arg_cong [of _ _ "map _"] filter_cong)
  have few: "length (filter id (vfree m')) \<le> length (filter id (vfree m))" unfolding e using count_free_le le_trans by blast
  have newf: "call_fmt m' new" using assms(2-5) L by (auto simp: call_fmt_def new_def defs vsec_def)
  have newd: "call_data m' new" using hu I(3) e by (auto simp: call_data_def undone_def new_def queues_ok_def n_def submit_def Let_def vsec_def)
  have oldc: "call_fmt m' c \<and> call_data m' c" if c: "c \<in> set (calls m)" for c
  proof
    have "call_fmt m' c = call_fmt m c" using old [OF c] at e(8) by (intro call_fmt_cong [OF I(2) c]) simp_all
    then show "call_fmt m' c" using I(6) [OF c] by simp
    have "call_data m' c = call_data m c" using ob [OF c] at(3) [OF old [OF c head_in_idx [OF I(2) c]]] e by (intro call_data_cong) simp_all
    then show "call_data m' c" using I(7) [OF c] by simp
  qed
  have "vinv m'"
    unfolding vinv_def
  proof (intro conjI)
    show "shape m'" using I(1) by (auto simp: shape_def defs)
    show "descs_ok m'" using I(2) assms(2-8) L(4) by (auto simp: descs_ok_def owned_def e new_def nth_list_update)
    show "queues_ok m'" using I(3) hu aq hd e by (auto simp: queues_ok_def)
    show "users_ok m'" using I(4) assms(9,10) e by (auto simp: users_ok_def vbusy_def new_def)
    show "no_lost_wakeup m'" using I(5) le_less_trans [OF few] e by (auto simp: no_lost_wakeup_def new_def)
    show "\<forall>c \<in> set (calls m'). call_fmt m' c \<and> call_data m' c" using oldc newf newd e(1) by simp
  qed
  then show ?thesis by (simp add: m'_def)
qed

lemma start_rw_vinv:
  assumes "vinv m" "b \<notin> vbusy m" "\<forall>b' \<in> vbusy m. vsec m b' \<noteq> vsec m b"
  shows "\<exists>m'. start_rw b wr m = Inr m' \<and> vinv m'"
proof -
  have L: "length (vfree m) = NUM" "length (desc m) = NUM" using vinvD(1) [OF assms(1)] by (auto simp: shape_def)
  show ?thesis
  proof (cases rule: alloc3_cases [OF L])
    case (1 i0 i1 i2)
    then show ?thesis using submit_vinv [OF assms(1) 1(2-8) assms(2,3)] by (simp add: start_rw_def Let_def)
  next
    case (2 d ws)
    have "map w_b ws = map w_b (waits m)" using 2(4) by (auto simp: wake_free_def)
    then have "vinv (m\<lparr>desc := d, waits := ws @ [\<lparr>w_b = b, w_write = wr, w_asleep = True\<rparr>]\<rparr>)"
      using 2(2,3,5) assms by (intro wait_vinv) simp_all
    then show ?thesis using 2(1) by (simp add: start_rw_def)
  qed
qed

lemma without_nth:
  assumes "k < length xs"
  shows "set xs = insert (xs ! k) (set (take k xs @ drop (Suc k) xs))"
    "distinct (map f xs) \<Longrightarrow> distinct (map f (take k xs @ drop (Suc k) xs)) \<and> f (xs ! k) \<notin> f ` set (take k xs @ drop (Suc k) xs)"
proof -
  obtain as x bs where "xs = as @ x # bs" "take k xs = as" "drop (Suc k) xs = bs" "xs ! k = x" using id_take_nth_drop [OF assms] by blast
  then show "set xs = insert (xs ! k) (set (take k xs @ drop (Suc k) xs))"
    "distinct (map f xs) \<Longrightarrow> distinct (map f (take k xs @ drop (Suc k) xs)) \<and> f (xs ! k) \<notin> f ` set (take k xs @ drop (Suc k) xs)"
    by auto
qed

lemma retry_vinv:
  assumes "vinv m" "k < length (waits m)"
  shows "\<exists>m'. start_rw (w_b (waits m ! k)) wr (m\<lparr>waits := take k (waits m) @ drop (Suc k) (waits m)\<rparr>) = Inr m' \<and> vinv m'"
proof (rule start_rw_vinv)
  let ?m = "m\<lparr>waits := take k (waits m) @ drop (Suc k) (waits m)\<rparr>" and ?w = "waits m ! k"
  note I = vinvD [OF assms(1)]
  have sub: "set (waits m) = insert ?w (set (waits ?m))" using without_nth(1) [OF assms(2)] by simp
  have e: "vsec ?m = vsec m" "vbusy ?m \<subseteq> vbusy m" using sub by (auto simp: vsec_def vbusy_def)
  have dist: "distinct (map w_b (waits ?m)) \<and> w_b ?w \<notin> w_b ` set (waits ?m)" "w_b ?w \<notin> c_b ` set (calls m)"
    using I(4) without_nth(2) [OF assms(2), of w_b] nth_mem [OF assms(2)] by (auto simp: users_ok_def)
  have "users_ok ?m" using I(4) dist e inj_on_subset [OF _ e(2)] sub unfolding users_ok_def by auto
  moreover have "call_fmt ?m = call_fmt m" "call_data ?m = call_data m" "descs_ok ?m = descs_ok m" "shape ?m = shape m" "queues_ok ?m = queues_ok m"
    by (simp_all add: fun_eq_iff call_fmt_def call_data_def undone_def done_ok_def vsec_def descs_ok_def owned_def shape_def queues_ok_def availq_def usedq_def heads_def)
  moreover have "no_lost_wakeup ?m" using I(5) sub by (auto simp: no_lost_wakeup_def)
  ultimately show "vinv ?m" using I by (simp add: vinv_def)
  show "w_b ?w \<notin> vbusy ?m" using dist by (simp add: vbusy_def)
  moreover have "w_b ?w \<in> vbusy m" "inj_on (vsec m) (vbusy m)" using sub I(4) by (auto simp: vbusy_def users_ok_def)
  ultimately show "\<forall>b' \<in> vbusy ?m. vsec ?m b' \<noteq> vsec ?m (w_b ?w)" unfolding e(1) using e(2) by (metis inj_onD subsetD)
qed

lemma free_chain_ok:
  assumes "dsc_flags (desc m ! i0) AND VRING_DESC_F_NEXT \<noteq> 0" "unat (dsc_next (desc m ! i0)) = i1"
    "dsc_flags (desc m ! i1) AND VRING_DESC_F_NEXT \<noteq> 0" "unat (dsc_next (desc m ! i1)) = i2" "dsc_flags (desc m ! i2) AND VRING_DESC_F_NEXT = 0"
    "i0 < NUM" "i1 < NUM" "i2 < NUM" "i0 \<noteq> i1" "i0 \<noteq> i2" "i1 \<noteq> i2" "\<not> vfree m ! i0" "\<not> vfree m ! i1" "\<not> vfree m ! i2"
  shows "free_chain i0 m = Inr (wake_free (m\<lparr>desc := (desc m)[i0 := zero_desc, i1 := zero_desc, i2 := zero_desc],
    vfree := (vfree m)[i0 := True, i1 := True, i2 := True]\<rparr>))"
proof -
  have "free_chain_loop (Suc (Suc (Suc n))) i0 m = Inr (wake_free (m\<lparr>desc := (desc m)[i0 := zero_desc, i1 := zero_desc, i2 := zero_desc],
    vfree := (vfree m)[i0 := True, i1 := True, i2 := True]\<rparr>))" for n using assms by (simp add: free_desc_ok)
  from this [of 6] show ?thesis by (simp add: free_chain_def)
qed

lemma finish_vinv:
  assumes "vinv m" "k < length (calls m)" "\<not> b_disk (vbufs m (c_b (calls m ! k)))"
  shows "\<exists>m'. resume_rw k m = Inr m' \<and> vinv m' \<and> calls m' = take k (calls m) @ drop (Suc k) (calls m) \<and> vbufs m' = vbufs m \<and>
    sectors m' = sectors m \<and> (\<forall>i \<in> set (c_idx (calls m ! k)). vfree m' ! i)"
proof -
  note I = vinvD [OF assms(1)]
  define c where "c = calls m ! k"
  define cs where "cs = take k (calls m) @ drop (Suc k) (calls m)"
  have sub: "set (calls m) = insert c (set cs)" and cc: "c \<in> set (calls m)"
    using without_nth(1) [OF assms(2)] assms(2) by (simp_all add: c_def cs_def)
  have dist: "distinct (map c_b cs)" "c_b c \<notin> c_b ` set cs" using I(4) without_nth(2) [OF assms(2), of c_b] by (auto simp: users_ok_def c_def cs_def)
  obtain i0 i1 i2 where i: "c_idx c = [i0, i1, i2]" "i0 < NUM" "i1 < NUM" "i2 < NUM" "i0 \<noteq> i1" "i0 \<noteq> i2" "i1 \<noteq> i2"
    "\<not> vfree m ! i0" "\<not> vfree m ! i1" "\<not> vfree m ! i2" by (rule call_idx [OF I(2) cc])
  define n where "n = m\<lparr>calls := cs, info := (info m)[i0 := (info m ! i0)\<lparr>info_b := None\<rparr>]\<rparr>"
  define m' where "m' = wake_free (n\<lparr>desc := (desc n)[i0 := zero_desc, i1 := zero_desc, i2 := zero_desc], vfree := (vfree n)[i0 := True, i1 := True, i2 := True]\<rparr>)"
  have "resume_rw k m = free_chain i0 n" using assms(3) i(1) by (simp add: resume_rw_def c_def [symmetric] cs_def n_def)
  also have "... = Inr m'"
    unfolding m'_def using I(6) [OF cc, unfolded call_fmt_def Let_def] i by (intro free_chain_ok) (simp_all add: n_def)
  finally have run: "resume_rw k m = Inr m'" .
  have e: "calls m' = cs" "vbufs m' = vbufs m" "vsec m' = vsec m" "sectors m' = sectors m" "availq m' = availq m" "usedq m' = usedq m" "dev_work m' = dev_work m"
    "waits m' = map (\<lambda>w. w\<lparr>w_asleep := False\<rparr>) (waits m)" "vfree m' = (vfree m)[i0 := True, i1 := True, i2 := True]" "ops m' = ops m"
    by (simp_all add: m'_def n_def wake_free_def vsec_def availq_def usedq_def fun_eq_iff)
  have at: "desc m' ! i = desc m ! i" "info m' ! i = info m ! i" if "i \<notin> {i0, i1, i2}" for i
    using that by (simp_all add: m'_def n_def wake_free_def)
  have other: "call_fmt m' d \<and> call_data m' d" if d: "d \<in> set cs" for d
  proof -
    have dm: "d \<in> set (calls m)" "d \<noteq> c" using d sub dist(2) by auto
    have ni: "i \<notin> {i0, i1, i2}" if "i \<in> set (c_idx d)" for i using desc_owner [OF I(2) dm(1) cc that] dm(2) i(1) by auto
    have "call_fmt m' d = call_fmt m d" using ni at e by (intro call_fmt_cong [OF I(2) dm(1)]) simp_all
    moreover have "call_data m' d = call_data m d" using at(2) [OF ni [OF head_in_idx [OF I(2) dm(1)]]] e by (intro call_data_cong) simp_all
    ultimately show ?thesis using I(6,7) [OF dm(1)] by simp
  qed
  have split: "calls m = take k (calls m) @ c # drop (Suc k) (calls m)" using assms(2) by (simp add: c_def id_take_nth_drop)
  have "vinv m'"
    unfolding vinv_def
  proof (intro conjI)
    show "shape m'" using I(1) by (auto simp: shape_def m'_def n_def wake_free_def)
    define A B where "A = concat (map c_idx (take k (calls m)))" and "B = concat (map c_idx (drop (Suc k) (calls m)))"
    have own: "owned m = A @ [i0, i1, i2] @ B" "owned m' = A @ B"
      using arg_cong [OF split, of "\<lambda>cs. concat (map c_idx cs)"] i(1) by (simp_all add: owned_def A_def B_def e(1) cs_def)
    have "vfree m' ! j \<longleftrightarrow> vfree m ! j \<or> j \<in> {i0, i1, i2}" if "j < NUM" for j
      using I(1) i(2-4) that by (auto simp: e(9) shape_def nth_list_update)
    then show "descs_ok m'" using I(2) sub own unfolding descs_ok_def e(1) by auto
    have "heads m' = heads m" using arg_cong [OF split, of "filter (\<lambda>c. b_disk (vbufs m (c_b c)))"] assms(3)
      by (simp add: heads_def e cs_def c_def [symmetric])
    then show "queues_ok m'" using I(3) e by (simp add: queues_ok_def)
    have "vbusy m' \<subseteq> vbusy m" using sub by (auto simp: vbusy_def e)
    then show "users_ok m'" using I(4) dist sub assms(3) inj_on_subset unfolding users_ok_def e c_def by (auto simp: o_def)
    show "no_lost_wakeup m'" using I(5) sub e by (auto simp: no_lost_wakeup_def)
    show "\<forall>d \<in> set (calls m'). call_fmt m' d \<and> call_data m' d" using other e(1) by simp
  qed
  moreover have "\<forall>i \<in> set (c_idx c). vfree m' ! i" using I(1) i by (auto simp: e(9) shape_def nth_list_update)
  ultimately show ?thesis using run e by (auto simp: cs_def c_def)
qed

lemma resume_vinv:
  assumes "vinv m" "k < length (calls m)"
  shows "\<exists>m'. resume_rw k m = Inr m' \<and> vinv m'"
proof (cases "b_disk (vbufs m (c_b (calls m ! k)))")
  case True
  let ?c = "calls m ! k"
  let ?m = "m\<lparr>calls := (calls m)[k := ?c\<lparr>c_asleep := True\<rparr>]\<rparr>"
  note I = vinvD [OF assms(1)]
  have up: "map f ((calls m)[k := ?c\<lparr>c_asleep := True\<rparr>]) = map f (calls m)" if "f (?c\<lparr>c_asleep := True\<rparr>) = f ?c" for f :: "vcall \<Rightarrow> 'x"
    using assms(2) that by (metis list_update_id map_update nth_map)
  have mem: "set (calls ?m) \<subseteq> insert (?c\<lparr>c_asleep := True\<rparr>) (set (calls m))" "?c \<in> set (calls m)"
    using set_update_subset_insert assms(2) by simp_all
  have same: "call_fmt ?m = call_fmt m" "call_data ?m = call_data m" "shape ?m = shape m" "availq ?m = availq m" "usedq ?m = usedq m"
    by (simp_all add: fun_eq_iff call_fmt_def call_data_def undone_def done_ok_def vsec_def shape_def availq_def usedq_def)
  have "descs_ok ?m = descs_ok m" by (rule descs_ok_cong) (simp_all add: up)
  moreover have "users_ok ?m" by (rule users_ok_step [OF I(4)]) (simp_all add: up vsec_def fun_eq_iff)
  moreover have "heads ?m = heads m" by (rule heads_cong) (simp_all add: up)
  moreover from this have "queues_ok ?m = queues_ok m" using same(4,5) by (simp add: queues_ok_def)
  moreover have "no_lost_wakeup ?m" using I(5) mem True by (auto simp: no_lost_wakeup_def)
  moreover have "\<forall>c \<in> set (calls ?m). call_fmt ?m c \<and> call_data ?m c" using I(6,7) mem same by auto
  ultimately have "vinv ?m" using I same(3) by (simp add: vinv_def)
  then show ?thesis using True by (simp add: resume_rw_def Let_def)
next
  case False
  then show ?thesis using finish_vinv [OF assms] by blast
qed

lemma owner_vinv:
  assumes "vinv m" "b \<notin> vbusy m" "length d = BSIZE"
  shows "vinv (m\<lparr>vbufs := (vbufs m)(b := (vbufs m b)\<lparr>b_data := d, b_blockno := n\<rparr>)\<rparr>)"
proof -
  define m' where "m' = m\<lparr>vbufs := (vbufs m)(b := (vbufs m b)\<lparr>b_data := d, b_blockno := n\<rparr>)\<rparr>"
  note I = vinvD [OF assms(1)]
  have ob: "c_b c \<noteq> b" if "c \<in> set (calls m)" for c using assms(2) that by (auto simp: vbusy_def)
  have vs: "vsec m' b' = vsec m b'" if "b' \<noteq> b" for b' using that by (simp add: m'_def vsec_def)
  have e: "calls m' = calls m" "waits m' = waits m" "desc m' = desc m" "ops m' = ops m" "info m' = info m" "sectors m' = sectors m" "usedq m' = usedq m"
    "availq m' = availq m" "dev_work m' = dev_work m" "vfree m' = vfree m" "\<And>b. b_disk (vbufs m' b) = b_disk (vbufs m b)" "vbusy m' = vbusy m"
    by (simp_all add: m'_def usedq_def availq_def vbusy_def)
  have "call_fmt m' c \<and> call_data m' c" if c: "c \<in> set (calls m)" for c
  proof -
    have "call_fmt m' c = call_fmt m c" using vs [OF ob [OF c]] e by (intro call_fmt_cong [OF I(2) c]) simp_all
    moreover have "call_data m' c = call_data m c" using vs ob [OF c] e by (intro call_data_cong) (simp_all add: m'_def)
    ultimately show ?thesis using I(6,7) [OF c] by simp
  qed
  moreover have "inj_on (vsec m') (vbusy m) = inj_on (vsec m) (vbusy m)" using vs assms(2) by (intro inj_on_cong) metis
  moreover have "shape m'" using I(1) assms(3) by (simp add: shape_def m'_def)
  moreover have "descs_ok m' = descs_ok m" using descs_ok_cong [of m' m] e by simp
  ultimately have "vinv m'" using I e by (simp add: vinv_def users_ok_def queues_ok_def heads_def no_lost_wakeup_def)
  then show ?thesis by (simp add: m'_def)
qed

section \<open>Runs\<close>

lemma chains_ok: "vinv m \<Longrightarrow> \<forall>h \<in> set (availq m @ dev_work m). chain_ok m h"
proof
  fix h
  assume a: "vinv m" "h \<in> set (availq m @ dev_work m)"
  then have "h \<in> set (heads m)" using vinvD(3) [OF a(1)] by (auto simp: queues_ok_def)
  then show "chain_ok m h" using heads_facts(1) [OF vinvD(2) [OF a(1)]] complete_eq(4) [OF a(1)] by blast
qed

lemma vstep_vinv:
  assumes "virtio_dev dev" "vinv m" "vstep dev m m'"
  shows "vinv m'"
  using assms(3)
proof cases
  case vdevice
  then show ?thesis using assms(1) chains_ok [OF assms(2)] fetch_vinv complete_vinv assms(2) unfolding virtio_dev_def by blast
next
  case (vcall b w)
  then show ?thesis using start_rw_vinv [OF assms(2) vcall(1,2)] by (metis sum.inject(2))
next
  case (vretry k)
  then show ?thesis using retry_vinv [OF assms(2) vretry(1)] by (metis sum.inject(2))
next
  case (vresume k)
  then show ?thesis using resume_vinv [OF assms(2) vresume(1)] by (metis sum.inject(2))
next
  case vintr
  then show ?thesis using intr_vinv [OF assms(2)] by (auto simp: intr_result_def split: if_splits)
next
  case vintr_round
  obtain i b where "intr_body m = (if info_status (info m ! i) = 0 then Inr (intr_done b m) else Inl (Panic ''virtio_disk_intr status''))"
    "info_status (info m ! i) = 0 \<longrightarrow> vinv (intr_done b m)" by (rule intr_round [OF assms(2) vintr_round(1)])
  then show ?thesis using vintr_round(2) by (auto split: if_splits)
next
  case (vowner b d n)
  then show ?thesis using owner_vinv [OF assms(2) vowner(2,3)] by simp
qed

lemma vreach_vinv: "vreach dev m m' \<Longrightarrow> virtio_dev dev \<Longrightarrow> vinv m \<Longrightarrow> vinv m'"
  by (induction rule: vreach.induct) (blast intro: vstep_vinv)+

text \<open>A state that \<open>virtio_disk_init\<close> leaves, with buffers of 1024 bytes that no request is out for.\<close>

definition vbooted :: "vdisk \<Rightarrow> bool" where
  "vbooted m \<longleftrightarrow> (\<exists>rd pd pa pu q bf ss ws q'. virtio_disk_init rd pd pa pu q (zero_vdisk bf ss) = Inr (ws, q', m) \<and>
     (\<forall>b. length (b_data (bf b)) = BSIZE \<and> \<not> b_disk (bf b)) \<and> (\<forall>sec. length (ss sec) = 512))"

lemma vbooted_vinv: "vbooted m \<Longrightarrow> vinv m"
  by (auto simp: vbooted_def virtio_disk_init_def Let_def panic_if_def zero_vdisk_def vinv_def shape_def descs_ok_def owned_def queues_ok_def
    availq_def usedq_def heads_def users_ok_def vbusy_def no_lost_wakeup_def split: if_splits)

section \<open>An example run\<close>

text \<open>A device that serves one request after the other, and a run with one write of block 3 up to the interrupt.\<close>

definition simple_dev :: "vdisk \<Rightarrow> vdisk \<Rightarrow> bool" where
  "simple_dev m m' \<longleftrightarrow> (case dev_work m of [] \<Rightarrow> dev_pos m \<noteq> avail_idx m \<and> m' = dev_fetch m | h # _ \<Rightarrow> m' = dev_complete 0 (replicate BSIZE 0) h m)"

lemma simple_dev_ok: "virtio_dev simple_dev"
proof (unfold virtio_dev_def, intro allI impI)
  fix m m'
  assume "simple_dev m m'"
  then show "dev_pos m \<noteq> avail_idx m \<and> m' = dev_fetch m \<or>
      (\<exists>h \<in> set (dev_work m). \<exists>st d. length d = BSIZE \<and> m' = dev_complete st d h m)"
  proof (cases "dev_work m")
    case (Cons h hs)
    then have "m' = dev_complete 0 (replicate BSIZE 0) h m" "h \<in> set (dev_work m)" using \<open>simple_dev m m'\<close> by (simp_all add: simple_dev_def)
    then show ?thesis by (intro disjI2 bexI [of _ h] exI [of _ "0 :: byte"] exI [of _ "replicate BSIZE 0"]) simp_all
  qed (simp add: simple_dev_def)
qed

definition demo_regs :: "(u64 \<times> u32) list \<Rightarrow> u64 \<Rightarrow> u32" where
  "demo_regs ws r = (if r = 0 then 0x74726976 else if r = 4 \<or> r = 8 then 2 else if r = 0xc then 0x554d4551
     else if r = 0x70 then 11 else if r = 0x34 then 1024 else 0)"

definition demo_boot :: vdisk where
  "demo_boot = (zero_vdisk (\<lambda>b. zero_buf\<lparr>b_data := replicate BSIZE 7, b_blockno := of_nat b\<rparr>) (\<lambda>_. replicate 512 0))\<lparr>vfree := replicate NUM True\<rparr>"

lemma demo_booted: "vbooted demo_boot"
proof -
  have "\<exists>ws. virtio_disk_init demo_regs 0x80001000 0x80002000 0x80003000 []
      (zero_vdisk (\<lambda>b. zero_buf\<lparr>b_data := replicate BSIZE 7, b_blockno := of_nat b\<rparr>) (\<lambda>_. replicate 512 0)) = Inr (ws, [], demo_boot)"
    by (simp add: virtio_disk_init_def demo_regs_def demo_boot_def Let_def)
  then show ?thesis unfolding vbooted_def by (fastforce simp: zero_buf_def)
qed

lemma demo_served:
  obtains m where "vreach simple_dev demo_boot m" "vinv m" "availq m = []" "dev_work m = []" "all_succeeded m" "calls m = [\<lparr>c_b = 3, c_write = True, c_idx = [0, 1, 2],
    c_asleep = True, c_data = replicate BSIZE 7, c_block = replicate BSIZE 0\<rparr>]"
proof -
  define n where "n = demo_boot\<lparr>vfree := (vfree demo_boot)[0 := False, 1 := False, 2 := False]\<rparr>"
  have a: "alloc3_desc demo_boot = Inr (Some [0, 1, 2], n)"
    by (simp add: n_def alloc3_desc_def alloc_desc_def demo_boot_def zero_vdisk_def eval_nat_numeral)
  define c where "c = \<lparr>c_b = 3, c_write = True, c_idx = [0, 1, 2], c_asleep = True, c_data = replicate BSIZE (7 :: byte), c_block = replicate BSIZE 0\<rparr>"
  define m1 where "m1 = (submit 3 True [0, 1, 2] n)\<lparr>calls := [c]\<rparr>"
  have f: "calls (submit 3 True [0, 1, 2] n) = []" "b_data (vbufs (submit 3 True [0, 1, 2] n) 3) = replicate BSIZE 7" "sectors (submit 3 True [0, 1, 2] n) sec = replicate 512 0"
    "dev_work m1 = []" "dev_pos m1 = 0" "avail_idx m1 = 1" "avail_ring m1 ! 0 = 0" for sec
    by (simp_all add: m1_def n_def demo_boot_def zero_vdisk_def submit_def Let_def)
  have "start_rw 3 True demo_boot = Inr m1" unfolding start_rw_def a using f(1-3)
    by (simp add: m1_def c_def block_at_def Let_def flip: replicate_add)
  then have s1: "vstep simple_dev demo_boot m1" by (intro vcall [of 3]) (auto simp: vbusy_def demo_boot_def zero_vdisk_def)
  define m2 where "m2 = dev_fetch m1"
  have m2: "dev_work m2 = [0]" "dev_pos m2 = 1" "avail_idx m2 = 1" "calls m2 = [c]" using f(4-7) by (simp_all add: m2_def dev_fetch_def slot_def m1_def)
  have s2: "vstep simple_dev m1 m2" using f(4-6) by (intro vdevice) (simp add: simple_dev_def m2_def)
  define m3 where "m3 = dev_complete 0 (replicate BSIZE 0) 0 m2"
  have s3: "vstep simple_dev m2 m3" using m2(1) by (intro vdevice) (simp add: simple_dev_def m3_def)
  have r: "vreach simple_dev demo_boot m3" using s1 s2 s3 by (blast intro: vreach.intros)
  have I: "vinv m2" "vinv m3" using vreach_vinv [OF _ simple_dev_ok vbooted_vinv [OF demo_booted]] r s1 s2 by (blast intro: vreach.intros)+
  have e3: "m3 = (transfer 0 (c_b c) m2)\<lparr>info := (info m2)[0 := (info m2 ! 0)\<lparr>info_status := 0\<rparr>],
      used_ring := (used_ring m2)[slot NUM (used_idx_dev m2) := of_nat 0], used_idx_dev := used_idx_dev m2 + 1, dev_work := remove1 0 (dev_work m2)\<rparr>"
    using complete_eq(1) [OF I(1), of c 0 0 "replicate BSIZE 0"] by (simp add: m2(4) c_def m3_def)
  then have m3: "availq m3 = []" "dev_work m3 = []" "calls m3 = [c]" using m2 by (simp_all add: availq_def transfer_def Let_def)
  have "info_status (info m3 ! 0) = 0" unfolding e3 using vinvD(1) [OF I(1)] by (simp add: shape_def)
  moreover have "set (usedq m3) \<subseteq> {0}" using vinvD(3) [OF I(2)] m3(3) by (auto simp: queues_ok_def heads_def c_def split: if_splits)
  ultimately have "all_succeeded m3" by (auto simp: all_succeeded_def)
  then show thesis using that [OF r I(2)] m3 by (simp add: c_def)
qed

lemma demo_steps:
  obtains m where "vreach simple_dev demo_boot m" "calls m = [\<lparr>c_b = 3, c_write = True, c_idx = [0, 1, 2], c_asleep = False,
    c_data = replicate BSIZE 7, c_block = replicate BSIZE 0\<rparr>]" "\<not> b_disk (vbufs m 3)"
proof -
  obtain m3 where m3: "vreach simple_dev demo_boot m3" "vinv m3" "availq m3 = []" "dev_work m3 = []" "all_succeeded m3" "calls m3 = [\<lparr>c_b = 3, c_write = True, c_idx = [0, 1, 2],
    c_asleep = True, c_data = replicate BSIZE 7, c_block = replicate BSIZE 0\<rparr>]" by (rule demo_served)
  obtain m where "virtio_disk_intr m3 = Inr m" "calls m = map awake (calls m3)" "\<forall>c \<in> set (calls m). \<not> b_disk (vbufs m (c_b c))"
    using intr_all_done [OF m3(2-5)] by blast
  moreover from this(1) have "vreach simple_dev demo_boot m" using m3(1) by (blast intro: vreach.intros vintr)
  ultimately show thesis using that m3(6) by simp
qed

section \<open>Properties\<close>

text \<open>
  (C16) The driver panics only if a transfer failed: however many calls, interrupts and steps of the device interleave, no
  new call and no call that is woken up runs into a panic, a null pointer or an endless loop. The interrupt handler
  returns if every request in the used ring succeeded; if one of them failed it stops with the panic that the code has
  for this case, and with nothing else.
\<close>

theorem virtio_never_panics:
  assumes "virtio_dev dev" "vbooted m0" "vreach dev m0 m"
  shows "(\<forall>b wr. b \<notin> vbusy m \<longrightarrow> (\<forall>b' \<in> vbusy m. vsec m b' \<noteq> vsec m b) \<longrightarrow> (\<exists>m'. start_rw b wr m = Inr m')) \<and>
    (\<forall>k < length (waits m). \<exists>m'. start_rw (w_b (waits m ! k)) (w_write (waits m ! k))
       (m\<lparr>waits := take k (waits m) @ drop (Suc k) (waits m)\<rparr>) = Inr m') \<and>
    (\<forall>k < length (calls m). \<exists>m'. resume_rw k m = Inr m') \<and>
    (if \<forall>h \<in> set (usedq m). info_status (info m ! h) = 0 then \<exists>m'. virtio_disk_intr m = Inr m'
     else virtio_disk_intr m = Inl (Panic ''virtio_disk_intr status''))"
proof -
  have I: "vinv m" using vreach_vinv [OF assms(3,1)] vbooted_vinv [OF assms(2)] by blast
  have "if \<forall>h \<in> set (usedq m). info_status (info m ! h) = 0 then \<exists>m'. virtio_disk_intr m = Inr m'
      else virtio_disk_intr m = Inl (Panic ''virtio_disk_intr status'')"
    using intr_vinv [OF I] unfolding intr_result_def all_succeeded_def [symmetric] by (cases "all_succeeded m") auto
  moreover have "\<forall>b wr. b \<notin> vbusy m \<longrightarrow> (\<forall>b' \<in> vbusy m. vsec m b' \<noteq> vsec m b) \<longrightarrow> (\<exists>m'. start_rw b wr m = Inr m')"
    "\<forall>k < length (waits m). \<exists>m'. start_rw (w_b (waits m ! k)) (w_write (waits m ! k))
       (m\<lparr>waits := take k (waits m) @ drop (Suc k) (waits m)\<rparr>) = Inr m'"
    "\<forall>k < length (calls m). \<exists>m'. resume_rw k m = Inr m'"
    using start_rw_vinv [OF I] retry_vinv [OF I] resume_vinv [OF I] by blast+
  ultimately show ?thesis by (intro conjI)
qed

theorem virtio_never_panics_witness:
  "\<exists>m m'. vreach simple_dev demo_boot m \<and> length (calls m) = 1 \<and> (\<exists>m''. resume_rw 0 m = Inr m'') \<and> virtio_disk_intr m = Inr m'"
proof -
  obtain m where m: "vreach simple_dev demo_boot m" "vinv m" "availq m = []" "dev_work m = []" "all_succeeded m" "calls m = [\<lparr>c_b = 3, c_write = True, c_idx = [0, 1, 2],
    c_asleep = True, c_data = replicate BSIZE 7, c_block = replicate BSIZE 0\<rparr>]" by (rule demo_served)
  note V = virtio_never_panics [OF simple_dev_ok demo_booted m(1), unfolded if_P [OF m(5) [unfolded all_succeeded_def]], THEN conjunct2, THEN conjunct2]
  have "0 < length (calls m)" by (simp add: m(6))
  then have "\<exists>m'. resume_rw 0 m = Inr m'" "\<exists>m'. virtio_disk_intr m = Inr m'" using V by blast+
  moreover have "length (calls m) = 1" by (simp add: m(6))
  ultimately show ?thesis using m(1) by blast
qed

text \<open>
  (C5) The driver implements the disk that its clients see: when a call returns, its buffer and its
  block are what the operation \<open>disk_rw\<close> makes of the buffer and the block at the time of
  the request, whatever other calls, interrupts and the device did in the meantime and in whatever order the device
  served the requests; and its three descriptors are free again.
\<close>

theorem virtio_rw_implements_disk_rw:
  assumes "virtio_dev dev" "vbooted m0" "vreach dev m0 m" "k < length (calls m)" "c = calls m ! k" "\<not> b_disk (vbufs m (c_b c))"
    "c_b c < length (bufs s)" "b_blockno (bufs s ! c_b c) = b_blockno (vbufs m (c_b c))"
    "b_data (bufs s ! c_b c) = c_data c" "medium s (unat (b_blockno (vbufs m (c_b c)))) = c_block c"
  shows "\<exists>m'. resume_rw k m = Inr m' \<and> calls m' = take k (calls m) @ drop (Suc k) (calls m) \<and> (\<forall>i \<in> set (c_idx c). vfree m' ! i) \<and>
    b_data (vbufs m' (c_b c)) = b_data (bufs (disk_rw (c_b c) (c_write c) s) ! c_b c) \<and>
    block_at (vsec m (c_b c)) (sectors m') = medium (disk_rw (c_b c) (c_write c) s) (unat (b_blockno (vbufs m (c_b c))))"
proof -
  have I: "vinv m" using vreach_vinv [OF assms(3,1)] vbooted_vinv [OF assms(2)] by blast
  obtain m' where m': "resume_rw k m = Inr m'" "calls m' = take k (calls m) @ drop (Suc k) (calls m)" "vbufs m' = vbufs m"
    "sectors m' = sectors m" "\<forall>i \<in> set (c_idx c). vfree m' ! i"
    using finish_vinv [OF I assms(4)] assms(5,6) by blast
  have "vsec m' = vsec m" using m'(3) by (simp add: vsec_def fun_eq_iff)
  moreover have "done_ok m c" using vinvD(7) [OF I, of c] assms(4-6) by (simp add: call_data_def)
  ultimately show ?thesis using m' assms(7-10)
    by (intro exI [of _ m']) (auto simp: done_ok_def disk_rw_def upd_buf_def Let_def)
qed

theorem virtio_rw_implements_disk_rw_witness:
  "\<exists>m m'. vreach simple_dev demo_boot m \<and> resume_rw 0 m = Inr m' \<and> calls m' = [] \<and> vfree m' ! 0 \<and> b_data (vbufs m' 3) = replicate BSIZE 7 \<and>
     block_at (vsec m 3) (sectors m') = replicate BSIZE 7"
proof -
  obtain m where m: "vreach simple_dev demo_boot m" "calls m = [\<lparr>c_b = 3, c_write = True, c_idx = [0, 1, 2], c_asleep = False,
    c_data = replicate BSIZE 7, c_block = replicate BSIZE 0\<rparr>]" "\<not> b_disk (vbufs m 3)" by (rule demo_steps)
  define b where "b = (vbufs m 3)\<lparr>b_data := replicate BSIZE 7\<rparr>"
  define s :: dstate where "s = pstate.extend boot_pstate (dstate.fields [b, b, b, b] (\<lambda>_. replicate BSIZE 0) [])"
  have s: "bufs s = [b, b, b, b]" "medium s n = replicate BSIZE 0" for n by (simp_all add: s_def pstate.extend_def dstate.fields_def)
  have c: "0 < length (calls m)" "calls m ! 0 = calls m ! 0" "\<not> b_disk (vbufs m (c_b (calls m ! 0)))" "c_b (calls m ! 0) < length (bufs s)"
    "b_blockno (bufs s ! c_b (calls m ! 0)) = b_blockno (vbufs m (c_b (calls m ! 0)))" "b_data (bufs s ! c_b (calls m ! 0)) = c_data (calls m ! 0)"
    "medium s (unat (b_blockno (vbufs m (c_b (calls m ! 0))))) = c_block (calls m ! 0)" by (simp_all add: m(2,3) s b_def)
  obtain m' where r: "resume_rw 0 m = Inr m'" "calls m' = take 0 (calls m) @ drop (Suc 0) (calls m)" "\<forall>i \<in> set (c_idx (calls m ! 0)). vfree m' ! i"
    "b_data (vbufs m' (c_b (calls m ! 0))) = b_data (bufs (disk_rw (c_b (calls m ! 0)) (c_write (calls m ! 0)) s) ! c_b (calls m ! 0))"
    "block_at (vsec m (c_b (calls m ! 0))) (sectors m') =
      medium (disk_rw (c_b (calls m ! 0)) (c_write (calls m ! 0)) s) (unat (b_blockno (vbufs m (c_b (calls m ! 0)))))"
    using virtio_rw_implements_disk_rw [OF simple_dev_ok demo_booted m(1) c] by blast
  show ?thesis
    by (intro exI [of _ m] exI [of _ m']) (use r m(1) in \<open>simp add: m(2) disk_rw_def s b_def Let_def\<close>)
qed

text \<open>
  (C21) No wake-up is lost: a call that sleeps for its transfer has one outstanding, and a call that
  sleeps for descriptors has fewer than three to take. Once the device has served all requests, one
  interrupt is enough to leave every call awake and its transfer done, or, if the device reported a failure, to panic.
\<close>

theorem virtio_calls_complete:
  assumes "virtio_dev dev" "vbooted m0" "vreach dev m0 m"
  shows "(\<forall>c \<in> set (calls m). c_asleep c \<longrightarrow> b_disk (vbufs m (c_b c))) \<and>
    (\<forall>w \<in> set (waits m). w_asleep w \<longrightarrow> length (filter id (vfree m)) < 3 \<and> calls m \<noteq> []) \<and>
    (availq m = [] \<and> dev_work m = [] \<longrightarrow>
       (if \<forall>h \<in> set (usedq m). info_status (info m ! h) = 0
        then \<exists>m'. virtio_disk_intr m = Inr m' \<and> calls m' = map (\<lambda>c. c\<lparr>c_asleep := False\<rparr>) (calls m) \<and>
          (\<forall>c \<in> set (calls m'). \<not> b_disk (vbufs m' (c_b c)))
        else virtio_disk_intr m = Inl (Panic ''virtio_disk_intr status'')))"
proof -
  have I: "vinv m" using vreach_vinv [OF assms(3,1)] vbooted_vinv [OF assms(2)] by blast
  have "if all_succeeded m then \<exists>m'. virtio_disk_intr m = Inr m' \<and> calls m' = map awake (calls m) \<and> (\<forall>c \<in> set (calls m'). \<not> b_disk (vbufs m' (c_b c)))
      else virtio_disk_intr m = Inl (Panic ''virtio_disk_intr status'')" if "availq m = []" "dev_work m = []"
  proof (cases "all_succeeded m")
    case True
    then show ?thesis unfolding if_P [OF True] using intr_all_done [OF I that] by blast
  next
    case False
    then show ?thesis using intr_vinv [OF I] by (simp add: intr_result_def)
  qed
  moreover have "calls m \<noteq> []" if "length (filter id (vfree m)) < 3"
  proof
    assume "calls m = []"
    then have "\<forall>i < NUM. vfree m ! i" "length (vfree m) = NUM" using vinvD(1,2) [OF I] by (auto simp: descs_ok_def owned_def shape_def)
    then have "filter id (vfree m) = vfree m" by (metis filter_True id_apply in_set_conv_nth)
    then show False using that \<open>length (vfree m) = NUM\<close> by simp
  qed
  moreover have "\<forall>c \<in> set (calls m). c_asleep c \<longrightarrow> b_disk (vbufs m (c_b c))"
    "\<forall>w \<in> set (waits m). w_asleep w \<longrightarrow> length (filter id (vfree m)) < 3" using vinvD(5) [OF I] by (simp_all add: no_lost_wakeup_def)
  ultimately show ?thesis unfolding all_succeeded_def [symmetric] by blast
qed

theorem virtio_calls_complete_witness:
  "\<exists>m m'. vreach simple_dev demo_boot m \<and> c_asleep (calls m ! 0) \<and> b_disk (vbufs m 3) \<and> virtio_disk_intr m = Inr m' \<and>
     \<not> c_asleep (calls m' ! 0) \<and> \<not> b_disk (vbufs m' 3)"
proof -
  obtain m where m: "vreach simple_dev demo_boot m" "vinv m" "availq m = []" "dev_work m = []" "all_succeeded m" "calls m = [\<lparr>c_b = 3, c_write = True, c_idx = [0, 1, 2],
    c_asleep = True, c_data = replicate BSIZE 7, c_block = replicate BSIZE 0\<rparr>]" by (rule demo_served)
  obtain m' where "virtio_disk_intr m = Inr m'" "calls m' = map awake (calls m)" "\<forall>c \<in> set (calls m'). \<not> b_disk (vbufs m' (c_b c))" "b_disk (vbufs m 3)"
    using virtio_calls_complete [OF simple_dev_ok demo_booted m(1), unfolded if_P [OF m(5) [unfolded all_succeeded_def]]] m(3,4,6) by auto
  then show ?thesis using m(1,6) by (intro exI [of _ m] exI [of _ m']) simp
qed

end
