(* ===== verification/Spec2Isabelle.thy ===== *)
theory Spec2Isabelle
  imports Prelude Proc Spinlock Ring Pipe Bytes Disk Bio Bcache DiskSched Raid RaidRedundant Log LogCrash LogReserve CString Printf Grep Console Kalloc PageMem KallocSpec Evict AllocSys Vm PageTable VmSpec UserCopy Paging Trap Frames VmFrame Fs FsTxn FsBitmap FsInode FsTable FsData Shell Virtio
begin

text \<open>
  Verification of an xv6 kernel for RISC-V that was extended with a multi-level feedback scheduler, page
  replacement, and a disk-backed swap area with RAID layouts (\<^verbatim>\<open>src/cs3523-xv6-26-m\<close>). File names below are relative to
  \<^verbatim>\<open>kernel/\<close> there, or to \<^verbatim>\<open>user/\<close> where said so.

  \<^bold>\<open>The program and its model.\<close> Processes run under the scheduler, take page faults and make system calls; these use the file
  system and the page tables; both get blocks from the buffer cache, which calls the disk driver; the page allocator evicts pages to the swap area
  through the queue of the disk scheduler, which uses the same cache. The model follows this order. Operations are functions on a
  state that grows with the layers: \<open>pstate\<close> (memory, processes, harts), \<open>dstate\<close> (buffers, medium), \<open>qstate\<close> (disk queue,
  RAID), \<open>lstate\<close> (log), \<open>kstate\<close> (free list, frames, swap slots), \<open>vstate\<close> (kernel page table), \<open>fstate\<close> (super block, inode
  table). Each is a record that extends the one before, and an operation is polymorphic in what extends its own
  state, so it can be used unchanged by the layers above. Physical memory is one function from 64-bit addresses to
  bytes; page tables, the free list and user pages live in it, so aliasing between them is part of the model. A pointer
  to an element of a static table is its index. A result \<open>Inl\<close> is a panic with its message, a call that goes to sleep, an endless loop,
  or behaviour that C leaves undefined; everything else is \<open>Inr\<close>. What the code does between \<^verbatim>\<open>acquire\<close> and \<^verbatim>\<open>release\<close> of a
  spin lock is one step; sleep locks are kept. Words have their C width.

  \<^bold>\<open>Foundations.\<close>
  \<^item> \<open>Prelude\<close>: types, results, memory, shared lemmas. \<open>Bytes\<close>: little-endian fields in blocks. \<open>Frames\<close>: a small calculus (\<open>pres_rules\<close>) for
    what an operation leaves alone, used by \<open>VmFrame\<close> and \<open>FsTable\<close>. \<open>Ring\<close>: ring buffers with wrapping counters (locale \<open>ring\<close>,
    interpreted for the pipe, the console and the two rings of the disk) and byte streams (locale \<open>fifo\<close>).

  \<^bold>\<open>Processes and synchronisation.\<close>
  \<^item> \<open>Proc\<close> (\<^verbatim>\<open>proc.c\<close>, \<^verbatim>\<open>trap.c\<close>: \<^verbatim>\<open>clockintr\<close>): accounting, demotion and boost of the feedback queue, the scheduler, sleep, wakeup, kill. A round of the scheduler
    gives the CPU to exactly the processes that are runnable at the best non-empty level when their turn comes; demotion happens exactly under the documented condition; a process that makes no
    system calls sinks to level 3 between two boosts; every runnable process is back at level 0 within 128 ticks.
  \<^item> \<open>Spinlock\<close> (\<^verbatim>\<open>spinlock.c\<close>, \<^verbatim>\<open>sleeplock.c\<close>): mutual exclusion over all interleavings of the instructions of the harts, interrupt nesting;
    the only panic is that of a hart that acquires a lock it has.

  \<^bold>\<open>Disk.\<close>
  \<^item> \<open>Virtio\<close> (\<^verbatim>\<open>virtio_disk.c\<close>, first half): the driver as a transition system of concurrent calls, interrupts and a device that is an argument
    constrained by the virtio specification, which may report failures. The driver panics exactly if the interrupt handler finds a failed request, loses no wake-up, and implements the transfer that \<open>Disk\<close> assumes.
  \<^item> \<open>Disk\<close>, \<open>Bio\<close>, \<open>Bcache\<close> (\<^verbatim>\<open>bio.c\<close>): the buffer cache; a read returns the current contents of the block, the recycled buffer is the
    least recently used free one.
  \<^item> \<open>DiskSched\<close>, \<open>Raid\<close>, \<open>RaidRedundant\<close> (\<^verbatim>\<open>virtio_disk.c\<close>, second half): the request queue with both policies executes every request once;
    a page swapped out under RAID 0 comes back unchanged; under RAID 1 and RAID 5 block 0 of a page is overwritten, which is proved as the behaviour of the code.
  \<^item> \<open>Log\<close>, \<open>LogCrash\<close>, \<open>LogReserve\<close> (\<^verbatim>\<open>log.c\<close>): a crash after any number of block writes of a commit leaves all of the transaction or none of it
    after recovery; the log never overflows.

  \<^bold>\<open>Memory.\<close>
  \<^item> \<open>Kalloc\<close>, \<open>PageMem\<close>, \<open>KallocSpec\<close>, \<open>Evict\<close>, \<open>AllocSys\<close> (\<^verbatim>\<open>kalloc.c\<close>): eviction is the clock algorithm
    with second chance and ends within two sweeps; \<open>AllocSys\<close> is the transition system of allocating, also by eviction, freeing and using pages, in which no page is handed
    out twice.
  \<^item> \<open>Vm\<close>, \<open>PageTable\<close>, \<open>VmSpec\<close>, \<open>UserCopy\<close>, \<open>VmFrame\<close> (\<^verbatim>\<open>vm.c\<close>): a page table implements a map from pages to entries, and \<open>mappages\<close> updates exactly its range
    in it; \<open>copyout\<close> and \<open>copyin\<close> are inverse, across page boundaries.
  \<^item> \<open>Paging\<close>, \<open>Trap\<close> (\<^verbatim>\<open>vm.c\<close>: \<^verbatim>\<open>walkaddr\<close>; \<^verbatim>\<open>trap.c\<close>: page faults): an evicted page comes back with its contents and permissions, for the kernel and for the
    program; a fault above \<open>MAXVA\<close> panics.

  \<^bold>\<open>File system\<close> (\<^verbatim>\<open>fs.c\<close>).
  \<^item> \<open>Fs\<close>: all operations. \<open>FsTxn\<close>: what a system call may assume of the log and the cache. \<open>FsBitmap\<close>: block allocation is first-fit and undone by
    \<open>bfree\<close>. \<open>FsInode\<close>: inodes survive the way to disk and back. \<open>FsTable\<close>: the inode table stays well formed under every sequence of operations. \<open>FsData\<close>: a
    write to a file is read back, and changes nothing else of the file.

  \<^bold>\<open>Other parts.\<close>
  \<^item> \<open>Pipe\<close> (\<^verbatim>\<open>pipe.c\<close>): the reader gets the bytes of the writer, in order, for every interleaving. \<open>Console\<close> (\<^verbatim>\<open>console.c\<close>, \<^verbatim>\<open>uart.c\<close>): input refines a line discipline,
    and a read returns the next line or sleeps if there is none.
  \<^item> \<open>CString\<close> (\<^verbatim>\<open>string.c\<close>, \<^verbatim>\<open>user/ulib.c\<close>), \<open>Printf\<close> (\<^verbatim>\<open>printf.c\<close>, \<^verbatim>\<open>user/printf.c\<close>): overlapping moves, the printed numerals, agreement of
    the two implementations of \<^verbatim>\<open>printf\<close> on the bytes that reach the screen, and what \<^verbatim>\<open>atoi\<close> reads back.
  \<^item> \<open>Grep\<close> (\<^verbatim>\<open>user/grep.c\<close>): the matcher decides the usual meaning of its patterns, and the matching lines are printed up to the first that does not fit into the buffer of 1024 bytes. \<open>Shell\<close> (\<^verbatim>\<open>user/sh.c\<close>): the parser always
    returns, and the words of a command are still intact after the string is cut up.

  \<^bold>\<open>Fuel and bounds.\<close> A loop without a structural measure has fuel, and running out of it is the error \<open>Diverges\<close>. It never does where a theorem says so: the rounds of
  \<open>readi\<close> and \<open>writei\<close> move at least one byte each; \<open>free_chain\<close> frees a descriptor per round and there are eight; an interrupt finds at most eight
  entries in the used ring; the disk queue has \<open>NDISKREQS\<close> entries; two sweeps of the clock hand (\<open>EVICTFUEL\<close> is 1025 for 512 frames) clear every reference bit; the
  parser of the shell consumes a byte per level. The eviction loop of the code has no bound, and diverges if no page can be evicted.

  \<^bold>\<open>Assumptions.\<close> Hypotheses of theorems are invariants of the layers below, such as room in the log for the blocks of a call (\<open>in_call\<close>), a quiet swap layer
  (\<open>swap_ready\<close>), a well-formed address space (\<open>vm_ok\<close>); each has an example state that satisfies it. The device of \<open>Virtio\<close> serves requests, or reports that they failed,
  as the specification says; from \<open>Disk\<close> on, transfers succeed. A C \<^verbatim>\<open>int\<close> that only counts (the counters of a process, the references of an inode or buffer) is an integer, so that its overflow,
  which C leaves undefined, does not occur, except in \<open>Proc\<close>, where the invariant includes the range.

  \<^bold>\<open>Not modelled.\<close> The context switch, the trampoline and boot code are assembly or set machine registers; the order of initialisation is in \<^verbatim>\<open>main.c\<close> only. Process
  creation, exit and wait, file descriptors, \<^verbatim>\<open>exec.c\<close> and the system call table glue together operations that are modelled here; they need the
  state of all layers at once and have no theorem yet. Parallel execution inside a critical section is not modelled
  except in \<open>Spinlock\<close> and \<open>Virtio\<close>; a few operations that release a spin lock on the way are one step as well: \<open>global_boost\<close>, \<open>wakeup\<close> and the first pass of the scheduler, which lock one process after the
  other, and \<open>iput\<close>, which gives up the lock of the table while it frees the inode. A call of the lower layers that goes to sleep gives the result \<open>Inl\<close> without the state in which
  it sleeps (\<open>bget\<close> has counted its reference by then); where waiting is the subject, in \<open>Pipe\<close>, \<open>Console\<close> and \<open>Virtio\<close>, the state is kept. Control-P of the console prints the process list, which is left out; TLB flushes and memory fences have no effect in the model. Output to the screen is modelled for \<^verbatim>\<open>printf\<close> and the console only.
  User programs other than the shell, \<^verbatim>\<open>grep\<close> and the library are sequences of system calls. The directories \<^verbatim>\<open>PA1\<close> to \<^verbatim>\<open>PA4\<close> hold earlier versions of the same files.
\<close>

end
